(* ===== verification/Prelude.thy ===== *)
theory Prelude
  imports Main "HOL-Library.Word" "HOL-Library.Multiset"
begin

text \<open>
  Shared vocabulary of the development: the errors of the C++ code as values of a sum type,
  the loops that stop at the first error, the \<^verbatim>\<open>std::list\<close> operations the library uses
  (\<^verbatim>\<open>erase(find(..))\<close>, replacement through an iterator, \<^verbatim>\<open>std::is_permutation\<close>), and the
  generic facts on lists and relations that the component theories rest on.
\<close>

named_theorems result_simps \<open>unfolding of the error monad\<close>

subsection \<open>Errors as values\<close>

text \<open>
  \<open>Assertion_failed\<close> is a failing \<^verbatim>\<open>assert\<close> (the model is the build with assertions on),
  \<open>Aborted\<close> is a call of \<^verbatim>\<open>abort()\<close>, \<open>Undefined_behaviour\<close> stands for what C++ leaves
  undefined (erasing \<^verbatim>\<open>end()\<close>, reading a union member that is not the active one,
  a null dereference). \<open>Diverges\<close> is the answer of a loop of the model whose fuel ran out, for
  the loops of the source that do not end on every input; each such loop has a lemma that its
  fuel is enough on the inputs the library builds.
\<close>

datatype cg_error = Assertion_failed | Aborted | Undefined_behaviour | Diverges

type_synonym 'a result = "cg_error + 'a"

definition bind_result :: "'a result \<Rightarrow> ('a \<Rightarrow> 'b result) \<Rightarrow> 'b result" where
  "bind_result m f = (case m of Inl e \<Rightarrow> Inl e | Inr x \<Rightarrow> f x)"

definition assert_that :: "bool \<Rightarrow> 'a result \<Rightarrow> 'a result" where
  "assert_that b m = (if b then m else Inl Assertion_failed)"

text \<open>A \<^verbatim>\<open>for\<close> loop whose body may fail: the first error stops it.\<close>

fun for_each :: "('a \<Rightarrow> 's \<Rightarrow> 's result) \<Rightarrow> 'a list \<Rightarrow> 's \<Rightarrow> 's result" where
  "for_each f [] s = Inr s"
| "for_each f (x # xs) s = bind_result (f x s) (for_each f xs)"

lemma bind_result_simps [simp, result_simps]:
  "bind_result (Inl e) f = Inl e"
  "bind_result (Inr x) f = f x"
  by (simp_all add: bind_result_def)

lemma bind_result_eq_Inr:
  "bind_result m f = Inr y \<longleftrightarrow> (\<exists>x. m = Inr x \<and> f x = Inr y)"
  by (cases m) simp_all

lemma bind_result_assoc:
  "bind_result (bind_result m f) g = bind_result m (\<lambda>x. bind_result (f x) g)"
  by (cases m) simp_all

lemma bind_result_cong [cong, fundef_cong]:
  "m = m' \<Longrightarrow> (\<And>x. m' = Inr x \<Longrightarrow> f x = g x) \<Longrightarrow> bind_result m f = bind_result m' g"
  by (cases m') simp_all

lemma assert_that_True [simp, result_simps]: "b \<Longrightarrow> assert_that b m = m"
  by (simp add: assert_that_def)

lemma assert_that_eq_Inr: "assert_that b m = Inr y \<longleftrightarrow> b \<and> m = Inr y"
  by (simp add: assert_that_def)

lemma for_each_append:
  "for_each f (xs @ ys) s = bind_result (for_each f xs s) (for_each f ys)"
  by (induction xs arbitrary: s) (simp_all add: bind_result_assoc)

lemma for_each_filter:
  "for_each (\<lambda>x s. if P x then f x s else Inr s) xs s = for_each f (filter P xs) s"
  by (induction xs arbitrary: s) simp_all

lemma for_each_map: "for_each f (map g xs) s = for_each (\<lambda>x. f (g x)) xs s"
  by (induction xs arbitrary: s) simp_all

lemma for_each_concat: "for_each f (concat xss) s = for_each (for_each f) xss s"
  by (induction xss arbitrary: s) (simp_all add: for_each_append)

lemma for_each_cong:
  assumes "\<And>x s. x \<in> set xs \<Longrightarrow> f x s = g x s"
  shows "for_each f xs s = for_each g xs s"
  using assms by (induction xs arbitrary: s) auto

text \<open>A loop whose body never fails on the states an invariant describes is a plain fold.\<close>

lemma for_each_eq_fold:
  assumes "\<And>x s. x \<in> set xs \<Longrightarrow> I s \<Longrightarrow> f x s = Inr (g x s) \<and> I (g x s)" and "I s"
  shows "for_each f xs s = Inr (fold g xs s) \<and> I (fold g xs s)"
  using assms by (induction xs arbitrary: s) auto

text \<open>Invariant rule for loops over a suffix of a list: \<open>I k s\<close> speaks of the first \<open>k\<close> steps.\<close>

lemma for_each_invariant:
  assumes "I 0 s"
    and "\<And>k s. k < length xs \<Longrightarrow> I k s \<Longrightarrow> \<exists>s'. f (xs ! k) s = Inr s' \<and> I (Suc k) s'"
  shows "\<exists>s'. for_each f xs s = Inr s' \<and> I (length xs) s'"
  using assms
proof (induction xs arbitrary: s I)
  case Nil
  then show ?case by simp
next
  case (Cons x xs)
  from Cons.prems(2) [of 0 s] Cons.prems(1) obtain s1
    where s1: "f x s = Inr s1" "I 1 s1" by auto
  have "\<exists>s'. for_each f xs s1 = Inr s' \<and> I (Suc (length xs)) s'"
  proof (rule Cons.IH [where I = "\<lambda>k. I (Suc k)"])
    show "I (Suc 0) s1" using s1 by simp
  next
    fix k t
    assume "k < length xs" and "I (Suc k) t"
    then show "\<exists>s'. f (xs ! k) t = Inr s' \<and> I (Suc (Suc k)) s'"
      using Cons.prems(2) [of "Suc k" t] by simp
  qed
  with s1 show ?case by simp
qed

subsection \<open>Numbers in names\<close>

text \<open>\<^verbatim>\<open>std::to_string\<close> of an unsigned number.\<close>

definition digit :: "nat \<Rightarrow> char" where
  "digit d = char_of (48 + d)"

fun decimal :: "nat \<Rightarrow> string" where
  "decimal n = (if n < 10 then [digit n] else decimal (n div 10) @ [digit (n mod 10)])"

declare decimal.simps [simp del]

subsection \<open>The list operations of the library\<close>

text \<open>
  \<^verbatim>\<open>l.erase(std::find(l.begin(), l.end(), x))\<close> removes the first occurrence of \<open>x\<close>; when
  there is none it erases \<^verbatim>\<open>end()\<close>, which is undefined.
\<close>

definition erase_find :: "'a \<Rightarrow> 'a list \<Rightarrow> 'a list result" where
  "erase_find x xs = (if x \<in> set xs then Inr (remove1 x xs) else Inl Undefined_behaviour)"

text \<open>\<^verbatim>\<open>*it = y\<close> with \<^verbatim>\<open>it = std::find(.., x)\<close>: the first occurrence of \<open>x\<close> becomes \<open>y\<close>.\<close>

fun replace_first :: "'a \<Rightarrow> 'a \<Rightarrow> 'a list \<Rightarrow> 'a list" where
  "replace_first x y [] = []"
| "replace_first x y (z # zs) = (if z = x then y # zs else z # replace_first x y zs)"

definition assign_found :: "'a \<Rightarrow> 'a \<Rightarrow> 'a list \<Rightarrow> 'a list result" where
  "assign_found x y xs = (if x \<in> set xs then Inr (replace_first x y xs) else Inl Undefined_behaviour)"

definition is_permutation :: "'a list \<Rightarrow> 'a list \<Rightarrow> bool" where
  "is_permutation xs ys \<longleftrightarrow> mset xs = mset ys"

lemma erase_find_Inr: "x \<in> set xs \<Longrightarrow> erase_find x xs = Inr (remove1 x xs)"
  by (simp add: erase_find_def)

lemma assign_found_Inr: "x \<in> set xs \<Longrightarrow> assign_found x y xs = Inr (replace_first x y xs)"
  by (simp add: assign_found_def)

lemma length_replace_first [simp]: "length (replace_first x y xs) = length xs"
  by (induction xs) auto

lemma replace_first_notin [simp]: "x \<notin> set xs \<Longrightarrow> replace_first x y xs = xs"
  by (induction xs) auto

lemma set_replace_first:
  "distinct xs \<Longrightarrow> x \<in> set xs \<Longrightarrow> set (replace_first x y xs) = insert y (set xs - {x})"
  by (induction xs) auto

lemma distinct_replace_first:
  "distinct xs \<Longrightarrow> y \<notin> set xs \<Longrightarrow> distinct (replace_first x y xs)"
proof (induction xs)
  case Nil
  then show ?case by simp
next
  case (Cons z zs)
  show ?case
  proof (cases "z = x")
    case True
    with Cons.prems show ?thesis by auto
  next
    case False
    have "z \<notin> set (replace_first x y zs)"
    proof (cases "x \<in> set zs")
      case True
      with Cons.prems show ?thesis by (auto simp: set_replace_first)
    next
      case False
      with Cons.prems show ?thesis by simp
    qed
    with False Cons show ?thesis by simp
  qed
qed

lemma set_remove1_distinct [simp]: "distinct xs \<Longrightarrow> set (remove1 x xs) = set xs - {x}"
  by (rule set_remove1_eq)

lemma count_list_distinct: "distinct xs \<Longrightarrow> x \<in> set xs \<Longrightarrow> count_list xs x = 1"
  by (induction xs) (auto simp: count_list_0_iff)

lemma is_permutation_set: "is_permutation xs ys \<Longrightarrow> set xs = set ys"
  unfolding is_permutation_def by (rule mset_eq_setD)

lemma is_permutation_length: "is_permutation xs ys \<Longrightarrow> length xs = length ys"
  unfolding is_permutation_def by (rule mset_eq_length)

lemma is_permutation_distinct:
  "distinct xs \<Longrightarrow> distinct ys \<Longrightarrow> is_permutation xs ys \<longleftrightarrow> set xs = set ys"
  unfolding is_permutation_def by (rule set_eq_iff_mset_eq_distinct [symmetric])

subsection \<open>Counting the elements that satisfy a predicate\<close>

definition unmarked :: "'b \<Rightarrow> 'b list \<Rightarrow> nat" where
  "unmarked m w = length (filter (\<lambda>x. x \<noteq> m) w)"

lemma unmarked_update:
  "i < length w \<Longrightarrow> w ! i \<noteq> m \<Longrightarrow> unmarked m (w[i := m]) < unmarked m w"
proof (induction w arbitrary: i)
  case Nil
  then show ?case by simp
next
  case (Cons x w)
  then show ?case
    by (cases i) (auto simp: unmarked_def)
qed

lemma unmarked_update_le: "unmarked m (w[i := m]) \<le> unmarked m w"
proof (cases "i < length w \<and> w ! i \<noteq> m")
  case True
  then show ?thesis using unmarked_update [of i w m] by simp
next
  case False
  then have "w[i := m] = w"
    by (metis list_update_beyond list_update_id not_le_imp_less)
  then show ?thesis by simp
qed

end
