(* ===== verification/Command_Types.thy ===== *)
theory Command_Types
  imports Prelude
begin

text \<open>
  The enumerations of the library and the tables generated from them:
  \<^verbatim>\<open>include/cgir/command-type.hpp\<close> (the command types and their names),
  \<^verbatim>\<open>include/cgir/command-graph-pass.hpp\<close> (the optimization passes, their canonical
  order, names, bits and sets) and the enumerations of
  \<^verbatim>\<open>include/cgir/command-graph.hpp\<close>. The set-based \<^verbatim>\<open>optimize\<close> loop is
  \<open>optimize_set\<close>, over any function that runs one pass.
\<close>

unbundle bit_operations_syntax

subsection \<open>Command types\<close>

datatype command_type =
    COMMAND_TYPE_PROG
  | COMMAND_TYPE_COPY_H2H_1D
  | COMMAND_TYPE_COPY_H2D_1D
  | COMMAND_TYPE_COPY_D2H_1D
  | COMMAND_TYPE_COPY_D2D_1D
  | COMMAND_TYPE_COPY_H2H_2D
  | COMMAND_TYPE_COPY_H2D_2D
  | COMMAND_TYPE_COPY_D2H_2D
  | COMMAND_TYPE_COPY_D2D_2D
  | COMMAND_TYPE_FD_READ
  | COMMAND_TYPE_FD_WRITE
  | COMMAND_TYPE_BATCH
  | COMMAND_TYPE_CTRL_LOOP
  | COMMAND_TYPE_CTRL_DEMUX
  | COMMAND_TYPE_MAX

fun command_type_to_str :: "command_type \<Rightarrow> string" where
  "command_type_to_str COMMAND_TYPE_PROG = ''PROG''"
| "command_type_to_str COMMAND_TYPE_COPY_H2H_1D = ''COPY-1D-H2H''"
| "command_type_to_str COMMAND_TYPE_COPY_H2D_1D = ''COPY-1D-H2D''"
| "command_type_to_str COMMAND_TYPE_COPY_D2H_1D = ''COPY-1D-D2H''"
| "command_type_to_str COMMAND_TYPE_COPY_D2D_1D = ''COPY-1D-D2D''"
| "command_type_to_str COMMAND_TYPE_COPY_H2H_2D = ''COPY-2D-H2H''"
| "command_type_to_str COMMAND_TYPE_COPY_H2D_2D = ''COPY-2D-H2D''"
| "command_type_to_str COMMAND_TYPE_COPY_D2H_2D = ''COPY-2D-D2H''"
| "command_type_to_str COMMAND_TYPE_COPY_D2D_2D = ''COPY-2D-D2D''"
| "command_type_to_str COMMAND_TYPE_FD_READ = ''FD-READ''"
| "command_type_to_str COMMAND_TYPE_FD_WRITE = ''FD-WRITE''"
| "command_type_to_str COMMAND_TYPE_BATCH = ''BATCH''"
| "command_type_to_str COMMAND_TYPE_CTRL_LOOP = ''CTRL-LOOP''"
| "command_type_to_str COMMAND_TYPE_CTRL_DEMUX = ''CTRL-DEMUX''"
| "command_type_to_str COMMAND_TYPE_MAX = ''(null)''"

text \<open>The \<^verbatim>\<open>case\<close> groups that the passes switch on.\<close>

fun is_copy_1D_type :: "command_type \<Rightarrow> bool" where
  "is_copy_1D_type COMMAND_TYPE_COPY_H2H_1D = True"
| "is_copy_1D_type COMMAND_TYPE_COPY_H2D_1D = True"
| "is_copy_1D_type COMMAND_TYPE_COPY_D2H_1D = True"
| "is_copy_1D_type COMMAND_TYPE_COPY_D2D_1D = True"
| "is_copy_1D_type _ = False"

fun is_copy_2D_type :: "command_type \<Rightarrow> bool" where
  "is_copy_2D_type COMMAND_TYPE_COPY_H2H_2D = True"
| "is_copy_2D_type COMMAND_TYPE_COPY_H2D_2D = True"
| "is_copy_2D_type COMMAND_TYPE_COPY_D2H_2D = True"
| "is_copy_2D_type COMMAND_TYPE_COPY_D2D_2D = True"
| "is_copy_2D_type _ = False"

lemma copy_types_disjoint: "is_copy_1D_type t \<Longrightarrow> \<not> is_copy_2D_type t"
  by (cases t) simp_all

lemma command_type_to_str_inj: "command_type_to_str s = command_type_to_str t \<Longrightarrow> s = t"
  by (cases s; cases t) simp_all

subsection \<open>Enumerations of the graph\<close>

datatype node_type =
    COMMAND_GRAPH_NODE_TYPE_EMPTY
  | COMMAND_GRAPH_NODE_TYPE_COMMAND
  | COMMAND_GRAPH_NODE_TYPE_COMMAND_GRAPH
  | COMMAND_GRAPH_NODE_TYPE_CONDITION

datatype walk_search = COMMAND_GRAPH_WALK_SEARCH_DFS | COMMAND_GRAPH_WALK_SEARCH_BFS

datatype walk_order = COMMAND_GRAPH_WALK_ORDER_PRE | COMMAND_GRAPH_WALK_ORDER_POST

subsection \<open>Passes, in their canonical order\<close>

datatype command_graph_pass =
    COMMAND_GRAPH_PASS_COPY_NORMALIZE
  | COMMAND_GRAPH_PASS_COPY_FUSE
  | COMMAND_GRAPH_PASS_REDUCE_NODE
  | COMMAND_GRAPH_PASS_REDUCE_EDGE
  | COMMAND_GRAPH_PASS_PROG_FUSE
  | COMMAND_GRAPH_PASS_JIT
  | COMMAND_GRAPH_PASS_SEQUENCE
  | COMMAND_GRAPH_PASS_BATCH
  | COMMAND_GRAPH_PASS_MAX

definition all_passes :: "command_graph_pass list" where
  "all_passes =
     [COMMAND_GRAPH_PASS_COPY_NORMALIZE, COMMAND_GRAPH_PASS_COPY_FUSE,
      COMMAND_GRAPH_PASS_REDUCE_NODE, COMMAND_GRAPH_PASS_REDUCE_EDGE,
      COMMAND_GRAPH_PASS_PROG_FUSE, COMMAND_GRAPH_PASS_JIT,
      COMMAND_GRAPH_PASS_SEQUENCE, COMMAND_GRAPH_PASS_BATCH]"

text \<open>The value of an enumerator, and the cast \<^verbatim>\<open>(command_graph_pass_t) p\<close> back.\<close>

fun pass_value :: "command_graph_pass \<Rightarrow> nat" where
  "pass_value COMMAND_GRAPH_PASS_COPY_NORMALIZE = 0"
| "pass_value COMMAND_GRAPH_PASS_COPY_FUSE = 1"
| "pass_value COMMAND_GRAPH_PASS_REDUCE_NODE = 2"
| "pass_value COMMAND_GRAPH_PASS_REDUCE_EDGE = 3"
| "pass_value COMMAND_GRAPH_PASS_PROG_FUSE = 4"
| "pass_value COMMAND_GRAPH_PASS_JIT = 5"
| "pass_value COMMAND_GRAPH_PASS_SEQUENCE = 6"
| "pass_value COMMAND_GRAPH_PASS_BATCH = 7"
| "pass_value COMMAND_GRAPH_PASS_MAX = 8"

definition pass_of_value :: "nat \<Rightarrow> command_graph_pass" where
  "pass_of_value p = (if p < length all_passes then all_passes ! p else COMMAND_GRAPH_PASS_MAX)"

instantiation command_graph_pass :: linorder
begin

definition less_eq_command_graph_pass :: "command_graph_pass \<Rightarrow> command_graph_pass \<Rightarrow> bool" where
  "less_eq_command_graph_pass p q \<longleftrightarrow> pass_value p \<le> pass_value q"

definition less_command_graph_pass :: "command_graph_pass \<Rightarrow> command_graph_pass \<Rightarrow> bool" where
  "less_command_graph_pass p q \<longleftrightarrow> pass_value p < pass_value q"

instance
proof
  fix p q :: command_graph_pass
  show "p \<le> q \<Longrightarrow> q \<le> p \<Longrightarrow> p = q"
    by (cases p; cases q) (simp_all add: less_eq_command_graph_pass_def)
qed (auto simp: less_eq_command_graph_pass_def less_command_graph_pass_def)

end

fun command_graph_pass_to_str :: "command_graph_pass \<Rightarrow> string" where
  "command_graph_pass_to_str COMMAND_GRAPH_PASS_COPY_NORMALIZE = ''copy-normalize''"
| "command_graph_pass_to_str COMMAND_GRAPH_PASS_COPY_FUSE = ''copy-fuse''"
| "command_graph_pass_to_str COMMAND_GRAPH_PASS_REDUCE_NODE = ''reduce-node''"
| "command_graph_pass_to_str COMMAND_GRAPH_PASS_REDUCE_EDGE = ''reduce-edge''"
| "command_graph_pass_to_str COMMAND_GRAPH_PASS_PROG_FUSE = ''prog-fuse''"
| "command_graph_pass_to_str COMMAND_GRAPH_PASS_JIT = ''jit''"
| "command_graph_pass_to_str COMMAND_GRAPH_PASS_SEQUENCE = ''sequence''"
| "command_graph_pass_to_str COMMAND_GRAPH_PASS_BATCH = ''batch''"
| "command_graph_pass_to_str COMMAND_GRAPH_PASS_MAX = ''(null)''"

text \<open>The chain of \<^verbatim>\<open>strcmp\<close> tests, in declaration order.\<close>

definition command_graph_pass_from_str :: "string \<Rightarrow> command_graph_pass" where
  "command_graph_pass_from_str s =
     (if s = ''copy-normalize'' then COMMAND_GRAPH_PASS_COPY_NORMALIZE
      else if s = ''copy-fuse'' then COMMAND_GRAPH_PASS_COPY_FUSE
      else if s = ''reduce-node'' then COMMAND_GRAPH_PASS_REDUCE_NODE
      else if s = ''reduce-edge'' then COMMAND_GRAPH_PASS_REDUCE_EDGE
      else if s = ''prog-fuse'' then COMMAND_GRAPH_PASS_PROG_FUSE
      else if s = ''jit'' then COMMAND_GRAPH_PASS_JIT
      else if s = ''sequence'' then COMMAND_GRAPH_PASS_SEQUENCE
      else if s = ''batch'' then COMMAND_GRAPH_PASS_BATCH
      else COMMAND_GRAPH_PASS_MAX)"

definition command_graph_pass_names :: string where
  "command_graph_pass_names =
     concat (map (\<lambda>p. command_graph_pass_to_str p @ '', '') all_passes)"

type_synonym pass_set = "64 word"

definition command_graph_pass_bit :: "command_graph_pass \<Rightarrow> pass_set" where
  "command_graph_pass_bit p = push_bit (pass_value p) 1"

text \<open>
  \<^verbatim>\<open>command_graph_t::optimize(command_graph_pass_set_t)\<close>: \<open>p\<close> runs from 0 below
  \<^verbatim>\<open>COMMAND_GRAPH_PASS_MAX\<close>, and a pass whose bit is set is run. \<open>run\<close> stands for
  \<^verbatim>\<open>command_graph_optimize\<close> (theory Dispatch gives it).
\<close>

definition optimize_set ::
  "(command_graph_pass \<Rightarrow> 's \<Rightarrow> 's result) \<Rightarrow> pass_set \<Rightarrow> 's \<Rightarrow> 's result" where
  "optimize_set run passes s =
     for_each
       (\<lambda>p s. if passes AND command_graph_pass_bit (pass_of_value p) \<noteq> 0
              then run (pass_of_value p) s else Inr s)
       [0..<pass_value COMMAND_GRAPH_PASS_MAX] s"

text \<open>Building a set by OR-ing the per-pass bits, in any order.\<close>

definition pass_set_of :: "command_graph_pass list \<Rightarrow> pass_set" where
  "pass_set_of ps = fold (\<lambda>p acc. acc OR command_graph_pass_bit p) ps 0"

subsection \<open>Facts on passes\<close>

lemma all_passes_complete: "p \<in> set all_passes \<longleftrightarrow> p \<noteq> COMMAND_GRAPH_PASS_MAX"
  by (cases p) (simp_all add: all_passes_def)

lemma pass_of_value_pass_value: "pass_of_value (pass_value p) = p"
  by (cases p) (simp_all add: pass_of_value_def all_passes_def)

lemma pass_value_inj: "pass_value p = pass_value q \<longleftrightarrow> p = q"
  by (metis pass_of_value_pass_value)

lemma pass_value_le: "pass_value p \<le> 8"
  by (cases p) simp_all

lemma sorted_all_passes: "sorted all_passes" and distinct_all_passes: "distinct all_passes"
  by (simp_all add: all_passes_def less_eq_command_graph_pass_def)

lemma map_pass_of_value: "map pass_of_value [0..<8] = all_passes"
  by (simp add: pass_of_value_def all_passes_def upt_rec)

lemma bit_pass_bit: "bit (command_graph_pass_bit p) n \<longleftrightarrow> n = pass_value p"
  using pass_value_le [of p]
  by (auto simp: command_graph_pass_bit_def bit_push_bit_iff bit_exp_iff push_bit_of_1)

lemma and_pass_bit: "w AND command_graph_pass_bit p \<noteq> 0 \<longleftrightarrow> bit w (pass_value p)"
proof
  assume "w AND command_graph_pass_bit p \<noteq> 0"
  then have "\<exists>n. bit (w AND command_graph_pass_bit p) n"
    by (metis bit_0_eq bit_word_eqI bot_apply bot_bool_def)
  then show "bit w (pass_value p)" by (simp add: bit_and_iff bit_pass_bit)
next
  assume "bit w (pass_value p)"
  then have "bit (w AND command_graph_pass_bit p) (pass_value p)"
    by (simp add: bit_and_iff bit_pass_bit)
  then show "w AND command_graph_pass_bit p \<noteq> 0" by auto
qed

lemma bit_fold_pass_bits:
  "bit (fold (\<lambda>p acc. acc OR command_graph_pass_bit p) ps w) (pass_value q)
     \<longleftrightarrow> bit w (pass_value q) \<or> q \<in> set ps"
  by (induction ps arbitrary: w) (auto simp: bit_or_iff bit_pass_bit pass_value_inj)

lemma bit_pass_set_of: "bit (pass_set_of ps) (pass_value q) \<longleftrightarrow> q \<in> set ps"
  by (simp add: pass_set_of_def bit_fold_pass_bits)

text \<open>The loop is the run of the enabled passes in canonical order.\<close>

lemma optimize_set_filter:
  "optimize_set run w s = for_each run (filter (\<lambda>p. bit w (pass_value p)) all_passes) s"
proof -
  have "optimize_set run w s =
      for_each (\<lambda>p s. if w AND command_graph_pass_bit p \<noteq> 0 then run p s else Inr s)
        (map pass_of_value [0..<8]) s"
    by (simp add: optimize_set_def for_each_map)
  then show ?thesis
    unfolding map_pass_of_value and_pass_bit for_each_filter .
qed

subsection \<open>Properties\<close>

text \<open>
  Enabled passes run in the canonical order whatever the order (or repetition) in which
  their bits were OR-ed: \<^verbatim>\<open>optimize(set)\<close> is the sequential run of the passes of the set
  sorted by their enumerator, each once, stopping at the first error.
\<close>

theorem optimize_set_canonical:
  "optimize_set run (pass_set_of ps) s =
     for_each run (sorted_list_of_set (set ps - {COMMAND_GRAPH_PASS_MAX})) s"
proof -
  have "filter (\<lambda>p. p \<in> set ps) all_passes =
      sorted_list_of_set (set (filter (\<lambda>p. p \<in> set ps) all_passes))"
    by (rule sorted_list_of_set.idem_if_sorted_distinct [symmetric])
      (simp_all add: sorted_wrt_filter sorted_all_passes distinct_all_passes)
  also have "set (filter (\<lambda>p. p \<in> set ps) all_passes) = set ps - {COMMAND_GRAPH_PASS_MAX}"
    by (auto simp: all_passes_complete)
  finally show ?thesis
    by (simp add: optimize_set_filter bit_pass_set_of)
qed

text \<open>
  Names and enumerators round-trip: \<^verbatim>\<open>command_graph_pass_from_str\<close> returns \<open>p\<close> exactly
  on the name \<^verbatim>\<open>command_graph_pass_to_str\<close> gives \<open>p\<close>, and answers the out-of-range
  enumerator exactly on strings that name no pass.
\<close>

theorem pass_names_roundtrip:
  "command_graph_pass_from_str (command_graph_pass_to_str p) = p \<and>
   (command_graph_pass_from_str s = COMMAND_GRAPH_PASS_MAX
      \<longleftrightarrow> s \<notin> command_graph_pass_to_str ` set all_passes)"
  by (cases p) (auto simp: command_graph_pass_from_str_def all_passes_def)

end
