(* ===== verification/Commands.thy ===== *)
theory Commands
  imports Command_Types
begin

text \<open>
  The commands (\<^verbatim>\<open>include/cgir/command.hpp\<close>, \<^verbatim>\<open>include/cgir/prog-source.h\<close>,
  \<^verbatim>\<open>include/cgir/c/api.h\<close>): every struct is a record with the fields of the source, the
  tagged union \<^verbatim>\<open>command_t\<close> is a type tag and a body whose constructor is the active
  member. \<^verbatim>\<open>size_t\<close>, \<^verbatim>\<open>uintptr_t\<close> and pointers are 64-bit words (a null pointer is 0),
  device identifiers are 8-bit words.
\<close>

type_synonym device_id = "8 word"
type_synonym size_t = "64 word"
type_synonym uintptr = "64 word"

text \<open>\<^verbatim>\<open>CGIR_UNSPECIFIED_DEVICE_UNIQUE_ID\<close> is \<^verbatim>\<open>(uint8_t) -1\<close>.\<close>

definition CGIR_UNSPECIFIED_DEVICE_UNIQUE_ID :: device_id where
  "CGIR_UNSPECIFIED_DEVICE_UNIQUE_ID = - 1"

text \<open>Pointers into the stores of theory Graph\_Store: positions, with \<open>None\<close> the null pointer.\<close>

type_synonym node_ref = nat
type_synonym cmd_ref = nat
type_synonym graph_ref = nat

subsection \<open>Program sources\<close>

datatype prog_source_type =
    CGIR_COMMAND_PROG_SOURCE_TYPE_LLVMIR
  | CGIR_COMMAND_PROG_SOURCE_TYPE_MLIR
  | CGIR_COMMAND_PROG_SOURCE_TYPE_PTX
  | CGIR_COMMAND_PROG_SOURCE_TYPE_CL
  | CGIR_COMMAND_PROG_SOURCE_TYPE_SPIRV

datatype prog_source_proto =
    CGIR_COMMAND_PROG_SOURCE_PROTO_UNPACKED_PARAMS
  | CGIR_COMMAND_PROG_SOURCE_PROTO_VOID_PTRPTR
  | CGIR_COMMAND_PROG_SOURCE_PROTO_PACKED_BUFFER

datatype prog_param_kind =
    CGIR_COMMAND_PROG_PARAM_REFERENCE
  | CGIR_COMMAND_PROG_PARAM_COPY

record prog_param =
  pkind :: prog_param_kind
  psize :: size_t
  poffset :: size_t

record prog_extern =
  ename :: "string option"
  eaddr :: uintptr

record llvmir_source =
  raw :: uintptr
  rawsize :: size_t
  raw_owned :: bool
  symbol :: "string option"
  externs :: "prog_extern list option"
  externs_count :: nat
  externs_owned :: bool
  triple :: "string option"
  arch :: "string option"
  runtime_bc :: "string option"
  proto :: prog_source_proto
  params :: "prog_param list option"
  param_count :: nat
  params_owned :: bool

record prog_source =
  source_type :: prog_source_type
  llvmir :: llvmir_source

subsection \<open>Command bodies\<close>

datatype launch_mode =
    CGIR_COMMAND_PROG_LAUNCH_MODE_DIRECT
  | CGIR_COMMAND_PROG_LAUNCH_MODE_TASK_SPAWN

record copy_1D =
  src_device_unique_id :: device_id
  dst_device_unique_id :: device_id
  src_device_addr :: uintptr
  dst_device_addr :: uintptr
  csize :: size_t

record copy_2D =
  src_device_unique_id2 :: device_id
  dst_device_unique_id2 :: device_id
  src_addr :: uintptr
  src_ld :: size_t
  dst_addr :: uintptr
  dst_ld :: size_t
  cm :: size_t
  cn :: size_t
  sizeof_type :: size_t

datatype function_prototype =
    CGIR_COMMAND_PROG_FUNCTION_PROTOTYPE_FIXED
  | CGIR_COMMAND_PROG_FUNCTION_PROTOTYPE_VARIADIC
  | CGIR_COMMAND_PROG_FUNCTION_PROTOTYPE_KMP
  | CGIR_COMMAND_PROG_FUNCTION_PROTOTYPE_PACKED

text \<open>The launcher union: function pointers are addresses.\<close>

datatype prog_launcher =
    Launcher_uninitialised
  | Launcher_fixed uintptr "uintptr list"
  | Launcher_variadic uintptr
  | Launcher_kmp uintptr uintptr
  | Launcher_packed uintptr

record dim3 =
  dx :: "32 word"
  dy :: "32 word"
  dz :: "32 word"

record prog =
  prototype :: function_prototype
  launcher :: prog_launcher
  pargs :: uintptr
  n_args :: size_t
  args_size :: size_t
  args_owned :: bool
  source :: prog_source
  prog_launch_mode :: launch_mode
  grid :: dim3
  block :: dim3

record file_command =
  fd :: "32 word"
  fbuffer :: uintptr
  fsize :: size_t
  foffset :: size_t

record batch_command =
  batch_cg :: "graph_ref option"
  driver_handle :: uintptr

record ctrl_loop =
  loop_to :: "node_ref option"

text \<open>\<^verbatim>\<open>CGIR_COMMAND_CTRL_DEMUX_SIZE_MAX\<close> is \<^verbatim>\<open>8 * sizeof(int)\<close>, and its size type an 8-bit word.\<close>

definition CGIR_COMMAND_CTRL_DEMUX_SIZE_MAX :: nat where
  "CGIR_COMMAND_CTRL_DEMUX_SIZE_MAX = 8 * 4"

record ctrl_demux =
  demux_commands :: "cmd_ref list"
  demux_n :: "8 word"
  demux_bitset :: "32 word"

datatype command_body =
    Body_uninitialised
  | Body_prog prog
  | Body_copy_1D copy_1D
  | Body_copy_2D copy_2D
  | Body_file file_command
  | Body_batch batch_command
  | Body_loop ctrl_loop
  | Body_demux ctrl_demux

record command =
  ctype :: command_type
  cbody :: command_body

subsection \<open>The constructor of a command\<close>

definition zero_dim3 :: dim3 where
  "zero_dim3 = \<lparr>dx = 0, dy = 0, dz = 0\<rparr>"

text \<open>
  \<^verbatim>\<open>command_t(type)\<close> initialises the members below of a program and leaves the union of
  every other type uninitialised. The members it leaves unset (\<^verbatim>\<open>raw\<close>, \<^verbatim>\<open>size\<close>, the source
  type, the launcher, \<^verbatim>\<open>args\<close>, \<^verbatim>\<open>n_args\<close>) are parameters: they hold whatever the allocator's
  memory holds.
\<close>

definition new_prog :: "uintptr \<Rightarrow> size_t \<Rightarrow> prog_source_type \<Rightarrow> uintptr \<Rightarrow> size_t \<Rightarrow> prog" where
  "new_prog raw0 size0 type0 args0 n_args0 =
     \<lparr>prototype = CGIR_COMMAND_PROG_FUNCTION_PROTOTYPE_VARIADIC,
      launcher = Launcher_uninitialised,
      pargs = args0, n_args = n_args0, args_size = 0, args_owned = False,
      source = \<lparr>source_type = type0,
        llvmir = \<lparr>raw = raw0, rawsize = size0, raw_owned = False, symbol = None,
          externs = None, externs_count = 0, externs_owned = False,
          triple = None, arch = None, runtime_bc = None,
          proto = CGIR_COMMAND_PROG_SOURCE_PROTO_UNPACKED_PARAMS,
          params = None, param_count = 0, params_owned = False\<rparr>\<rparr>,
      prog_launch_mode = CGIR_COMMAND_PROG_LAUNCH_MODE_DIRECT,
      grid = zero_dim3, block = zero_dim3\<rparr>"

definition new_command ::
  "uintptr \<Rightarrow> size_t \<Rightarrow> prog_source_type \<Rightarrow> uintptr \<Rightarrow> size_t \<Rightarrow> command_type \<Rightarrow> command" where
  "new_command raw0 size0 type0 args0 n_args0 t =
     \<lparr>ctype = t,
      cbody = (if t = COMMAND_TYPE_PROG
               then Body_prog (new_prog raw0 size0 type0 args0 n_args0)
               else Body_uninitialised)\<rparr>"

subsection \<open>Reading the union\<close>

text \<open>Reading a member that is not the active one is undefined.\<close>

fun get_prog :: "command \<Rightarrow> prog result" where
  "get_prog c = (case cbody c of Body_prog p \<Rightarrow> Inr p | _ \<Rightarrow> Inl Undefined_behaviour)"

fun get_copy_1D :: "command \<Rightarrow> copy_1D result" where
  "get_copy_1D c = (case cbody c of Body_copy_1D x \<Rightarrow> Inr x | _ \<Rightarrow> Inl Undefined_behaviour)"

fun get_copy_2D :: "command \<Rightarrow> copy_2D result" where
  "get_copy_2D c = (case cbody c of Body_copy_2D x \<Rightarrow> Inr x | _ \<Rightarrow> Inl Undefined_behaviour)"

fun get_batch :: "command \<Rightarrow> batch_command result" where
  "get_batch c = (case cbody c of Body_batch x \<Rightarrow> Inr x | _ \<Rightarrow> Inl Undefined_behaviour)"

text \<open>
  \<^verbatim>\<open>CGIR_FORALL_COMMAND_TYPE\<close> pairs every type with the struct of its union member: a command
  is well formed when its body is that member.
\<close>

definition wf_command :: "command \<Rightarrow> bool" where
  "wf_command c =
     (case cbody c of
        Body_uninitialised \<Rightarrow> False
      | Body_prog _ \<Rightarrow> ctype c = COMMAND_TYPE_PROG
      | Body_copy_1D _ \<Rightarrow> is_copy_1D_type (ctype c)
      | Body_copy_2D _ \<Rightarrow> is_copy_2D_type (ctype c)
      | Body_file _ \<Rightarrow> ctype c = COMMAND_TYPE_FD_READ \<or> ctype c = COMMAND_TYPE_FD_WRITE
      | Body_batch _ \<Rightarrow> ctype c = COMMAND_TYPE_BATCH
      | Body_loop _ \<Rightarrow> ctype c = COMMAND_TYPE_CTRL_LOOP
      | Body_demux _ \<Rightarrow> ctype c = COMMAND_TYPE_CTRL_DEMUX)"

lemma wf_command_copy_1D:
  "wf_command c \<Longrightarrow> is_copy_1D_type (ctype c) \<Longrightarrow> \<exists>x. cbody c = Body_copy_1D x"
  using copy_types_disjoint [of "ctype c"]
  by (auto simp: wf_command_def split: command_body.splits)

lemma wf_command_copy_2D:
  "wf_command c \<Longrightarrow> is_copy_2D_type (ctype c) \<Longrightarrow> \<exists>x. cbody c = Body_copy_2D x"
  using copy_types_disjoint [of "ctype c"]
  by (auto simp: wf_command_def split: command_body.splits)

lemma wf_command_prog:
  "wf_command c \<Longrightarrow> ctype c = COMMAND_TYPE_PROG \<Longrightarrow> \<exists>p. cbody c = Body_prog p"
  by (auto simp: wf_command_def split: command_body.splits)

text \<open>\<^verbatim>\<open>command_prog_launch_params_equal\<close> (\<^verbatim>\<open>src/prog-fuse-llvmir.hpp\<close>).\<close>

definition launch_params_equal :: "prog \<Rightarrow> prog \<Rightarrow> bool" where
  "launch_params_equal a b \<longleftrightarrow>
     prog_launch_mode a = prog_launch_mode b \<and>
     dx (grid a) = dx (grid b) \<and> dy (grid a) = dy (grid b) \<and> dz (grid a) = dz (grid b) \<and>
     dx (block a) = dx (block b) \<and> dy (block a) = dy (block b) \<and> dz (block a) = dz (block b)"

lemma launch_params_equal_iff:
  "launch_params_equal a b \<longleftrightarrow>
     prog_launch_mode a = prog_launch_mode b \<and> grid a = grid b \<and> block a = block b"
  unfolding launch_params_equal_def
  by (cases "grid a"; cases "grid b"; cases "block a"; cases "block b") auto

end
