(* ===== verification/Graph_Store.thy ===== *)
theory Graph_Store
  imports Commands
begin

text \<open>
  The objects of a command graph and the memory they live in
  (\<^verbatim>\<open>include/cgir/command-graph.hpp\<close>; the allocator call-backs are those of
  \<^verbatim>\<open>tests/cgir-tests.cc\<close>). A store holds the nodes, commands and graphs allocated so far,
  and a pointer is a position in it; nothing is ever freed by the library, so an allocation
  appends. Adjacency is kept as in the source, as two lists per node that the operations
  keep consistent.
\<close>

named_theorems store_simps \<open>reading a store after an update\<close>

subsection \<open>Nodes, graphs, stores\<close>

text \<open>
  \<open>ncommand\<close> is the \<^verbatim>\<open>command\<close> member of the node's union (the \<^verbatim>\<open>graph\<close> member is neither
  read nor written anywhere in the library). \<open>walk_id\<close> is the \<^verbatim>\<open>int8_t\<close> mark of the walks.
\<close>

record node =
  device_unique_id :: device_id
  predecessors :: "node_ref list"
  successors :: "node_ref list"
  iterator_index :: nat
  walk_id :: "8 word"
  ntype :: node_type
  ncommand :: "cmd_ref option"

record graph =
  entry :: node_ref
  exit :: node_ref
  graph_walk_id :: "8 word"
  is_sequence :: bool

record store =
  nodes :: "node list"
  commands :: "command list"
  graphs :: "graph list"

definition new_node :: "device_id \<Rightarrow> node_type \<Rightarrow> node" where
  "new_node d t =
     \<lparr>device_unique_id = d, predecessors = [], successors = [], iterator_index = 0,
      walk_id = 0, ntype = t, ncommand = None\<rparr>"

definition node_at :: "store \<Rightarrow> node_ref \<Rightarrow> node" where
  "node_at s u = nodes s ! u"

definition graph_at :: "store \<Rightarrow> graph_ref \<Rightarrow> graph" where
  "graph_at s g = graphs s ! g"

definition upd_node :: "node_ref \<Rightarrow> (node \<Rightarrow> node) \<Rightarrow> store \<Rightarrow> store" where
  "upd_node u f s = s\<lparr>nodes := (nodes s)[u := f (nodes s ! u)]\<rparr>"

definition upd_graph :: "graph_ref \<Rightarrow> (graph \<Rightarrow> graph) \<Rightarrow> store \<Rightarrow> store" where
  "upd_graph g f s = s\<lparr>graphs := (graphs s)[g := f (graphs s ! g)]\<rparr>"

definition upd_command :: "cmd_ref \<Rightarrow> (command \<Rightarrow> command) \<Rightarrow> store \<Rightarrow> store" where
  "upd_command c f s = s\<lparr>commands := (commands s)[c := f (commands s ! c)]\<rparr>"

abbreviation succs :: "store \<Rightarrow> node_ref \<Rightarrow> node_ref list" where
  "succs s u \<equiv> successors (node_at s u)"

abbreviation preds :: "store \<Rightarrow> node_ref \<Rightarrow> node_ref list" where
  "preds s u \<equiv> predecessors (node_at s u)"

text \<open>\<^verbatim>\<open>node->command\<close>, dereferenced: a null command is the failing \<^verbatim>\<open>assert(u->command)\<close>.\<close>

definition get_command :: "store \<Rightarrow> node_ref \<Rightarrow> command result" where
  "get_command s u =
     (case ncommand (node_at s u) of
        None \<Rightarrow> Inl Assertion_failed
      | Some c \<Rightarrow> Inr (commands s ! c))"

subsection \<open>Allocation\<close>

definition command_graph_node_new :: "device_id \<Rightarrow> node_type \<Rightarrow> store \<Rightarrow> node_ref \<times> store" where
  "command_graph_node_new d t s = (length (nodes s), s\<lparr>nodes := nodes s @ [new_node d t]\<rparr>)"

text \<open>
  The passes allocate BATCH commands only, whose constructor initialises nothing but the type;
  the members a fresh program command leaves unset are read as zeroed memory here.
\<close>

definition command_new :: "command_type \<Rightarrow> store \<Rightarrow> cmd_ref \<times> store" where
  "command_new t s =
     (length (commands s),
      s\<lparr>commands := commands s @ [new_command 0 0 CGIR_COMMAND_PROG_SOURCE_TYPE_LLVMIR 0 0 t]\<rparr>)"

subsection \<open>Edges and graph initialisation\<close>

text \<open>\<^verbatim>\<open>u->precedes(v)\<close>: two \<^verbatim>\<open>push_back\<close>s.\<close>

definition precedes :: "node_ref \<Rightarrow> node_ref \<Rightarrow> store \<Rightarrow> store" where
  "precedes u v s =
     upd_node v (\<lambda>n. n\<lparr>predecessors := predecessors n @ [u]\<rparr>)
       (upd_node u (\<lambda>n. n\<lparr>successors := successors n @ [v]\<rparr>) s)"

definition succeed :: "node_ref \<Rightarrow> node_ref \<Rightarrow> store \<Rightarrow> store" where
  "succeed u p s = precedes p u s"

definition foreach_predecessor ::
  "node_ref \<Rightarrow> (node_ref \<Rightarrow> store \<Rightarrow> store result) \<Rightarrow> store \<Rightarrow> store result" where
  "foreach_predecessor u f s = for_each (\<lambda>p s. assert_that (p \<noteq> u) (f p s)) (preds s u) s"

definition foreach_successor ::
  "node_ref \<Rightarrow> (node_ref \<Rightarrow> store \<Rightarrow> store result) \<Rightarrow> store \<Rightarrow> store result" where
  "foreach_successor u f s = for_each (\<lambda>v s. assert_that (v \<noteq> u) (f v s)) (succs s u) s"

text \<open>
  \<^verbatim>\<open>command_graph_t::init\<close>: with both \<open>en\<close> and \<open>ex\<close> given they become entry and exit as they
  are; with neither, two fresh EMPTY nodes are allocated and linked.
\<close>

definition init :: "graph_ref \<Rightarrow> node_ref option \<Rightarrow> node_ref option \<Rightarrow> store \<Rightarrow> store result" where
  "init g en ex s =
     assert_that ((en = None) = (ex = None))
       (case (en, ex) of
          (Some e, Some x) \<Rightarrow>
            assert_that (preds s e = [])
              (assert_that (succs s x = [])
                (Inr (upd_graph g
                  (\<lambda>gr. gr\<lparr>entry := e, exit := x, graph_walk_id := 0, is_sequence := False\<rparr>) s)))
        | _ \<Rightarrow>
            (let (e, s1) = command_graph_node_new CGIR_UNSPECIFIED_DEVICE_UNIQUE_ID
                             COMMAND_GRAPH_NODE_TYPE_EMPTY s;
                 (x, s2) = command_graph_node_new CGIR_UNSPECIFIED_DEVICE_UNIQUE_ID
                             COMMAND_GRAPH_NODE_TYPE_EMPTY s1;
                 s3 = precedes e x s2
             in Inr (upd_graph g
                  (\<lambda>gr. gr\<lparr>entry := e, exit := x, graph_walk_id := 0, is_sequence := False\<rparr>) s3)))"

text \<open>
  The graph allocator of \<^verbatim>\<open>tests/cgir-tests.cc\<close> for a sub-graph: a value-initialised
  \<^verbatim>\<open>command_graph_t\<close>, then \<^verbatim>\<open>init\<close>.
\<close>

definition command_graph_new ::
  "node_ref option \<Rightarrow> node_ref option \<Rightarrow> store \<Rightarrow> (graph_ref \<times> store) result" where
  "command_graph_new en ex s =
     (let g = length (graphs s);
          s1 = s\<lparr>graphs := graphs s @ [\<lparr>entry = 0, exit = 0, graph_walk_id = 0, is_sequence = False\<rparr>]\<rparr>
      in bind_result (init g en ex s1) (\<lambda>s2. Inr (g, s2)))"

definition node_get_entry :: "store \<Rightarrow> graph_ref \<Rightarrow> node_ref" where
  "node_get_entry s g = entry (graph_at s g)"

definition node_get_exit :: "store \<Rightarrow> graph_ref \<Rightarrow> node_ref" where
  "node_get_exit s g = exit (graph_at s g)"

definition node_set_entry :: "graph_ref \<Rightarrow> node_ref \<Rightarrow> store \<Rightarrow> store result" where
  "node_set_entry g u s =
     assert_that (preds s u = []) (Inr (upd_graph g (\<lambda>gr. gr\<lparr>entry := u\<rparr>) s))"

definition node_set_exit :: "graph_ref \<Rightarrow> node_ref \<Rightarrow> store \<Rightarrow> store result" where
  "node_set_exit g u s =
     assert_that (succs s u = []) (Inr (upd_graph g (\<lambda>gr. gr\<lparr>exit := u\<rparr>) s))"

subsection \<open>Reading after updating\<close>

lemma node_at_upd_node [simp, store_simps]:
  "u < length (nodes s) \<Longrightarrow> node_at (upd_node u f s) v = (if v = u then f (node_at s u) else node_at s v)"
  by (simp add: node_at_def upd_node_def)

lemma upd_node_frame [simp, store_simps]:
  "length (nodes (upd_node u f s)) = length (nodes s)"
  "commands (upd_node u f s) = commands s"
  "graphs (upd_node u f s) = graphs s"
  "graph_at (upd_node u f s) g = graph_at s g"
  by (simp_all add: upd_node_def graph_at_def)

lemma upd_graph_frame [simp, store_simps]:
  "nodes (upd_graph g f s) = nodes s"
  "commands (upd_graph g f s) = commands s"
  "length (graphs (upd_graph g f s)) = length (graphs s)"
  "node_at (upd_graph g f s) u = node_at s u"
  by (simp_all add: upd_graph_def node_at_def)

lemma graph_at_upd_graph [simp, store_simps]:
  "g < length (graphs s) \<Longrightarrow> graph_at (upd_graph g f s) h = (if h = g then f (graph_at s g) else graph_at s h)"
  by (simp add: graph_at_def upd_graph_def)

lemma upd_command_frame [simp, store_simps]:
  "nodes (upd_command c f s) = nodes s"
  "graphs (upd_command c f s) = graphs s"
  "length (commands (upd_command c f s)) = length (commands s)"
  "node_at (upd_command c f s) u = node_at s u"
  "graph_at (upd_command c f s) g = graph_at s g"
  by (simp_all add: upd_command_def node_at_def graph_at_def)

lemma commands_upd_command [simp, store_simps]:
  "c < length (commands s) \<Longrightarrow>
     commands (upd_command c f s) ! d = (if d = c then f (commands s ! c) else commands s ! d)"
  by (simp add: upd_command_def)

lemma precedes_frame [simp, store_simps]:
  "length (nodes (precedes u v s)) = length (nodes s)"
  "commands (precedes u v s) = commands s"
  "graphs (precedes u v s) = graphs s"
  "graph_at (precedes u v s) g = graph_at s g"
  by (simp_all add: precedes_def)

lemma precedes_adjacency [simp, store_simps]:
  assumes "u < length (nodes s)" "v < length (nodes s)"
  shows "succs (precedes u v s) x = (if x = u then succs s u @ [v] else succs s x)"
    and "preds (precedes u v s) x = (if x = v then preds s v @ [u] else preds s x)"
  using assms by (auto simp: precedes_def)

lemma precedes_other [simp, store_simps]:
  assumes "u < length (nodes s)" "v < length (nodes s)"
  shows "device_unique_id (node_at (precedes u v s) x) = device_unique_id (node_at s x)"
    and "iterator_index (node_at (precedes u v s) x) = iterator_index (node_at s x)"
    and "walk_id (node_at (precedes u v s) x) = walk_id (node_at s x)"
    and "ntype (node_at (precedes u v s) x) = ntype (node_at s x)"
    and "ncommand (node_at (precedes u v s) x) = ncommand (node_at s x)"
  using assms by (auto simp: precedes_def)

subsection \<open>Well-formed graphs\<close>

text \<open>
  A graph is described by the set \<open>V\<close> of its nodes: nodes that a pass takes out of it keep
  stale lists, which no node of \<open>V\<close> points to. \<open>wf_adj\<close> is the consistency of the two lists,
  \<open>wf_graph\<close> adds what the documentation promises of a command graph: acyclic, one source
  (the entry), one sink (the exit).
\<close>

definition edges :: "store \<Rightarrow> node_ref set \<Rightarrow> (node_ref \<times> node_ref) set" where
  "edges s V = {(u, v). u \<in> V \<and> v \<in> set (succs s u)}"

definition wf_adj :: "store \<Rightarrow> node_ref set \<Rightarrow> bool" where
  "wf_adj s V \<longleftrightarrow>
     (\<forall>u\<in>V. u < length (nodes s) \<and> set (succs s u) \<subseteq> V \<and> set (preds s u) \<subseteq> V \<and>
        distinct (succs s u) \<and> distinct (preds s u)) \<and>
     (\<forall>u\<in>V. \<forall>v\<in>V. v \<in> set (succs s u) \<longleftrightarrow> u \<in> set (preds s v))"

definition wf_graph :: "store \<Rightarrow> graph_ref \<Rightarrow> node_ref set \<Rightarrow> bool" where
  "wf_graph s g V \<longleftrightarrow>
     g < length (graphs s) \<and> wf_adj s V \<and> acyclic (edges s V) \<and>
     node_get_entry s g \<in> V \<and> node_get_exit s g \<in> V \<and>
     preds s (node_get_entry s g) = [] \<and> succs s (node_get_exit s g) = [] \<and>
     (\<forall>u \<in> V - {node_get_entry s g}. preds s u \<noteq> []) \<and>
     (\<forall>u \<in> V - {node_get_exit s g}. succs s u \<noteq> [])"

lemma wf_adjD:
  assumes "wf_adj s V" "u \<in> V"
  shows "u < length (nodes s)" "set (succs s u) \<subseteq> V" "set (preds s u) \<subseteq> V"
    "distinct (succs s u)" "distinct (preds s u)"
  using assms by (auto simp: wf_adj_def)

lemma wf_adj_sym: "wf_adj s V \<Longrightarrow> u \<in> V \<Longrightarrow> v \<in> V \<Longrightarrow> v \<in> set (succs s u) \<longleftrightarrow> u \<in> set (preds s v)"
  by (auto simp: wf_adj_def)

lemma wf_adj_finite: "wf_adj s V \<Longrightarrow> finite V"
  by (rule finite_subset [of V "{..<length (nodes s)}"]) (auto simp: wf_adj_def)

lemma wf_adj_edge: "wf_adj s V \<Longrightarrow> (u, v) \<in> edges s V \<longleftrightarrow> u \<in> V \<and> v \<in> V \<and> v \<in> set (succs s u)"
  by (auto simp: wf_adj_def edges_def)

lemma wf_adj_edge_pred: "wf_adj s V \<Longrightarrow> (u, v) \<in> edges s V \<longleftrightarrow> u \<in> V \<and> v \<in> V \<and> u \<in> set (preds s v)"
  unfolding wf_adj_def edges_def by blast

lemma wf_adj_edges_subset: "wf_adj s V \<Longrightarrow> edges s V \<subseteq> V \<times> V"
  by (auto simp: wf_adj_def edges_def)

lemma wf_adj_finite_edges: "wf_adj s V \<Longrightarrow> finite (edges s V)"
  using wf_adj_edges_subset wf_adj_finite finite_SigmaI finite_subset by metis

lemma wf_graph_adj: "wf_graph s g V \<Longrightarrow> wf_adj s V"
  and wf_graph_acyclic: "wf_graph s g V \<Longrightarrow> acyclic (edges s V)"
  and wf_graph_entry: "wf_graph s g V \<Longrightarrow> node_get_entry s g \<in> V"
  and wf_graph_exit: "wf_graph s g V \<Longrightarrow> node_get_exit s g \<in> V"
  by (simp_all add: wf_graph_def)

lemma acyclic_irrefl_edge: "acyclic (edges s V) \<Longrightarrow> u \<in> V \<Longrightarrow> u \<notin> set (succs s u)"
  by (auto simp: acyclic_def edges_def)

lemma wf_graph_not_self:
  "wf_graph s g V \<Longrightarrow> u \<in> V \<Longrightarrow> u \<notin> set (succs s u) \<and> u \<notin> set (preds s u)"
  using acyclic_irrefl_edge wf_graph_acyclic wf_graph_adj wf_adj_sym by metis

text \<open>In a well-formed graph every node lies on a path from the entry to the exit.\<close>

lemma wf_graph_from_entry:
  assumes "wf_graph s g V" "u \<in> V"
  shows "(node_get_entry s g, u) \<in> (edges s V)\<^sup>*"
proof -
  have wf: "wf (edges s V)"
    using assms by (simp add: finite_acyclic_wf wf_adj_finite_edges wf_graph_acyclic wf_graph_adj)
  from wf assms(2) show ?thesis
  proof (induction u rule: wf_induct_rule)
    case (less u)
    show ?case
    proof (cases "u = node_get_entry s g")
      case False
      then obtain p where p: "p \<in> set (preds s u)"
        using assms(1) less.prems unfolding wf_graph_def
        by (metis DiffI list.set_intros(1) neq_Nil_conv singletonD)
      then have "p \<in> V" and "(p, u) \<in> edges s V"
        using assms(1) less.prems wf_adj_edge_pred wf_adjD(3) wf_graph_adj by blast+
      then show ?thesis using less.IH by (meson rtrancl.rtrancl_into_rtrancl)
    qed simp
  qed
qed

lemma wf_graph_to_exit:
  assumes "wf_graph s g V" "u \<in> V"
  shows "(u, node_get_exit s g) \<in> (edges s V)\<^sup>*"
proof -
  have wf: "wf ((edges s V)\<inverse>)"
    using assms by (simp add: finite_acyclic_wf_converse wf_adj_finite_edges wf_graph_acyclic wf_graph_adj)
  from wf assms(2) show ?thesis
  proof (induction u rule: wf_induct_rule)
    case (less u)
    show ?case
    proof (cases "u = node_get_exit s g")
      case False
      then obtain v where v: "v \<in> set (succs s u)"
        using assms(1) less.prems unfolding wf_graph_def
        by (metis DiffI list.set_intros(1) neq_Nil_conv singletonD)
      then have "v \<in> V" and "(u, v) \<in> edges s V"
        using assms(1) less.prems wf_adj_edge wf_adjD(2) wf_graph_adj by blast+
      then show ?thesis using less.IH by (meson converse_iff converse_rtrancl_into_rtrancl)
    qed simp
  qed
qed

text \<open>Well-formedness only reads the adjacency lists of \<open>V\<close> and the graph object.\<close>

lemma wf_adj_cong:
  assumes "\<And>u. u \<in> V \<Longrightarrow> succs s' u = succs s u \<and> preds s' u = preds s u"
    and "length (nodes s) \<le> length (nodes s')" and "wf_adj s V"
  shows "wf_adj s' V"
  using assms unfolding wf_adj_def by (auto dest: order_less_le_trans)

lemma edges_cong:
  assumes "\<And>u. u \<in> V \<Longrightarrow> succs s' u = succs s u"
  shows "edges s' V = edges s V"
  using assms unfolding edges_def by auto

lemma wf_graph_cong:
  assumes "\<And>u. u \<in> V \<Longrightarrow> succs s' u = succs s u \<and> preds s' u = preds s u"
    and "length (nodes s) \<le> length (nodes s')"
    and "length (graphs s) \<le> length (graphs s')"
    and "entry (graph_at s' g) = entry (graph_at s g)" "exit (graph_at s' g) = exit (graph_at s g)"
    and "wf_graph s g V"
  shows "wf_graph s' g V"
proof -
  have "edges s' V = edges s V" using assms(1) by (intro edges_cong) simp
  moreover have "wf_adj s' V" using assms(1,2,6) wf_adj_cong wf_graph_adj by blast
  ultimately show ?thesis
    using assms by (auto simp: wf_graph_def node_get_entry_def node_get_exit_def)
qed

end
