(* ===== verification/Walk_Core.thy ===== *)
theory Walk_Core
  imports Graph_Store
begin

text \<open>
  The two traversals of \<^verbatim>\<open>command_graph_node_t::walk\<close>
  (\<^verbatim>\<open>include/cgir/command-graph.hpp\<close>) over an arbitrary successor function: the recursive
  depth-first one with a pre- or post-order call-back (\<open>dfs\<close>, \<open>reach\<close>) and the queue-based
  breadth-first one (\<open>bfs\<close>). A node is marked when its walk id equals the walk's id \<open>i\<close>;
  the marks are a list of walk ids, one per allocated node. The call-back works on a state of
  any type; no call-back of the library changes successor lists or walk ids, so both are
  separate from it. Positions outside the store do not occur on well-formed graphs; the
  guard \<open>x < length w\<close> only makes the functions total.
\<close>

subsection \<open>Depth-first\<close>

text \<open>
  \<open>dfs\<close> is the \<^verbatim>\<open>for\<close> loop over successors inside the recursive lambda \<^verbatim>\<open>reach\<close>, with the
  recursive call inlined: skip a marked node, else mark it, call back before (PRE) or after
  (POST) the loop over its own successors.
\<close>

function (sequential) dfs ::
  "(node_ref \<Rightarrow> node_ref list) \<Rightarrow> 8 word \<Rightarrow> walk_order \<Rightarrow> (node_ref \<Rightarrow> 'a \<Rightarrow> 'a)
     \<Rightarrow> node_ref list \<Rightarrow> 8 word list \<times> 'a \<Rightarrow> 8 word list \<times> 'a" where
  "dfs nx i ord f [] wa = wa"
| "dfs nx i ord f (x # xs) wa =
     (if x < length (fst wa) \<and> fst wa ! x \<noteq> i then
        let a1 = (if ord = COMMAND_GRAPH_WALK_ORDER_PRE then f x (snd wa) else snd wa);
            wa2 = dfs nx i ord f (nx x) ((fst wa)[x := i], a1);
            a3 = (if ord = COMMAND_GRAPH_WALK_ORDER_POST then f x (snd wa2) else snd wa2)
        in dfs nx i ord f xs (fst wa2, a3)
      else dfs nx i ord f xs wa)"
  by pat_completeness auto

lemma dfs_unmarked_le:
  "dfs_dom (nx, i, ord, f, xs, wa) \<Longrightarrow>
     unmarked i (fst (dfs nx i ord f xs wa)) \<le> unmarked i (fst wa)"
proof (induction nx i ord f xs wa rule: dfs.pinduct)
  case (1 nx i ord f wa)
  then show ?case by (simp add: dfs.psimps)
next
  case (2 nx i ord f x xs wa)
  show ?case
  proof (cases "x < length (fst wa) \<and> fst wa ! x \<noteq> i")
    case True
    note IH1 = "2.IH"(1) [OF True refl] and IH2 = "2.IH"(2) [OF True refl refl refl]
    define a1 where "a1 = (if ord = COMMAND_GRAPH_WALK_ORDER_PRE then f x (snd wa) else snd wa)"
    define wa2 where "wa2 = dfs nx i ord f (nx x) ((fst wa)[x := i], a1)"
    define a3 where "a3 = (if ord = COMMAND_GRAPH_WALK_ORDER_POST then f x (snd wa2) else snd wa2)"
    have eq: "dfs nx i ord f (x # xs) wa = dfs nx i ord f xs (fst wa2, a3)"
      using "2.hyps" True by (simp add: dfs.psimps Let_def a1_def wa2_def a3_def)
    have "unmarked i (fst (dfs nx i ord f xs (fst wa2, a3))) \<le> unmarked i (fst wa2)"
      using IH2 unfolding a1_def wa2_def a3_def by (simp only: fst_conv)
    also have "\<dots> \<le> unmarked i ((fst wa)[x := i])"
      using IH1 unfolding a1_def wa2_def by (simp only: fst_conv)
    also have "\<dots> \<le> unmarked i (fst wa)"
      by (rule unmarked_update_le)
    finally show ?thesis unfolding eq .
  next
    case False
    show ?thesis using "2.IH"(3) [OF False]
      unfolding dfs.psimps(2) [OF "2.hyps"] if_not_P [OF False] .
  qed
qed

termination dfs
proof (relation "inv_image (less_than <*lex*> less_than)
    (\<lambda>(nx, i, ord, f, xs, wa). (unmarked i (fst wa), length xs))")
  fix nx i and ord :: walk_order and f :: "node_ref \<Rightarrow> 'a \<Rightarrow> 'a" and x xs
    and wa :: "8 word list \<times> 'a" and a1 wa2 and a3 :: 'a
  assume g: "x < length (fst wa) \<and> fst wa ! x \<noteq> i"
    and dom: "dfs_dom (nx, i, ord, f, nx x, (fst wa)[x := i], a1)"
    and wa2: "wa2 = dfs nx i ord f (nx x) ((fst wa)[x := i], a1)"
  have "unmarked i (fst wa2) \<le> unmarked i ((fst wa)[x := i])"
    using dfs_unmarked_le [OF dom] wa2 by simp
  also have "\<dots> < unmarked i (fst wa)" using g by (simp add: unmarked_update)
  finally show "((nx, i, ord, f, xs, fst wa2, a3), nx, i, ord, f, x # xs, wa)
      \<in> inv_image (less_than <*lex*> less_than)
         (\<lambda>(nx, i, ord, f, xs, wa). (unmarked i (fst wa), length xs))"
    by simp
qed (auto simp: unmarked_update)

text \<open>The lambda \<^verbatim>\<open>reach\<close> called on a node that is already marked.\<close>

definition reach ::
  "(node_ref \<Rightarrow> node_ref list) \<Rightarrow> 8 word \<Rightarrow> walk_order \<Rightarrow> (node_ref \<Rightarrow> 'a \<Rightarrow> 'a)
     \<Rightarrow> node_ref \<Rightarrow> 8 word list \<times> 'a \<Rightarrow> 8 word list \<times> 'a" where
  "reach nx i ord f x wa =
     (let a1 = (if ord = COMMAND_GRAPH_WALK_ORDER_PRE then f x (snd wa) else snd wa);
          wa2 = dfs nx i ord f (nx x) (fst wa, a1)
      in (fst wa2, if ord = COMMAND_GRAPH_WALK_ORDER_POST then f x (snd wa2) else snd wa2))"

text \<open>\<open>dfs\<close> is the loop that calls \<open>reach\<close>.\<close>

lemma dfs_loop:
  "dfs nx i ord f (x # xs) (w, a) =
     (if x < length w \<and> w ! x \<noteq> i then dfs nx i ord f xs (reach nx i ord f x (w[x := i], a))
      else dfs nx i ord f xs (w, a))"
  by (simp add: reach_def Let_def)

subsection \<open>Breadth-first\<close>

text \<open>The inner loop: mark and push the unmarked successors.\<close>

fun bfs_push :: "8 word \<Rightarrow> node_ref list \<Rightarrow> 8 word list \<Rightarrow> node_ref list \<Rightarrow> 8 word list \<times> node_ref list" where
  "bfs_push i [] w q = (w, q)"
| "bfs_push i (y # ys) w q =
     (if y < length w \<and> w ! y \<noteq> i then bfs_push i ys (w[y := i]) (q @ [y])
      else bfs_push i ys w q)"

lemma bfs_push_measure:
  "bfs_push i ys w q = (w', q') \<Longrightarrow> unmarked i w' + length q' \<le> unmarked i w + length q"
proof (induction i ys w q rule: bfs_push.induct)
  case (1 i w q)
  then show ?case by simp
next
  case (2 i y ys w q)
  then show ?case
    using unmarked_update [of y w i] by (fastforce split: if_splits)
qed

function (sequential) bfs ::
  "(node_ref \<Rightarrow> node_ref list) \<Rightarrow> 8 word \<Rightarrow> (node_ref \<Rightarrow> 'a \<Rightarrow> 'a)
     \<Rightarrow> node_ref list \<Rightarrow> 8 word list \<times> 'a \<Rightarrow> 8 word list \<times> 'a" where
  "bfs nx i f [] wa = wa"
| "bfs nx i f (x # q) wa =
     (let a1 = f x (snd wa); wq = bfs_push i (nx x) (fst wa) q
      in bfs nx i f (snd wq) (fst wq, a1))"
  by pat_completeness auto
termination
proof (relation "measure (\<lambda>(nx, i, f, q, wa). unmarked i (fst wa) + length q)")
  fix nx :: "node_ref \<Rightarrow> node_ref list" and i and f :: "node_ref \<Rightarrow> 'a \<Rightarrow> 'a" and x q
    and wa :: "8 word list \<times> 'a" and a1 :: 'a and wq
  assume "wq = bfs_push i (nx x) (fst wa) q"
  then have "unmarked i (fst wq) + length (snd wq) \<le> unmarked i (fst wa) + length q"
    using bfs_push_measure [of i "nx x" "fst wa" q "fst wq" "snd wq"] by simp
  then show "((nx, i, f, snd wq, fst wq, a1), nx, i, f, x # q, wa)
      \<in> measure (\<lambda>(nx, i, f, q, wa). unmarked i (fst wa) + length q)"
    by simp
qed simp

subsection \<open>Walks as visit sequences\<close>

text \<open>
  What a walk does is determined by the sequence of nodes it calls back on: the result of a
  walk is the fold of the call-back over that sequence.
\<close>

definition dfs_visits ::
  "(node_ref \<Rightarrow> node_ref list) \<Rightarrow> 8 word \<Rightarrow> walk_order \<Rightarrow> node_ref list \<Rightarrow> 8 word list
     \<Rightarrow> 8 word list \<times> node_ref list" where
  "dfs_visits nx i ord xs w = dfs nx i ord (\<lambda>x vs. vs @ [x]) xs (w, [])"

definition bfs_visits ::
  "(node_ref \<Rightarrow> node_ref list) \<Rightarrow> 8 word \<Rightarrow> node_ref list \<Rightarrow> 8 word list
     \<Rightarrow> 8 word list \<times> node_ref list" where
  "bfs_visits nx i q w = bfs nx i (\<lambda>x vs. vs @ [x]) q (w, [])"

lemma dfs_commute:
  assumes "\<And>x a. f x (h a) = h (f x a)"
  shows "dfs nx i ord f xs (fst wa, h (snd wa)) =
    (fst (dfs nx i ord f xs wa), h (snd (dfs nx i ord f xs wa)))"
  using assms
proof (induction nx i ord f xs wa rule: dfs.induct)
  case (1 nx i ord f wa)
  then show ?case by simp
next
  case (2 nx i ord f x xs wa)
  show ?case
  proof (cases "x < length (fst wa) \<and> fst wa ! x \<noteq> i")
    case True
    note IH1 = "2.IH"(1) [OF True refl "2.prems"]
      and IH2 = "2.IH"(2) [OF True refl refl refl "2.prems"]
    show ?thesis
      using True IH1 IH2 by (cases ord) (simp_all add: Let_def "2.prems")
  next
    case False
    then show ?thesis using "2.IH"(3) [OF False "2.prems"] by auto
  qed
qed

lemma dfs_append_shift:
  "dfs nx i ord (\<lambda>x vs. vs @ [x]) xs (w, l) =
     (fst (dfs_visits nx i ord xs w), l @ snd (dfs_visits nx i ord xs w))"
  using dfs_commute [of "\<lambda>x vs. vs @ [x]" "\<lambda>vs. l @ vs" nx i ord xs "(w, [])"]
  by (simp add: dfs_visits_def)

lemma dfs_visits_Nil [simp]: "dfs_visits nx i ord [] w = (w, [])"
  by (simp add: dfs_visits_def)

lemma dfs_visits_Cons:
  "dfs_visits nx i ord (x # xs) w =
     (if x < length w \<and> w ! x \<noteq> i then
        let (w2, vs2) = dfs_visits nx i ord (nx x) (w[x := i]);
            (w3, vs3) = dfs_visits nx i ord xs w2
        in (w3, (if ord = COMMAND_GRAPH_WALK_ORDER_PRE then x # vs2 else vs2 @ [x]) @ vs3)
      else dfs_visits nx i ord xs w)"
proof (cases "x < length w \<and> w ! x \<noteq> i")
  case True
  obtain w2 vs2 where v2: "dfs_visits nx i ord (nx x) (w[x := i]) = (w2, vs2)"
    by (cases "dfs_visits nx i ord (nx x) (w[x := i])")
  obtain w3 vs3 where v3: "dfs_visits nx i ord xs w2 = (w3, vs3)"
    by (cases "dfs_visits nx i ord xs w2")
  show ?thesis
  proof (cases ord)
    case COMMAND_GRAPH_WALK_ORDER_PRE
    then show ?thesis
      using True v2 v3 dfs_append_shift [of nx i ord "nx x" "w[x := i]" "[x]"]
        dfs_append_shift [of nx i ord xs w2 "x # vs2"]
      by (simp add: dfs_visits_def [of nx i _ "x # xs"] Let_def)
  next
    case COMMAND_GRAPH_WALK_ORDER_POST
    then show ?thesis
      using True v2 v3 dfs_append_shift [of nx i ord "nx x" "w[x := i]" "[]"]
        dfs_append_shift [of nx i ord xs w2 "vs2 @ [x]"]
      by (simp add: dfs_visits_def [of nx i _ "x # xs"] Let_def)
  qed
next
  case False
  then show ?thesis unfolding dfs_visits_def by (simp only: dfs.simps(2) fst_conv if_False)
qed

lemma dfs_visits_skip:
  "\<not> (x < length w \<and> w ! x \<noteq> i) \<Longrightarrow> dfs_visits nx i ord (x # xs) w = dfs_visits nx i ord xs w"
  by (simp only: dfs_visits_Cons if_False)

lemma dfs_eq_fold:
  "dfs nx i ord f xs wa =
     (fst (dfs_visits nx i ord xs (fst wa)), fold f (snd (dfs_visits nx i ord xs (fst wa))) (snd wa))"
proof (induction nx i ord f xs wa rule: dfs.induct)
  case (1 nx i ord f wa)
  then show ?case by simp
next
  case (2 nx i ord f x xs wa)
  show ?case
  proof (cases "x < length (fst wa) \<and> fst wa ! x \<noteq> i")
    case True
    note IH1 = "2.IH"(1) [OF True refl] and IH2 = "2.IH"(2) [OF True refl refl refl]
    show ?thesis
      using True IH1 IH2 by (cases ord) (simp_all add: dfs_visits_Cons Let_def split: prod.split)
  next
    case False
    then show ?thesis using "2.IH"(3) [OF False] by (auto simp: dfs_visits_Cons)
  qed
qed

lemma bfs_commute:
  assumes "\<And>x a. f x (h a) = h (f x a)"
  shows "bfs nx i f q (fst wa, h (snd wa)) =
    (fst (bfs nx i f q wa), h (snd (bfs nx i f q wa)))"
  using assms
proof (induction nx i f q wa rule: bfs.induct)
  case (2 nx i f x q wa)
  show ?case using "2.IH" [OF refl refl "2.prems"] by (simp add: Let_def "2.prems")
qed simp

lemma bfs_append_shift:
  "bfs nx i (\<lambda>x vs. vs @ [x]) q (w, l) =
     (fst (bfs_visits nx i q w), l @ snd (bfs_visits nx i q w))"
  using bfs_commute [of "\<lambda>x vs. vs @ [x]" "\<lambda>vs. l @ vs" nx i q "(w, [])"]
  by (simp add: bfs_visits_def)

lemma bfs_visits_Nil [simp]: "bfs_visits nx i [] w = (w, [])"
  by (simp add: bfs_visits_def)

lemma bfs_visits_Cons:
  "bfs_visits nx i (x # q) w =
     (let (w1, q1) = bfs_push i (nx x) w q; (w2, vs) = bfs_visits nx i q1 w1 in (w2, x # vs))"
proof -
  obtain w1 q1 where "bfs_push i (nx x) w q = (w1, q1)" by force
  then show ?thesis
    using bfs_append_shift [of nx i q1 w1 "[x]"]
    by (simp add: bfs_visits_def [of nx i "x # q"] Let_def split: prod.split)
qed

lemma bfs_eq_fold:
  "bfs nx i f q wa =
     (fst (bfs_visits nx i q (fst wa)), fold f (snd (bfs_visits nx i q (fst wa))) (snd wa))"
proof (induction nx i f q wa rule: bfs.induct)
  case (2 nx i f x q wa)
  show ?case using "2.IH" [OF refl refl]
    by (simp add: bfs_visits_Cons Let_def split: prod.split)
qed simp

end
