(* ===== verification/Walk_Facts.thy ===== *)
theory Walk_Facts
  imports Walk_Core
begin

text \<open>
  What the traversals visit. For both searches: no node twice, exactly the nodes that become
  marked, everything reachable, nothing else. For the depth-first post-order: a node comes
  after all its successors when the graph is acyclic. The interface \<open>traversal\<close> collects
  what the callers of a walk rely on.
\<close>

definition marked :: "8 word \<Rightarrow> 8 word list \<Rightarrow> node_ref set" where
  "marked i w = {x. x < length w \<and> w ! x = i}"

definition succ_rel :: "(node_ref \<Rightarrow> node_ref list) \<Rightarrow> (node_ref \<times> node_ref) set" where
  "succ_rel nx = {(a, b). b \<in> set (nx a)}"

lemma marked_update: "x < length w \<Longrightarrow> marked i (w[x := i]) = insert x (marked i w)"
  by (auto simp: marked_def nth_list_update)

lemma marked_iff: "x < length w \<Longrightarrow> x \<in> marked i w \<longleftrightarrow> w ! x = i"
  by (simp add: marked_def)

subsection \<open>Depth-first visits\<close>

lemma dfs_visits_induct [case_names Nil Visit Skip]:
  assumes "\<And>w. P [] w"
    and "\<And>x xs w. x < length w \<Longrightarrow> w ! x \<noteq> i \<Longrightarrow> P (nx x) (w[x := i]) \<Longrightarrow>
           P xs (fst (dfs_visits nx i ord (nx x) (w[x := i]))) \<Longrightarrow> P (x # xs) w"
    and "\<And>x xs w. \<not> (x < length w \<and> w ! x \<noteq> i) \<Longrightarrow> P xs w \<Longrightarrow> P (x # xs) w"
  shows "P xs w"
proof -
  have "P xs (fst wa)" for wa :: "8 word list \<times> unit"
    using assms
  proof (induction nx i ord "\<lambda>(_ :: node_ref) (a :: unit). a" xs wa rule: dfs.induct)
    case (1 nx i ord wa)
    then show ?case by simp
  next
    case (2 nx i ord x xs wa)
    show ?case
    proof (cases "x < length (fst wa) \<and> fst wa ! x \<noteq> i")
      case True
      have "P (nx x) ((fst wa)[x := i])"
        using "2.hyps"(1) [OF True refl "2.prems"] by simp
      moreover have "P xs (fst (dfs_visits nx i ord (nx x) ((fst wa)[x := i])))"
        using "2.hyps"(2) [OF True refl refl refl "2.prems"] by (simp add: dfs_eq_fold)
      ultimately show ?thesis using "2.prems"(2) True by blast
    next
      case False
      then show ?thesis using "2.hyps"(3) [OF False "2.prems"] "2.prems"(3) by blast
    qed
  qed
  from this [of "(w, ())"] show ?thesis by simp
qed

lemma dfs_visits_marks:
  "length (fst (dfs_visits nx i ord xs w)) = length w \<and>
   marked i (fst (dfs_visits nx i ord xs w)) = marked i w \<union> set (snd (dfs_visits nx i ord xs w)) \<and>
   marked i w \<inter> set (snd (dfs_visits nx i ord xs w)) = {} \<and>
   distinct (snd (dfs_visits nx i ord xs w)) \<and>
   (\<forall>y. y \<notin> set (snd (dfs_visits nx i ord xs w)) \<longrightarrow> fst (dfs_visits nx i ord xs w) ! y = w ! y)"
proof (induction xs w rule: dfs_visits_induct [where nx = nx and i = i and ord = ord])
  case (Nil w)
  then show ?case by simp
next
  case (Visit x xs w)
  obtain w2 vs2 where v2: "dfs_visits nx i ord (nx x) (w[x := i]) = (w2, vs2)" by force
  obtain w3 vs3 where v3: "dfs_visits nx i ord xs w2 = (w3, vs3)" by force
  note IH1 = Visit.IH(1) [unfolded v2 fst_conv snd_conv]
    and IH2 = Visit.IH(2) [unfolded v2 v3 fst_conv snd_conv]
  have x: "x \<notin> marked i w" and mx: "marked i (w[x := i]) = insert x (marked i w)"
    using Visit.hyps by (simp_all add: marked_iff marked_update)
  show ?case
    using IH1 IH2 Visit.hyps v2 v3 x mx
    by (simp add: dfs_visits_Cons) (auto simp: nth_list_update)
next
  case (Skip x xs w)
  show ?case unfolding dfs_visits_skip [OF Skip.hyps] by (rule Skip.IH)
qed

lemmas dfs_visits_length = dfs_visits_marks [THEN conjunct1]
  and dfs_visits_marked = dfs_visits_marks [THEN conjunct2, THEN conjunct1]
  and dfs_visits_new = dfs_visits_marks [THEN conjunct2, THEN conjunct2, THEN conjunct1]
  and dfs_visits_distinct =
    dfs_visits_marks [THEN conjunct2, THEN conjunct2, THEN conjunct2, THEN conjunct1]

lemma dfs_visits_covers:
  "x \<in> set xs \<Longrightarrow> x < length w \<Longrightarrow> x \<in> marked i (fst (dfs_visits nx i ord xs w))"
proof (induction xs w rule: dfs_visits_induct [where nx = nx and i = i and ord = ord])
  case (Nil w)
  then show ?case by simp
next
  case (Visit z xs w)
  obtain w2 vs2 where v2: "dfs_visits nx i ord (nx z) (w[z := i]) = (w2, vs2)" by force
  obtain w3 vs3 where v3: "dfs_visits nx i ord xs w2 = (w3, vs3)" by force
  have "length w2 = length w"
    using dfs_visits_length [of nx i ord "nx z" "w[z := i]"] v2 by simp
  moreover have "z \<in> marked i w3"
    using dfs_visits_marked [of i nx ord "nx z" "w[z := i]"] v2
      dfs_visits_marked [of i nx ord xs w2] v3 Visit.hyps by (simp add: marked_update)
  ultimately show ?case
    using Visit v2 v3 by (auto simp: dfs_visits_Cons)
next
  case (Skip z xs w)
  show ?case
  proof (cases "x = z")
    case True
    with Skip have "x \<in> marked i w" by (simp add: marked_iff)
    then show ?thesis
      unfolding dfs_visits_skip [OF Skip.hyps] dfs_visits_marked by simp
  next
    case False
    with Skip show ?thesis unfolding dfs_visits_skip [OF Skip.hyps] by simp
  qed
qed

lemma dfs_visits_closed:
  "x \<in> set (snd (dfs_visits nx i ord xs w)) \<Longrightarrow> y \<in> set (nx x) \<Longrightarrow> y < length w \<Longrightarrow>
     y \<in> marked i (fst (dfs_visits nx i ord xs w))"
proof (induction xs w rule: dfs_visits_induct [where nx = nx and i = i and ord = ord])
  case (Nil w)
  then show ?case by simp
next
  case (Visit z xs w)
  obtain w2 vs2 where v2: "dfs_visits nx i ord (nx z) (w[z := i]) = (w2, vs2)" by force
  obtain w3 vs3 where v3: "dfs_visits nx i ord xs w2 = (w3, vs3)" by force
  have len: "length w2 = length w"
    using dfs_visits_length [of nx i ord "nx z" "w[z := i]"] v2 by simp
  have sub: "marked i w2 \<subseteq> marked i w3"
    using dfs_visits_marked [of i nx ord xs w2] v3 by simp
  have "x = z \<or> x \<in> set vs2 \<or> x \<in> set vs3"
    using Visit.prems(1) Visit.hyps v2 v3 by (auto simp: dfs_visits_Cons split: if_splits)
  moreover have "x = z \<Longrightarrow> y \<in> marked i w2"
    using dfs_visits_covers [of y "nx z" "w[z := i]" i nx ord] Visit.prems v2 by simp
  moreover have "x \<in> set vs2 \<Longrightarrow> y \<in> marked i w2" and "x \<in> set vs3 \<Longrightarrow> y \<in> marked i w3"
    using Visit.IH Visit.prems(2,3) v2 v3 len by simp_all
  ultimately have "y \<in> marked i w3" using sub by blast
  then show ?case using Visit.hyps v2 v3 by (simp add: dfs_visits_Cons)
next
  case (Skip z xs w)
  then show ?case unfolding dfs_visits_skip [OF Skip.hyps] by blast
qed

lemma dfs_visits_sound:
  "y \<in> set (snd (dfs_visits nx i ord xs w)) \<Longrightarrow> \<exists>x\<in>set xs. (x, y) \<in> (succ_rel nx)\<^sup>*"
proof (induction xs w rule: dfs_visits_induct [where nx = nx and i = i and ord = ord])
  case (Nil w)
  then show ?case by simp
next
  case (Visit z xs w)
  obtain w2 vs2 where v2: "dfs_visits nx i ord (nx z) (w[z := i]) = (w2, vs2)" by force
  obtain w3 vs3 where v3: "dfs_visits nx i ord xs w2 = (w3, vs3)" by force
  have "y = z \<or> y \<in> set vs2 \<or> y \<in> set vs3"
    using Visit.prems(1) Visit.hyps v2 v3 by (auto simp: dfs_visits_Cons split: if_splits)
  moreover have "y \<in> set vs2 \<Longrightarrow> (z, y) \<in> (succ_rel nx)\<^sup>*"
    using Visit.IH(1) v2 by (auto simp: succ_rel_def intro: converse_rtrancl_into_rtrancl)
  ultimately show ?case using Visit.IH(2) v2 v3 by auto
next
  case (Skip z xs w)
  then show ?case unfolding dfs_visits_skip [OF Skip.hyps] by auto
qed

lemma dfs_visits_in_range: "set (snd (dfs_visits nx i ord xs w)) \<subseteq> {..<length w}"
  using dfs_visits_marked [of i nx ord xs w] dfs_visits_length [of nx i ord xs w]
  by (auto simp: marked_def)

subsection \<open>Post-order is a reverse topological order\<close>

lemma dfs_visits_post_order:
  assumes "acyclic (succ_rel nx)"
  shows "snd (dfs_visits nx i COMMAND_GRAPH_WALK_ORDER_POST xs w) = as @ z # bs \<Longrightarrow>
    y \<in> set (nx z) \<Longrightarrow> y < length w \<Longrightarrow> y \<in> marked i w \<union> set as"
proof (induction xs w arbitrary: as bs
    rule: dfs_visits_induct [where nx = nx and i = i and ord = COMMAND_GRAPH_WALK_ORDER_POST])
  case (Nil w)
  then show ?case by simp
next
  case (Visit x xs w)
  let ?V = "dfs_visits nx i COMMAND_GRAPH_WALK_ORDER_POST"
  obtain w2 vs2 where v2: "?V (nx x) (w[x := i]) = (w2, vs2)" by force
  obtain w3 vs3 where v3: "?V xs w2 = (w3, vs3)" by force
  have len: "length w2 = length w"
    using dfs_visits_length [of nx i COMMAND_GRAPH_WALK_ORDER_POST "nx x" "w[x := i]"] v2 by simp
  have m2: "marked i w2 = insert x (marked i w) \<union> set vs2"
    using dfs_visits_marked [of i nx COMMAND_GRAPH_WALK_ORDER_POST "nx x" "w[x := i]"] v2 Visit.hyps
    by (simp add: marked_update)
  have "vs2 @ x # vs3 = as @ z # bs"
    using Visit.prems(1) Visit.hyps v2 v3 by (simp add: dfs_visits_Cons)
  then consider (inner) us where "vs2 = as @ z # us"
    | (self) "as = vs2" "z = x"
    | (later) us where "as = vs2 @ x # us" "vs3 = us @ z # bs"
    by (auto simp: append_eq_append_conv2 append_eq_Cons_conv Cons_eq_append_conv)
  then show ?case
  proof cases
    case inner
    then have z: "z \<in> set vs2" by simp
    have "(x, z) \<in> (succ_rel nx)\<^sup>+"
      using dfs_visits_sound [of z nx i COMMAND_GRAPH_WALK_ORDER_POST "nx x" "w[x := i]"] v2 z
      by (auto simp: succ_rel_def intro: rtrancl_into_trancl2)
    then have "y \<noteq> x"
      using assms Visit.prems(2) unfolding acyclic_def succ_rel_def
      by (metis (mono_tags, lifting) case_prodI mem_Collect_eq trancl.trancl_into_trancl)
    moreover have "y \<in> marked i (w[x := i]) \<union> set as"
      using Visit.IH(1) [of as us] v2 inner Visit.prems(2,3) by simp
    ultimately show ?thesis using Visit.hyps by (simp add: marked_update)
  next
    case self
    have "y \<noteq> x"
      using assms Visit.prems(2) self unfolding acyclic_def succ_rel_def by blast
    moreover have "y \<in> marked i w2"
      using dfs_visits_covers [of y "nx x" "w[x := i]" i nx COMMAND_GRAPH_WALK_ORDER_POST]
        Visit.prems(2,3) self v2 by simp
    ultimately show ?thesis using self m2 by blast
  next
    case later
    have "y \<in> marked i w2 \<union> set us"
      using Visit.IH(2) [of us bs] v2 v3 later Visit.prems(2,3) len by simp
    then show ?thesis using later m2 by auto
  qed
next
  case (Skip x xs w)
  show ?case
    using Skip.IH Skip.prems unfolding dfs_visits_skip [OF Skip.hyps] by blast
qed

text \<open>Only the successors of nodes in a closed set matter.\<close>

lemma dfs_visits_cong:
  assumes "\<And>x. x \<in> V \<Longrightarrow> nx x = nx' x" "\<And>x. x \<in> V \<Longrightarrow> set (nx x) \<subseteq> V"
  shows "set xs \<subseteq> V \<Longrightarrow> dfs_visits nx i ord xs w = dfs_visits nx' i ord xs w"
proof (induction xs w rule: dfs_visits_induct [where nx = nx and i = i and ord = ord])
  case (Nil w)
  then show ?case by simp
next
  case (Visit x xs w)
  then have "set (nx x) \<subseteq> V" "nx' x = nx x" using assms by auto
  then show ?case
    using Visit by (cases "dfs_visits nx' i ord (nx x) (w[x := i])") (simp add: dfs_visits_Cons)
next
  case (Skip x xs w)
  then show ?case by (simp add: dfs_visits_skip [OF Skip.hyps])
qed

subsection \<open>Breadth-first visits\<close>

lemma bfs_push_marks:
  "length (fst (bfs_push i ys w q)) = length w \<and>
   (\<exists>zs. snd (bfs_push i ys w q) = q @ zs \<and> distinct zs \<and> set zs \<subseteq> set ys \<and>
      marked i w \<inter> set zs = {} \<and> marked i (fst (bfs_push i ys w q)) = marked i w \<union> set zs \<and>
      (\<forall>y\<in>set ys. y < length w \<longrightarrow> y \<in> marked i w \<union> set zs) \<and>
      (\<forall>y. y \<notin> set zs \<longrightarrow> fst (bfs_push i ys w q) ! y = w ! y))"
proof (induction i ys w q rule: bfs_push.induct)
  case (1 i w q)
  then show ?case by simp
next
  case (2 i y ys w q)
  show ?case
  proof (cases "y < length w \<and> w ! y \<noteq> i")
    case True
    from "2.IH"(1) [OF True] obtain zs where zs:
      "length (fst (bfs_push i ys (w[y := i]) (q @ [y]))) = length w"
      "snd (bfs_push i ys (w[y := i]) (q @ [y])) = (q @ [y]) @ zs"
      "distinct zs" "set zs \<subseteq> set ys" "insert y (marked i w) \<inter> set zs = {}"
      "marked i (fst (bfs_push i ys (w[y := i]) (q @ [y]))) = insert y (marked i w) \<union> set zs"
      "\<forall>z\<in>set ys. z < length w \<longrightarrow> z \<in> insert y (marked i w) \<union> set zs"
      "\<forall>z. z \<notin> set zs \<longrightarrow> fst (bfs_push i ys (w[y := i]) (q @ [y])) ! z = w[y := i] ! z"
      using True by (auto simp: marked_update)
    have "y \<notin> marked i w" using True by (simp add: marked_def)
    then show ?thesis
      using zs True by (intro conjI exI [of _ "y # zs"]) auto
  next
    case False
    have "y < length w \<Longrightarrow> y \<in> marked i w" using False by (simp add: marked_def)
    then show ?thesis
      using "2.IH"(2) [OF False] unfolding bfs_push.simps if_not_P [OF False]
      by (auto 0 3)
  qed
qed

lemma bfs_visits_induct [case_names Nil Visit]:
  assumes "\<And>w. P [] w"
    and "\<And>x q w. P (snd (bfs_push i (nx x) w q)) (fst (bfs_push i (nx x) w q)) \<Longrightarrow> P (x # q) w"
  shows "P q w"
proof -
  have "P q (fst wa)" for wa :: "8 word list \<times> unit"
    using assms
  proof (induction nx i "\<lambda>(_ :: node_ref) (a :: unit). a" q wa rule: bfs.induct)
    case (2 nx i x q wa)
    show ?case using "2.hyps" [OF refl refl "2.prems"] "2.prems"(2) by simp
  qed simp
  from this [of "(w, ())"] show ?thesis by simp
qed

lemma bfs_visits_step:
  obtains zs w1 w2 vs where
    "bfs_push i (nx x) w q = (w1, q @ zs)" "bfs_visits nx i (q @ zs) w1 = (w2, vs)"
    "bfs_visits nx i (x # q) w = (w2, x # vs)" "length w1 = length w"
    "distinct zs" "set zs \<subseteq> set (nx x)" "marked i w \<inter> set zs = {}"
    "marked i w1 = marked i w \<union> set zs"
    "\<forall>y\<in>set (nx x). y < length w \<longrightarrow> y \<in> marked i w1"
    "\<forall>y. y \<notin> set zs \<longrightarrow> w1 ! y = w ! y"
proof -
  obtain w1 q1 where p: "bfs_push i (nx x) w q = (w1, q1)" by force
  obtain w2 vs where v: "bfs_visits nx i q1 w1 = (w2, vs)" by force
  have e: "bfs_visits nx i (x # q) w = (w2, x # vs)" using p v by (simp add: bfs_visits_Cons)
  show ?thesis using that bfs_push_marks [of i "nx x" w q] p v e by auto
qed

lemma bfs_visits_marks:
  "set q \<subseteq> marked i w \<Longrightarrow> distinct q \<Longrightarrow>
   length (fst (bfs_visits nx i q w)) = length w \<and>
   marked i (fst (bfs_visits nx i q w)) = marked i w \<union> set (snd (bfs_visits nx i q w)) \<and>
   marked i w \<inter> set (snd (bfs_visits nx i q w)) = set q \<and>
   distinct (snd (bfs_visits nx i q w)) \<and>
   (\<forall>y. y \<notin> set (snd (bfs_visits nx i q w)) \<longrightarrow> fst (bfs_visits nx i q w) ! y = w ! y)"
proof (induction q w rule: bfs_visits_induct [where nx = nx and i = i])
  case (Nil w)
  then show ?case by simp
next
  case (Visit x q w)
  from bfs_visits_step [of i nx x w q] obtain zs w1 w2 vs where s:
    "bfs_push i (nx x) w q = (w1, q @ zs)" "bfs_visits nx i (q @ zs) w1 = (w2, vs)"
    "bfs_visits nx i (x # q) w = (w2, x # vs)" "length w1 = length w"
    "distinct zs" "marked i w \<inter> set zs = {}" "marked i w1 = marked i w \<union> set zs"
    "\<forall>y. y \<notin> set zs \<longrightarrow> w1 ! y = w ! y" by metis
  have "set (q @ zs) \<subseteq> marked i w1" "distinct (q @ zs)" using s Visit.prems by auto
  then have IH: "length w2 = length w1 \<and> marked i w2 = marked i w1 \<union> set vs \<and>
      marked i w1 \<inter> set vs = set (q @ zs) \<and> distinct vs \<and> (\<forall>y. y \<notin> set vs \<longrightarrow> w2 ! y = w1 ! y)"
    using Visit.IH s(1,2) by simp
  have x: "x \<notin> set vs" "x \<in> marked i w" using IH s Visit.prems by auto
  show ?case using IH s x Visit.prems unfolding s(3) fst_conv snd_conv by auto
qed

lemma bfs_visits_closed:
  "set q \<subseteq> marked i w \<Longrightarrow> distinct q \<Longrightarrow>
   x \<in> set (snd (bfs_visits nx i q w)) \<Longrightarrow> y \<in> set (nx x) \<Longrightarrow> y < length w \<Longrightarrow>
     y \<in> marked i (fst (bfs_visits nx i q w))"
proof (induction q w rule: bfs_visits_induct [where nx = nx and i = i])
  case (Nil w)
  then show ?case by simp
next
  case (Visit z q w)
  from bfs_visits_step [of i nx z w q] obtain zs w1 w2 vs where s:
    "bfs_push i (nx z) w q = (w1, q @ zs)" "bfs_visits nx i (q @ zs) w1 = (w2, vs)"
    "bfs_visits nx i (z # q) w = (w2, z # vs)" "length w1 = length w"
    "distinct zs" "marked i w \<inter> set zs = {}" "marked i w1 = marked i w \<union> set zs"
    "\<forall>y\<in>set (nx z). y < length w \<longrightarrow> y \<in> marked i w1" by metis
  have q: "set (q @ zs) \<subseteq> marked i w1" "distinct (q @ zs)" using s Visit.prems by auto
  have "marked i w1 \<subseteq> marked i w2"
    using bfs_visits_marks [OF q, of nx] s(2) by auto
  moreover have "x \<in> set vs \<Longrightarrow> y \<in> marked i w2"
    using Visit.IH q Visit.prems(4,5) s(1,2,4) by simp
  moreover have "x = z \<or> x \<in> set vs" using Visit.prems(3) s(3) by simp
  ultimately show ?case using s Visit.prems(4,5) by auto
qed

lemma bfs_visits_sound:
  "y \<in> set (snd (bfs_visits nx i q w)) \<Longrightarrow> \<exists>x\<in>set q. (x, y) \<in> (succ_rel nx)\<^sup>*"
proof (induction q w rule: bfs_visits_induct [where nx = nx and i = i])
  case (Nil w)
  then show ?case by simp
next
  case (Visit z q w)
  from bfs_visits_step [of i nx z w q] obtain zs w1 w2 vs where s:
    "bfs_push i (nx z) w q = (w1, q @ zs)" "bfs_visits nx i (q @ zs) w1 = (w2, vs)"
    "bfs_visits nx i (z # q) w = (w2, z # vs)" "set zs \<subseteq> set (nx z)" by metis
  have "y = z \<or> y \<in> set vs" using Visit.prems s(3) by simp
  moreover have "\<exists>x\<in>set (z # q). (x, y) \<in> (succ_rel nx)\<^sup>*" if vs: "y \<in> set vs"
  proof -
    from vs obtain x where x: "x \<in> set q \<union> set zs" "(x, y) \<in> (succ_rel nx)\<^sup>*"
      using Visit.IH s(1,2) by auto
    show ?thesis
    proof (cases "x \<in> set q")
      case False
      then have "(z, x) \<in> succ_rel nx" using x(1) s(4) by (auto simp: succ_rel_def)
      then show ?thesis using x(2) by (auto intro: converse_rtrancl_into_rtrancl)
    qed (use x(2) in auto)
  qed
  ultimately show ?case by auto
qed

end
