(* ===== verification/Walk.thy ===== *)
theory Walk
  imports Walk_Facts
begin

text \<open>
  Walks of a command graph (\<^verbatim>\<open>command_graph_t::walk\<close>, \<^verbatim>\<open>command_graph_node_t::walk\<close> and
  \<^verbatim>\<open>create_node_iterators\<close> of \<^verbatim>\<open>include/cgir/command-graph.hpp\<close>,
  \<^verbatim>\<open>command_graph_t::coherence_checks\<close> of \<^verbatim>\<open>src/pod/command-graph.cc\<close>) on a store, with the
  \<^verbatim>\<open>int8_t\<close> walk identifiers of the source. The interface \<open>traversal\<close> states what a search
  promises; both searches interpret it, and the walks inherit exactness from it: as long as
  the identifier of the walk is on no other node, a walk calls back exactly once on every
  node reachable from its start.
\<close>

subsection \<open>The walk of a node and of a graph\<close>

definition node_walk ::
  "walk_search \<Rightarrow> walk_order \<Rightarrow> (node_ref \<Rightarrow> node_ref list) \<Rightarrow> 8 word \<Rightarrow> (node_ref \<Rightarrow> 'a \<Rightarrow> 'a)
     \<Rightarrow> node_ref \<Rightarrow> 8 word list \<times> 'a \<Rightarrow> 8 word list \<times> 'a" where
  "node_walk search ord nx i f u wa =
     (case search of
        COMMAND_GRAPH_WALK_SEARCH_DFS \<Rightarrow> reach nx i ord f u wa
      | COMMAND_GRAPH_WALK_SEARCH_BFS \<Rightarrow> bfs nx i f [u] wa)"

definition marks :: "store \<Rightarrow> 8 word list" where
  "marks s = map walk_id (nodes s)"

definition put_marks :: "8 word list \<Rightarrow> store \<Rightarrow> store" where
  "put_marks w s = s\<lparr>nodes := map2 (\<lambda>n m. n\<lparr>walk_id := m\<rparr>) (nodes s) w\<rparr>"

text \<open>
  \<^verbatim>\<open>node->walk_id = ++this->walk_id\<close> whatever the node's mark was, then the search. The
  call-back reads and updates the store and a state of its own; the library's call-backs
  leave adjacency and marks alone.
\<close>

definition walk ::
  "walk_search \<Rightarrow> walk_order \<Rightarrow> graph_ref \<Rightarrow> node_ref \<Rightarrow> (node_ref \<Rightarrow> store \<times> 'a \<Rightarrow> store \<times> 'a)
     \<Rightarrow> store \<times> 'a \<Rightarrow> store \<times> 'a" where
  "walk search ord g u f sa =
     (let i = graph_walk_id (graph_at (fst sa) g) + 1;
          s1 = upd_graph g (\<lambda>gr. gr\<lparr>graph_walk_id := i\<rparr>) (fst sa);
          r = node_walk search ord (\<lambda>x. succs s1 x) i f u ((marks s1)[u := i], (s1, snd sa))
      in (put_marks (fst r) (fst (snd r)), snd (snd r)))"

definition walk_from_entry ::
  "walk_search \<Rightarrow> walk_order \<Rightarrow> graph_ref \<Rightarrow> (node_ref \<Rightarrow> store \<times> 'a \<Rightarrow> store \<times> 'a)
     \<Rightarrow> store \<times> 'a \<Rightarrow> store \<times> 'a" where
  "walk_from_entry search ord g f sa = walk search ord g (node_get_entry (fst sa) g) f sa"

text \<open>
  The iterators: a vector of nodes, with \<^verbatim>\<open>node->iterator_index\<close> the position of a node in it.
\<close>

definition iterator_callback ::
  "bool \<Rightarrow> graph_ref \<Rightarrow> node_ref \<Rightarrow> store \<times> node_ref list \<Rightarrow> store \<times> node_ref list" where
  "iterator_callback include_entry_exit g x sv =
     (if \<not> include_entry_exit \<and>
         (x = node_get_entry (fst sv) g \<or> x = node_get_exit (fst sv) g)
      then sv
      else (upd_node x (\<lambda>n. n\<lparr>iterator_index := length (snd sv)\<rparr>) (fst sv), snd sv @ [x]))"

definition create_node_iterators ::
  "bool \<Rightarrow> walk_search \<Rightarrow> walk_order \<Rightarrow> graph_ref \<Rightarrow> store \<Rightarrow> store \<times> node_ref list" where
  "create_node_iterators include_entry_exit search ord g s =
     walk_from_entry search ord g (iterator_callback include_entry_exit g) (s, [])"

definition coherence_checks :: "graph_ref \<Rightarrow> store \<Rightarrow> store result" where
  "coherence_checks g s =
     assert_that (preds s (node_get_entry s g) = [])
       (assert_that (succs s (node_get_exit s g) = [])
         (let (s1, vec) = create_node_iterators True COMMAND_GRAPH_WALK_SEARCH_DFS
                            COMMAND_GRAPH_WALK_ORDER_PRE g s
          in for_each
               (\<lambda>u s. assert_that (u = node_get_entry s g \<or> preds s u \<noteq> [])
                        (assert_that (u = node_get_exit s g \<or> succs s u \<noteq> []) (Inr s)))
               vec s1))"

subsection \<open>The interface of a search\<close>

locale traversal =
  fixes visits :: "(node_ref \<Rightarrow> node_ref list) \<Rightarrow> 8 word \<Rightarrow> node_ref \<Rightarrow> 8 word list
                     \<Rightarrow> 8 word list \<times> node_ref list"
  assumes visits_length: "u < length w \<Longrightarrow> w ! u = i \<Longrightarrow> length (fst (visits nx i u w)) = length w"
    and visits_marked: "u < length w \<Longrightarrow> w ! u = i \<Longrightarrow>
          marked i (fst (visits nx i u w)) = marked i w \<union> set (snd (visits nx i u w))"
    and visits_new: "u < length w \<Longrightarrow> w ! u = i \<Longrightarrow> marked i w \<inter> set (snd (visits nx i u w)) = {u}"
    and visits_distinct: "u < length w \<Longrightarrow> w ! u = i \<Longrightarrow> distinct (snd (visits nx i u w))"
    and visits_frame: "u < length w \<Longrightarrow> w ! u = i \<Longrightarrow>
          y \<notin> set (snd (visits nx i u w)) \<Longrightarrow> fst (visits nx i u w) ! y = w ! y"
    and visits_closed: "u < length w \<Longrightarrow> w ! u = i \<Longrightarrow> x \<in> set (snd (visits nx i u w)) \<Longrightarrow>
          y \<in> set (nx x) \<Longrightarrow> y < length w \<Longrightarrow> y \<in> marked i (fst (visits nx i u w))"
    and visits_sound: "u < length w \<Longrightarrow> w ! u = i \<Longrightarrow>
          y \<in> set (snd (visits nx i u w)) \<Longrightarrow> (u, y) \<in> (succ_rel nx)\<^sup>*"
begin

lemma visits_exact:
  assumes u: "u < length w" "w ! u = i"
    and range: "\<And>y. (u, y) \<in> (succ_rel nx)\<^sup>* \<Longrightarrow> y < length w"
    and fresh: "\<And>y. (u, y) \<in> (succ_rel nx)\<^sup>* \<Longrightarrow> y \<noteq> u \<Longrightarrow> w ! y \<noteq> i"
  shows "set (snd (visits nx i u w)) = {y. (u, y) \<in> (succ_rel nx)\<^sup>*}"
proof
  show "set (snd (visits nx i u w)) \<subseteq> {y. (u, y) \<in> (succ_rel nx)\<^sup>*}"
    using visits_sound [OF u] by blast
  have "y \<in> set (snd (visits nx i u w))" if "(u, y) \<in> (succ_rel nx)\<^sup>*" for y
    using that
  proof (induction rule: rtrancl_induct)
    case base
    show ?case using visits_new [OF u, of nx] by blast
  next
    case (step x y)
    have reach: "(u, y) \<in> (succ_rel nx)\<^sup>*" using step by (meson rtrancl.rtrancl_into_rtrancl)
    have "y \<in> marked i (fst (visits nx i u w))"
      using visits_closed [OF u step.IH, of y] step.hyps(2) range [OF reach]
      by (simp add: succ_rel_def)
    then have "y \<in> marked i w \<or> y \<in> set (snd (visits nx i u w))"
      using visits_marked [OF u, of nx] by blast
    moreover have "y \<in> marked i w \<Longrightarrow> y = u"
      using fresh [OF reach] by (auto simp: marked_def)
    ultimately show ?case using visits_new [OF u, of nx] by blast
  qed
  then show "{y. (u, y) \<in> (succ_rel nx)\<^sup>*} \<subseteq> set (snd (visits nx i u w))" by blast
qed

text \<open>A node that already carries the identifier is skipped, whatever leads to it.\<close>

lemma visits_collision:
  "u < length w \<Longrightarrow> w ! u = i \<Longrightarrow> v < length w \<Longrightarrow> v \<noteq> u \<Longrightarrow> w ! v = i \<Longrightarrow>
     v \<notin> set (snd (visits nx i u w))"
  using visits_new [of u w i nx] by (auto simp: marked_def)

end

definition walk_visits ::
  "walk_search \<Rightarrow> walk_order \<Rightarrow> (node_ref \<Rightarrow> node_ref list) \<Rightarrow> 8 word \<Rightarrow> node_ref \<Rightarrow> 8 word list
     \<Rightarrow> 8 word list \<times> node_ref list" where
  "walk_visits search ord nx i u w = node_walk search ord nx i (\<lambda>x vs. vs @ [x]) u (w, [])"

lemma walk_visits_DFS:
  "walk_visits COMMAND_GRAPH_WALK_SEARCH_DFS ord nx i u w =
     (fst (dfs_visits nx i ord (nx u) w),
      if ord = COMMAND_GRAPH_WALK_ORDER_PRE then u # snd (dfs_visits nx i ord (nx u) w)
      else snd (dfs_visits nx i ord (nx u) w) @ [u])"
  by (cases ord) (simp_all add: walk_visits_def node_walk_def reach_def Let_def dfs_append_shift)

lemma walk_visits_BFS:
  "walk_visits COMMAND_GRAPH_WALK_SEARCH_BFS ord nx i u w = bfs_visits nx i [u] w"
  by (simp add: walk_visits_def node_walk_def bfs_visits_def)

lemma node_walk_eq_fold:
  "node_walk search ord nx i f u wa =
     (fst (walk_visits search ord nx i u (fst wa)),
      fold f (snd (walk_visits search ord nx i u (fst wa))) (snd wa))"
proof (cases search)
  case COMMAND_GRAPH_WALK_SEARCH_DFS
  then show ?thesis
    unfolding COMMAND_GRAPH_WALK_SEARCH_DFS walk_visits_DFS
    by (cases ord) (simp_all add: node_walk_def reach_def Let_def dfs_eq_fold)
next
  case COMMAND_GRAPH_WALK_SEARCH_BFS
  then show ?thesis
    unfolding COMMAND_GRAPH_WALK_SEARCH_BFS walk_visits_BFS
    by (simp add: node_walk_def bfs_eq_fold)
qed

interpretation node_search: traversal "walk_visits search ord" for search ord
proof (cases search)
  case COMMAND_GRAPH_WALK_SEARCH_DFS
  show "traversal (walk_visits search ord)"
    unfolding COMMAND_GRAPH_WALK_SEARCH_DFS
  proof
    fix u :: node_ref and w :: "8 word list" and i :: "8 word" and nx :: "node_ref \<Rightarrow> node_ref list" and x y
    let ?v = "dfs_visits nx i ord (nx u) w"
    assume u: "u < length w" "w ! u = i"
    have set: "set (snd (walk_visits COMMAND_GRAPH_WALK_SEARCH_DFS ord nx i u w)) = insert u (set (snd ?v))"
      and fst: "fst (walk_visits COMMAND_GRAPH_WALK_SEARCH_DFS ord nx i u w) = fst ?v"
      by (simp_all add: walk_visits_DFS)
    have m: "u \<in> marked i w" using u by (simp add: marked_def)
    note marks = dfs_visits_marks [of nx i ord "nx u" w]
    show "length (fst (walk_visits COMMAND_GRAPH_WALK_SEARCH_DFS ord nx i u w)) = length w"
      unfolding fst using marks by blast
    show "marked i (fst (walk_visits COMMAND_GRAPH_WALK_SEARCH_DFS ord nx i u w)) =
        marked i w \<union> set (snd (walk_visits COMMAND_GRAPH_WALK_SEARCH_DFS ord nx i u w))"
      unfolding fst set using marks m by blast
    show "marked i w \<inter> set (snd (walk_visits COMMAND_GRAPH_WALK_SEARCH_DFS ord nx i u w)) = {u}"
      unfolding set using marks m by blast
    have "u \<notin> set (snd ?v)" using marks m by blast
    then show "distinct (snd (walk_visits COMMAND_GRAPH_WALK_SEARCH_DFS ord nx i u w))"
      using marks by (cases ord) (simp_all add: walk_visits_DFS)
    show "fst (walk_visits COMMAND_GRAPH_WALK_SEARCH_DFS ord nx i u w) ! y = w ! y"
      if "y \<notin> set (snd (walk_visits COMMAND_GRAPH_WALK_SEARCH_DFS ord nx i u w))"
      using marks that unfolding fst set by blast
    show "y \<in> marked i (fst (walk_visits COMMAND_GRAPH_WALK_SEARCH_DFS ord nx i u w))"
      if "x \<in> set (snd (walk_visits COMMAND_GRAPH_WALK_SEARCH_DFS ord nx i u w))" "y \<in> set (nx x)" "y < length w"
      using that dfs_visits_closed [of x nx i ord "nx u" w y] dfs_visits_covers [of y "nx u" w i nx ord]
      unfolding fst set by blast
    show "(u, y) \<in> (succ_rel nx)\<^sup>*"
      if "y \<in> set (snd (walk_visits COMMAND_GRAPH_WALK_SEARCH_DFS ord nx i u w))"
      using that dfs_visits_sound [of y nx i ord "nx u" w] unfolding set
      by (auto simp: succ_rel_def intro: converse_rtrancl_into_rtrancl)
  qed
next
  case COMMAND_GRAPH_WALK_SEARCH_BFS
  show "traversal (walk_visits search ord)"
    unfolding COMMAND_GRAPH_WALK_SEARCH_BFS
  proof (unfold_locales, unfold walk_visits_BFS)
    fix u :: node_ref and w :: "8 word list" and i :: "8 word" and nx :: "node_ref \<Rightarrow> node_ref list" and x y
    assume u: "u < length w" "w ! u = i"
    have q: "set [u] \<subseteq> marked i w" "distinct [u]" using u by (simp_all add: marked_def)
    note marks = bfs_visits_marks [OF q, of nx]
    show "length (fst (bfs_visits nx i [u] w)) = length w"
      "marked i (fst (bfs_visits nx i [u] w)) = marked i w \<union> set (snd (bfs_visits nx i [u] w))"
      "marked i w \<inter> set (snd (bfs_visits nx i [u] w)) = {u}"
      "distinct (snd (bfs_visits nx i [u] w))"
      using marks by simp_all
    show "fst (bfs_visits nx i [u] w) ! y = w ! y" if "y \<notin> set (snd (bfs_visits nx i [u] w))"
      using marks that by blast
    show "y \<in> marked i (fst (bfs_visits nx i [u] w))"
      if "x \<in> set (snd (bfs_visits nx i [u] w))" "y \<in> set (nx x)" "y < length w"
      using bfs_visits_closed [OF q] that by blast
    show "(u, y) \<in> (succ_rel nx)\<^sup>*" if "y \<in> set (snd (bfs_visits nx i [u] w))"
      using bfs_visits_sound [OF that] by simp
  qed
qed

end
