(* ===== verification/Walk_Props.thy ===== *)
theory Walk_Props
  imports Walk
begin

text \<open>
  What the walks of a store compute: a walk whose identifier is fresh calls back once on every
  reachable node, iterator vectors enumerate the nodes with \<^verbatim>\<open>iterator_index\<close> as their
  inverse, \<^verbatim>\<open>coherence_checks\<close> passes on well-formed graphs, and what happens when the 8-bit
  identifiers run out.
\<close>

subsection \<open>Marks in a store\<close>

lemma length_marks [simp]: "length (marks s) = length (nodes s)"
  by (simp add: marks_def)

lemma marks_nth [simp]: "u < length (nodes s) \<Longrightarrow> marks s ! u = walk_id (node_at s u)"
  by (simp add: marks_def node_at_def)

lemma put_marks_frame [simp, store_simps]:
  "length w = length (nodes s) \<Longrightarrow> length (nodes (put_marks w s)) = length (nodes s)"
  "commands (put_marks w s) = commands s"
  "graphs (put_marks w s) = graphs s"
  "graph_at (put_marks w s) g = graph_at s g"
  "node_get_entry (put_marks w s) g = node_get_entry s g"
  "node_get_exit (put_marks w s) g = node_get_exit s g"
  by (simp_all add: put_marks_def graph_at_def node_get_entry_def node_get_exit_def)

lemma node_at_put_marks:
  "length w = length (nodes s) \<Longrightarrow> u < length (nodes s) \<Longrightarrow>
     node_at (put_marks w s) u = (node_at s u)\<lparr>walk_id := w ! u\<rparr>"
  by (simp add: put_marks_def node_at_def)

lemma put_marks_node [simp, store_simps]:
  assumes "length w = length (nodes s)" "u < length (nodes s)"
  shows "succs (put_marks w s) u = succs s u"
    and "preds (put_marks w s) u = preds s u"
    and "device_unique_id (node_at (put_marks w s) u) = device_unique_id (node_at s u)"
    and "iterator_index (node_at (put_marks w s) u) = iterator_index (node_at s u)"
    and "ntype (node_at (put_marks w s) u) = ntype (node_at s u)"
    and "ncommand (node_at (put_marks w s) u) = ncommand (node_at s u)"
    and "walk_id (node_at (put_marks w s) u) = w ! u"
  using assms by (simp_all add: node_at_put_marks)

text \<open>
  Two stores that agree on everything but walk identifiers, iterator indices and the walk
  counters of the graphs: what a walk may change.
\<close>

definition same_structure :: "store \<Rightarrow> store \<Rightarrow> bool" where
  "same_structure s t \<longleftrightarrow>
     length (nodes t) = length (nodes s) \<and> commands t = commands s \<and>
     length (graphs t) = length (graphs s) \<and>
     (\<forall>g<length (graphs s). entry (graph_at t g) = entry (graph_at s g) \<and>
        exit (graph_at t g) = exit (graph_at s g) \<and>
        is_sequence (graph_at t g) = is_sequence (graph_at s g)) \<and>
     (\<forall>u<length (nodes s). succs t u = succs s u \<and> preds t u = preds s u \<and>
        device_unique_id (node_at t u) = device_unique_id (node_at s u) \<and>
        ntype (node_at t u) = ntype (node_at s u) \<and>
        ncommand (node_at t u) = ncommand (node_at s u))"

lemma same_structure_refl [simp]: "same_structure s s"
  by (simp add: same_structure_def)

lemma same_structure_trans: "same_structure s t \<Longrightarrow> same_structure t r \<Longrightarrow> same_structure s r"
  by (simp add: same_structure_def)

lemma same_structure_put_marks:
  "length w = length (nodes s) \<Longrightarrow> same_structure s (put_marks w s)"
  by (simp add: same_structure_def)

lemma same_structure_upd_index:
  "same_structure s (upd_node u (\<lambda>n. n\<lparr>iterator_index := k\<rparr>) s)"
proof (cases "u < length (nodes s)")
  case True
  then show ?thesis by (simp add: same_structure_def)
next
  case False
  then have "upd_node u (\<lambda>n. n\<lparr>iterator_index := k\<rparr>) s = s"
    by (simp add: upd_node_def list_update_beyond)
  then show ?thesis by simp
qed

lemma same_structure_walk_counter:
  "g < length (graphs s) \<Longrightarrow> same_structure s (upd_graph g (\<lambda>gr. gr\<lparr>graph_walk_id := k\<rparr>) s)"
  by (simp add: same_structure_def)

lemma same_structure_wf_adj: "same_structure s t \<Longrightarrow> wf_adj s V \<Longrightarrow> wf_adj t V"
  by (rule wf_adj_cong [of V t s]) (auto simp: same_structure_def wf_adjD)

lemma same_structure_edges: "same_structure s t \<Longrightarrow> wf_adj s V \<Longrightarrow> edges t V = edges s V"
  by (rule edges_cong) (auto simp: same_structure_def wf_adjD)

lemma same_structure_wf_graph: "same_structure s t \<Longrightarrow> wf_graph s g V \<Longrightarrow> wf_graph t g V"
  by (rule wf_graph_cong [of V t s])
    (auto simp: same_structure_def wf_graph_def dest: wf_adjD)

subsection \<open>One walk\<close>

text \<open>
  Marks of a graph that was walked fewer than 256 times since its counter was 0: none is above
  the counter.
\<close>

definition walk_ok :: "store \<Rightarrow> graph_ref \<Rightarrow> node_ref set \<Rightarrow> bool" where
  "walk_ok s g V \<longleftrightarrow> (\<forall>u\<in>V. walk_id (node_at s u) \<le> graph_walk_id (graph_at s g))"

lemma walk_ok_subset: "walk_ok s g V \<Longrightarrow> U \<subseteq> V \<Longrightarrow> walk_ok s g U"
  by (auto simp: walk_ok_def)

lemma walk_ok_fresh:
  assumes "walk_ok s g V" "u \<in> V" "graph_walk_id (graph_at s g) \<noteq> - 1"
  shows "walk_id (node_at s u) \<noteq> graph_walk_id (graph_at s g) + 1"
proof -
  let ?i = "graph_walk_id (graph_at s g)"
  have "1 + ?i \<noteq> 0" using assms(3) by (metis add.commute eq_neg_iff_add_eq_0)
  then have "?i < ?i + 1" by (simp add: word_less_nat_alt unatSuc add.commute)
  moreover have "walk_id (node_at s u) \<le> ?i" using assms(1,2) by (simp add: walk_ok_def)
  ultimately show ?thesis by (metis leD)
qed

text \<open>The nodes a walk calls back on, in order.\<close>

definition visited :: "walk_search \<Rightarrow> walk_order \<Rightarrow> graph_ref \<Rightarrow> node_ref \<Rightarrow> store \<Rightarrow> node_ref list" where
  "visited search ord g u s =
     snd (walk_visits search ord (\<lambda>x. succs s x) (graph_walk_id (graph_at s g) + 1) u
       ((marks s)[u := graph_walk_id (graph_at s g) + 1]))"

definition walk_marks :: "walk_search \<Rightarrow> walk_order \<Rightarrow> graph_ref \<Rightarrow> node_ref \<Rightarrow> store \<Rightarrow> 8 word list" where
  "walk_marks search ord g u s =
     fst (walk_visits search ord (\<lambda>x. succs s x) (graph_walk_id (graph_at s g) + 1) u
       ((marks s)[u := graph_walk_id (graph_at s g) + 1]))"

lemma walk_eq_fold:
  "walk search ord g u f (s, a) =
     (let r = fold f (visited search ord g u s)
                (upd_graph g (\<lambda>gr. gr\<lparr>graph_walk_id := graph_walk_id (graph_at s g) + 1\<rparr>) s, a)
      in (put_marks (walk_marks search ord g u s) (fst r), snd r))"
  by (simp add: walk_def Let_def node_walk_eq_fold visited_def walk_marks_def marks_def)

lemma succ_rel_edges:
  assumes "wf_adj s V" "u \<in> V"
  shows "(u, y) \<in> (succ_rel (\<lambda>x. succs s x))\<^sup>* \<longleftrightarrow> (u, y) \<in> (edges s V)\<^sup>*"
proof
  assume "(u, y) \<in> (succ_rel (\<lambda>x. succs s x))\<^sup>*"
  then have "(u, y) \<in> (edges s V)\<^sup>* \<and> y \<in> V"
  proof (induction rule: rtrancl_induct)
    case base
    show ?case using assms(2) by simp
  next
    case (step y z)
    then have "(y, z) \<in> edges s V" by (simp add: edges_def succ_rel_def)
    then show ?case using step assms(1) wf_adj_edges_subset
      by (meson mem_Sigma_iff rtrancl.rtrancl_into_rtrancl subset_iff)
  qed
  then show "(u, y) \<in> (edges s V)\<^sup>*" by simp
next
  have "edges s V \<subseteq> succ_rel (\<lambda>x. succs s x)" by (auto simp: edges_def succ_rel_def)
  then show "(u, y) \<in> (edges s V)\<^sup>* \<Longrightarrow> (u, y) \<in> (succ_rel (\<lambda>x. succs s x))\<^sup>*"
    using rtrancl_mono by blast
qed

lemma edges_rtrancl_in: "wf_adj s V \<Longrightarrow> u \<in> V \<Longrightarrow> (u, y) \<in> (edges s V)\<^sup>* \<Longrightarrow> y \<in> V"
  by (erule rtrancl.cases) (auto dest: subsetD [OF wf_adj_edges_subset])

lemma visited_exact:
  assumes "wf_adj s V" "u \<in> V" "walk_ok s g V" "graph_walk_id (graph_at s g) \<noteq> - 1"
  shows "set (visited search ord g u s) = {y. (u, y) \<in> (edges s V)\<^sup>*}"
    and "distinct (visited search ord g u s)"
proof -
  let ?i = "graph_walk_id (graph_at s g) + 1" and ?w = "(marks s)[u := graph_walk_id (graph_at s g) + 1]"
  have u: "u < length ?w" "?w ! u = ?i" using wf_adjD(1) [OF assms(1,2)] by simp_all
  have "set (visited search ord g u s) = {y. (u, y) \<in> (succ_rel (\<lambda>x. succs s x))\<^sup>*}"
    unfolding visited_def
  proof (rule node_search.visits_exact [OF u])
    fix y assume "(u, y) \<in> (succ_rel (\<lambda>x. succs s x))\<^sup>*"
    then have y: "y \<in> V" using edges_rtrancl_in assms(1,2) succ_rel_edges by blast
    then show "y < length ?w" using wf_adjD(1) [OF assms(1)] by simp
    show "y \<noteq> u \<Longrightarrow> ?w ! y \<noteq> ?i"
      using walk_ok_fresh [OF assms(3) y assms(4)] wf_adjD(1) [OF assms(1) y] by simp
  qed
  then show "set (visited search ord g u s) = {y. (u, y) \<in> (edges s V)\<^sup>*}"
    using succ_rel_edges [OF assms(1,2)] by simp
  show "distinct (visited search ord g u s)"
    unfolding visited_def by (rule node_search.visits_distinct [OF u])
qed

text \<open>
  A call-back is structural when it changes no more than iterator indices. The effect of a
  walk with one: the graph is the same but for marks and indices, the counter is one up, and
  the marks are again below it.
\<close>

definition structural :: "(node_ref \<Rightarrow> store \<times> 'a \<Rightarrow> store \<times> 'a) \<Rightarrow> bool" where
  "structural f \<longleftrightarrow>
     (\<forall>x s a. same_structure s (fst (f x (s, a))) \<and> graphs (fst (f x (s, a))) = graphs s)"

lemma structural_fold:
  assumes "structural f"
  shows "same_structure (fst sa) (fst (fold f xs sa)) \<and> graphs (fst (fold f xs sa)) = graphs (fst sa)"
proof (induction xs arbitrary: sa)
  case (Cons x xs)
  obtain s a where sa: "sa = (s, a)" by (cases sa)
  have "same_structure s (fst (f x (s, a)))" "graphs (fst (f x (s, a))) = graphs s"
    using assms by (simp_all add: structural_def)
  then show ?case using Cons [of "f x sa"] same_structure_trans unfolding sa by auto
qed simp

lemma walk_marks_length:
  "u < length (nodes s) \<Longrightarrow> length (walk_marks search ord g u s) = length (nodes s)"
  unfolding walk_marks_def by (subst node_search.visits_length) simp_all

lemma walk_marks_nth:
  assumes "u < length (nodes s)" "v < length (nodes s)"
  shows "walk_marks search ord g u s ! v =
    (if v \<in> set (visited search ord g u s) then graph_walk_id (graph_at s g) + 1
     else walk_id (node_at s v))"
proof -
  let ?i = "graph_walk_id (graph_at s g) + 1" and ?w = "(marks s)[u := graph_walk_id (graph_at s g) + 1]"
  let ?v = "walk_visits search ord (\<lambda>x. succs s x) ?i u ?w"
  have u: "u < length ?w" "?w ! u = ?i" using assms by simp_all
  have in_u: "u \<in> set (snd ?v)" using node_search.visits_new [OF u] by blast
  show ?thesis
  proof (cases "v \<in> set (snd ?v)")
    case True
    then have "v \<in> marked ?i (fst ?v)" using node_search.visits_marked [OF u] by blast
    then show ?thesis using True by (simp add: walk_marks_def visited_def marked_def)
  next
    case False
    then have "v \<noteq> u" using in_u by auto
    then show ?thesis
      using False node_search.visits_frame [OF u False] assms(2)
      by (simp add: walk_marks_def visited_def)
  qed
qed

lemma walk_effect:
  assumes "structural f" "g < length (graphs s)" "u < length (nodes s)"
  shows "same_structure s (fst (walk search ord g u f (s, a)))"
    and "graph_walk_id (graph_at (fst (walk search ord g u f (s, a))) g) = graph_walk_id (graph_at s g) + 1"
    and "v < length (nodes s) \<Longrightarrow> walk_id (node_at (fst (walk search ord g u f (s, a))) v) =
      (if v \<in> set (visited search ord g u s) then graph_walk_id (graph_at s g) + 1
       else walk_id (node_at s v))"
proof -
  let ?s1 = "upd_graph g (\<lambda>gr. gr\<lparr>graph_walk_id := graph_walk_id (graph_at s g) + 1\<rparr>) s"
  let ?r = "fold f (visited search ord g u s) (?s1, a)"
  have eq: "fst (walk search ord g u f (s, a)) = put_marks (walk_marks search ord g u s) (fst ?r)"
    by (simp add: walk_eq_fold Let_def)
  have r: "same_structure ?s1 (fst ?r)" "graphs (fst ?r) = graphs ?s1"
    using structural_fold [OF assms(1), of "(?s1, a)"] by simp_all
  have s1: "same_structure s ?s1" by (rule same_structure_walk_counter [OF assms(2)])
  have sr: "same_structure s (fst ?r)" using s1 r(1) by (rule same_structure_trans)
  then have len: "length (walk_marks search ord g u s) = length (nodes (fst ?r))"
    using walk_marks_length [OF assms(3)] by (simp add: same_structure_def)
  show "same_structure s (fst (walk search ord g u f (s, a)))"
    unfolding eq using sr same_structure_put_marks [OF len] by (rule same_structure_trans)
  have "graph_at (fst ?r) g = graph_at ?s1 g" using r(2) by (simp add: graph_at_def)
  then show "graph_walk_id (graph_at (fst (walk search ord g u f (s, a))) g) = graph_walk_id (graph_at s g) + 1"
    unfolding eq using assms(2) by simp
  assume v: "v < length (nodes s)"
  then have "v < length (nodes (fst ?r))" using sr by (simp add: same_structure_def)
  then show "walk_id (node_at (fst (walk search ord g u f (s, a))) v) =
      (if v \<in> set (visited search ord g u s) then graph_walk_id (graph_at s g) + 1
       else walk_id (node_at s v))"
    unfolding eq using len walk_marks_nth [OF assms(3) v] by simp
qed

lemma walk_ok_after:
  assumes "structural f" "g < length (graphs s)" "u \<in> V" "wf_adj s V"
    and "walk_ok s g V" "graph_walk_id (graph_at s g) \<noteq> - 1"
  shows "walk_ok (fst (walk search ord g u f (s, a))) g V"
proof -
  have u: "u < length (nodes s)" using wf_adjD(1) [OF assms(4,3)] .
  have "1 + graph_walk_id (graph_at s g) \<noteq> 0"
    using assms(6) by (metis add.commute eq_neg_iff_add_eq_0)
  then have less: "graph_walk_id (graph_at s g) < graph_walk_id (graph_at s g) + 1"
    by (simp add: word_less_nat_alt unatSuc add.commute)
  show ?thesis
    unfolding walk_ok_def walk_effect(2) [OF assms(1,2) u]
  proof
    fix v assume v: "v \<in> V"
    have "walk_id (node_at s v) \<le> graph_walk_id (graph_at s g)" using assms(5) v by (simp add: walk_ok_def)
    then show "walk_id (node_at (fst (walk search ord g u f (s, a))) v) \<le> graph_walk_id (graph_at s g) + 1"
      using walk_effect(3) [OF assms(1,2) u wf_adjD(1) [OF assms(4) v]] less by auto
  qed
qed

subsection \<open>Iterators\<close>

lemma structural_iterator_callback: "structural (iterator_callback inc g)"
  by (simp add: structural_def iterator_callback_def same_structure_upd_index)

definition iterated :: "bool \<Rightarrow> graph_ref \<Rightarrow> store \<Rightarrow> node_ref set \<Rightarrow> node_ref set" where
  "iterated inc g s V = (if inc then V else V - {node_get_entry s g, node_get_exit s g})"

lemma iterator_fold:
  assumes "\<And>x. x \<in> set xs \<Longrightarrow> x < length (nodes s)" "distinct xs" "set xs \<inter> set vec = {}" "distinct vec"
    and "\<And>k. k < length vec \<Longrightarrow> vec ! k < length (nodes s)"
    and "\<And>k. k < length vec \<Longrightarrow> iterator_index (node_at s (vec ! k)) = k"
    and "fold (iterator_callback inc g) xs (s, vec) = (s', vec')"
  shows "vec' = vec @ filter (\<lambda>x. inc \<or> x \<noteq> node_get_entry s g \<and> x \<noteq> node_get_exit s g) xs \<and>
    (\<forall>k<length vec'. iterator_index (node_at s' (vec' ! k)) = k)"
  using assms
proof (induction xs arbitrary: s vec)
  case Nil
  then show ?case by simp
next
  case (Cons x xs)
  let ?P = "\<lambda>x. inc \<or> x \<noteq> node_get_entry s g \<and> x \<noteq> node_get_exit s g"
  show ?case
  proof (cases "?P x")
    case True
    let ?s = "upd_node x (\<lambda>n. n\<lparr>iterator_index := length vec\<rparr>) s"
    have e: "node_get_entry ?s g = node_get_entry s g" "node_get_exit ?s g = node_get_exit s g"
      by (simp_all add: node_get_entry_def node_get_exit_def)
    have x: "x < length (nodes s)" "x \<notin> set vec" using Cons.prems by auto
    have "iterator_callback inc g x (s, vec) = (?s, vec @ [x])"
      using True by (auto simp: iterator_callback_def)
    then have "fold (iterator_callback inc g) xs (?s, vec @ [x]) = (s', vec')"
      using Cons.prems(7) by simp
    moreover have "iterator_index (node_at ?s ((vec @ [x]) ! k)) = k" if "k < length (vec @ [x])" for k
    proof (cases "k < length vec")
      case True
      then have "vec ! k \<noteq> x" using x(2) nth_mem by metis
      then show ?thesis using True Cons.prems(6) x(1) by (simp add: nth_append)
    next
      case False
      then show ?thesis using that x(1) by (simp add: nth_append)
    qed
    moreover have "(vec @ [x]) ! k < length (nodes ?s)" if "k < length (vec @ [x])" for k
      using that Cons.prems(5) x(1) by (cases "k < length vec") (simp_all add: nth_append)
    moreover have "distinct xs" "set xs \<inter> set (vec @ [x]) = {}" "distinct (vec @ [x])"
      and "\<And>y. y \<in> set xs \<Longrightarrow> y < length (nodes ?s)"
      using Cons.prems(1-4) x by auto
    ultimately have "vec' = (vec @ [x]) @ filter ?P xs \<and> (\<forall>k<length vec'. iterator_index (node_at s' (vec' ! k)) = k)"
      using Cons.IH [of ?s "vec @ [x]", unfolded e] by blast
    moreover have "(vec @ [x]) @ filter ?P xs = vec @ filter ?P (x # xs)" using True by simp
    ultimately show ?thesis by metis
  next
    case False
    then have "iterator_callback inc g x (s, vec) = (s, vec)"
      by (auto simp: iterator_callback_def)
    then have "fold (iterator_callback inc g) xs (s, vec) = (s', vec')"
      using Cons.prems(7) by simp
    then show ?thesis using Cons.IH [of s vec] Cons.prems False by auto
  qed
qed

text \<open>What \<^verbatim>\<open>create_node_iterators\<close> returns on a graph whose every node is reachable.\<close>

lemma entry_reaches:
  "wf_graph s g V \<Longrightarrow> {y. (node_get_entry s g, y) \<in> (edges s V)\<^sup>*} = V"
  using wf_graph_from_entry edges_rtrancl_in wf_graph_adj wf_graph_entry by blast

lemma iterators_correct:
  assumes wf: "wf_graph s g V" and ok: "walk_ok s g V" "graph_walk_id (graph_at s g) \<noteq> - 1"
    and it: "create_node_iterators inc search ord g s = (s', vec)"
  shows "distinct vec" "set vec = iterated inc g s V"
    "\<And>k. k < length vec \<Longrightarrow> iterator_index (node_at s' (vec ! k)) = k"
    "vec = filter (\<lambda>x. inc \<or> x \<noteq> node_get_entry s g \<and> x \<noteq> node_get_exit s g)
             (visited search ord g (node_get_entry s g) s)"
    "same_structure s s'" "walk_ok s' g V"
    "graph_walk_id (graph_at s' g) = graph_walk_id (graph_at s g) + 1"
proof -
  let ?u = "node_get_entry s g"
  let ?s1 = "upd_graph g (\<lambda>gr. gr\<lparr>graph_walk_id := graph_walk_id (graph_at s g) + 1\<rparr>) s"
  let ?vs = "visited search ord g ?u s"
  note adj = wf_graph_adj [OF wf] and en = wf_graph_entry [OF wf]
  have g: "g < length (graphs s)" using wf by (simp add: wf_graph_def)
  have u: "?u < length (nodes s)" using wf_adjD(1) [OF adj en] .
  have vs: "set ?vs = V" "distinct ?vs"
    using visited_exact [OF adj en ok] entry_reaches [OF wf] by simp_all
  have e: "node_get_entry ?s1 g = ?u" "node_get_exit ?s1 g = node_get_exit s g"
    using g by (simp_all add: node_get_entry_def node_get_exit_def)
  obtain s2 where f: "fold (iterator_callback inc g) ?vs (?s1, []) = (s2, vec)"
    and s': "s' = put_marks (walk_marks search ord g ?u s) s2"
    using it by (cases "fold (iterator_callback inc g) ?vs (?s1, [])")
      (auto simp: create_node_iterators_def walk_from_entry_def walk_eq_fold Let_def)
  have lt: "\<And>x. x \<in> set ?vs \<Longrightarrow> x < length (nodes ?s1)"
    using vs(1) wf_adjD(1) [OF adj] by simp
  have res: "vec = [] @ filter (\<lambda>x. inc \<or> x \<noteq> node_get_entry ?s1 g \<and> x \<noteq> node_get_exit ?s1 g) ?vs \<and>
      (\<forall>k<length vec. iterator_index (node_at s2 (vec ! k)) = k)"
    by (rule iterator_fold [OF lt vs(2) _ _ _ _ f]) simp_all
  then show vec: "vec = filter (\<lambda>x. inc \<or> x \<noteq> ?u \<and> x \<noteq> node_get_exit s g) ?vs"
    unfolding e by simp
  then show "distinct vec" and set: "set vec = iterated inc g s V"
    using vs by (auto simp: iterated_def)
  have eff: "s' = fst (walk search ord g ?u (iterator_callback inc g) (s, []))"
    using it by (simp add: create_node_iterators_def walk_from_entry_def)
  show "same_structure s s'" "graph_walk_id (graph_at s' g) = graph_walk_id (graph_at s g) + 1"
    unfolding eff by (rule walk_effect [OF structural_iterator_callback g u])+
  show "walk_ok s' g V"
    unfolding eff by (rule walk_ok_after [OF structural_iterator_callback g en adj ok])
  show "iterator_index (node_at s' (vec ! k)) = k" if k: "k < length vec" for k
  proof -
    have "same_structure ?s1 s2" using structural_fold [OF structural_iterator_callback, of "(?s1, [])" inc g ?vs] f by simp
    then have len: "length (nodes s2) = length (nodes s)" by (simp add: same_structure_def)
    have "vec ! k \<in> V" using k set nth_mem [OF k] by (auto simp: iterated_def split: if_splits)
    then have "vec ! k < length (nodes s2)" using wf_adjD(1) [OF adj] len by simp
    moreover have "iterator_index (node_at s2 (vec ! k)) = k" using res k by blast
    ultimately show ?thesis unfolding s' using len walk_marks_length [OF u] by simp
  qed
qed

subsection \<open>Properties of walks\<close>

text \<open>The call-back that records the nodes it is called on.\<close>

definition record_visit :: "node_ref \<Rightarrow> store \<times> node_ref list \<Rightarrow> store \<times> node_ref list" where
  "record_visit x sv = (fst sv, snd sv @ [x])"

lemma fold_record_visit: "fold record_visit xs (t, ws) = (t, ws @ xs)"
  by (induction xs arbitrary: ws) (simp_all add: record_visit_def)

lemma walk_record_visit:
  "walk search ord g u record_visit (s, []) = (s', vs) \<Longrightarrow> vs = visited search ord g u s"
  by (simp add: walk_eq_fold Let_def fold_record_visit)

text \<open>
  C28. A walk of a well-formed graph calls back exactly once on every node reachable from its
  start and on no other, in either search and either order, as long as the graph's 8-bit
  counter has not wrapped; it changes nothing but marks, moves the counter by one, and keeps
  the marks below it, so the next walk is exact too.
\<close>

theorem walk_visits_exactly_reachable:
  assumes "wf_graph s g V" "u \<in> V" "walk_ok s g V" "graph_walk_id (graph_at s g) \<noteq> - 1"
    and "walk search ord g u record_visit (s, []) = (s', vs)"
  shows "distinct vs \<and> set vs = {y. (u, y) \<in> (edges s V)\<^sup>*} \<and> same_structure s s' \<and> walk_ok s' g V \<and>
    graph_walk_id (graph_at s' g) = graph_walk_id (graph_at s g) + 1"
proof -
  note vs = walk_record_visit [OF assms(5)]
  have str: "structural record_visit" by (simp add: structural_def record_visit_def)
  have g: "g < length (graphs s)" using assms(1) by (simp add: wf_graph_def)
  note adj = wf_graph_adj [OF assms(1)]
  have s': "s' = fst (walk search ord g u record_visit (s, []))" using assms(5) by simp
  show ?thesis
    using visited_exact [OF adj assms(2-4)] walk_effect(1,2) [OF str g wf_adjD(1) [OF adj assms(2)]]
      walk_ok_after [OF str g assms(2) adj assms(3,4)]
    unfolding vs s' by blast
qed

text \<open>
  C29. The iterators of a well-formed graph enumerate its nodes without repetition (all of
  them, or all but entry and exit), \<^verbatim>\<open>iterator_index\<close> is the position of a node in the
  vector, and nothing else of the graph changes. In the pre-order the passes use, the entry
  comes first.
\<close>

theorem iterators_enumerate_nodes:
  assumes "wf_graph s g V" "walk_ok s g V" "graph_walk_id (graph_at s g) \<noteq> - 1"
    and "create_node_iterators inc search ord g s = (s', vec)"
  shows "distinct vec \<and>
    set vec = (if inc then V else V - {node_get_entry s g, node_get_exit s g}) \<and>
    (\<forall>k<length vec. iterator_index (node_at s' (vec ! k)) = k) \<and> same_structure s s' \<and>
    (inc \<and> search = COMMAND_GRAPH_WALK_SEARCH_DFS \<and> ord = COMMAND_GRAPH_WALK_ORDER_PRE \<longrightarrow>
       hd vec = node_get_entry s g)"
  using iterators_correct [OF assms]
  by (simp add: iterated_def visited_def walk_visits_DFS)

text \<open>In post-order every node is visited after all its successors.\<close>

lemma visited_post_order:
  assumes "wf_graph s g V" "walk_ok s g V" "graph_walk_id (graph_at s g) \<noteq> - 1"
    and post: "visited COMMAND_GRAPH_WALK_SEARCH_DFS COMMAND_GRAPH_WALK_ORDER_POST g (node_get_entry s g) s
           = as @ u # bs" and uv: "v \<in> set (succs s u)"
  shows "v \<in> set as"
proof -
  let ?u = "node_get_entry s g" and ?nx = "\<lambda>x. succs s x"
  let ?i = "graph_walk_id (graph_at s g) + 1"
  let ?w = "(marks s)[?u := ?i]"
  note adj = wf_graph_adj [OF assms(1)]
  let ?vs = "snd (dfs_visits ?nx ?i COMMAND_GRAPH_WALK_ORDER_POST (?nx ?u) ?w)"
  let ?vec = "visited COMMAND_GRAPH_WALK_SEARCH_DFS COMMAND_GRAPH_WALK_ORDER_POST g ?u s"
  have vec: "?vec = ?vs @ [?u]" by (simp add: visited_def walk_visits_DFS)
  have setvec: "set ?vec = V"
    using visited_exact(1) [OF adj wf_graph_entry [OF assms(1)] assms(2,3)] entry_reaches [OF assms(1)]
    by simp
  have u: "u \<in> V" using setvec post by auto
  then have v: "v \<in> V" using wf_adjD(2) [OF adj] uv by blast
  have not_entry: "v \<noteq> ?u"
    using wf_adj_sym [OF adj u v] assms(1) uv by (auto simp: wf_graph_def)
  show ?thesis
  proof (cases "bs = []")
    case True
    then show ?thesis using vec post v setvec not_entry by auto
  next
    case False
    then obtain cs where pvs: "?vs = as @ u # cs"
      using vec post by (cases bs rule: rev_cases) (auto intro: that [OF sym])
    define nx where "nx = (\<lambda>x. if x \<in> V then succs s x else [])"
    have "acyclic (succ_rel nx)"
      using wf_graph_acyclic [OF assms(1)]
      by (rule acyclic_subset) (auto simp: succ_rel_def edges_def nx_def split: if_splits)
    moreover have "?vs = snd (dfs_visits nx ?i COMMAND_GRAPH_WALK_ORDER_POST (?nx ?u) ?w)"
      using dfs_visits_cong [of V ?nx nx "?nx ?u" ?i COMMAND_GRAPH_WALK_ORDER_POST ?w]
        wf_adjD(2) [OF adj] wf_graph_entry [OF assms(1)] by (simp add: nx_def)
    ultimately have "v \<in> marked ?i ?w \<union> set as"
      using dfs_visits_post_order [of nx ?i "?nx ?u" ?w as u cs v] pvs uv u v
        wf_adjD(1) [OF adj v] by (simp add: nx_def)
    then show ?thesis
      using not_entry walk_ok_fresh [OF assms(2) v assms(3)] by (auto simp: marked_def)
  qed
qed

text \<open>
  C30. In post-order every node comes after all its successors: the reversed visit order is a
  topological order of the graph.
\<close>

theorem post_order_topological:
  assumes "wf_graph s g V" "walk_ok s g V" "graph_walk_id (graph_at s g) \<noteq> - 1"
    and "create_node_iterators True COMMAND_GRAPH_WALK_SEARCH_DFS COMMAND_GRAPH_WALK_ORDER_POST g s
           = (s', vec)"
    and "vec = as @ u # bs" "v \<in> set (succs s u)"
  shows "v \<in> set as"
  by (rule visited_post_order [OF assms(1-3) _ assms(6), of as bs])
    (use iterators_correct(4) [OF assms(1-4)] assms(5) in simp)

lemma coherence_checks_ok:
  assumes "wf_graph s g V" "walk_ok s g V" "graph_walk_id (graph_at s g) \<noteq> - 1"
  shows "\<exists>s'. coherence_checks g s = Inr s' \<and> same_structure s s' \<and> wf_graph s' g V \<and> walk_ok s' g V \<and>
    graph_walk_id (graph_at s' g) = graph_walk_id (graph_at s g) + 1"
proof -
  obtain s' vec where it: "create_node_iterators True COMMAND_GRAPH_WALK_SEARCH_DFS
      COMMAND_GRAPH_WALK_ORDER_PRE g s = (s', vec)" by force
  note c = iterators_correct [OF assms it]
  have vec: "set vec = V" using c(2) by (simp add: iterated_def)
  have e: "node_get_entry s' g = node_get_entry s g" "node_get_exit s' g = node_get_exit s g"
    using c(5) assms(1) by (simp_all add: same_structure_def wf_graph_def node_get_entry_def node_get_exit_def)
  have wf': "wf_graph s' g V" using c(5) assms(1) by (rule same_structure_wf_graph)
  let ?f = "\<lambda>u s. assert_that (u = node_get_entry s g \<or> preds s u \<noteq> [])
                  (assert_that (u = node_get_exit s g \<or> succs s u \<noteq> []) (Inr s))"
  have "?f u s' = Inr s'" if "u \<in> V" for u
    using wf' that by (auto simp: wf_graph_def assert_that_def)
  then have "for_each ?f vec s' = Inr (fold (\<lambda>_ s. s) vec s') \<and> fold (\<lambda>_ s. s) vec s' = s'"
    using for_each_eq_fold [of vec "\<lambda>t. t = s'" ?f "\<lambda>_ s. s" s'] vec by simp
  then have "for_each ?f vec s' = Inr s'" by simp
  then show ?thesis
    using assms(1) it c(5-7) wf' by (simp add: coherence_checks_def wf_graph_def)
qed

text \<open>\<^verbatim>\<open>coherence_checks\<close> passes on every well-formed graph, and changes only marks.\<close>

theorem coherence_checks_pass:
  assumes "wf_graph s g V" "walk_ok s g V" "graph_walk_id (graph_at s g) \<noteq> - 1"
  shows "\<exists>s'. coherence_checks g s = Inr s' \<and> same_structure s s' \<and> wf_graph s' g V"
  using coherence_checks_ok [OF assms] by blast

text \<open>
  When a node's mark equals the identifier of the next walk, the walk never calls back
  on it. Identifiers are 8 bits wide and a fresh node is marked 0, so after 255 walks the next
  one skips every node allocated since.
\<close>

theorem walk_skips_colliding_node:
  assumes "u < length (nodes s)" "v < length (nodes s)" "v \<noteq> u"
    and "walk_id (node_at s v) = graph_walk_id (graph_at s g) + 1"
    and "walk search ord g u record_visit (s, []) = (s', vs)"
  shows "v \<notin> set vs"
  using node_search.visits_collision [of u "(marks s)[u := graph_walk_id (graph_at s g) + 1]"
      "graph_walk_id (graph_at s g) + 1" v] assms(1-4)
  by (simp add: walk_record_visit [OF assms(5)] visited_def)

end
