(* ===== verification/Graph_Ops.thy ===== *)
theory Graph_Ops
  imports Graph_Store
begin

text \<open>
  The rewrites of \<^verbatim>\<open>command_graph_t\<close> (\<^verbatim>\<open>include/cgir/command-graph.hpp\<close>): the tests
  \<^verbatim>\<open>are_false_twins\<close> and \<^verbatim>\<open>are_sequence\<close>, \<^verbatim>\<open>remove\<close>, and \<^verbatim>\<open>contract\<close> with each of its
  hints. They work on the two adjacency lists, erasing through \<^verbatim>\<open>std::find\<close>: an edge that is
  missing on one side is undefined behaviour, a duplicated one a failing assertion. A loop
  over a list of \<open>u\<close> reads it once, which is what the code does as long as \<open>u\<close> is not its own
  neighbour. Theory Graph\_Ops\_Props shows what they do to well-formed graphs.
\<close>

definition are_false_twins :: "store \<Rightarrow> node_ref \<Rightarrow> node_ref \<Rightarrow> bool" where
  "are_false_twins s u v \<longleftrightarrow>
     is_permutation (preds s u) (preds s v) \<and> is_permutation (succs s u) (succs s v)"

definition are_sequence :: "store \<Rightarrow> node_ref \<Rightarrow> node_ref \<Rightarrow> bool" where
  "are_sequence s u v \<longleftrightarrow>
     (length (succs s u) = 1 \<and> hd (succs s u) = v) \<and>
     (length (preds s v) = 1 \<and> hd (preds s v) = u)"

subsection \<open>Updates of one list\<close>

definition set_succs :: "node_ref \<Rightarrow> node_ref list \<Rightarrow> store \<Rightarrow> store" where
  "set_succs x l s = upd_node x (\<lambda>n. n\<lparr>successors := l\<rparr>) s"

definition set_preds :: "node_ref \<Rightarrow> node_ref list \<Rightarrow> store \<Rightarrow> store" where
  "set_preds x l s = upd_node x (\<lambda>n. n\<lparr>predecessors := l\<rparr>) s"

text \<open>\<^verbatim>\<open>x->successors.erase(std::find(.., u))\<close>, and the same on predecessors.\<close>

definition erase_succ :: "node_ref \<Rightarrow> node_ref \<Rightarrow> store \<Rightarrow> store result" where
  "erase_succ u x s = bind_result (erase_find u (succs s x)) (\<lambda>l. Inr (set_succs x l s))"

definition erase_pred :: "node_ref \<Rightarrow> node_ref \<Rightarrow> store \<Rightarrow> store result" where
  "erase_pred u x s = bind_result (erase_find u (preds s x)) (\<lambda>l. Inr (set_preds x l s))"

text \<open>\<^verbatim>\<open>*std::find(x->successors.., v) = u\<close>, and the same on predecessors.\<close>

definition assign_succ :: "node_ref \<Rightarrow> node_ref \<Rightarrow> node_ref \<Rightarrow> store \<Rightarrow> store result" where
  "assign_succ v u x s = bind_result (assign_found v u (succs s x)) (\<lambda>l. Inr (set_succs x l s))"

definition assign_pred :: "node_ref \<Rightarrow> node_ref \<Rightarrow> node_ref \<Rightarrow> store \<Rightarrow> store result" where
  "assign_pred v u x s = bind_result (assign_found v u (preds s x)) (\<lambda>l. Inr (set_preds x l s))"

subsection \<open>Removing a node\<close>

text \<open>The body of the nested loop: connect unless already connected.\<close>

definition connect :: "node_ref \<Rightarrow> node_ref \<Rightarrow> store \<Rightarrow> store" where
  "connect p v s = (if v \<in> set (succs s p) then s else precedes p v s)"

definition remove :: "node_ref \<Rightarrow> store \<Rightarrow> store result" where
  "remove u s =
     bind_result (for_each (erase_succ u) (preds s u) s) (\<lambda>s1.
     bind_result (for_each (erase_pred u) (succs s1 u) s1) (\<lambda>s2.
     Inr (fold (\<lambda>p. fold (connect p) (succs s2 u)) (preds s2 u) s2)))"

subsection \<open>Contraction\<close>

text \<open>
  The template parameter \<^verbatim>\<open>hints\<close> is a bit set that the branches test in this order; the
  generic case is \<^verbatim>\<open>abort()\<close>.
\<close>

record contraction_hints =
  hint_inplace :: bool
  hint_false_twins :: bool
  hint_u_v_sequence :: bool
  hint_v_u_sequence :: bool

text \<open>In place, false twins: \<open>v\<close> disappears from the lists of its neighbours.\<close>

definition contract_twins_inplace :: "node_ref \<Rightarrow> node_ref \<Rightarrow> store \<Rightarrow> (node_ref \<times> store) result" where
  "contract_twins_inplace u v s =
     bind_result
       (foreach_predecessor u
         (\<lambda>p s. assert_that (count_list (succs s p) v = 1) (erase_succ v p s)) s) (\<lambda>s1.
     bind_result
       (foreach_successor u
         (\<lambda>x s. assert_that (count_list (preds s x) v = 1) (erase_pred v x s)) s1) (\<lambda>s2.
     Inr (u, s2)))"

text \<open>False twins replaced by a fresh node.\<close>

definition contract_twins_new :: "node_ref \<Rightarrow> node_ref \<Rightarrow> store \<Rightarrow> (node_ref \<times> store) result" where
  "contract_twins_new u v s =
     (let (w, s0) = command_graph_node_new CGIR_UNSPECIFIED_DEVICE_UNIQUE_ID
                      COMMAND_GRAPH_NODE_TYPE_EMPTY s
      in bind_result
           (foreach_predecessor u
             (\<lambda>p s. assert_that (count_list (succs s p) u = 1)
                (assert_that (count_list (succs s p) v = 1)
                  (bind_result (erase_succ u p s) (\<lambda>s.
                   bind_result (erase_succ v p s) (\<lambda>s. Inr (precedes p w s)))))) s0) (\<lambda>s1.
         bind_result
           (foreach_successor u
             (\<lambda>x s. assert_that (count_list (preds s x) u = 1)
                (assert_that (count_list (preds s x) v = 1)
                  (bind_result (erase_pred u x s) (\<lambda>s.
                   bind_result (erase_pred v x s) (\<lambda>s. Inr (precedes w x s)))))) s1) (\<lambda>s2.
         Inr (w, s2))))"

text \<open>In place, \<open>u\<close> then \<open>v\<close>: \<open>u\<close> takes over the successors of \<open>v\<close> (the list is moved).\<close>

definition contract_uv_inplace :: "node_ref \<Rightarrow> node_ref \<Rightarrow> store \<Rightarrow> (node_ref \<times> store) result" where
  "contract_uv_inplace u v s =
     bind_result
       (foreach_successor v
         (\<lambda>x s. assert_that (count_list (preds s x) v = 1)
            (assert_that (x \<noteq> u)
              (assert_that (v \<in> set (preds s x)) (assign_pred v u x s)))) s) (\<lambda>s1.
     Inr (u, set_succs v [] (set_succs u (succs s1 v) s1)))"

text \<open>In place, \<open>v\<close> then \<open>u\<close>: \<open>u\<close> takes over the predecessors of \<open>v\<close>.\<close>

definition contract_vu_inplace :: "node_ref \<Rightarrow> node_ref \<Rightarrow> store \<Rightarrow> (node_ref \<times> store) result" where
  "contract_vu_inplace u v s =
     bind_result
       (foreach_predecessor v
         (\<lambda>x s. assert_that (count_list (succs s x) v = 1)
            (assert_that (x \<noteq> u)
              (assert_that (v \<in> set (succs s x)) (assign_succ v u x s)))) s) (\<lambda>s1.
     Inr (u, set_preds v [] (set_preds u (preds s1 v) s1)))"

text \<open>A sequence \<open>a\<close> then \<open>b\<close> replaced by a fresh node: the body both sequence hints share.\<close>

definition contract_sequence_new :: "node_ref \<Rightarrow> node_ref \<Rightarrow> store \<Rightarrow> (node_ref \<times> store) result" where
  "contract_sequence_new a b s =
     (let (w, s0) = command_graph_node_new CGIR_UNSPECIFIED_DEVICE_UNIQUE_ID
                      COMMAND_GRAPH_NODE_TYPE_EMPTY s
      in bind_result
           (foreach_predecessor a
             (\<lambda>p s. assert_that (count_list (succs s p) a = 1)
                (bind_result (erase_succ a p s) (\<lambda>s. Inr (precedes p w s)))) s0) (\<lambda>s1.
         bind_result
           (foreach_successor b
             (\<lambda>x s. assert_that (count_list (preds s x) b = 1)
                (bind_result (erase_pred b x s) (\<lambda>s. Inr (precedes w x s)))) s1) (\<lambda>s2.
         Inr (w, s2))))"

definition contract ::
  "contraction_hints \<Rightarrow> node_ref \<Rightarrow> node_ref \<Rightarrow> store \<Rightarrow> (node_ref \<times> store) result" where
  "contract hints u v s =
     assert_that (u \<noteq> v)
       (if hint_false_twins hints
        then assert_that (are_false_twins s u v)
               (if hint_inplace hints then contract_twins_inplace u v s else contract_twins_new u v s)
        else if hint_u_v_sequence hints
        then assert_that (are_sequence s u v)
               (if hint_inplace hints then contract_uv_inplace u v s else contract_sequence_new u v s)
        else if hint_v_u_sequence hints
        then assert_that (are_sequence s v u)
               (if hint_inplace hints then contract_vu_inplace u v s else contract_sequence_new v u s)
        else Inl Aborted)"

subsection \<open>Frame: operations that only touch adjacency\<close>

definition adj_frame :: "store \<Rightarrow> store \<Rightarrow> bool" where
  "adj_frame s t \<longleftrightarrow>
     length (nodes t) = length (nodes s) \<and> commands t = commands s \<and> graphs t = graphs s \<and>
     (\<forall>x. node_at t x = (node_at s x)\<lparr>predecessors := preds t x, successors := succs t x\<rparr>)"

lemma adj_frame_refl [simp]: "adj_frame s s"
  by (simp add: adj_frame_def)

lemma adj_frame_trans: "adj_frame s t \<Longrightarrow> adj_frame t r \<Longrightarrow> adj_frame s r"
  unfolding adj_frame_def
  by (metis (no_types, lifting) node.surjective node.update_convs(2) node.update_convs(3))

lemma adj_frameD:
  assumes "adj_frame s t"
  shows "length (nodes t) = length (nodes s)" "commands t = commands s" "graphs t = graphs s"
    "graph_at t g = graph_at s g"
    "node_get_entry t g = node_get_entry s g" "node_get_exit t g = node_get_exit s g"
    "device_unique_id (node_at t x) = device_unique_id (node_at s x)"
    "iterator_index (node_at t x) = iterator_index (node_at s x)"
    "walk_id (node_at t x) = walk_id (node_at s x)"
    "ntype (node_at t x) = ntype (node_at s x)"
    "ncommand (node_at t x) = ncommand (node_at s x)"
proof -
  show graphs: "graphs t = graphs s" and "length (nodes t) = length (nodes s)"
    "commands t = commands s" using assms by (simp_all add: adj_frame_def)
  then show "graph_at t g = graph_at s g" "node_get_entry t g = node_get_entry s g"
    "node_get_exit t g = node_get_exit s g"
    by (simp_all add: graph_at_def node_get_entry_def node_get_exit_def)
  have n: "node_at t x = (node_at s x)\<lparr>predecessors := preds t x, successors := succs t x\<rparr>"
    using assms by (simp add: adj_frame_def)
  show "device_unique_id (node_at t x) = device_unique_id (node_at s x)"
    "iterator_index (node_at t x) = iterator_index (node_at s x)"
    "walk_id (node_at t x) = walk_id (node_at s x)" "ntype (node_at t x) = ntype (node_at s x)"
    "ncommand (node_at t x) = ncommand (node_at s x)"
    by (subst n, simp)+
qed

lemma upd_node_nth: "nodes (upd_node u f s) ! x =
    (if x = u \<and> u < length (nodes s) then f (nodes s ! u) else nodes s ! x)"
  by (cases "u < length (nodes s)"; cases "x = u")
    (simp_all add: upd_node_def list_update_beyond)

lemma adj_frame_set_succs [simp]: "adj_frame s (set_succs x l s)"
  by (simp add: adj_frame_def set_succs_def node_at_def upd_node_nth)

lemma adj_frame_set_preds [simp]: "adj_frame s (set_preds x l s)"
  by (simp add: adj_frame_def set_preds_def node_at_def upd_node_nth)

lemma set_succs_adj [simp]:
  "x < length (nodes s) \<Longrightarrow> succs (set_succs x l s) y = (if y = x then l else succs s y)"
  "preds (set_succs x l s) y = preds s y"
  by (simp_all add: set_succs_def node_at_def upd_node_nth)

lemma set_preds_adj [simp]:
  "x < length (nodes s) \<Longrightarrow> preds (set_preds x l s) y = (if y = x then l else preds s y)"
  "succs (set_preds x l s) y = succs s y"
  by (simp_all add: set_preds_def node_at_def upd_node_nth)

lemma adj_frame_precedes [simp]: "adj_frame s (precedes u v s)"
  by (simp add: adj_frame_def precedes_def node_at_def upd_node_nth)

lemma adj_frame_connect [simp]: "adj_frame s (connect u v s)"
  by (simp add: connect_def)

lemma adj_frame_fold:
  assumes "\<And>x s. adj_frame s (f x s)"
  shows "adj_frame s (fold f xs s)"
  using assms by (induction xs arbitrary: s) (auto intro: adj_frame_trans)

end
