(* ===== verification/Graph_Ops_Props.thy ===== *)
theory Graph_Ops_Props
  imports Graph_Ops
begin

text \<open>
  The rewrites on well-formed graphs: \<^verbatim>\<open>remove\<close> and every \<^verbatim>\<open>contract\<close> variant never reach an
  assertion or undefined behaviour, take exactly the documented nodes out of the graph, keep
  it well formed, and keep which node reaches which.
\<close>

subsection \<open>Relations\<close>

text \<open>Bypassing a node: its edges are replaced by the product of its neighbours.\<close>

definition bypass :: "'a \<Rightarrow> ('a \<times> 'a) set \<Rightarrow> ('a \<times> 'a) set" where
  "bypass u E = {(a, b) \<in> E. a \<noteq> u \<and> b \<noteq> u} \<union> {(a, b). (a, u) \<in> E \<and> (u, b) \<in> E}"

lemma bypass_subset_trancl: "bypass u E \<subseteq> E\<^sup>+"
  by (auto simp: bypass_def)

lemma acyclic_bypass: "acyclic E \<Longrightarrow> acyclic (bypass u E)"
  by (rule acyclic_subset [OF _ bypass_subset_trancl]) (simp add: acyclic_def)

lemma bypass_trancl:
  assumes "(u, u) \<notin> E" "(a, b) \<in> E\<^sup>+" "a \<noteq> u"
  shows "if b = u then \<exists>p. (p, u) \<in> E \<and> (a, p) \<in> (bypass u E)\<^sup>* else (a, b) \<in> (bypass u E)\<^sup>+"
  using assms(2)
proof (induction rule: trancl_induct)
  case (base y)
  then show ?case using assms(3) by (auto simp: bypass_def)
next
  case (step y z)
  show ?case
  proof (cases "y = u")
    case True
    then have "z \<noteq> u" using step.hyps assms(1) by auto
    moreover obtain p where p: "(p, u) \<in> E" "(a, p) \<in> (bypass u E)\<^sup>*" using step.IH True by auto
    moreover have "(p, z) \<in> bypass u E" using p(1) step.hyps True by (auto simp: bypass_def)
    ultimately show ?thesis by (auto intro: rtrancl_into_trancl1)
  next
    case False
    then have y: "(a, y) \<in> (bypass u E)\<^sup>+" using step.IH by simp
    show ?thesis
    proof (cases "z = u")
      case True
      then show ?thesis using y step.hyps by (auto dest: trancl_into_rtrancl)
    next
      case z: False
      then have "(y, z) \<in> bypass u E" using step.hyps False by (auto simp: bypass_def)
      then show ?thesis using y z by (auto intro: trancl_into_trancl)
    qed
  qed
qed

lemma bypass_reach:
  assumes "(u, u) \<notin> E" "a \<noteq> u" "b \<noteq> u"
  shows "(a, b) \<in> (bypass u E)\<^sup>* \<longleftrightarrow> (a, b) \<in> E\<^sup>*"
proof
  have "(bypass u E)\<^sup>* \<subseteq> (E\<^sup>+)\<^sup>*" by (rule rtrancl_mono [OF bypass_subset_trancl])
  then show "(a, b) \<in> (bypass u E)\<^sup>* \<Longrightarrow> (a, b) \<in> E\<^sup>*" by auto
  show "(a, b) \<in> E\<^sup>* \<Longrightarrow> (a, b) \<in> (bypass u E)\<^sup>*"
    using bypass_trancl [OF assms(1) _ assms(2), of b] assms(3)
    by (auto simp: rtrancl_eq_or_trancl)
qed

subsection \<open>Loops over neighbours\<close>

lemma erase_succ_loop:
  assumes "distinct ps" "\<And>p. p \<in> set ps \<Longrightarrow> p < length (nodes s) \<and> u \<in> set (succs s p)"
  shows "\<exists>t. for_each (erase_succ u) ps s = Inr t \<and> adj_frame s t \<and> (\<forall>x. preds t x = preds s x) \<and>
    (\<forall>x. succs t x = (if x \<in> set ps then remove1 u (succs s x) else succs s x))"
  using assms
proof (induction ps arbitrary: s)
  case (Cons p ps)
  let ?s = "set_succs p (remove1 u (succs s p)) s"
  have p: "p < length (nodes s)" "u \<in> set (succs s p)" "p \<notin> set ps" using Cons.prems by auto
  have len: "length (nodes ?s) = length (nodes s)" by (simp add: set_succs_def)
  have "\<And>q. q \<in> set ps \<Longrightarrow> q < length (nodes ?s) \<and> u \<in> set (succs ?s q)"
    using Cons.prems p len by auto
  from Cons.IH [OF _ this] Cons.prems(1)
  obtain t where t: "for_each (erase_succ u) ps ?s = Inr t" "adj_frame ?s t" "\<forall>x. preds t x = preds ?s x"
    "\<forall>x. succs t x = (if x \<in> set ps then remove1 u (succs ?s x) else succs ?s x)"
    by auto
  have "for_each (erase_succ u) (p # ps) s = Inr t"
    using t(1) p by (simp add: erase_succ_def erase_find_Inr)
  moreover have "adj_frame s t" using t(2) adj_frame_trans adj_frame_set_succs by blast
  ultimately show ?case using t(3,4) p by auto
qed simp

lemma erase_pred_loop:
  assumes "distinct ps" "\<And>p. p \<in> set ps \<Longrightarrow> p < length (nodes s) \<and> u \<in> set (preds s p)"
  shows "\<exists>t. for_each (erase_pred u) ps s = Inr t \<and> adj_frame s t \<and> (\<forall>x. succs t x = succs s x) \<and>
    (\<forall>x. preds t x = (if x \<in> set ps then remove1 u (preds s x) else preds s x))"
  using assms
proof (induction ps arbitrary: s)
  case (Cons p ps)
  let ?s = "set_preds p (remove1 u (preds s p)) s"
  have p: "p < length (nodes s)" "u \<in> set (preds s p)" "p \<notin> set ps" using Cons.prems by auto
  have len: "length (nodes ?s) = length (nodes s)" by (simp add: set_preds_def)
  have "\<And>q. q \<in> set ps \<Longrightarrow> q < length (nodes ?s) \<and> u \<in> set (preds ?s q)"
    using Cons.prems p len by auto
  from Cons.IH [OF _ this] Cons.prems(1)
  obtain t where t: "for_each (erase_pred u) ps ?s = Inr t" "adj_frame ?s t" "\<forall>x. succs t x = succs ?s x"
    "\<forall>x. preds t x = (if x \<in> set ps then remove1 u (preds ?s x) else preds ?s x)"
    by auto
  have "for_each (erase_pred u) (p # ps) s = Inr t"
    using t(1) p by (simp add: erase_pred_def erase_find_Inr)
  moreover have "adj_frame s t" using t(2) adj_frame_trans adj_frame_set_preds by blast
  ultimately show ?case using t(3,4) p by auto
qed simp

text \<open>Adding an edge to a consistent graph.\<close>

lemma precedes_wf_adj:
  assumes "wf_adj s V" "u \<in> V" "v \<in> V" "v \<notin> set (succs s u)"
  shows "wf_adj (precedes u v s) V" "edges (precedes u v s) V = insert (u, v) (edges s V)"
proof -
  have r: "u < length (nodes s)" "v < length (nodes s)" using wf_adjD(1) [OF assms(1)] assms by auto
  have "u \<notin> set (preds s v)" using wf_adj_sym [OF assms(1-3)] assms(4) by simp
  then show "wf_adj (precedes u v s) V" using assms r by (auto simp: wf_adj_def)
  show "edges (precedes u v s) V = insert (u, v) (edges s V)"
    using assms r by (auto simp: edges_def split: if_splits)
qed

lemma connect_wf_adj:
  assumes "wf_adj s V" "u \<in> V" "v \<in> V"
  shows "wf_adj (connect u v s) V" "edges (connect u v s) V = insert (u, v) (edges s V)"
  using assms precedes_wf_adj [OF assms] by (auto simp: connect_def edges_def)

lemma connect_fold_wf_adj:
  "wf_adj s V \<Longrightarrow> p \<in> V \<Longrightarrow> set vs \<subseteq> V \<Longrightarrow>
     wf_adj (fold (connect p) vs s) V \<and> edges (fold (connect p) vs s) V = edges s V \<union> {p} \<times> set vs"
  by (induction vs arbitrary: s) (auto simp: connect_wf_adj)

lemma connect_product_wf_adj:
  "wf_adj s V \<Longrightarrow> set ps \<subseteq> V \<Longrightarrow> set vs \<subseteq> V \<Longrightarrow>
     wf_adj (fold (\<lambda>p. fold (connect p) vs) ps s) V \<and>
     edges (fold (\<lambda>p. fold (connect p) vs) ps s) V = edges s V \<union> set ps \<times> set vs"
proof (induction ps arbitrary: s)
  case (Cons p ps)
  have "wf_adj (fold (connect p) vs s) V" "edges (fold (connect p) vs s) V = edges s V \<union> {p} \<times> set vs"
    using connect_fold_wf_adj [OF Cons.prems(1), of p vs] Cons.prems by auto
  then show ?case using Cons.IH [of "fold (connect p) vs s"] Cons.prems by auto
qed simp

text \<open>The neighbours' lists decide well-formedness once consistency and edges are known.\<close>

lemma wf_adj_succs_edges: "wf_adj s V \<Longrightarrow> x \<in> V \<Longrightarrow> set (succs s x) = {y. (x, y) \<in> edges s V}"
  by (auto simp: wf_adj_edge dest: wf_adjD(2))

lemma wf_adj_preds_edges: "wf_adj s V \<Longrightarrow> x \<in> V \<Longrightarrow> set (preds s x) = {y. (y, x) \<in> edges s V}"
  by (auto simp: wf_adj_edge_pred dest: wf_adjD(3))

lemma wf_graphI_edges:
  assumes "g < length (graphs s)" "wf_adj s V" "acyclic (edges s V)"
    and "node_get_entry s g \<in> V" "node_get_exit s g \<in> V"
    and "\<And>x. x \<in> V \<Longrightarrow> x \<noteq> node_get_entry s g \<longleftrightarrow> (\<exists>y. (y, x) \<in> edges s V)"
    and "\<And>x. x \<in> V \<Longrightarrow> x \<noteq> node_get_exit s g \<longleftrightarrow> (\<exists>y. (x, y) \<in> edges s V)"
  shows "wf_graph s g V"
proof -
  have "preds s x = [] \<longleftrightarrow> x = node_get_entry s g" "succs s x = [] \<longleftrightarrow> x = node_get_exit s g"
    if "x \<in> V" for x
    using wf_adj_preds_edges [OF assms(2) that] wf_adj_succs_edges [OF assms(2) that]
      assms(6,7) [OF that] by (auto simp flip: set_empty)
  then show ?thesis using assms(1-5) by (auto simp: wf_graph_def)
qed

lemma wf_graph_edges_iff:
  assumes "wf_graph s g V" "x \<in> V"
  shows "x \<noteq> node_get_entry s g \<longleftrightarrow> (\<exists>y. (y, x) \<in> edges s V)"
    and "x \<noteq> node_get_exit s g \<longleftrightarrow> (\<exists>y. (x, y) \<in> edges s V)"
proof -
  note adj = wf_graph_adj [OF assms(1)]
  have "preds s x = [] \<longleftrightarrow> x = node_get_entry s g" "succs s x = [] \<longleftrightarrow> x = node_get_exit s g"
    using assms by (auto simp: wf_graph_def)
  then show "x \<noteq> node_get_entry s g \<longleftrightarrow> (\<exists>y. (y, x) \<in> edges s V)"
    and "x \<noteq> node_get_exit s g \<longleftrightarrow> (\<exists>y. (x, y) \<in> edges s V)"
    using wf_adj_preds_edges [OF adj assms(2)] wf_adj_succs_edges [OF adj assms(2)]
    by (auto simp flip: set_empty)
qed

subsection \<open>Removing a node\<close>

text \<open>Taking \<open>u\<close> out of both lists of its neighbours leaves a consistent rest.\<close>

lemma wf_adj_delete:
  assumes adj: "wf_adj s V" and frame: "adj_frame s t"
    and succs: "\<And>x. x \<in> V - {u} \<Longrightarrow> distinct (succs t x) \<and> set (succs t x) = set (succs s x) - {u}"
    and preds: "\<And>x. x \<in> V - {u} \<Longrightarrow> distinct (preds t x) \<and> set (preds t x) = set (preds s x) - {u}"
  shows "wf_adj t (V - {u})" "edges t (V - {u}) = {(a, b) \<in> edges s V. a \<noteq> u \<and> b \<noteq> u}"
proof -
  show "wf_adj t (V - {u})"
    unfolding wf_adj_def
  proof (intro conjI ballI)
    fix x assume x: "x \<in> V - {u}"
    show "x < length (nodes t)" "set (succs t x) \<subseteq> V - {u}" "set (preds t x) \<subseteq> V - {u}"
      "distinct (succs t x)" "distinct (preds t x)"
      using wf_adjD [OF adj, of x] x succs [OF x] preds [OF x] adj_frameD(1) [OF frame] by auto
    fix y assume y: "y \<in> V - {u}"
    show "y \<in> set (succs t x) \<longleftrightarrow> x \<in> set (preds t y)"
      using wf_adj_sym [OF adj] succs [OF x] preds [OF y] x y by auto
  qed
  show "edges t (V - {u}) = {(a, b) \<in> edges s V. a \<noteq> u \<and> b \<noteq> u}"
    using succs by (auto simp: edges_def)
qed

lemma remove_effect:
  assumes adj: "wf_adj s V" and u: "u \<in> V" "u \<notin> set (succs s u)"
  shows "\<exists>t. remove u s = Inr t \<and> adj_frame s t \<and> wf_adj t (V - {u}) \<and>
    edges t (V - {u}) = bypass u (edges s V)"
proof -
  note uV = wf_adjD [OF adj u(1)]
  have self: "u \<notin> set (preds s u)" using wf_adj_sym [OF adj u(1) u(1)] u(2) by simp
  have P: "\<And>p. p \<in> set (preds s u) \<Longrightarrow> p \<in> V \<and> p < length (nodes s) \<and> u \<in> set (succs s p)"
    using uV(3) wf_adj_sym [OF adj] wf_adjD(1) [OF adj] u(1) by blast
  have S: "\<And>p. p \<in> set (succs s u) \<Longrightarrow> p \<in> V \<and> p < length (nodes s) \<and> u \<in> set (preds s p)"
    using uV(2) wf_adj_sym [OF adj] wf_adjD(1) [OF adj] u(1) by blast
  obtain s1 where s1: "for_each (erase_succ u) (preds s u) s = Inr s1" "adj_frame s s1"
    "\<And>x. preds s1 x = preds s x"
    "\<And>x. succs s1 x = (if x \<in> set (preds s u) then remove1 u (succs s x) else succs s x)"
    using erase_succ_loop [of "preds s u" s u] uV(5) P by blast
  have su: "succs s1 u = succs s u" using s1(4) self by simp
  have S1: "\<And>p. p \<in> set (succs s u) \<Longrightarrow> p < length (nodes s1) \<and> u \<in> set (preds s1 p)"
    using S s1(2,3) adj_frameD(1) by metis
  obtain s2 where s2: "for_each (erase_pred u) (succs s u) s1 = Inr s2" "adj_frame s1 s2"
    "\<And>x. succs s2 x = succs s1 x"
    "\<And>x. preds s2 x = (if x \<in> set (succs s u) then remove1 u (preds s1 x) else preds s1 x)"
    using erase_pred_loop [OF uV(4) S1] by blast
  have lists: "succs s2 u = succs s u" "preds s2 u = preds s u"
    using s2(3,4) su s1(3) u(2) by simp_all
  have frame2: "adj_frame s s2" using s1(2) s2(2) by (rule adj_frame_trans)
  have "distinct (succs s2 x) \<and> set (succs s2 x) = set (succs s x) - {u}" if "x \<in> V - {u}" for x
    using that wf_adjD(4) [OF adj, of x] wf_adj_sym [OF adj, of x u] u(1)
    unfolding s2(3) s1(4) by auto
  moreover have "distinct (preds s2 x) \<and> set (preds s2 x) = set (preds s x) - {u}" if "x \<in> V - {u}" for x
    using that wf_adjD(5) [OF adj, of x] wf_adj_sym [OF adj, of u x] u(1)
    unfolding s2(4) s1(3) by auto
  ultimately have del: "wf_adj s2 (V - {u})" "edges s2 (V - {u}) = {(a, b) \<in> edges s V. a \<noteq> u \<and> b \<noteq> u}"
    using wf_adj_delete [OF adj frame2, of u] by blast+
  let ?t = "fold (\<lambda>p. fold (connect p) (succs s u)) (preds s u) s2"
  have sub: "set (preds s u) \<subseteq> V - {u}" "set (succs s u) \<subseteq> V - {u}" using P S self u(2) by auto
  have "wf_adj ?t (V - {u})" and e: "edges ?t (V - {u}) =
      {(a, b) \<in> edges s V. a \<noteq> u \<and> b \<noteq> u} \<union> set (preds s u) \<times> set (succs s u)"
    using connect_product_wf_adj [OF del(1) sub] del(2) by simp_all
  moreover have "adj_frame s ?t"
    by (rule adj_frame_trans [OF frame2 adj_frame_fold [OF adj_frame_fold]]) simp
  moreover have "remove u s = Inr ?t"
    unfolding remove_def s1(1) bind_result_simps su s2(1) lists ..
  moreover have "edges ?t (V - {u}) = bypass u (edges s V)"
    unfolding e bypass_def using wf_adj_preds_edges [OF adj u(1)] wf_adj_succs_edges [OF adj u(1)] by auto
  ultimately show ?thesis by blast
qed

lemma remove_wf_graph:
  assumes "wf_graph s g V" "u \<in> V" "u \<noteq> node_get_entry s g" "u \<noteq> node_get_exit s g"
  obtains t where "remove u s = Inr t" "adj_frame s t" "wf_graph t g (V - {u})"
    "edges t (V - {u}) = bypass u (edges s V)"
proof -
  note adj = wf_graph_adj [OF assms(1)]
  have self: "(u, u) \<notin> edges s V"
    using wf_graph_acyclic [OF assms(1)] by (auto simp: acyclic_def)
  obtain t where t: "remove u s = Inr t" "adj_frame s t" "wf_adj t (V - {u})"
    "edges t (V - {u}) = bypass u (edges s V)"
    using remove_effect [OF adj assms(2)] wf_graph_not_self [OF assms(1,2)] by blast
  obtain p q where pq: "(p, u) \<in> edges s V" "(u, q) \<in> edges s V"
    using wf_graph_edges_iff [OF assms(1,2)] assms(3,4) by blast
  have "wf_graph t g (V - {u})"
  proof (rule wf_graphI_edges)
    show "g < length (graphs t)" using assms(1) adj_frameD(3) [OF t(2)] by (simp add: wf_graph_def)
    show "wf_adj t (V - {u})" by (rule t(3))
    show "acyclic (edges t (V - {u}))"
      unfolding t(4) by (rule acyclic_bypass [OF wf_graph_acyclic [OF assms(1)]])
    show "node_get_entry t g \<in> V - {u}" "node_get_exit t g \<in> V - {u}"
      using assms wf_graph_entry wf_graph_exit by (simp_all add: adj_frameD [OF t(2)])
    fix x assume x: "x \<in> V - {u}"
    show "x \<noteq> node_get_entry t g \<longleftrightarrow> (\<exists>y. (y, x) \<in> edges t (V - {u}))"
      using wf_graph_edges_iff(1) [OF assms(1), of x] x pq self
      unfolding t(4) adj_frameD(5) [OF t(2)] bypass_def by auto
    show "x \<noteq> node_get_exit t g \<longleftrightarrow> (\<exists>y. (x, y) \<in> edges t (V - {u}))"
      using wf_graph_edges_iff(2) [OF assms(1), of x] x pq self
      unfolding t(4) adj_frameD(6) [OF t(2)] bypass_def by auto
  qed
  then show thesis using that t by blast
qed

text \<open>The edge count after a removal: the \<open>m + n\<close> edges of \<open>u\<close> go, at most \<open>m * n\<close> come.\<close>

lemma card_bypass_le:
  assumes "finite E" "(u, u) \<notin> E"
  shows "card (bypass u E) + card {p. (p, u) \<in> E} + card {v. (u, v) \<in> E}
    \<le> card E + card {p. (p, u) \<in> E} * card {v. (u, v) \<in> E}"
proof -
  let ?P = "{p. (p, u) \<in> E}" and ?S = "{v. (u, v) \<in> E}" and ?R = "{(a, b) \<in> E. a \<noteq> u \<and> b \<noteq> u}"
  have fin: "finite ?P" "finite ?S" "finite ?R"
    using finite_vimageI [OF assms(1), of "\<lambda>p. (p, u)"] finite_vimageI [OF assms(1), of "\<lambda>v. (u, v)"]
      finite_subset [OF _ assms(1), of ?R]
    by (auto simp: vimage_def inj_on_def)
  have "E = ?R \<union> (\<lambda>p. (p, u)) ` ?P \<union> (\<lambda>v. (u, v)) ` ?S" by auto
  moreover have "card (?R \<union> (\<lambda>p. (p, u)) ` ?P \<union> (\<lambda>v. (u, v)) ` ?S) = card ?R + card ?P + card ?S"
  proof -
    have "card ((\<lambda>p. (p, u)) ` ?P) = card ?P" "card ((\<lambda>v. (u, v)) ` ?S) = card ?S"
      by (simp_all add: card_image inj_on_def)
    moreover have "?R \<inter> (\<lambda>p. (p, u)) ` ?P = {}" "(?R \<union> (\<lambda>p. (p, u)) ` ?P) \<inter> (\<lambda>v. (u, v)) ` ?S = {}"
      using assms(2) by auto
    ultimately show ?thesis using fin by (simp add: card_Un_disjoint)
  qed
  ultimately have "card E = card ?R + card ?P + card ?S" by simp
  moreover have "card (bypass u E) \<le> card ?R + card (?P \<times> ?S)"
  proof -
    have "bypass u E = ?R \<union> ?P \<times> ?S" by (auto simp: bypass_def)
    then show ?thesis using card_Un_le [of ?R "?P \<times> ?S"] by simp
  qed
  ultimately show ?thesis by (simp add: card_cartesian_product)
qed

lemma remove_reach:
  assumes "wf_graph s g V" "u \<in> V" "u \<noteq> node_get_entry s g" "u \<noteq> node_get_exit s g"
  shows "\<exists>t. remove u s = Inr t \<and> adj_frame s t \<and> wf_graph t g (V - {u}) \<and>
    (\<forall>a\<in>V - {u}. \<forall>b\<in>V - {u}. (a, b) \<in> (edges t (V - {u}))\<^sup>* \<longleftrightarrow> (a, b) \<in> (edges s V)\<^sup>*) \<and>
    card (edges t (V - {u})) + length (preds s u) + length (succs s u)
      \<le> card (edges s V) + length (preds s u) * length (succs s u)"
proof -
  note adj = wf_graph_adj [OF assms(1)]
  obtain t where t: "remove u s = Inr t" "adj_frame s t" "wf_graph t g (V - {u})"
    "edges t (V - {u}) = bypass u (edges s V)"
    using remove_wf_graph [OF assms] by metis
  have self: "(u, u) \<notin> edges s V"
    using wf_graph_acyclic [OF assms(1)] by (auto simp: acyclic_def)
  have "{p. (p, u) \<in> edges s V} = set (preds s u)" "{v. (u, v) \<in> edges s V} = set (succs s u)"
    using wf_adj_preds_edges [OF adj assms(2)] wf_adj_succs_edges [OF adj assms(2)] by simp_all
  then have "card {p. (p, u) \<in> edges s V} = length (preds s u)"
    "card {v. (u, v) \<in> edges s V} = length (succs s u)"
    using wf_adjD(4,5) [OF adj assms(2)] by (simp_all add: distinct_card)
  then show ?thesis
    using t bypass_reach [OF self] card_bypass_le [OF wf_adj_finite_edges [OF adj] self] by auto
qed

text \<open>
  C26. \<^verbatim>\<open>remove(u)\<close> of an inner node of a well-formed graph succeeds (no missing edge is
  erased), takes exactly \<open>u\<close> out of the graph, keeps it well formed, and keeps, between any two
  of the remaining nodes, whether one reaches the other. At most \<open>m * n\<close> edges replace the
  \<open>m + n\<close> of \<open>u\<close>.
\<close>

theorem remove_preserves_reachability:
  assumes "wf_graph s g V" "u \<in> V" "u \<noteq> node_get_entry s g" "u \<noteq> node_get_exit s g"
  shows "\<exists>t. remove u s = Inr t \<and> wf_graph t g (V - {u}) \<and>
    (\<forall>a\<in>V - {u}. \<forall>b\<in>V - {u}. (a, b) \<in> (edges t (V - {u}))\<^sup>* \<longleftrightarrow> (a, b) \<in> (edges s V)\<^sup>*) \<and>
    card (edges t (V - {u})) + length (preds s u) + length (succs s u)
      \<le> card (edges s V) + length (preds s u) * length (succs s u)"
  using remove_reach [OF assms] by metis

end
