(* ===== verification/Contract_Props.thy ===== *)
theory Contract_Props
  imports Graph_Ops_Props
begin

text \<open>
  The in-place contractions, the ones the passes use: on a well-formed graph none of the
  assertions of \<^verbatim>\<open>contract\<close> fails, exactly \<open>v\<close> leaves the graph, the rest is well formed,
  and reachability among the remaining nodes is that of the original graph.
\<close>

subsection \<open>Loops over neighbours that keep the list length in check\<close>

lemma succs_loop:
  assumes "distinct ps" "\<And>p. p \<in> set ps \<Longrightarrow> p < length (nodes s)"
    and "\<And>p t. p \<in> set ps \<Longrightarrow> succs t p = succs s p \<Longrightarrow> body p t = Inr (set_succs p (h (succs s p)) t)"
  shows "\<exists>t. for_each body ps s = Inr t \<and> adj_frame s t \<and> (\<forall>x. preds t x = preds s x) \<and>
    (\<forall>x. succs t x = (if x \<in> set ps then h (succs s x) else succs s x))"
  using assms
proof (induction ps arbitrary: s)
  case (Cons p ps)
  let ?s = "set_succs p (h (succs s p)) s"
  have p: "p < length (nodes s)" "p \<notin> set ps" using Cons.prems by auto
  have len: "length (nodes ?s) = length (nodes s)" by (simp add: set_succs_def)
  have same: "succs ?s q = succs s q" if "q \<in> set ps" for q using that p by auto
  have "\<exists>t. for_each body ps ?s = Inr t \<and> adj_frame ?s t \<and> (\<forall>x. preds t x = preds ?s x) \<and>
      (\<forall>x. succs t x = (if x \<in> set ps then h (succs ?s x) else succs ?s x))"
  proof (rule Cons.IH)
    show "distinct ps" "\<And>q. q \<in> set ps \<Longrightarrow> q < length (nodes ?s)" using Cons.prems len by auto
    show "body q t = Inr (set_succs q (h (succs ?s q)) t)"
      if "q \<in> set ps" "succs t q = succs ?s q" for q t
      using Cons.prems(3) [of q t] that same by simp
  qed
  then obtain t where t: "for_each body ps ?s = Inr t" "adj_frame ?s t" "\<forall>x. preds t x = preds ?s x"
    "\<forall>x. succs t x = (if x \<in> set ps then h (succs ?s x) else succs ?s x)" by blast
  have "for_each body (p # ps) s = Inr t" using t(1) Cons.prems(3) [of p s] by simp
  moreover have "adj_frame s t" using t(2) adj_frame_trans adj_frame_set_succs by blast
  ultimately show ?case using t(3,4) p by auto
qed simp

lemma preds_loop:
  assumes "distinct ps" "\<And>p. p \<in> set ps \<Longrightarrow> p < length (nodes s)"
    and "\<And>p t. p \<in> set ps \<Longrightarrow> preds t p = preds s p \<Longrightarrow> body p t = Inr (set_preds p (h (preds s p)) t)"
  shows "\<exists>t. for_each body ps s = Inr t \<and> adj_frame s t \<and> (\<forall>x. succs t x = succs s x) \<and>
    (\<forall>x. preds t x = (if x \<in> set ps then h (preds s x) else preds s x))"
  using assms
proof (induction ps arbitrary: s)
  case (Cons p ps)
  let ?s = "set_preds p (h (preds s p)) s"
  have p: "p < length (nodes s)" "p \<notin> set ps" using Cons.prems by auto
  have len: "length (nodes ?s) = length (nodes s)" by (simp add: set_preds_def)
  have same: "preds ?s q = preds s q" if "q \<in> set ps" for q using that p by auto
  have "\<exists>t. for_each body ps ?s = Inr t \<and> adj_frame ?s t \<and> (\<forall>x. succs t x = succs ?s x) \<and>
      (\<forall>x. preds t x = (if x \<in> set ps then h (preds ?s x) else preds ?s x))"
  proof (rule Cons.IH)
    show "distinct ps" "\<And>q. q \<in> set ps \<Longrightarrow> q < length (nodes ?s)" using Cons.prems len by auto
    show "body q t = Inr (set_preds q (h (preds ?s q)) t)"
      if "q \<in> set ps" "preds t q = preds ?s q" for q t
      using Cons.prems(3) [of q t] that same by simp
  qed
  then obtain t where t: "for_each body ps ?s = Inr t" "adj_frame ?s t" "\<forall>x. succs t x = succs ?s x"
    "\<forall>x. preds t x = (if x \<in> set ps then h (preds ?s x) else preds ?s x)" by blast
  have "for_each body (p # ps) s = Inr t" using t(1) Cons.prems(3) [of p s] by simp
  moreover have "adj_frame s t" using t(2) adj_frame_trans adj_frame_set_preds by blast
  ultimately show ?case using t(3,4) p by auto
qed simp

subsection \<open>False twins\<close>

text \<open>Deleting a node whose neighbours are also those of another node.\<close>

definition delete_node :: "'a \<Rightarrow> ('a \<times> 'a) set \<Rightarrow> ('a \<times> 'a) set" where
  "delete_node v E = {(a, b) \<in> E. a \<noteq> v \<and> b \<noteq> v}"

lemma delete_twin_reach:
  assumes "\<And>a. (a, u) \<in> E \<longleftrightarrow> (a, v) \<in> E" "\<And>b. (u, b) \<in> E \<longleftrightarrow> (v, b) \<in> E" "u \<noteq> v" "(v, v) \<notin> E"
    and "a \<noteq> v" "b \<noteq> v"
  shows "(a, b) \<in> (delete_node v E)\<^sup>* \<longleftrightarrow> (a, b) \<in> E\<^sup>*"
proof
  show "(a, b) \<in> (delete_node v E)\<^sup>* \<Longrightarrow> (a, b) \<in> E\<^sup>*"
    by (rule rtrancl_mono [THEN subsetD]) (auto simp: delete_node_def)
  assume "(a, b) \<in> E\<^sup>*"
  then have "(a, if b = v then u else b) \<in> (delete_node v E)\<^sup>*"
  proof (induction rule: rtrancl_induct)
    case base
    then show ?case using assms(5) by simp
  next
    case (step y z)
    have uv: "(u, v) \<notin> E" using assms(1,2,4) by blast
    have "(if y = v then u else y, if z = v then u else z) \<in> delete_node v E"
      using step.hyps(2) assms(1-4) uv by (auto simp: delete_node_def)
    then show ?case using step.IH by (meson rtrancl.rtrancl_into_rtrancl)
  qed
  then show "(a, b) \<in> (delete_node v E)\<^sup>*" using assms(6) by simp
qed

lemma twins_edges:
  assumes "wf_adj s V" "u \<in> V" "v \<in> V" "are_false_twins s u v"
  shows "(a, u) \<in> edges s V \<longleftrightarrow> (a, v) \<in> edges s V" "(u, b) \<in> edges s V \<longleftrightarrow> (v, b) \<in> edges s V"
proof -
  have "set (preds s u) = set (preds s v)" "set (succs s u) = set (succs s v)"
    using assms(4) is_permutation_set unfolding are_false_twins_def by blast+
  then show "(a, u) \<in> edges s V \<longleftrightarrow> (a, v) \<in> edges s V" "(u, b) \<in> edges s V \<longleftrightarrow> (v, b) \<in> edges s V"
    using wf_adj_preds_edges [OF assms(1)] wf_adj_succs_edges [OF assms(1)] assms(2,3) by blast+
qed

lemma contract_twins_wf:
  assumes wf: "wf_graph s g V" and uv: "u \<in> V" "v \<in> V" "u \<noteq> v" and tw: "are_false_twins s u v"
  obtains t where "contract_twins_inplace u v s = Inr (u, t)" "adj_frame s t" "wf_graph t g (V - {v})"
    "edges t (V - {v}) = delete_node v (edges s V)"
    "\<And>x. x \<in> V - {v} \<Longrightarrow> succs t x = remove1 v (succs s x)"
    "\<And>x. x \<in> V - {v} \<Longrightarrow> preds t x = remove1 v (preds s x)"
proof -
  note adj = wf_graph_adj [OF wf]
  have same: "set (preds s u) = set (preds s v)" "set (succs s u) = set (succs s v)"
    using tw is_permutation_set unfolding are_false_twins_def by blast+
  note self = wf_graph_not_self [OF wf uv(1)] wf_graph_not_self [OF wf uv(2)]
  have P: "\<And>p. p \<in> set (preds s u) \<Longrightarrow> p \<noteq> u \<and> p < length (nodes s) \<and> v \<in> set (succs s p) \<and> distinct (succs s p)"
    using wf_adjD(1,3,4) [OF adj] wf_adj_sym [OF adj] uv same self by blast
  have S: "\<And>p. p \<in> set (succs s u) \<Longrightarrow> p \<noteq> u \<and> p < length (nodes s) \<and> v \<in> set (preds s p) \<and> distinct (preds s p)"
    using wf_adjD(1,2,5) [OF adj] wf_adj_sym [OF adj] uv same self by blast
  let ?b1 = "\<lambda>p s. assert_that (p \<noteq> u) (assert_that (count_list (succs s p) v = 1) (erase_succ v p s))"
  let ?b2 = "\<lambda>p s. assert_that (p \<noteq> u) (assert_that (count_list (preds s p) v = 1) (erase_pred v p s))"
  have "\<exists>t. for_each ?b1 (preds s u) s = Inr t \<and> adj_frame s t \<and> (\<forall>x. preds t x = preds s x) \<and>
      (\<forall>x. succs t x = (if x \<in> set (preds s u) then remove1 v (succs s x) else succs s x))"
    using wf_adjD(5) [OF adj uv(1)] P
    by (intro succs_loop) (auto simp: erase_succ_def erase_find_Inr count_list_distinct)
  then obtain s1 where s1: "for_each ?b1 (preds s u) s = Inr s1" "adj_frame s s1"
    "\<And>x. preds s1 x = preds s x"
    "\<And>x. succs s1 x = (if x \<in> set (preds s u) then remove1 v (succs s x) else succs s x)" by blast
  have su: "succs s1 u = succs s u" using s1(4) self by simp
  have "\<exists>t. for_each ?b2 (succs s u) s1 = Inr t \<and> adj_frame s1 t \<and> (\<forall>x. succs t x = succs s1 x) \<and>
      (\<forall>x. preds t x = (if x \<in> set (succs s u) then remove1 v (preds s1 x) else preds s1 x))"
    using wf_adjD(4) [OF adj uv(1)] S s1(3) adj_frameD(1) [OF s1(2)]
    by (intro preds_loop) (auto simp: erase_pred_def erase_find_Inr count_list_distinct)
  then obtain t where t: "for_each ?b2 (succs s u) s1 = Inr t" "adj_frame s1 t"
    "\<And>x. succs t x = succs s1 x"
    "\<And>x. preds t x = (if x \<in> set (succs s u) then remove1 v (preds s1 x) else preds s1 x)" by blast
  have frame: "adj_frame s t" using s1(2) t(2) by (rule adj_frame_trans)
  have eq: "contract_twins_inplace u v s = Inr (u, t)"
    unfolding contract_twins_inplace_def foreach_predecessor_def foreach_successor_def
      s1(1) bind_result_simps su t(1) ..
  have ls: "succs t x = remove1 v (succs s x)" and lp: "preds t x = remove1 v (preds s x)"
    if "x \<in> V - {v}" for x
    using that wf_adj_sym [OF adj _ uv(2), of x] wf_adj_sym [OF adj uv(2), of x] same
    unfolding t(3,4) s1(3,4) by (auto simp: remove1_idem)
  have "distinct (succs t x) \<and> set (succs t x) = set (succs s x) - {v}"
    "distinct (preds t x) \<and> set (preds t x) = set (preds s x) - {v}" if "x \<in> V - {v}" for x
    using that ls [OF that] lp [OF that] wf_adjD(4,5) [OF adj, of x] by auto
  then have adj': "wf_adj t (V - {v})" and e: "edges t (V - {v}) = delete_node v (edges s V)"
    using wf_adj_delete [OF adj frame, of v] unfolding delete_node_def by blast+
  note tw_e = twins_edges [OF adj uv(1,2) tw]
  have E: "node_get_entry s g \<noteq> v" "node_get_exit s g \<noteq> v"
    using wf_graph_edges_iff [OF wf uv(1)] wf_graph_edges_iff [OF wf uv(2)] tw_e uv(3) by blast+
  have "wf_graph t g (V - {v})"
  proof (rule wf_graphI_edges)
    show "g < length (graphs t)" using wf adj_frameD(3) [OF frame] by (simp add: wf_graph_def)
    show "wf_adj t (V - {v})" by (rule adj')
    show "acyclic (edges t (V - {v}))"
      unfolding e by (rule acyclic_subset [OF wf_graph_acyclic [OF wf]]) (auto simp: delete_node_def)
    show "node_get_entry t g \<in> V - {v}" "node_get_exit t g \<in> V - {v}"
      using E wf_graph_entry [OF wf] wf_graph_exit [OF wf] by (auto simp: adj_frameD [OF frame])
    fix x assume x: "x \<in> V - {v}"
    show "x \<noteq> node_get_entry t g \<longleftrightarrow> (\<exists>y. (y, x) \<in> edges t (V - {v}))"
      using wf_graph_edges_iff(1) [OF wf, of x] x tw_e uv(3)
      unfolding e adj_frameD(5) [OF frame] delete_node_def by auto
    show "x \<noteq> node_get_exit t g \<longleftrightarrow> (\<exists>y. (x, y) \<in> edges t (V - {v}))"
      using wf_graph_edges_iff(2) [OF wf, of x] x tw_e uv(3)
      unfolding e adj_frameD(6) [OF frame] delete_node_def by auto
  qed
  then show thesis using that eq frame e ls lp by blast
qed

subsection \<open>Sequences\<close>

lemma are_sequenceD:
  assumes "are_sequence s u v" shows "succs s u = [v]" "preds s v = [u]"
  using assms by (auto simp: are_sequence_def length_Suc_conv)

text \<open>What both sequence contractions leave: \<open>v\<close> is bypassed.\<close>

lemma sequence_wf_graph:
  assumes wf: "wf_graph s g V" and v: "v \<in> V" "v \<noteq> node_get_entry s g" "v \<noteq> node_get_exit s g"
    and frame: "adj_frame s t" and adj': "wf_adj t (V - {v})"
    and e: "edges t (V - {v}) = bypass v (edges s V)"
  shows "wf_graph t g (V - {v})"
proof -
  note adj = wf_graph_adj [OF wf]
  have self: "(v, v) \<notin> edges s V"
    using wf_graph_acyclic [OF wf] by (auto simp: acyclic_def)
  obtain p q where pq: "(p, v) \<in> edges s V" "(v, q) \<in> edges s V"
    using wf_graph_edges_iff [OF wf v(1)] v(2,3) by blast
  show ?thesis
  proof (rule wf_graphI_edges)
    show "g < length (graphs t)" using wf adj_frameD(3) [OF frame] by (simp add: wf_graph_def)
    show "wf_adj t (V - {v})" by (rule adj')
    show "acyclic (edges t (V - {v}))"
      unfolding e by (rule acyclic_bypass [OF wf_graph_acyclic [OF wf]])
    show "node_get_entry t g \<in> V - {v}" "node_get_exit t g \<in> V - {v}"
      using v wf_graph_entry [OF wf] wf_graph_exit [OF wf] by (simp_all add: adj_frameD [OF frame])
    fix x assume x: "x \<in> V - {v}"
    show "x \<noteq> node_get_entry t g \<longleftrightarrow> (\<exists>y. (y, x) \<in> edges t (V - {v}))"
      using wf_graph_edges_iff(1) [OF wf, of x] x pq self
      unfolding e adj_frameD(5) [OF frame] bypass_def by auto
    show "x \<noteq> node_get_exit t g \<longleftrightarrow> (\<exists>y. (x, y) \<in> edges t (V - {v}))"
      using wf_graph_edges_iff(2) [OF wf, of x] x pq self
      unfolding e adj_frameD(6) [OF frame] bypass_def by auto
  qed
qed

lemma contract_uv_wf:
  assumes wf: "wf_graph s g V" and u: "u \<in> V" and v: "v \<in> V" "v \<noteq> node_get_entry s g" "v \<noteq> node_get_exit s g"
    and seq: "are_sequence s u v"
  obtains t where "contract_uv_inplace u v s = Inr (u, t)" "adj_frame s t" "wf_graph t g (V - {v})"
    "edges t (V - {v}) = bypass v (edges s V)"
proof -
  note adj = wf_graph_adj [OF wf]
  note sq = are_sequenceD [OF seq]
  have uv: "u \<noteq> v" using wf_graph_not_self [OF wf u] sq(1) by auto
  have acy: "u \<notin> set (succs s v)"
  proof
    assume "u \<in> set (succs s v)"
    then have "(v, u) \<in> edges s V" "(u, v) \<in> edges s V" using wf_adj_edge [OF adj] u v sq by auto
    then show False using wf_graph_acyclic [OF wf] unfolding acyclic_def by (meson trancl.simps)
  qed
  have S: "\<And>x. x \<in> set (succs s v) \<Longrightarrow> x \<in> V \<and> x \<noteq> v \<and> x \<noteq> u \<and> x < length (nodes s) \<and>
      v \<in> set (preds s x) \<and> distinct (preds s x) \<and> u \<notin> set (preds s x)"
    using wf_adjD(1,2,5) [OF adj] wf_adj_sym [OF adj] v u wf_graph_not_self [OF wf v(1)] acy sq(1)
    by (metis empty_iff empty_set set_ConsD subset_iff)
  let ?b = "\<lambda>p s. assert_that (p \<noteq> v) (assert_that (count_list (preds s p) v = 1)
      (assert_that (p \<noteq> u) (assert_that (v \<in> set (preds s p)) (assign_pred v u p s))))"
  have "\<exists>t. for_each ?b (succs s v) s = Inr t \<and> adj_frame s t \<and> (\<forall>x. succs t x = succs s x) \<and>
      (\<forall>x. preds t x = (if x \<in> set (succs s v) then replace_first v u (preds s x) else preds s x))"
    using wf_adjD(4) [OF adj v(1)] S
    by (intro preds_loop) (auto simp: assign_pred_def assign_found_Inr count_list_distinct)
  then obtain s1 where s1: "for_each ?b (succs s v) s = Inr s1" "adj_frame s s1"
    "\<And>x. succs s1 x = succs s x"
    "\<And>x. preds s1 x = (if x \<in> set (succs s v) then replace_first v u (preds s x) else preds s x)" by blast
  let ?t = "set_succs v [] (set_succs u (succs s1 v) s1)"
  have eq: "contract_uv_inplace u v s = Inr (u, ?t)"
    unfolding contract_uv_inplace_def foreach_successor_def s1(1) bind_result_simps ..
  have frame: "adj_frame s ?t"
    by (rule adj_frame_trans [OF s1(2) adj_frame_trans [OF adj_frame_set_succs adj_frame_set_succs]])
  have len: "u < length (nodes s1)" "v < length (nodes (set_succs u (succs s1 v) s1))"
    using wf_adjD(1) [OF adj] u v(1) adj_frameD(1) [OF s1(2)] by (simp_all add: set_succs_def)
  have ls: "succs ?t x = (if x = u then succs s v else succs s x)" if "x \<noteq> v" for x
    using that len s1(3) by simp
  have lp: "preds ?t x = (if x \<in> set (succs s v) then replace_first v u (preds s x) else preds s x)" for x
    using s1(4) by simp
  have setp: "set (preds ?t x) = (if x \<in> set (succs s v) then insert u (set (preds s x) - {v}) else set (preds s x))"
    "distinct (preds s x) \<Longrightarrow> distinct (preds ?t x)" if "x \<in> V" for x
    using S set_replace_first [of "preds s x" v u] distinct_replace_first [of "preds s x" u v]
    unfolding lp by auto
  have "wf_adj ?t (V - {v})"
    unfolding wf_adj_def
  proof (intro conjI ballI)
    fix x assume x: "x \<in> V - {v}"
    show "x < length (nodes ?t)" using wf_adjD(1) [OF adj] x adj_frameD(1) [OF frame] by simp
    have only_u: "v \<in> set (succs s x) \<Longrightarrow> x = u"
      using wf_adj_sym [OF adj _ v(1), of x] x sq(2) by auto
    show "set (succs ?t x) \<subseteq> V - {v}"
      using ls [of x] x S only_u wf_adjD(2) [OF adj, of x] by auto
    show "set (preds ?t x) \<subseteq> V - {v}"
      using setp(1) [of x] x u uv wf_adjD(3) [OF adj, of x] wf_adj_sym [OF adj v(1), of x] by auto
    show "distinct (succs ?t x)" "distinct (preds ?t x)"
      using ls [of x] setp(2) [of x] x wf_adjD(4,5) [OF adj] v(1) by auto
    fix y assume y: "y \<in> V - {v}"
    show "y \<in> set (succs ?t x) \<longleftrightarrow> x \<in> set (preds ?t y)"
    proof (cases "x = u")
      case True
      have "u \<notin> set (preds s y)" using wf_adj_sym [OF adj u, of y] sq(1) y by simp
      then have "u \<in> set (preds ?t y) \<longleftrightarrow> y \<in> set (succs s v)"
        using setp(1) [of y] y by simp
      then show ?thesis using True ls [of u] uv by simp
    next
      case False
      then have "x \<in> set (preds ?t y) \<longleftrightarrow> x \<in> set (preds s y)"
        using setp(1) [of y] x y by simp
      then show ?thesis using False ls [of x] x y wf_adj_sym [OF adj, of x y] by simp
    qed
  qed
  moreover have "edges ?t (V - {v}) = bypass v (edges s V)"
  proof -
    have into: "(a, v) \<in> edges s V \<longleftrightarrow> a = u" and out: "(v, b) \<in> edges s V \<longleftrightarrow> b \<in> set (succs s v)" for a b
      using wf_adj_preds_edges [OF adj v(1)] wf_adj_succs_edges [OF adj v(1)] sq(2) by auto
    have from_u: "(u, b) \<in> edges s V \<longleftrightarrow> b = v" for b
      using wf_adj_succs_edges [OF adj u] sq(1) by auto
    have "(a, b) \<in> edges ?t (V - {v}) \<longleftrightarrow> (a, b) \<in> bypass v (edges s V)" for a b
    proof (cases "a = u")
      case True
      then have "(a, b) \<in> edges ?t (V - {v}) \<longleftrightarrow> b \<in> set (succs s v)"
        using u uv ls [of u] by (simp add: edges_def)
      then show ?thesis using True into out from_u uv S by (auto simp: bypass_def)
    next
      case False
      then have "(a, b) \<in> bypass v (edges s V) \<longleftrightarrow> a \<noteq> v \<and> (a, b) \<in> edges s V"
        using into by (auto simp: bypass_def)
      also have "\<dots> \<longleftrightarrow> (a, b) \<in> edges ?t (V - {v})"
        using False ls [of a] by (auto simp: edges_def)
      finally show ?thesis by simp
    qed
    then show ?thesis by auto
  qed
  ultimately show thesis
    using that [OF eq frame] sequence_wf_graph [OF wf v frame] by blast
qed

lemma contract_vu_wf:
  assumes wf: "wf_graph s g V" and u: "u \<in> V" and v: "v \<in> V" "v \<noteq> node_get_entry s g" "v \<noteq> node_get_exit s g"
    and seq: "are_sequence s v u"
  obtains t where "contract_vu_inplace u v s = Inr (u, t)" "adj_frame s t" "wf_graph t g (V - {v})"
    "edges t (V - {v}) = bypass v (edges s V)"
proof -
  note adj = wf_graph_adj [OF wf]
  note sq = are_sequenceD [OF seq]
  have uv: "u \<noteq> v" using wf_graph_not_self [OF wf u] sq(2) by auto
  have acy: "u \<notin> set (preds s v)"
  proof
    assume "u \<in> set (preds s v)"
    then have "(u, v) \<in> edges s V" "(v, u) \<in> edges s V"
      using wf_adj_edge [OF adj] wf_adj_edge_pred [OF adj] u v sq by auto
    then show False using wf_graph_acyclic [OF wf] unfolding acyclic_def by (meson trancl.simps)
  qed
  have S: "\<And>x. x \<in> set (preds s v) \<Longrightarrow> x \<in> V \<and> x \<noteq> v \<and> x \<noteq> u \<and> x < length (nodes s) \<and>
      v \<in> set (succs s x) \<and> distinct (succs s x) \<and> u \<notin> set (succs s x)"
    using wf_adjD(1,3,4) [OF adj] wf_adj_sym [OF adj] v u wf_graph_not_self [OF wf v(1)] acy sq(2)
    by (metis empty_iff empty_set set_ConsD subset_iff)
  let ?b = "\<lambda>p s. assert_that (p \<noteq> v) (assert_that (count_list (succs s p) v = 1)
      (assert_that (p \<noteq> u) (assert_that (v \<in> set (succs s p)) (assign_succ v u p s))))"
  have "\<exists>t. for_each ?b (preds s v) s = Inr t \<and> adj_frame s t \<and> (\<forall>x. preds t x = preds s x) \<and>
      (\<forall>x. succs t x = (if x \<in> set (preds s v) then replace_first v u (succs s x) else succs s x))"
    using wf_adjD(5) [OF adj v(1)] S
    by (intro succs_loop) (auto simp: assign_succ_def assign_found_Inr count_list_distinct)
  then obtain s1 where s1: "for_each ?b (preds s v) s = Inr s1" "adj_frame s s1"
    "\<And>x. preds s1 x = preds s x"
    "\<And>x. succs s1 x = (if x \<in> set (preds s v) then replace_first v u (succs s x) else succs s x)" by blast
  let ?t = "set_preds v [] (set_preds u (preds s1 v) s1)"
  have eq: "contract_vu_inplace u v s = Inr (u, ?t)"
    unfolding contract_vu_inplace_def foreach_predecessor_def s1(1) bind_result_simps ..
  have frame: "adj_frame s ?t"
    by (rule adj_frame_trans [OF s1(2) adj_frame_trans [OF adj_frame_set_preds adj_frame_set_preds]])
  have len: "u < length (nodes s1)" "v < length (nodes (set_preds u (preds s1 v) s1))"
    using wf_adjD(1) [OF adj] u v(1) adj_frameD(1) [OF s1(2)] by (simp_all add: set_preds_def)
  have lp: "preds ?t x = (if x = u then preds s v else preds s x)" if "x \<noteq> v" for x
    using that len s1(3) by simp
  have ls: "succs ?t x = (if x \<in> set (preds s v) then replace_first v u (succs s x) else succs s x)" for x
    using s1(4) by simp
  have sets: "set (succs ?t x) = (if x \<in> set (preds s v) then insert u (set (succs s x) - {v}) else set (succs s x))"
    "distinct (succs s x) \<Longrightarrow> distinct (succs ?t x)" if "x \<in> V" for x
    using S set_replace_first [of "succs s x" v u] distinct_replace_first [of "succs s x" u v]
    unfolding ls by auto
  have "wf_adj ?t (V - {v})"
    unfolding wf_adj_def
  proof (intro conjI ballI)
    fix x assume x: "x \<in> V - {v}"
    show "x < length (nodes ?t)" using wf_adjD(1) [OF adj] x adj_frameD(1) [OF frame] by simp
    have only_u: "v \<in> set (preds s x) \<Longrightarrow> x = u"
      using wf_adj_sym [OF adj v(1), of x] x sq(1) by auto
    show "set (preds ?t x) \<subseteq> V - {v}"
      using lp [of x] x S only_u wf_adjD(3) [OF adj, of x] by auto
    show "set (succs ?t x) \<subseteq> V - {v}"
      using sets(1) [of x] x u uv wf_adjD(2) [OF adj, of x] wf_adj_sym [OF adj _ v(1), of x] by auto
    show "distinct (succs ?t x)" "distinct (preds ?t x)"
      using lp [of x] sets(2) [of x] x wf_adjD(4,5) [OF adj] v(1) by auto
    fix y assume y: "y \<in> V - {v}"
    show "y \<in> set (succs ?t x) \<longleftrightarrow> x \<in> set (preds ?t y)"
    proof (cases "y = u")
      case True
      have "u \<notin> set (succs s x)" using wf_adj_sym [OF adj _ u, of x] sq(2) x by simp
      then have "u \<in> set (succs ?t x) \<longleftrightarrow> x \<in> set (preds s v)"
        using sets(1) [of x] x by simp
      then show ?thesis using True lp [of u] uv by simp
    next
      case False
      then have "y \<in> set (succs ?t x) \<longleftrightarrow> y \<in> set (succs s x)"
        using sets(1) [of x] x y by simp
      then show ?thesis using False lp [of y] x y wf_adj_sym [OF adj, of x y] by simp
    qed
  qed
  moreover have "edges ?t (V - {v}) = bypass v (edges s V)"
  proof -
    have into: "(a, v) \<in> edges s V \<longleftrightarrow> a \<in> set (preds s v)" and out: "(v, b) \<in> edges s V \<longleftrightarrow> b = u" for a b
      using wf_adj_preds_edges [OF adj v(1)] wf_adj_succs_edges [OF adj v(1)] sq(1) by auto
    have into_u: "(a, u) \<in> edges s V \<longleftrightarrow> a = v" for a
      using wf_adj_preds_edges [OF adj u] sq(2) by auto
    have "(a, b) \<in> edges ?t (V - {v}) \<longleftrightarrow> (a, b) \<in> bypass v (edges s V)" for a b
    proof (cases "a \<in> V - {v}")
      case True
      then have "(a, b) \<in> edges ?t (V - {v}) \<longleftrightarrow> b \<in> set (succs ?t a)" by (simp add: edges_def)
      also have "\<dots> \<longleftrightarrow> (if a \<in> set (preds s v) then b = u \<or> b \<noteq> v \<and> (a, b) \<in> edges s V else (a, b) \<in> edges s V)"
        using sets(1) [of a] True by (auto simp: edges_def)
      also have "\<dots> \<longleftrightarrow> (a, b) \<in> bypass v (edges s V)"
        using into [of a] out [of b] True uv by (auto simp: bypass_def)
      finally show ?thesis .
    next
      case False
      have "(a, b) \<notin> edges ?t (V - {v})" "(a, b) \<notin> bypass v (edges s V)"
        using False out uv wf_adj_edges_subset [OF adj] v(1) by (auto simp: edges_def bypass_def)
      then show ?thesis by simp
    qed
    then show ?thesis by auto
  qed
  ultimately show thesis
    using that [OF eq frame] sequence_wf_graph [OF wf v frame] by blast
qed

subsection \<open>Contraction in place\<close>

text \<open>The hints a caller may pass for \<open>u\<close> and \<open>v\<close>, and the condition each stands for.\<close>

definition inplace_hint_holds :: "contraction_hints \<Rightarrow> store \<Rightarrow> node_ref \<Rightarrow> node_ref \<Rightarrow> bool" where
  "inplace_hint_holds hints s u v \<longleftrightarrow>
     hint_inplace hints \<and>
     (if hint_false_twins hints then are_false_twins s u v
      else if hint_u_v_sequence hints then are_sequence s u v
      else hint_v_u_sequence hints \<and> are_sequence s v u)"

lemma contract_inplace:
  assumes wf: "wf_graph s g V" and uv: "u \<in> V" "v \<in> V" "u \<noteq> v"
    and v: "v \<noteq> node_get_entry s g" "v \<noteq> node_get_exit s g"
    and h: "inplace_hint_holds hints s u v"
  obtains t where "contract hints u v s = Inr (u, t)" "adj_frame s t" "wf_graph t g (V - {v})"
    "edges t (V - {v}) = (if hint_false_twins hints then delete_node v (edges s V) else bypass v (edges s V))"
proof (cases "hint_false_twins hints")
  case True
  then have tw: "are_false_twins s u v" and i: "hint_inplace hints"
    using h by (simp_all add: inplace_hint_holds_def)
  obtain t where "contract_twins_inplace u v s = Inr (u, t)" "adj_frame s t" "wf_graph t g (V - {v})"
    "edges t (V - {v}) = delete_node v (edges s V)"
    using contract_twins_wf [OF wf uv tw] by metis
  then show thesis using that True tw i uv(3) by (simp add: contract_def)
next
  case twins: False
  show thesis
  proof (cases "hint_u_v_sequence hints")
    case True
    then have sq: "are_sequence s u v" and i: "hint_inplace hints"
      using h twins by (simp_all add: inplace_hint_holds_def)
    obtain t where "contract_uv_inplace u v s = Inr (u, t)" "adj_frame s t" "wf_graph t g (V - {v})"
      "edges t (V - {v}) = bypass v (edges s V)"
      using contract_uv_wf [OF wf uv(1,2) v sq] by metis
    then show thesis using that twins True sq i uv(3) by (simp add: contract_def)
  next
    case False
    then have sq: "are_sequence s v u" and i: "hint_inplace hints" and vu: "hint_v_u_sequence hints"
      using h twins by (simp_all add: inplace_hint_holds_def)
    obtain t where "contract_vu_inplace u v s = Inr (u, t)" "adj_frame s t" "wf_graph t g (V - {v})"
      "edges t (V - {v}) = bypass v (edges s V)"
      using contract_vu_wf [OF wf uv(1,2) v sq] by metis
    then show thesis using that twins False sq i vu uv(3) by (simp add: contract_def)
  qed
qed

lemma contract_inplace_reach:
  assumes "wf_graph s g V" "u \<in> V" "v \<in> V" "u \<noteq> v"
    and "v \<noteq> node_get_entry s g" "v \<noteq> node_get_exit s g" "inplace_hint_holds hints s u v"
  shows "\<exists>t. contract hints u v s = Inr (u, t) \<and> adj_frame s t \<and> wf_graph t g (V - {v}) \<and>
    (\<forall>a\<in>V - {v}. \<forall>b\<in>V - {v}. (a, b) \<in> (edges t (V - {v}))\<^sup>* \<longleftrightarrow> (a, b) \<in> (edges s V)\<^sup>*)"
proof -
  obtain t where t: "contract hints u v s = Inr (u, t)" "adj_frame s t" "wf_graph t g (V - {v})"
    "edges t (V - {v}) = (if hint_false_twins hints then delete_node v (edges s V) else bypass v (edges s V))"
    using contract_inplace [OF assms] by metis
  have self: "(v, v) \<notin> edges s V"
    using wf_graph_acyclic [OF assms(1)] by (auto simp: acyclic_def)
  have "(a, b) \<in> (edges t (V - {v}))\<^sup>* \<longleftrightarrow> (a, b) \<in> (edges s V)\<^sup>*" if ab: "a \<in> V - {v}" "b \<in> V - {v}" for a b
  proof (cases "hint_false_twins hints")
    case True
    then have tw: "are_false_twins s u v" using assms(7) by (simp add: inplace_hint_holds_def)
    show ?thesis
      using t(4) True ab assms(4) self
        delete_twin_reach [OF twins_edges [OF wf_graph_adj [OF assms(1)] assms(2,3) tw] assms(4) self, of a b]
      by simp
  next
    case False
    then show ?thesis using t(4) ab bypass_reach [OF self, of a b] by simp
  qed
  then show ?thesis using t(1-3) by blast
qed

text \<open>
  C27. Contracting \<open>v\<close> into \<open>u\<close> in place, with a hint that holds, fails none of its assertions,
  returns \<open>u\<close>, takes exactly \<open>v\<close> out, keeps the graph well formed, and keeps reachability
  among the remaining nodes; only adjacency lists change.
\<close>

theorem contract_inplace_preserves_reachability:
  assumes "wf_graph s g V" "u \<in> V" "v \<in> V" "u \<noteq> v"
    and "v \<noteq> node_get_entry s g" "v \<noteq> node_get_exit s g" "inplace_hint_holds hints s u v"
  shows "\<exists>t. contract hints u v s = Inr (u, t) \<and> adj_frame s t \<and> wf_graph t g (V - {v}) \<and>
    (\<forall>a\<in>V - {v}. \<forall>b\<in>V - {v}. (a, b) \<in> (edges t (V - {v}))\<^sup>* \<longleftrightarrow> (a, b) \<in> (edges s V)\<^sup>*)"
  by (rule contract_inplace_reach [OF assms])

text \<open>
  Without a hint \<^verbatim>\<open>contract\<close> aborts on every pair of distinct nodes: the generic branch
  that the documentation describes is compiled out.
\<close>

theorem contract_without_hint_aborts:
  assumes "u \<noteq> v" "\<not> hint_false_twins hints" "\<not> hint_u_v_sequence hints" "\<not> hint_v_u_sequence hints"
  shows "contract hints u v s = Inl Aborted"
  using assms by (simp add: contract_def)

end
