(* ===== verification/Pass_Contract.thy ===== *)
theory Pass_Contract
  imports Walk_Props Contract_Props
begin

text \<open>
  What a pass of the library promises about the graph it rewrites: it succeeds on every
  well-formed graph that has walk identifiers left, leaves a well-formed graph on a subset of
  the nodes, and keeps which of the remaining nodes reaches which. The interface
  \<open>graph_pass\<close> states it; passes interpret it, and sequences of passes inherit it.
\<close>

text \<open>A well-formed graph with at least \<open>k\<close> walk identifiers left.\<close>

definition graph_ok :: "store \<Rightarrow> graph_ref \<Rightarrow> node_ref set \<Rightarrow> nat \<Rightarrow> bool" where
  "graph_ok s g V k \<longleftrightarrow>
     wf_graph s g V \<and> walk_ok s g V \<and> unat (graph_walk_id (graph_at s g)) + k < 256"

text \<open>The graph of \<open>t\<close> is a reduction of the graph of \<open>s\<close>.\<close>

definition reduces :: "store \<Rightarrow> graph_ref \<Rightarrow> node_ref set \<Rightarrow> store \<Rightarrow> node_ref set \<Rightarrow> bool" where
  "reduces s g V t W \<longleftrightarrow>
     W \<subseteq> V \<and> node_get_entry t g = node_get_entry s g \<and> node_get_exit t g = node_get_exit s g \<and>
     (\<forall>a\<in>W. \<forall>b\<in>W. (a, b) \<in> (edges t W)\<^sup>* \<longleftrightarrow> (a, b) \<in> (edges s V)\<^sup>*)"

lemma reduces_refl: "reduces s g V s V"
  by (simp add: reduces_def)

lemma reduces_trans: "reduces s g V t W \<Longrightarrow> reduces t g W r U \<Longrightarrow> reduces s g V r U"
  unfolding reduces_def by (simp add: subset_iff)

lemma graph_ok_less: "graph_ok s g V k \<Longrightarrow> j \<le> k \<Longrightarrow> graph_ok s g V j"
  by (simp add: graph_ok_def)

lemma graph_ok_walk:
  assumes "graph_ok s g V (Suc k)"
  shows "wf_graph s g V" "walk_ok s g V" "graph_walk_id (graph_at s g) \<noteq> - 1"
proof -
  show "wf_graph s g V" "walk_ok s g V" using assms by (simp_all add: graph_ok_def)
  have "unat (- 1 :: 8 word) = 255" by (simp add: unsigned_minus_1_eq_mask mask_eq_exp_minus_1)
  then show "graph_walk_id (graph_at s g) \<noteq> - 1" using assms by (auto simp: graph_ok_def)
qed

lemma unat_walk_succ:
  assumes "unat (i :: 8 word) + Suc k < 256"
  shows "unat (i + 1) = Suc (unat i)"
proof -
  have "unat (i + 1) = (unat i + 1) mod 256" by (simp add: unat_word_ariths)
  then show ?thesis using assms by simp
qed

text \<open>One walk consumes one identifier.\<close>

lemma graph_ok_iterators:
  assumes "graph_ok s g V (Suc k)" "create_node_iterators inc search ord g s = (s', vec)"
  shows "graph_ok s' g V k" "same_structure s s'" "reduces s g V s' V"
    "distinct vec" "set vec = iterated inc g s V"
    "\<And>i. i < length vec \<Longrightarrow> iterator_index (node_at s' (vec ! i)) = i"
proof -
  note c = iterators_correct [OF graph_ok_walk [OF assms(1)] assms(2)]
  have wf: "wf_graph s g V" using assms(1) by (simp add: graph_ok_def)
  then have wf': "wf_graph s' g V" using c(5) same_structure_wf_graph by blast
  show "graph_ok s' g V k"
    using wf' c(6,7) assms(1) unat_walk_succ [of "graph_walk_id (graph_at s g)" k]
    by (simp add: graph_ok_def)
  show "same_structure s s'" "distinct vec" "set vec = iterated inc g s V"
    "\<And>i. i < length vec \<Longrightarrow> iterator_index (node_at s' (vec ! i)) = i"
    using c by simp_all
  show "reduces s g V s' V"
    using c(5) wf same_structure_edges [OF c(5) wf_graph_adj [OF wf]]
    by (simp add: reduces_def same_structure_def node_get_entry_def node_get_exit_def wf_graph_def)
qed

lemma graph_ok_walk_effect:
  assumes "graph_ok s g V (Suc k)" "structural f" "u \<in> V"
  shows "graph_ok (fst (walk search ord g u f (s, a))) g V k"
    "same_structure s (fst (walk search ord g u f (s, a)))"
proof -
  have wf: "wf_graph s g V" using assms(1) by (simp add: graph_ok_def)
  have g: "g < length (graphs s)" using wf by (simp add: wf_graph_def)
  note adj = wf_graph_adj [OF wf]
  note e = walk_effect [OF assms(2) g wf_adjD(1) [OF adj assms(3)], where search = search and ord = ord and a = a]
  show ss: "same_structure s (fst (walk search ord g u f (s, a)))" by (rule e(1))
  have "walk_ok (fst (walk search ord g u f (s, a))) g V"
    using walk_ok_after [OF assms(2) g assms(3) adj] graph_ok_walk [OF assms(1)] by blast
  then show "graph_ok (fst (walk search ord g u f (s, a))) g V k"
    using same_structure_wf_graph [OF ss wf] e(2) assms(1)
      unat_walk_succ [of "graph_walk_id (graph_at s g)" k] by (simp add: graph_ok_def)
qed

text \<open>Operations that only touch adjacency keep marks and identifiers.\<close>

lemma graph_ok_adj_frame:
  assumes "graph_ok s g V k" "adj_frame s t" "wf_graph t g W" "W \<subseteq> V"
  shows "graph_ok t g W k"
  using assms(1,3,4) by (auto simp: graph_ok_def walk_ok_def adj_frameD [OF assms(2)])

lemma same_structure_reduces:
  assumes "same_structure s t" "wf_graph s g V"
  shows "reduces s g V t V"
  using assms same_structure_edges [OF assms(1) wf_graph_adj [OF assms(2)]]
  by (simp add: reduces_def same_structure_def node_get_entry_def node_get_exit_def wf_graph_def)

subsection \<open>The interface\<close>

text \<open>\<open>cost\<close> is the number of walks a pass makes; \<open>I\<close> is what it needs of the store beyond the graph.\<close>

locale graph_pass =
  fixes run :: "graph_ref \<Rightarrow> store \<Rightarrow> store result"
    and cost :: nat
    and I :: "store \<Rightarrow> node_ref set \<Rightarrow> bool"
  assumes run_ok: "graph_ok s g V (cost + k) \<Longrightarrow> I s V \<Longrightarrow>
    \<exists>t W. run g s = Inr t \<and> graph_ok t g W k \<and> I t W \<and> reduces s g V t W"
begin

text \<open>Running a pass any number of times.\<close>

lemma repeat_ok:
  "graph_ok s g V (n * cost + k) \<Longrightarrow> I s V \<Longrightarrow>
     \<exists>t W. for_each (\<lambda>_. run g) [0..<n] s = Inr t \<and> graph_ok t g W k \<and> I t W \<and> reduces s g V t W"
proof (induction n arbitrary: k)
  case 0
  then show ?case using reduces_refl by auto
next
  case (Suc n)
  have "graph_ok s g V (n * cost + (cost + k))" using Suc.prems(1) by (simp add: ac_simps)
  then obtain t W where t: "for_each (\<lambda>_. run g) [0..<n] s = Inr t" "graph_ok t g W (cost + k)"
    "I t W" "reduces s g V t W" using Suc.IH Suc.prems(2) by blast
  obtain r U where r: "run g t = Inr r" "graph_ok r g U k" "I r U" "reduces t g W r U"
    using run_ok [OF t(2,3)] by blast
  have "for_each (\<lambda>_. run g) [0..<Suc n] s = Inr r" by (simp add: for_each_append t(1) r(1))
  then show ?case using r(2,3) reduces_trans [OF t(4) r(4)] by blast
qed

end

text \<open>Two passes with a common requirement, one after the other.\<close>

lemma graph_pass_compose:
  assumes "graph_pass run1 c1 I" "graph_pass run2 c2 I"
  shows "graph_pass (\<lambda>g s. bind_result (run1 g s) (run2 g)) (c1 + c2) I"
proof
  fix s g V k assume a: "graph_ok s g V (c1 + c2 + k)" "I s V"
  have "graph_ok s g V (c1 + (c2 + k))" using a(1) by (simp only: ac_simps)
  then obtain t W where t: "run1 g s = Inr t" "graph_ok t g W (c2 + k)" "I t W" "reduces s g V t W"
    using graph_pass.run_ok [OF assms(1) _ a(2)] by blast
  obtain r U where r: "run2 g t = Inr r" "graph_ok r g U k" "I r U" "reduces t g W r U"
    using graph_pass.run_ok [OF assms(2) t(2,3)] by blast
  have "bind_result (run1 g s) (run2 g) = Inr r" by (simp add: t(1) r(1))
  then show "\<exists>t W. bind_result (run1 g s) (run2 g) = Inr t \<and> graph_ok t g W k \<and> I t W \<and> reduces s g V t W"
    using r(2,3) reduces_trans [OF t(4) r(4)] by blast
qed

subsection \<open>Checking a concrete graph\<close>

text \<open>
  An executable sufficient test, for graphs whose edges go from lower to higher positions.
\<close>

definition graph_check :: "store \<Rightarrow> graph_ref \<Rightarrow> node_ref list \<Rightarrow> nat \<Rightarrow> bool" where
  "graph_check s g vs k \<longleftrightarrow>
     g < length (graphs s) \<and> node_get_entry s g \<in> set vs \<and> node_get_exit s g \<in> set vs \<and>
     preds s (node_get_entry s g) = [] \<and> succs s (node_get_exit s g) = [] \<and>
     unat (graph_walk_id (graph_at s g)) + k < 256 \<and>
     (\<forall>u\<in>set vs. u < length (nodes s) \<and> distinct (succs s u) \<and> distinct (preds s u) \<and>
       (\<forall>v\<in>set (succs s u). v \<in> set vs \<and> u < v \<and> u \<in> set (preds s v)) \<and>
       (\<forall>p\<in>set (preds s u). p \<in> set vs \<and> u \<in> set (succs s p)) \<and>
       (u = node_get_entry s g \<or> preds s u \<noteq> []) \<and> (u = node_get_exit s g \<or> succs s u \<noteq> []) \<and>
       walk_id (node_at s u) \<le> graph_walk_id (graph_at s g))"

lemma graph_check_ok:
  assumes "graph_check s g vs k"
  shows "graph_ok s g (set vs) k"
proof -
  have all: "\<And>u. u \<in> set vs \<Longrightarrow> u < length (nodes s) \<and> distinct (succs s u) \<and> distinct (preds s u) \<and>
      (\<forall>v\<in>set (succs s u). v \<in> set vs \<and> u < v \<and> u \<in> set (preds s v)) \<and>
      (\<forall>p\<in>set (preds s u). p \<in> set vs \<and> u \<in> set (succs s p)) \<and>
      (u = node_get_entry s g \<or> preds s u \<noteq> []) \<and> (u = node_get_exit s g \<or> succs s u \<noteq> []) \<and>
      walk_id (node_at s u) \<le> graph_walk_id (graph_at s g)"
    using assms unfolding graph_check_def by blast
  have adj: "wf_adj s (set vs)"
    unfolding wf_adj_def
  proof (intro conjI ballI)
    fix u assume u: "u \<in> set vs"
    show "u < length (nodes s)" "set (succs s u) \<subseteq> set vs" "set (preds s u) \<subseteq> set vs"
      "distinct (succs s u)" "distinct (preds s u)" using all [OF u] by blast+
    fix v assume v: "v \<in> set vs"
    show "v \<in> set (succs s u) \<longleftrightarrow> u \<in> set (preds s v)" using all [OF u] all [OF v] by blast
  qed
  have "edges s (set vs) \<subseteq> less_than" 
  proof (rule subrelI)
    fix u v assume "(u, v) \<in> edges s (set vs)"
    then have "u \<in> set vs" "v \<in> set (succs s u)" by (simp_all add: edges_def)
    then have "u < v" using all [of u] by blast
    then show "(u, v) \<in> less_than" by simp
  qed
  then have "acyclic (edges s (set vs))" by (rule acyclic_subset [OF wf_acyclic [OF wf_less_than]])
  moreover have "walk_ok s g (set vs)" unfolding walk_ok_def using all by blast
  moreover have "preds s u \<noteq> []" if "u \<in> set vs - {node_get_entry s g}" for u
    using all [of u] that by blast
  moreover have "succs s u \<noteq> []" if "u \<in> set vs - {node_get_exit s g}" for u
    using all [of u] that by blast
  moreover have "g < length (graphs s)" "node_get_entry s g \<in> set vs" "node_get_exit s g \<in> set vs"
    "preds s (node_get_entry s g) = []" "succs s (node_get_exit s g) = []"
    "unat (graph_walk_id (graph_at s g)) + k < 256"
    using assms unfolding graph_check_def by blast+
  ultimately show ?thesis
    using adj unfolding graph_ok_def wf_graph_def by blast
qed

end
