(* ===== verification/Reduce_Node.thy ===== *)
theory Reduce_Node
  imports Pass_Contract
begin

text \<open>
  \<^verbatim>\<open>command_graph_t::pass_reduce_node\<close> (\<^verbatim>\<open>src/pod/reduce-node.cc\<close>): an EMPTY node with \<open>m\<close>
  predecessors and \<open>n\<close> successors is removed when \<open>m * n < 1 + m + n\<close>, computed on
  \<^verbatim>\<open>size_t\<close>.
\<close>

definition reduce_node_removes :: "store \<Rightarrow> node_ref \<Rightarrow> bool" where
  "reduce_node_removes s u \<longleftrightarrow>
     ntype (node_at s u) = COMMAND_GRAPH_NODE_TYPE_EMPTY \<and>
     (let m = word_of_nat (length (preds s u)) :: size_t;
          n = word_of_nat (length (succs s u)) :: size_t
      in m * n < 1 + m + n)"

definition reduce_node_step :: "node_ref \<Rightarrow> store \<Rightarrow> store result" where
  "reduce_node_step u s = (if reduce_node_removes s u then remove u s else Inr s)"

definition pass_reduce_node :: "graph_ref \<Rightarrow> store \<Rightarrow> store result" where
  "pass_reduce_node g s =
     (let (s1, vec) = create_node_iterators False COMMAND_GRAPH_WALK_SEARCH_DFS
                        COMMAND_GRAPH_WALK_ORDER_PRE g s
      in for_each reduce_node_step vec s1)"

text \<open>On graphs of fewer than \<open>2 ^ 31\<close> nodes the test does not wrap.\<close>

lemma reduce_node_test_nat:
  assumes "m < 2 ^ 31" "n < 2 ^ 31"
  shows "(word_of_nat m :: size_t) * word_of_nat n < 1 + word_of_nat m + word_of_nat n \<longleftrightarrow> m * n < 1 + m + n"
proof -
  have "m * n \<le> 2 ^ 31 * 2 ^ 31" using assms by (intro mult_mono) simp_all
  then have "m * n < 2 ^ 64" by simp
  moreover have "1 + m + n < 2 ^ 64" using assms by simp
  ultimately have "unat (word_of_nat (m * n) :: size_t) = m * n"
    "unat (word_of_nat (1 + m + n) :: size_t) = 1 + m + n"
    by (simp_all only: unat_of_nat len_num0 len_num1 len_bit0 len_bit1) simp_all
  moreover have "(word_of_nat m :: size_t) * word_of_nat n = word_of_nat (m * n)"
    "1 + word_of_nat m + word_of_nat n = (word_of_nat (1 + m + n) :: size_t)" by simp_all
  ultimately show ?thesis by (simp only: word_less_nat_alt)
qed

text \<open>The measure that the pass may not increase: nodes plus edges.\<close>

definition complexity :: "store \<Rightarrow> node_ref set \<Rightarrow> nat" where
  "complexity s V = card V + card (edges s V)"

lemma wf_adj_degree:
  assumes "wf_adj s V" "u \<in> V" "length (nodes s) < 2 ^ 31"
  shows "length (preds s u) < 2 ^ 31" "length (succs s u) < 2 ^ 31"
proof -
  have le: "length xs \<le> length (nodes s)" if "distinct xs" "set xs \<subseteq> V" for xs
  proof -
    have "card (set xs) \<le> card {..<length (nodes s)}"
      using that(2) wf_adjD(1) [OF assms(1)] by (intro card_mono) auto
    then show ?thesis using that(1) by (simp add: distinct_card)
  qed
  show "length (preds s u) < 2 ^ 31" "length (succs s u) < 2 ^ 31"
    using le wf_adjD(2-5) [OF assms(1,2)] assms(3) by (meson le_less_trans)+
qed

lemma reduce_node_step_ok:
  assumes ok: "graph_ok s g V k" and u: "u \<in> V" "u \<noteq> node_get_entry s g" "u \<noteq> node_get_exit s g"
  shows "\<exists>t W. reduce_node_step u s = Inr t \<and> graph_ok t g W k \<and> adj_frame s t \<and> reduces s g V t W \<and>
    V - W \<subseteq> {u} \<and> (u \<notin> W \<longrightarrow> ntype (node_at s u) = COMMAND_GRAPH_NODE_TYPE_EMPTY) \<and>
    (length (nodes s) < 2 ^ 31 \<longrightarrow> complexity t W \<le> complexity s V)"
proof (cases "reduce_node_removes s u")
  case True
  have wf: "wf_graph s g V" using ok by (simp add: graph_ok_def)
  note adj = wf_graph_adj [OF wf]
  obtain t where t: "remove u s = Inr t" "adj_frame s t" "wf_graph t g (V - {u})" and r:
    "\<And>a b. a \<in> V - {u} \<Longrightarrow> b \<in> V - {u} \<Longrightarrow> (a, b) \<in> (edges t (V - {u}))\<^sup>* \<longleftrightarrow> (a, b) \<in> (edges s V)\<^sup>*"
    and c: "card (edges t (V - {u})) + length (preds s u) + length (succs s u)
      \<le> card (edges s V) + length (preds s u) * length (succs s u)"
    using remove_reach [OF wf u] by blast
  have red: "reduces s g V t (V - {u})"
    using r adj_frameD(5,6) [OF t(2)] by (auto simp: reduces_def)
  have ok': "graph_ok t g (V - {u}) k" by (rule graph_ok_adj_frame [OF ok t(2,3)]) auto
  have "complexity t (V - {u}) \<le> complexity s V" if "length (nodes s) < 2 ^ 31"
  proof -
    have "length (preds s u) * length (succs s u) < 1 + length (preds s u) + length (succs s u)"
      using True reduce_node_test_nat [OF wf_adj_degree [OF adj u(1) that]]
      by (simp add: reduce_node_removes_def Let_def)
    moreover have "card (V - {u}) + 1 = card V"
      using card_Suc_Diff1 [OF wf_adj_finite [OF adj] u(1)] by simp
    ultimately show ?thesis using c by (simp add: complexity_def)
  qed
  then show ?thesis
    using True t(1,2) ok' red by (auto simp: reduce_node_step_def reduce_node_removes_def)
next
  case False
  then have "reduce_node_step u s = Inr s" by (simp add: reduce_node_step_def)
  then show ?thesis
    using ok reduces_refl [of s g V] u(1) by (intro exI [of _ s] exI [of _ V]) simp
qed

subsection \<open>The loop\<close>

lemma reduce_node_loop:
  assumes ok: "graph_ok s g V k" and vec: "distinct vec" "set vec \<subseteq> V - {node_get_entry s g, node_get_exit s g}"
  shows "\<exists>t. for_each reduce_node_step vec s = Inr t \<and> adj_frame s t \<and>
    (\<exists>W. graph_ok t g W k \<and> reduces s g V t W \<and>
      (\<forall>u\<in>V - W. u \<in> set vec \<and> ntype (node_at s u) = COMMAND_GRAPH_NODE_TYPE_EMPTY) \<and>
      (length (nodes s) < 2 ^ 31 \<longrightarrow> complexity t W \<le> complexity s V))"
proof -
  let ?Q = "\<lambda>i t W. graph_ok t g W k \<and> reduces s g V t W \<and>
      (\<forall>u\<in>V - W. u \<in> set (take i vec) \<and> ntype (node_at s u) = COMMAND_GRAPH_NODE_TYPE_EMPTY) \<and>
      (length (nodes s) < 2 ^ 31 \<longrightarrow> complexity t W \<le> complexity s V)"
  let ?I = "\<lambda>i t. adj_frame s t \<and> (\<exists>W. ?Q i t W)"
  have "\<exists>t. for_each reduce_node_step vec s = Inr t \<and> ?I (length vec) t"
  proof (rule for_each_invariant)
    have "?Q 0 s V" using ok reduces_refl by simp
    then show "?I 0 s" using adj_frame_refl by blast
  next
    fix i t assume i: "i < length vec" and It: "?I i t"
    then obtain W where W: "graph_ok t g W k" "reduces s g V t W"
      "\<forall>u\<in>V - W. u \<in> set (take i vec) \<and> ntype (node_at s u) = COMMAND_GRAPH_NODE_TYPE_EMPTY"
      "length (nodes s) < 2 ^ 31 \<longrightarrow> complexity t W \<le> complexity s V" by blast
    have fr: "adj_frame s t" using It by blast
    let ?u = "vec ! i"
    have "?u \<notin> set (take i vec)"
      using vec(1) i by (simp add: distinct_conv_nth in_set_conv_nth)
    moreover have uV: "?u \<in> V" "?u \<noteq> node_get_entry s g" "?u \<noteq> node_get_exit s g"
      using vec(2) i nth_mem by blast+
    ultimately have "?u \<in> W" using W(3) by blast
    moreover have "?u \<noteq> node_get_entry t g" "?u \<noteq> node_get_exit t g"
      using W(2) uV by (simp_all add: reduces_def)
    ultimately have u: "?u \<in> W" "?u \<noteq> node_get_entry t g" "?u \<noteq> node_get_exit t g" .
    obtain r U where r: "reduce_node_step ?u t = Inr r" "graph_ok r g U k" "adj_frame t r" "reduces t g W r U"
      "W - U \<subseteq> {?u}" "?u \<notin> U \<longrightarrow> ntype (node_at t ?u) = COMMAND_GRAPH_NODE_TYPE_EMPTY"
      "length (nodes t) < 2 ^ 31 \<longrightarrow> complexity r U \<le> complexity t W"
      using reduce_node_step_ok [OF W(1) u] by blast
    have fr': "adj_frame s r" using fr r(3) by (rule adj_frame_trans)
    have tk: "set (take (Suc i) vec) = insert ?u (set (take i vec))"
      using i by (simp add: take_Suc_conv_app_nth)
    have "\<forall>u\<in>V - U. u \<in> set (take (Suc i) vec) \<and> ntype (node_at s u) = COMMAND_GRAPH_NODE_TYPE_EMPTY"
    proof
      fix v assume v: "v \<in> V - U"
      show "v \<in> set (take (Suc i) vec) \<and> ntype (node_at s v) = COMMAND_GRAPH_NODE_TYPE_EMPTY"
      proof (cases "v \<in> W")
        case True
        then have "v = ?u" using v r(5) by blast
        then show ?thesis using v r(6) adj_frameD(10) [OF fr, of ?u] tk by simp
      next
        case False
        then show ?thesis using v W(3) tk by simp
      qed
    qed
    moreover have "length (nodes s) < 2 ^ 31 \<longrightarrow> complexity r U \<le> complexity s V"
      using W(4) r(7) adj_frameD(1) [OF fr] by (auto intro: le_trans)
    moreover have "reduces s g V r U" using W(2) r(4) by (rule reduces_trans)
    ultimately have "?Q (Suc i) r U" using r(2) by blast
    then show "\<exists>r. reduce_node_step ?u t = Inr r \<and> ?I (Suc i) r" using r(1) fr' by blast
  qed
  then show ?thesis by simp
qed

lemma pass_reduce_node_ok:
  assumes ok: "graph_ok s g V (Suc k)"
  shows "\<exists>t W. pass_reduce_node g s = Inr t \<and> graph_ok t g W k \<and> reduces s g V t W \<and>
    commands t = commands s \<and> length (nodes t) = length (nodes s) \<and>
    (\<forall>u<length (nodes s). ntype (node_at t u) = ntype (node_at s u) \<and>
       ncommand (node_at t u) = ncommand (node_at s u) \<and>
       device_unique_id (node_at t u) = device_unique_id (node_at s u)) \<and>
    (\<forall>u\<in>V - W. ntype (node_at s u) = COMMAND_GRAPH_NODE_TYPE_EMPTY) \<and>
    (length (nodes s) < 2 ^ 31 \<longrightarrow> complexity t W \<le> complexity s V)"
proof -
  obtain s1 vec where it: "create_node_iterators False COMMAND_GRAPH_WALK_SEARCH_DFS
      COMMAND_GRAPH_WALK_ORDER_PRE g s = (s1, vec)" by force
  note c = graph_ok_iterators [OF ok it]
  have wf: "wf_graph s g V" using ok by (simp add: graph_ok_def)
  note ss = c(2) [unfolded same_structure_def]
  have e: "node_get_entry s1 g = node_get_entry s g" "node_get_exit s1 g = node_get_exit s g"
    using ss wf by (simp_all add: wf_graph_def node_get_entry_def node_get_exit_def)
  have vec: "set vec \<subseteq> V - {node_get_entry s1 g, node_get_exit s1 g}"
    using c(5) by (simp add: iterated_def e)
  obtain t W where t: "for_each reduce_node_step vec s1 = Inr t" "adj_frame s1 t"
    "graph_ok t g W k" "reduces s1 g V t W"
    "\<forall>u\<in>V - W. ntype (node_at s1 u) = COMMAND_GRAPH_NODE_TYPE_EMPTY"
    "length (nodes s1) < 2 ^ 31 \<longrightarrow> complexity t W \<le> complexity s1 V"
    using reduce_node_loop [OF c(1,4) vec] by blast
  have "pass_reduce_node g s = Inr t" using t(1) it by (simp add: pass_reduce_node_def)
  moreover have "reduces s g V t W" using c(3) t(4) by (rule reduces_trans)
  moreover have "complexity s1 V = complexity s V"
    using same_structure_edges [OF c(2) wf_graph_adj [OF wf]] by (simp add: complexity_def)
  moreover have "\<forall>u<length (nodes s). ntype (node_at t u) = ntype (node_at s u) \<and>
       ncommand (node_at t u) = ncommand (node_at s u) \<and>
       device_unique_id (node_at t u) = device_unique_id (node_at s u)"
    using ss by (simp add: adj_frameD [OF t(2)])
  moreover have "commands t = commands s" "length (nodes t) = length (nodes s)"
    using ss by (simp_all add: adj_frameD [OF t(2)])
  moreover have "\<forall>u\<in>V - W. ntype (node_at s u) = COMMAND_GRAPH_NODE_TYPE_EMPTY"
    using t(5) ss wf_adjD(1) [OF wf_graph_adj [OF wf]] by auto
  ultimately show ?thesis using t(3,6) ss by auto
qed

interpretation reduce_node: graph_pass pass_reduce_node 1 "\<lambda>_ _. True"
proof
  fix s g V k assume "graph_ok s g V (1 + k)"
  then show "\<exists>t W. pass_reduce_node g s = Inr t \<and> graph_ok t g W k \<and> True \<and> reduces s g V t W"
    using pass_reduce_node_ok [of s g V k] by auto
qed

text \<open>
  C2. \<^verbatim>\<open>pass_reduce_node\<close> succeeds on every well-formed graph with a walk identifier left:
  it keeps the graph well formed, takes out EMPTY nodes only (never entry or exit), keeps
  which remaining node reaches which, and on graphs of fewer than \<open>2 ^ 31\<close> allocated nodes
  never increases nodes plus edges.
\<close>

theorem reduce_node_sound:
  assumes "graph_ok s g V (Suc k)"
  shows "\<exists>t W. pass_reduce_node g s = Inr t \<and> graph_ok t g W k \<and> reduces s g V t W \<and>
    (\<forall>u\<in>V - W. ntype (node_at s u) = COMMAND_GRAPH_NODE_TYPE_EMPTY) \<and>
    (length (nodes s) < 2 ^ 31 \<longrightarrow> complexity t W \<le> complexity s V)"
  using pass_reduce_node_ok [OF assms] by blast

end
