(* ===== verification/Bitset2d.thy ===== *)
theory Bitset2d
  imports Prelude
begin

text \<open>
  The square bit matrix of \<^verbatim>\<open>include/cgir/bitset2d.hpp\<close> at its 64-bit word type: a flat array
  of \<open>n * stride\<close> words, row \<open>i\<close> starting at \<open>i * stride\<close>. The interface \<open>bit_matrix\<close> states
  what a client may rely on for indices below \<open>n\<close>; the packed representation interprets it.
\<close>

unbundle bit_operations_syntax

subsection \<open>The packed matrix\<close>

record bitset2d =
  bn :: nat
  stride :: nat
  words :: "64 word list"

text \<open>\<^verbatim>\<open>BITS\<close>, \<^verbatim>\<open>MASK\<close> and \<^verbatim>\<open>SHIFT\<close> of the 64-bit word type.\<close>

definition BITS :: nat where "BITS = 64"
definition MASK :: nat where "MASK = BITS - 1"
definition SHIFT :: nat where "SHIFT = 6"

definition bitset2d_new :: "nat \<Rightarrow> bitset2d" where
  "bitset2d_new n =
     (let st = (n + BITS - 1) div BITS in \<lparr>bn = n, stride = st, words = replicate (n * st) 0\<rparr>)"

definition row :: "bitset2d \<Rightarrow> nat \<Rightarrow> nat" where
  "row m i = i * stride m"

definition bs_set :: "nat \<Rightarrow> nat \<Rightarrow> bitset2d \<Rightarrow> bitset2d" where
  "bs_set i j m =
     m\<lparr>words := (words m)[row m i + drop_bit SHIFT j :=
        words m ! (row m i + drop_bit SHIFT j) OR push_bit (j AND MASK) 1]\<rparr>"

definition bs_test :: "bitset2d \<Rightarrow> nat \<Rightarrow> nat \<Rightarrow> bool" where
  "bs_test m i j \<longleftrightarrow> drop_bit (j AND MASK) (words m ! (row m i + drop_bit SHIFT j)) AND 1 \<noteq> 0"

definition bs_clear :: "nat \<Rightarrow> nat \<Rightarrow> bitset2d \<Rightarrow> bitset2d" where
  "bs_clear i j m =
     m\<lparr>words := (words m)[row m i + drop_bit SHIFT j :=
        words m ! (row m i + drop_bit SHIFT j) AND NOT (push_bit (j AND MASK) 1)]\<rparr>"

definition bs_or_rows :: "nat \<Rightarrow> nat \<Rightarrow> bitset2d \<Rightarrow> bitset2d" where
  "bs_or_rows i j m =
     fold (\<lambda>w m. m\<lparr>words := (words m)[row m i + w := words m ! (row m i + w) OR words m ! (row m j + w)]\<rparr>)
       [0..<stride m] m"

definition bs_rows_intersect :: "bitset2d \<Rightarrow> nat \<Rightarrow> nat \<Rightarrow> bool" where
  "bs_rows_intersect m i j \<longleftrightarrow>
     list_ex (\<lambda>w. words m ! (row m i + w) AND words m ! (row m j + w) \<noteq> 0) [0..<stride m]"

definition bs_reset_row :: "nat \<Rightarrow> bitset2d \<Rightarrow> bitset2d" where
  "bs_reset_row i m =
     fold (\<lambda>w m. m\<lparr>words := (words m)[row m i + w := 0]\<rparr>) [0..<stride m] m"

definition bs_reset_all :: "bitset2d \<Rightarrow> bitset2d" where
  "bs_reset_all m = m\<lparr>words := replicate (bn m * stride m) 0\<rparr>"

definition bs_dump :: "bitset2d \<Rightarrow> string" where
  "bs_dump m =
     concat (map (\<lambda>i. map (\<lambda>j. if bs_test m i j then CHR ''1'' else CHR ''0'') [0..<bn m] @ [CHR 0x0A])
       [0..<bn m])"

text \<open>The sizes the constructor establishes and every operation keeps.\<close>

definition bs_wf :: "nat \<Rightarrow> bitset2d \<Rightarrow> bool" where
  "bs_wf n m \<longleftrightarrow> bn m = n \<and> stride m = (n + 63) div 64 \<and> length (words m) = n * stride m"

subsection \<open>Bits of the packed matrix\<close>

lemma word_index: "drop_bit SHIFT j = j div 64" and bit_index: "j AND MASK = j mod 64"
proof -
  have "j AND (2 ^ 6 - 1) = take_bit 6 j" by (simp add: take_bit_eq_mask mask_eq_exp_minus_1)
  then show "j AND MASK = j mod 64" by (simp add: MASK_def BITS_def take_bit_eq_mod)
qed (simp add: SHIFT_def drop_bit_eq_div)

lemma bs_test_bit: "bs_test m i j \<longleftrightarrow> bit (words m ! (i * stride m + j div 64)) (j mod 64)"
proof -
  have "x AND 1 \<noteq> 0 \<longleftrightarrow> bit x 0" for x :: "64 word" by (simp add: and_one_eq bit_0 odd_iff_mod_2_eq_one)
  then show ?thesis
    by (simp add: bs_test_def word_index bit_index row_def bit_drop_bit_eq)
qed

lemma word_in_row: "j < n \<Longrightarrow> j div 64 < (n + 63) div (64::nat)"
  by (simp add: div_less_iff_less_mult)

lemma position_in_range:
  assumes "bs_wf n m" "i < n" "w < stride m"
  shows "i * stride m + w < length (words m)"
proof -
  have "i * stride m + w < i * stride m + stride m" using assms(3) by simp
  also have "\<dots> = Suc i * stride m" by simp
  also have "\<dots> \<le> n * stride m" using assms(2) by (intro mult_right_mono) simp_all
  finally show ?thesis using assms(1) by (simp add: bs_wf_def)
qed

lemma position_eq_iff:
  assumes "w < st" "v < (st :: nat)"
  shows "i * st + w = k * st + v \<longleftrightarrow> i = k \<and> w = v"
proof
  assume "i * st + w = k * st + v"
  then have "(i * st + w) div st = (k * st + v) div st" "(i * st + w) mod st = (k * st + v) mod st"
    by simp_all
  then show "i = k \<and> w = v" using assms by (simp add: div_mult_self3)
qed simp

lemma bit_word64_one: "k < 64 \<Longrightarrow> bit (push_bit k (1 :: 64 word)) l \<longleftrightarrow> l = k"
  by (auto simp: push_bit_of_1 bit_exp_iff)

lemma bit_not_word64: "k < 64 \<Longrightarrow> bit (NOT (x :: 64 word)) k \<longleftrightarrow> \<not> bit x k"
  by (simp add: bit_not_iff)

lemma bs_new_wf: "bs_wf n (bitset2d_new n)"
  by (simp add: bs_wf_def bitset2d_new_def BITS_def Let_def)

lemma bs_new_test:
  assumes "i < n" "j < n" shows "\<not> bs_test (bitset2d_new n) i j"
proof -
  have "i * stride (bitset2d_new n) + j div 64 < length (words (bitset2d_new n))"
    using position_in_range [OF bs_new_wf assms(1)] word_in_row [OF assms(2)] bs_new_wf [of n]
    by (simp add: bs_wf_def)
  then show ?thesis by (simp add: bs_test_bit) (simp add: bitset2d_new_def Let_def)
qed

lemma bs_set_wf: "bs_wf n m \<Longrightarrow> bs_wf n (bs_set i j m)"
  and bs_clear_wf: "bs_wf n m \<Longrightarrow> bs_wf n (bs_clear i j m)"
  by (simp_all add: bs_wf_def bs_set_def bs_clear_def)

lemma mod_div_64_eq: "a div 64 = b div 64 \<and> a mod 64 = b mod 64 \<longleftrightarrow> a = (b :: nat)"
  by (metis div_mult_mod_eq)

lemma bs_update_test:
  assumes "bs_wf n m" "i < n" "j < n" "a < n" "b < n"
  shows "bs_test (m\<lparr>words := (words m)[row m i + j div 64 := x]\<rparr>) a b \<longleftrightarrow>
    (if a = i \<and> b div 64 = j div 64 then bit x (b mod 64) else bs_test m a b)"
proof -
  have st: "j div 64 < stride m" "b div 64 < stride m"
    using assms word_in_row by (auto simp: bs_wf_def)
  show ?thesis
    using position_in_range [OF assms(1,2) st(1)] position_eq_iff [OF st(1,2), of i a]
    by (auto simp: bs_test_bit row_def nth_list_update)
qed

lemma bs_set_test:
  assumes "bs_wf n m" "i < n" "j < n" "a < n" "b < n"
  shows "bs_test (bs_set i j m) a b \<longleftrightarrow> a = i \<and> b = j \<or> bs_test m a b"
proof -
  let ?x = "words m ! (row m i + j div 64) OR push_bit (j mod 64) 1"
  have "bs_set i j m = m\<lparr>words := (words m)[row m i + j div 64 := ?x]\<rparr>"
    by (simp add: bs_set_def word_index bit_index)
  moreover have "bit ?x (b mod 64) \<longleftrightarrow> b mod 64 = j mod 64 \<or> bit (words m ! (row m i + j div 64)) (b mod 64)"
    by (auto simp only: bit_or_iff bit_word64_one [OF mod_less_divisor])
  moreover have "b div 64 = j div 64 \<Longrightarrow> b mod 64 = j mod 64 \<longleftrightarrow> b = j" using mod_div_64_eq [of b j] by metis
  ultimately show ?thesis
    using bs_update_test [OF assms, of ?x] by (auto simp only: bs_test_bit row_def split: if_splits)
qed

lemma bs_clear_test:
  assumes "bs_wf n m" "i < n" "j < n" "a < n" "b < n"
  shows "bs_test (bs_clear i j m) a b \<longleftrightarrow> \<not> (a = i \<and> b = j) \<and> bs_test m a b"
proof -
  let ?x = "words m ! (row m i + j div 64) AND NOT (push_bit (j mod 64) 1)"
  have "bs_clear i j m = m\<lparr>words := (words m)[row m i + j div 64 := ?x]\<rparr>"
    by (simp add: bs_clear_def word_index bit_index)
  moreover have "bit ?x (b mod 64) \<longleftrightarrow> b mod 64 \<noteq> j mod 64 \<and> bit (words m ! (row m i + j div 64)) (b mod 64)"
    by (auto simp only: bit_and_iff bit_not_word64 [OF mod_less_divisor]
        bit_word64_one [OF mod_less_divisor])
  moreover have "b div 64 = j div 64 \<Longrightarrow> b mod 64 = j mod 64 \<longleftrightarrow> b = j" using mod_div_64_eq [of b j] by metis
  ultimately show ?thesis
    using bs_update_test [OF assms, of ?x] by (auto simp only: bs_test_bit row_def split: if_splits)
qed

text \<open>The loops over the words of a row: what is left of the row after the first \<open>k\<close> of them.\<close>

lemma bs_row_fold:
  assumes "bs_wf n m" "i < n" "j < n"
    and step: "\<And>w m. f w m = m\<lparr>words := (words m)[row m i + w := h (words m ! (row m i + w)) (words m ! (row m j + w))]\<rparr>"
  shows "k \<le> stride m \<Longrightarrow> bs_wf n (fold f [0..<k] m) \<and>
    (\<forall>l<length (words m). words (fold f [0..<k] m) ! l =
       (if row m i \<le> l \<and> l < row m i + k
        then h (words m ! l) (words m ! (row m j + (l - row m i))) else words m ! l))"
proof (induction k)
  case 0
  then show ?case using assms(1) by auto
next
  case (Suc k)
  let ?m = "fold f [0..<k] m"
  have IH: "bs_wf n ?m" "\<And>l. l < length (words m) \<Longrightarrow> words ?m ! l =
      (if row m i \<le> l \<and> l < row m i + k
       then h (words m ! l) (words m ! (row m j + (l - row m i))) else words m ! l)"
    using Suc by simp_all
  have eq: "stride ?m = stride m" "length (words ?m) = length (words m)"
    using IH(1) assms(1) by (simp_all add: bs_wf_def)
  have r: "row ?m i = row m i" "row ?m j = row m j" using eq by (simp_all add: row_def)
  have pos: "row m i + k < length (words m)" "row m j + k < length (words m)"
    using position_in_range [OF assms(1)] assms(2,3) Suc.prems by (simp_all add: row_def)
  have jk: "words ?m ! (row m j + k) = words m ! (row m j + k)"
  proof -
    have "\<not> (row m i \<le> row m j + k \<and> row m j + k < row m i + k)"
    proof
      assume a: "row m i \<le> row m j + k \<and> row m j + k < row m i + k"
      then have "row m j < row m i" by simp
      then have "j < i" unfolding row_def using mult_le_mono1 [of i j "stride m"] by (meson not_le)
      then have "row m j + stride m \<le> row m i"
        unfolding row_def using mult_le_mono1 [of "Suc j" i "stride m"] by simp
      then show False using a Suc.prems by simp
    qed
    then show ?thesis using IH(2) [OF pos(2)] by (simp only: if_False)
  qed
  have ik: "words ?m ! (row m i + k) = words m ! (row m i + k)" using IH(2) [OF pos(1)] by simp
  have st: "fold f [0..<Suc k] m = ?m\<lparr>words := (words ?m)[row m i + k := h (words m ! (row m i + k)) (words m ! (row m j + k))]\<rparr>"
    by (simp add: step r ik jk)
  show ?case
    unfolding st using IH pos eq by (auto simp: bs_wf_def nth_list_update less_Suc_eq)
qed

lemma bs_row_fold_test:
  assumes "bs_wf n m" "i < n" "j < n" "a < n" "b < n"
    and "\<And>w m. f w m = m\<lparr>words := (words m)[row m i + w := h (words m ! (row m i + w)) (words m ! (row m j + w))]\<rparr>"
  shows "bs_wf n (fold f [0..<stride m] m)"
    and "bs_test (fold f [0..<stride m] m) a b \<longleftrightarrow>
      (if a = i then bit (h (words m ! (i * stride m + b div 64)) (words m ! (j * stride m + b div 64))) (b mod 64)
       else bs_test m a b)"
proof -
  let ?m = "fold f [0..<stride m] m"
  have wf: "bs_wf n ?m" and val: "\<And>l. l < length (words m) \<Longrightarrow> words ?m ! l =
      (if row m i \<le> l \<and> l < row m i + stride m
       then h (words m ! l) (words m ! (row m j + (l - row m i))) else words m ! l)"
    using bs_row_fold [where f = f and h = h, OF assms(1-3,6) order_refl] by blast+
  show "bs_wf n ?m" by (rule wf)
  have st: "stride ?m = stride m" using wf assms(1) by (simp add: bs_wf_def)
  have w: "b div 64 < stride m" using word_in_row [OF assms(5)] assms(1) by (simp add: bs_wf_def)
  have pos: "a * stride m + b div 64 < length (words m)" by (rule position_in_range [OF assms(1,4) w])
  show "bs_test ?m a b \<longleftrightarrow>
      (if a = i then bit (h (words m ! (i * stride m + b div 64)) (words m ! (j * stride m + b div 64))) (b mod 64)
       else bs_test m a b)"
  proof (cases "a = i")
    case True
    then show ?thesis using val [OF pos] w by (simp add: bs_test_bit st row_def)
  next
    case False
    have "\<not> (row m i \<le> a * stride m + b div 64 \<and> a * stride m + b div 64 < row m i + stride m)"
    proof
      assume r: "row m i \<le> a * stride m + b div 64 \<and> a * stride m + b div 64 < row m i + stride m"
      then have "(a * stride m + b div 64) = i * stride m + (a * stride m + b div 64 - row m i)"
        "a * stride m + b div 64 - row m i < stride m" unfolding row_def by linarith+
      then show False using position_eq_iff [OF w] False by metis
    qed
    then show ?thesis using False val [OF pos] by (simp only: bs_test_bit st if_False)
  qed
qed

lemma bs_or_rows_test:
  assumes "bs_wf n m" "i < n" "j < n"
  shows "bs_wf n (bs_or_rows i j m)"
    and "a < n \<Longrightarrow> b < n \<Longrightarrow> bs_test (bs_or_rows i j m) a b \<longleftrightarrow> bs_test m a b \<or> a = i \<and> bs_test m j b"
proof -
  show "bs_wf n (bs_or_rows i j m)"
    unfolding bs_or_rows_def by (rule bs_row_fold_test(1) [OF assms assms(2,2), where h = "(OR)"]) simp
  show "a < n \<Longrightarrow> b < n \<Longrightarrow> bs_test (bs_or_rows i j m) a b \<longleftrightarrow> bs_test m a b \<or> a = i \<and> bs_test m j b"
    unfolding bs_or_rows_def
    by (subst bs_row_fold_test(2) [OF assms, where h = "(OR)"]) (auto simp: bs_test_bit bit_or_iff)
qed

lemma bs_reset_row_test:
  assumes "bs_wf n m" "i < n"
  shows "bs_wf n (bs_reset_row i m)"
    and "a < n \<Longrightarrow> b < n \<Longrightarrow> bs_test (bs_reset_row i m) a b \<longleftrightarrow> a \<noteq> i \<and> bs_test m a b"
proof -
  show "bs_wf n (bs_reset_row i m)"
    unfolding bs_reset_row_def
    by (rule bs_row_fold_test(1) [OF assms assms(2,2,2), where h = "\<lambda>_ _. 0"]) simp
  show "a < n \<Longrightarrow> b < n \<Longrightarrow> bs_test (bs_reset_row i m) a b \<longleftrightarrow> a \<noteq> i \<and> bs_test m a b"
    unfolding bs_reset_row_def
    by (subst bs_row_fold_test(2) [OF assms assms(2), where h = "\<lambda>_ _. 0"]) simp_all
qed

lemma bs_reset_all_test:
  assumes "bs_wf n m"
  shows "bs_wf n (bs_reset_all m)"
    and "a < n \<Longrightarrow> b < n \<Longrightarrow> \<not> bs_test (bs_reset_all m) a b"
proof -
  show wf: "bs_wf n (bs_reset_all m)" using assms by (simp add: bs_wf_def bs_reset_all_def)
  assume ab: "a < n" "b < n"
  have "b div 64 < stride (bs_reset_all m)" using word_in_row [OF ab(2)] wf by (simp add: bs_wf_def)
  then have "a * stride m + b div 64 < bn m * stride m"
    using position_in_range [OF wf ab(1)] by (simp add: bs_reset_all_def)
  then show "\<not> bs_test (bs_reset_all m) a b" by (simp add: bs_test_bit bs_reset_all_def)
qed

text \<open>Padding bits of a row matter to the intersection test only if they are ever set.\<close>

lemma bs_rows_intersect_complete:
  assumes "bs_wf n m" "b < n" "bs_test m i b" "bs_test m j b"
  shows "bs_rows_intersect m i j"
proof -
  have "b div 64 < stride m" using word_in_row [OF assms(2)] assms(1) by (simp add: bs_wf_def)
  moreover have "bit (words m ! (row m i + b div 64) AND words m ! (row m j + b div 64)) (b mod 64)"
    using assms(3,4) by (simp add: bs_test_bit bit_and_iff row_def)
  then have "words m ! (row m i + b div 64) AND words m ! (row m j + b div 64) \<noteq> 0" by auto
  ultimately show ?thesis by (auto simp: bs_rows_intersect_def list_ex_iff)
qed

subsection \<open>The interface\<close>

locale bit_matrix =
  fixes fresh :: "nat \<Rightarrow> 'm"
    and wf_matrix :: "nat \<Rightarrow> 'm \<Rightarrow> bool"
    and set_bit :: "nat \<Rightarrow> nat \<Rightarrow> 'm \<Rightarrow> 'm"
    and or_rows :: "nat \<Rightarrow> nat \<Rightarrow> 'm \<Rightarrow> 'm"
    and test :: "'m \<Rightarrow> nat \<Rightarrow> nat \<Rightarrow> bool"
  assumes fresh_wf: "wf_matrix n (fresh n)"
    and fresh_test: "i < n \<Longrightarrow> j < n \<Longrightarrow> \<not> test (fresh n) i j"
    and set_wf: "wf_matrix n m \<Longrightarrow> i < n \<Longrightarrow> j < n \<Longrightarrow> wf_matrix n (set_bit i j m)"
    and set_test: "wf_matrix n m \<Longrightarrow> i < n \<Longrightarrow> j < n \<Longrightarrow> a < n \<Longrightarrow> b < n \<Longrightarrow>
          test (set_bit i j m) a b \<longleftrightarrow> a = i \<and> b = j \<or> test m a b"
    and or_wf: "wf_matrix n m \<Longrightarrow> i < n \<Longrightarrow> j < n \<Longrightarrow> wf_matrix n (or_rows i j m)"
    and or_test: "wf_matrix n m \<Longrightarrow> i < n \<Longrightarrow> j < n \<Longrightarrow> a < n \<Longrightarrow> b < n \<Longrightarrow>
          test (or_rows i j m) a b \<longleftrightarrow> test m a b \<or> a = i \<and> test m j b"
begin

lemma or_rows_fold:
  "wf_matrix n m \<Longrightarrow> i < n \<Longrightarrow> set js \<subseteq> {..<n} \<Longrightarrow> i \<notin> set js \<Longrightarrow>
     wf_matrix n (fold (or_rows i) js m) \<and>
     (\<forall>a<n. \<forall>b<n. test (fold (or_rows i) js m) a b \<longleftrightarrow> test m a b \<or> a = i \<and> (\<exists>j\<in>set js. test m j b))"
proof (induction js arbitrary: m)
  case (Cons j js)
  have "wf_matrix n (or_rows i j m)" using Cons.prems or_wf by simp
  note IH = Cons.IH [OF this]
  have "test (or_rows i j m) k b \<longleftrightarrow> test m k b" if "k \<in> set js" "b < n" for k b
    using that Cons.prems or_test [of n m i j k b] by auto
  moreover have "test (or_rows i j m) a b \<longleftrightarrow> test m a b \<or> a = i \<and> test m j b" if "a < n" "b < n" for a b
    using that Cons.prems or_test [of n m i j a b] by auto
  ultimately show ?case using IH Cons.prems by (simp add: disj_assoc conj_disj_distribL)
qed simp

text \<open>
  Transitive closure in one sweep: rows are filled in an order that lists every successor of
  an index before the index itself.
\<close>

lemma closure_sweep:
  assumes "\<And>x. x \<in> set xs \<Longrightarrow> set (nx x) \<subseteq> set xs" "set xs \<subseteq> {..<n}" "distinct xs"
    and "\<And>as x bs. xs = as @ x # bs \<Longrightarrow> set (nx x) \<subseteq> set as"
  shows "wf_matrix n (fold (\<lambda>x m. fold (or_rows x) (nx x) (set_bit x x m)) xs (fresh n)) \<and>
    (\<forall>a<n. \<forall>b<n. test (fold (\<lambda>x m. fold (or_rows x) (nx x) (set_bit x x m)) xs (fresh n)) a b \<longleftrightarrow>
       a \<in> set xs \<and> (a, b) \<in> {(x, y). y \<in> set (nx x)}\<^sup>*)"
  using assms
proof (induction xs rule: rev_induct)
  case Nil
  then show ?case by (simp add: fresh_wf fresh_test)
next
  case (snoc x xs)
  let ?R = "{(x, y). y \<in> set (nx x)}"
  let ?m = "fold (\<lambda>x m. fold (or_rows x) (nx x) (set_bit x x m)) xs (fresh n)"
  have order: "set (nx z) \<subseteq> set as" if "xs = as @ z # bs" for as z bs
    using snoc.prems(4) [of as z "bs @ [x]"] that by simp
  have closed: "set (nx z) \<subseteq> set xs" if "z \<in> set xs" for z
    using order split_list [OF that] by fastforce
  have IH: "wf_matrix n ?m" "\<And>a b. a < n \<Longrightarrow> b < n \<Longrightarrow> test ?m a b \<longleftrightarrow> a \<in> set xs \<and> (a, b) \<in> ?R\<^sup>*"
    using snoc.IH closed order snoc.prems(2,3) by auto
  have nx: "set (nx x) \<subseteq> set xs" using snoc.prems(4) [of xs x "[]"] by simp
  have x: "x < n" "x \<notin> set xs" "x \<notin> set (nx x)" "set (nx x) \<subseteq> {..<n}"
    using snoc.prems(2,3) nx by auto
  note W = or_rows_fold [OF set_wf [OF IH(1) x(1,1)] x(1,4,3)]
  have "test (fold (or_rows x) (nx x) (set_bit x x ?m)) a b \<longleftrightarrow> a \<in> set (xs @ [x]) \<and> (a, b) \<in> ?R\<^sup>*"
    if ab: "a < n" "b < n" for a b
  proof (cases "a = x")
    case True
    have "(x, b) \<in> ?R\<^sup>* \<longleftrightarrow> b = x \<or> (\<exists>j\<in>set (nx x). (j, b) \<in> ?R\<^sup>*)"
      by (auto elim: converse_rtranclE intro: converse_rtrancl_into_rtrancl)
    moreover have "test (set_bit x x ?m) j b \<longleftrightarrow> (j, b) \<in> ?R\<^sup>*" if "j \<in> set (nx x)" for j
    proof -
      have j: "j < n" "j \<noteq> x" "j \<in> set xs" using that x nx by auto
      show ?thesis using set_test [OF IH(1) x(1,1) j(1) ab(2)] IH(2) [OF j(1) ab(2)] j by simp
    qed
    ultimately show ?thesis
      using W ab x True set_test [OF IH(1) x(1,1) x(1) ab(2)] IH(2) [OF x(1) ab(2)] by auto
  next
    case False
    then show ?thesis using W ab set_test [OF IH(1) x(1,1) ab] IH(2) [OF ab] by auto
  qed
  then show ?case using W by simp
qed

end

interpretation packed: bit_matrix bitset2d_new bs_wf bs_set bs_or_rows bs_test
  by unfold_locales
    (simp_all add: bs_new_wf bs_new_test bs_set_wf bs_set_test bs_or_rows_test)

subsection \<open>Properties\<close>

text \<open>
  C34. The packed matrix is a boolean matrix: on indices below \<open>n\<close> every operation changes
  the bits it names and no other (no bit leaks into a neighbouring word or row), and keeps the
  array at \<open>n * stride\<close> words.
\<close>

theorem bitset2d_is_a_matrix:
  assumes "bs_wf n m" "i < n" "j < n" "a < n" "b < n"
  shows "(bs_test (bs_set i j m) a b \<longleftrightarrow> a = i \<and> b = j \<or> bs_test m a b) \<and>
    (bs_test (bs_clear i j m) a b \<longleftrightarrow> \<not> (a = i \<and> b = j) \<and> bs_test m a b) \<and>
    (bs_test (bs_or_rows i j m) a b \<longleftrightarrow> bs_test m a b \<or> a = i \<and> bs_test m j b) \<and>
    (bs_test (bs_reset_row i m) a b \<longleftrightarrow> a \<noteq> i \<and> bs_test m a b) \<and>
    \<not> bs_test (bs_reset_all m) a b \<and> \<not> bs_test (bitset2d_new n) a b \<and>
    bs_wf n (bs_set i j m) \<and> bs_wf n (bs_clear i j m) \<and> bs_wf n (bs_or_rows i j m) \<and>
    bs_wf n (bs_reset_row i m) \<and> bs_wf n (bs_reset_all m) \<and> bs_wf n (bitset2d_new n)"
  using assms
  by (simp only: bs_set_test bs_clear_test bs_or_rows_test bs_reset_row_test bs_reset_all_test
      bs_new_test bs_new_wf bs_set_wf bs_clear_wf simp_thms)

end
