(* ===== verification/Reduce_Edge.thy ===== *)
theory Reduce_Edge
  imports Pass_Contract Bitset2d
begin

text \<open>
  \<^verbatim>\<open>command_graph_t::pass_reduce_edge\<close> (\<^verbatim>\<open>src/pod/reduce-edge.cc\<close>): a reachability matrix is
  filled by a post-order walk, then every edge \<open>u\<close> to \<open>v\<close> goes when some other successor of
  \<open>u\<close> reaches \<open>v\<close>.
\<close>

subsection \<open>The code\<close>

text \<open>The call-back of the walk: a node reaches itself and what its successors reach.\<close>

definition reach_callback :: "node_ref \<Rightarrow> store \<times> bitset2d \<Rightarrow> store \<times> bitset2d" where
  "reach_callback u sr =
     (let idx = (\<lambda>x. iterator_index (node_at (fst sr) x))
      in (fst sr,
          fold (\<lambda>v. bs_or_rows (idx u) (idx v)) (succs (fst sr) u) (bs_set (idx u) (idx u) (snd sr))))"

text \<open>The scan over the successors \<open>w\<close> of \<open>u\<close> for one that reaches \<open>v\<close>.\<close>

fun reduce_edge_scan :: "(node_ref \<Rightarrow> node_ref \<Rightarrow> bool) \<Rightarrow> node_ref \<Rightarrow> node_ref \<Rightarrow> node_ref list \<Rightarrow> bool result" where
  "reduce_edge_scan test u v [] = Inr False"
| "reduce_edge_scan test u v (w # ws) =
     assert_that (u \<noteq> w)
       (if v = w then reduce_edge_scan test u v ws
        else if test w v then Inr True
        else reduce_edge_scan test u v ws)"

text \<open>
  The loop over the successors of \<open>u\<close> with the erasing iterator: \<open>kept\<close> is what the iterator has
  passed, \<open>rest\<close> starts at it, and the list of \<open>u\<close> is \<open>kept @ rest\<close>.
\<close>

fun reduce_edge_iter ::
  "(node_ref \<Rightarrow> node_ref \<Rightarrow> bool) \<Rightarrow> node_ref \<Rightarrow> node_ref list \<Rightarrow> node_ref list \<Rightarrow> store \<Rightarrow> store result" where
  "reduce_edge_iter test u kept [] s = Inr s"
| "reduce_edge_iter test u kept (v # rest) s =
     assert_that (u \<noteq> v)
       (bind_result (reduce_edge_scan test u v (succs s u)) (\<lambda>redundant.
          if redundant
          then let s1 = set_succs u (kept @ rest) s
               in assert_that (count_list (preds s1 v) u = 1)
                    (bind_result (erase_pred u v s1) (reduce_edge_iter test u kept rest))
          else reduce_edge_iter test u (kept @ [v]) rest s))"

definition pass_reduce_edge :: "graph_ref \<Rightarrow> store \<Rightarrow> store result" where
  "pass_reduce_edge g s =
     (let (s1, vec) = create_node_iterators True COMMAND_GRAPH_WALK_SEARCH_DFS
                        COMMAND_GRAPH_WALK_ORDER_PRE g s;
          (s2, r) = walk_from_entry COMMAND_GRAPH_WALK_SEARCH_DFS COMMAND_GRAPH_WALK_ORDER_POST g
                      reach_callback (s1, bitset2d_new (length vec))
      in for_each
           (\<lambda>u s. reduce_edge_iter
              (\<lambda>w v. bs_test r (iterator_index (node_at s w)) (iterator_index (node_at s v)))
              u [] (succs s u) s)
           vec s2)"

subsection \<open>Redundant edges\<close>

lemma redundant_edge_trancl:
  assumes "acyclic E" "(u, w) \<in> E" "w \<noteq> v" "(w, v) \<in> E\<^sup>*"
  shows "(E - {(u, v)})\<^sup>* = E\<^sup>*"
proof
  show "(E - {(u, v)})\<^sup>* \<subseteq> E\<^sup>*" by (rule rtrancl_mono) auto
  have no_u: "x \<noteq> u" if "(w, x) \<in> E\<^sup>*" for x
    using assms(1,2) that unfolding acyclic_def by (meson rtrancl_into_trancl2)
  have "(w, x) \<in> (E - {(u, v)})\<^sup>*" if "(w, x) \<in> E\<^sup>*" for x
    using that
  proof (induction rule: rtrancl_induct)
    case (step y z)
    then have "(y, z) \<in> E - {(u, v)}" using no_u by auto
    then show ?case by (rule rtrancl.rtrancl_into_rtrancl [OF step.IH])
  qed simp
  from this [OF assms(4)] have "(w, v) \<in> (E - {(u, v)})\<^sup>*" .
  moreover have "(u, w) \<in> E - {(u, v)}" using assms(2,3) by simp
  ultimately have uv: "(u, v) \<in> (E - {(u, v)})\<^sup>*" by (rule converse_rtrancl_into_rtrancl [rotated])
  have "E \<subseteq> (E - {(u, v)})\<^sup>*" using uv by auto
  then have "E\<^sup>* \<subseteq> ((E - {(u, v)})\<^sup>*)\<^sup>*" by (rule rtrancl_mono)
  then show "E\<^sup>* \<subseteq> (E - {(u, v)})\<^sup>*" by simp
qed

lemma reduce_edge_scan_eq:
  "u \<notin> set ws \<Longrightarrow> reduce_edge_scan test u v ws = Inr (\<exists>w\<in>set ws. w \<noteq> v \<and> test w v)"
  by (induction ws) auto

text \<open>Deleting an edge on both sides.\<close>

lemma delete_edge_wf_adj:
  assumes adj: "wf_adj s V" and u: "u \<in> V" and v: "v \<in> set (succs s u)"
    and l: "set l = set (succs s u) - {v}" "distinct l"
  shows "\<exists>t. erase_pred u v (set_succs u l s) = Inr t \<and> adj_frame s t \<and> wf_adj t V \<and>
    edges t V = edges s V - {(u, v)} \<and> (\<forall>x. succs t x = (if x = u then l else succs s x))"
proof -
  let ?s = "set_succs u l s"
  let ?t = "set_preds v (remove1 u (preds s v)) ?s"
  have vV: "v \<in> V" using wf_adjD(2) [OF adj u] v by blast
  have r: "u < length (nodes s)" "v < length (nodes ?s)" "v < length (nodes s)"
    using wf_adjD(1) [OF adj] u vV by (simp_all add: set_succs_def)
  have uv: "u \<in> set (preds s v)" using wf_adj_sym [OF adj u vV] v by simp
  have p: "preds ?t x = (if x = v then remove1 u (preds s v) else preds s x)"
    and q: "succs ?t x = (if x = u then l else succs s x)" for x
    using r by simp_all
  have e: "erase_pred u v ?s = Inr ?t" using uv by (simp add: erase_pred_def erase_find_Inr)
  have fr: "adj_frame s ?t" by (rule adj_frame_trans [OF adj_frame_set_succs adj_frame_set_preds])
  have "wf_adj ?t V"
    unfolding wf_adj_def
  proof (intro conjI ballI)
    fix x assume x: "x \<in> V"
    show "x < length (nodes ?t)" using wf_adjD(1) [OF adj x] adj_frameD(1) [OF fr] by simp
    show "set (succs ?t x) \<subseteq> V" "distinct (succs ?t x)"
      using wf_adjD(2,4) [OF adj x] l unfolding q by auto
    show "set (preds ?t x) \<subseteq> V" "distinct (preds ?t x)"
      using wf_adjD(3,5) [OF adj x] unfolding p by auto
    fix y assume y: "y \<in> V"
    show "y \<in> set (succs ?t x) \<longleftrightarrow> x \<in> set (preds ?t y)"
    proof -
      have "y \<in> set (succs ?t x) \<longleftrightarrow> y \<in> set (succs s x) \<and> (x, y) \<noteq> (u, v)"
        using q l(1) by auto
      moreover have "x \<in> set (preds ?t y) \<longleftrightarrow> x \<in> set (preds s y) \<and> (x, y) \<noteq> (u, v)"
        using p wf_adjD(5) [OF adj y] by auto
      ultimately show ?thesis using wf_adj_sym [OF adj x y] by blast
    qed
  qed
  moreover have "edges ?t V = edges s V - {(u, v)}"
    using q l by (auto simp: edges_def split: if_splits)
  ultimately show ?thesis using e fr q by blast
qed

lemma reduce_edge_iter_ok:
  assumes "wf_adj s V" "acyclic (edges s V)" "(edges s V)\<^sup>* = R" "u \<in> V"
    and "\<And>w v. w \<in> V \<Longrightarrow> v \<in> V \<Longrightarrow> test w v \<longleftrightarrow> (w, v) \<in> R"
    and "succs s u = kept @ rest"
    and "\<forall>v\<in>set kept. \<forall>w\<in>set (kept @ rest). w \<noteq> v \<longrightarrow> (w, v) \<notin> R"
  shows "\<exists>t. reduce_edge_iter test u kept rest s = Inr t \<and> adj_frame s t \<and> wf_adj t V \<and>
    edges t V \<subseteq> edges s V \<and> (edges t V)\<^sup>* = R \<and> (\<forall>x. x \<noteq> u \<longrightarrow> succs t x = succs s x) \<and>
    (\<forall>v\<in>set (succs t u). \<forall>w\<in>set (succs t u). w \<noteq> v \<longrightarrow> (w, v) \<notin> R)"
  using assms
proof (induction rest arbitrary: kept s)
  case Nil
  then show ?case using adj_frame_refl by auto
next
  case (Cons v rest)
  note adj = Cons.prems(1) and list = Cons.prems(6)
  have sub: "set (succs s u) \<subseteq> V" and dist: "distinct (succs s u)"
    using wf_adjD(2,4) [OF adj Cons.prems(4)] by blast+
  have self: "u \<notin> set (succs s u)" using acyclic_irrefl_edge [OF Cons.prems(2,4)] .
  have v: "v \<in> V" "u \<noteq> v" "v \<in> set (succs s u)" using sub list self by auto
  have scan: "reduce_edge_scan test u v (succs s u) = Inr (\<exists>w\<in>set (succs s u). w \<noteq> v \<and> (w, v) \<in> R)"
    unfolding reduce_edge_scan_eq [OF self] using Cons.prems(5) v(1) sub by (simp add: subset_iff)
  show ?case
  proof (cases "\<exists>w\<in>set (succs s u). w \<noteq> v \<and> (w, v) \<in> R")
    case True
    then obtain w where w: "w \<in> set (succs s u)" "w \<noteq> v" "(w, v) \<in> R" by blast
    have l: "set (kept @ rest) = set (succs s u) - {v}" "distinct (kept @ rest)"
      using dist list by auto
    obtain t where t: "erase_pred u v (set_succs u (kept @ rest) s) = Inr t" "adj_frame s t" "wf_adj t V"
      "edges t V = edges s V - {(u, v)}" "\<And>x. succs t x = (if x = u then kept @ rest else succs s x)"
      using delete_edge_wf_adj [OF adj Cons.prems(4) v(3) l] by blast
    have "(u, w) \<in> edges s V" using w(1) Cons.prems(4) by (simp add: edges_def)
    then have star: "(edges t V)\<^sup>* = R"
      using redundant_edge_trancl [OF Cons.prems(2)] w(2,3) Cons.prems(3) unfolding t(4) by blast
    have acy: "acyclic (edges t V)" using Cons.prems(2) t(4) acyclic_subset by blast
    have "succs t u = kept @ rest" using t(5) by simp
    moreover have "\<forall>v\<in>set kept. \<forall>w\<in>set (kept @ rest). w \<noteq> v \<longrightarrow> (w, v) \<notin> R"
      using Cons.prems(7) by simp
    ultimately obtain r where r: "reduce_edge_iter test u kept rest t = Inr r" "adj_frame t r" "wf_adj r V"
      "edges r V \<subseteq> edges t V" "(edges r V)\<^sup>* = R" "\<forall>x. x \<noteq> u \<longrightarrow> succs r x = succs t x"
      "\<forall>v\<in>set (succs r u). \<forall>w\<in>set (succs r u). w \<noteq> v \<longrightarrow> (w, v) \<notin> R"
      using Cons.IH [OF t(3) acy star Cons.prems(4,5)] by blast
    have "count_list (preds (set_succs u (kept @ rest) s) v) u = 1"
      using wf_adj_sym [OF adj Cons.prems(4) v(1)] v(3) wf_adjD(5) [OF adj v(1)]
      by (simp add: count_list_distinct)
    then have "reduce_edge_iter test u kept (v # rest) s = Inr r"
      using scan True v(2) t(1) r(1) by (simp only: reduce_edge_iter.simps Let_def) simp
    moreover have "adj_frame s r" using t(2) r(2) by (rule adj_frame_trans)
    ultimately show ?thesis using r t(4,5) by auto
  next
    case False
    have new: "\<forall>v'\<in>set (kept @ [v]). \<forall>w\<in>set ((kept @ [v]) @ rest). w \<noteq> v' \<longrightarrow> (w, v') \<notin> R"
      using Cons.prems(7) False list by auto
    have "succs s u = (kept @ [v]) @ rest" using list by simp
    then have IH: "\<exists>t. reduce_edge_iter test u (kept @ [v]) rest s = Inr t \<and> adj_frame s t \<and> wf_adj t V \<and>
      edges t V \<subseteq> edges s V \<and> (edges t V)\<^sup>* = R \<and> (\<forall>x. x \<noteq> u \<longrightarrow> succs t x = succs s x) \<and>
      (\<forall>v\<in>set (succs t u). \<forall>w\<in>set (succs t u). w \<noteq> v \<longrightarrow> (w, v) \<notin> R)"
      using Cons.IH [OF Cons.prems(1-5) _ new] by blast
    have "reduce_edge_iter test u kept (v # rest) s = reduce_edge_iter test u (kept @ [v]) rest s"
      using scan False v(2) by (simp only: reduce_edge_iter.simps) simp
    then show ?thesis using IH by (simp only:)
  qed
qed

subsection \<open>The reachability matrix\<close>

lemma fold_reach_callback:
  "fold reach_callback vs (s, r) =
     (s, fold (\<lambda>u m. fold (\<lambda>v. bs_or_rows (iterator_index (node_at s u)) (iterator_index (node_at s v)))
                  (succs s u) (bs_set (iterator_index (node_at s u)) (iterator_index (node_at s u)) m)) vs r)"
  by (induction vs arbitrary: r) (simp_all add: reach_callback_def Let_def)

lemma fold_map_list: "fold f (map g xs) a = fold (\<lambda>x. f (g x)) xs a"
  by (induction xs arbitrary: a) simp_all

text \<open>Relabelling the nodes of a graph by their iterator indices.\<close>

lemma rtrancl_relabel:
  assumes "\<And>k. k < n \<Longrightarrow> vec ! k \<in> V \<and> idx (vec ! k) = k" "\<And>u. u \<in> V \<Longrightarrow> idx u < n \<and> vec ! idx u = u"
    and "\<And>u v. (u, v) \<in> E \<Longrightarrow> u \<in> V \<and> v \<in> V" "u \<in> V" "v \<in> V"
  shows "(idx u, idx v) \<in> {(a, b). a < n \<and> b < n \<and> (vec ! a, vec ! b) \<in> E}\<^sup>* \<longleftrightarrow> (u, v) \<in> E\<^sup>*"
proof
  let ?R = "{(a, b). a < n \<and> b < n \<and> (vec ! a, vec ! b) \<in> E}"
  have star: "(vec ! idx u, vec ! b) \<in> E\<^sup>*" if "(idx u, b) \<in> ?R\<^sup>*" for b
    using that
  proof (induction rule: rtrancl_induct)
    case (step y z)
    then have "(vec ! y, vec ! z) \<in> E" by simp
    then show ?case by (rule rtrancl.rtrancl_into_rtrancl [OF step.IH])
  qed simp
  show "(u, v) \<in> E\<^sup>*" if "(idx u, idx v) \<in> ?R\<^sup>*"
    using star [OF that] assms(2) [OF assms(4)] assms(2) [OF assms(5)] by simp
  show "(idx u, idx v) \<in> ?R\<^sup>*" if "(u, v) \<in> E\<^sup>*"
    using that
  proof (induction rule: rtrancl_induct)
    case (step y z)
    have "(idx y, idx z) \<in> ?R" using step.hyps(2) assms(2,3) by auto
    then show ?case by (rule rtrancl.rtrancl_into_rtrancl [OF step.IH])
  qed simp
qed

text \<open>What the walk of the pass computes.\<close>

lemma reachability_matrix:
  assumes ok: "graph_ok s g V (Suc k)" and vec: "distinct vec" "set vec = V"
    and idx: "\<And>i. i < length vec \<Longrightarrow> iterator_index (node_at s (vec ! i)) = i"
    and wk: "walk_from_entry COMMAND_GRAPH_WALK_SEARCH_DFS COMMAND_GRAPH_WALK_ORDER_POST g
               reach_callback (s, bitset2d_new (length vec)) = (t, r)"
    and uv: "u \<in> V" "v \<in> V"
  shows "bs_test r (iterator_index (node_at s u)) (iterator_index (node_at s v)) \<longleftrightarrow> (u, v) \<in> (edges s V)\<^sup>*"
proof -
  let ?n = "length vec" and ?ix = "\<lambda>x. iterator_index (node_at s x)" and ?en = "node_get_entry s g"
  let ?nx = "\<lambda>a. map ?ix (succs s (vec ! a))"
  let ?s1 = "upd_graph g (\<lambda>gr. gr\<lparr>graph_walk_id := graph_walk_id (graph_at s g) + 1\<rparr>) s"
  let ?vs = "visited COMMAND_GRAPH_WALK_SEARCH_DFS COMMAND_GRAPH_WALK_ORDER_POST g ?en s"
  note w = graph_ok_walk [OF ok]
  note adj = wf_graph_adj [OF w(1)]
  have vs: "set ?vs = V" "distinct ?vs"
    using visited_exact [OF adj wf_graph_entry [OF w(1)] w(2,3)] entry_reaches [OF w(1)] by simp_all
  have inv: "?ix x < ?n \<and> vec ! ?ix x = x" if "x \<in> V" for x
    using that vec(2) idx by (metis in_set_conv_nth)
  have inj: "inj_on ?ix V" by (rule inj_on_inverseI [where g = "(!) vec"]) (use inv in blast)
  have sub: "set (succs s x) \<subseteq> V" if "x \<in> V" for x using wf_adjD(2) [OF adj that] .
  have r: "r = fold (\<lambda>u m. fold (\<lambda>v. bs_or_rows (?ix u) (?ix v)) (succs s u) (bs_set (?ix u) (?ix u) m)) ?vs (bitset2d_new ?n)"
    using wk by (simp add: walk_from_entry_def walk_eq_fold Let_def fold_reach_callback)
  also have "\<dots> = fold (\<lambda>a m. fold (bs_or_rows a) (?nx a) (bs_set a a m)) (map ?ix ?vs) (bitset2d_new ?n)"
    unfolding fold_map_list
    by (rule fold_cong) (simp_all add: vs(1) inv fold_map_list)
  finally have fold: "r = fold (\<lambda>a m. fold (bs_or_rows a) (?nx a) (bs_set a a m)) (map ?ix ?vs) (bitset2d_new ?n)" .
  have "bs_test r (?ix u) (?ix v) \<longleftrightarrow>
      ?ix u \<in> set (map ?ix ?vs) \<and> (?ix u, ?ix v) \<in> {(x, y). y \<in> set (?nx x)}\<^sup>*"
    unfolding fold
  proof (rule packed.closure_sweep [THEN conjunct2, rule_format])
    show "distinct (map ?ix ?vs)" using vs inj by (simp add: distinct_map)
    show "set (map ?ix ?vs) \<subseteq> {..<?n}" using vs(1) inv by auto
    show "set (?nx x) \<subseteq> set (map ?ix ?vs)" if x: "x \<in> set (map ?ix ?vs)" for x
    proof -
      obtain y where y: "y \<in> V" "x = ?ix y" using x by (auto simp: vs(1))
      then have "set (?nx x) = ?ix ` set (succs s y)" using inv by simp
      then show ?thesis using sub [OF y(1)] vs(1) by (simp add: image_mono)
    qed
    show "set (?nx x) \<subseteq> set as" if mp: "map ?ix ?vs = as @ x # bs" for as x bs
    proof
      fix b assume b: "b \<in> set (?nx x)"
      obtain as' u' bs' where d: "?vs = as' @ u' # bs'" "as = map ?ix as'" "x = ?ix u'"
        using mp by (auto simp: map_eq_append_conv map_eq_Cons_conv)
      have "u' \<in> V" using d(1) vs(1) by auto
      then obtain v' where "v' \<in> set (succs s u')" "b = ?ix v'" using b d(3) inv by auto
      then show "b \<in> set as" using visited_post_order [OF w d(1)] d(2) by auto
    qed
    show "?ix u < ?n" "?ix v < ?n" using inv uv by blast+
  qed
  moreover have "(?ix u, ?ix v) \<in> {(x, y). y \<in> set (?nx x)}\<^sup>* \<longleftrightarrow>
      (?ix u, ?ix v) \<in> {(a, b). a < ?n \<and> b < ?n \<and> (vec ! a, vec ! b) \<in> edges s V}\<^sup>*"
  proof -
    let ?A = "{(x, y). y \<in> set (?nx x)}" and ?B = "{(a, b). a < ?n \<and> b < ?n \<and> (vec ! a, vec ! b) \<in> edges s V}"
    have "?B \<subseteq> ?A"
    proof clarify
      fix a b assume "a < ?n" "b < ?n" "(vec ! a, vec ! b) \<in> edges s V"
      then show "b \<in> set (?nx a)" using idx by (force simp: edges_def)
    qed
    moreover have "(?ix u, b) \<in> ?B\<^sup>* \<and> b < ?n" if "(?ix u, b) \<in> ?A\<^sup>*" for b
      using that
    proof (induction rule: rtrancl_induct)
      case base
      then show ?case using inv uv(1) by simp
    next
      case (step y z)
      obtain v' where v': "v' \<in> set (succs s (vec ! y))" "z = ?ix v'" using step.hyps(2) by auto
      have "vec ! y \<in> V" using step.IH vec(2) nth_mem by blast
      moreover from this v' have "v' \<in> V" using sub by blast
      ultimately have "(y, z) \<in> ?B" using v' step.IH inv by (simp add: edges_def)
      then have "(?ix u, z) \<in> ?B\<^sup>*" using step.IH by (meson rtrancl.rtrancl_into_rtrancl)
      moreover have "z < ?n" using \<open>v' \<in> V\<close> inv v'(2) by simp
      ultimately show ?case ..
    qed
    ultimately show ?thesis by (meson rtrancl_mono subsetD)
  qed
  moreover have "(?ix u, ?ix v) \<in> {(a, b). a < ?n \<and> b < ?n \<and> (vec ! a, vec ! b) \<in> edges s V}\<^sup>*
      \<longleftrightarrow> (u, v) \<in> (edges s V)\<^sup>*"
    by (rule rtrancl_relabel [of ?n vec V ?ix "edges s V" u v])
      (use vec(2) nth_mem idx inv uv wf_adj_edge [OF adj] in auto)
  ultimately show ?thesis using vs(1) uv by auto
qed

subsection \<open>The pass\<close>

text \<open>Fewer edges with the same reachability: still well formed.\<close>

lemma wf_graph_fewer_edges:
  assumes wf: "wf_graph s g V" and frame: "adj_frame s t" and adj': "wf_adj t V"
    and sub: "edges t V \<subseteq> edges s V" and star: "(edges t V)\<^sup>* = (edges s V)\<^sup>*"
  shows "wf_graph t g V"
proof (rule wf_graphI_edges)
  show "g < length (graphs t)" using wf adj_frameD(3) [OF frame] by (simp add: wf_graph_def)
  show "wf_adj t V" by (rule adj')
  show "acyclic (edges t V)" using wf_graph_acyclic [OF wf] sub acyclic_subset by blast
  show "node_get_entry t g \<in> V" "node_get_exit t g \<in> V"
    using wf_graph_entry [OF wf] wf_graph_exit [OF wf] by (simp_all add: adj_frameD [OF frame])
  fix x assume x: "x \<in> V"
  show "x \<noteq> node_get_entry t g \<longleftrightarrow> (\<exists>y. (y, x) \<in> edges t V)"
    unfolding adj_frameD(5) [OF frame]
  proof
    assume "x \<noteq> node_get_entry s g"
    moreover have "(node_get_entry s g, x) \<in> (edges t V)\<^sup>*"
      unfolding star by (rule wf_graph_from_entry [OF wf x])
    ultimately show "\<exists>y. (y, x) \<in> edges t V" by (metis rtranclE)
  next
    assume "\<exists>y. (y, x) \<in> edges t V"
    then show "x \<noteq> node_get_entry s g" using sub wf_graph_edges_iff(1) [OF wf x] by blast
  qed
  show "x \<noteq> node_get_exit t g \<longleftrightarrow> (\<exists>y. (x, y) \<in> edges t V)"
    unfolding adj_frameD(6) [OF frame]
  proof
    assume "x \<noteq> node_get_exit s g"
    moreover have "(x, node_get_exit s g) \<in> (edges t V)\<^sup>*"
      unfolding star by (rule wf_graph_to_exit [OF wf x])
    ultimately show "\<exists>y. (x, y) \<in> edges t V" by (metis converse_rtranclE)
  next
    assume "\<exists>y. (x, y) \<in> edges t V"
    then show "x \<noteq> node_get_exit s g" using sub wf_graph_edges_iff(2) [OF wf x] by blast
  qed
qed

text \<open>No two remaining successors of a node reach one another.\<close>

definition irredundant :: "store \<Rightarrow> node_ref set \<Rightarrow> node_ref \<Rightarrow> bool" where
  "irredundant s V u \<longleftrightarrow>
     (\<forall>v\<in>set (succs s u). \<forall>w\<in>set (succs s u). w \<noteq> v \<longrightarrow> (w, v) \<notin> (edges s V)\<^sup>*)"

lemma reduce_edge_loop:
  assumes wf: "wf_graph s g V" and vec: "set vec = V" "distinct vec"
    and test: "\<And>t w v. adj_frame s t \<Longrightarrow> w \<in> V \<Longrightarrow> v \<in> V \<Longrightarrow> test t w v \<longleftrightarrow> (w, v) \<in> (edges s V)\<^sup>*"
  shows "\<exists>t. for_each (\<lambda>u s. reduce_edge_iter (test s) u [] (succs s u) s) vec s = Inr t \<and>
    adj_frame s t \<and> wf_adj t V \<and> edges t V \<subseteq> edges s V \<and> (edges t V)\<^sup>* = (edges s V)\<^sup>* \<and>
    (\<forall>u\<in>V. irredundant t V u)"
proof -
  let ?I = "\<lambda>i t. adj_frame s t \<and> wf_adj t V \<and> edges t V \<subseteq> edges s V \<and> (edges t V)\<^sup>* = (edges s V)\<^sup>* \<and>
    (\<forall>u\<in>set (take i vec). irredundant t V u)"
  have "\<exists>t. for_each (\<lambda>u s. reduce_edge_iter (test s) u [] (succs s u) s) vec s = Inr t \<and> ?I (length vec) t"
  proof (rule for_each_invariant)
    show "?I 0 s" using wf_graph_adj [OF wf] by simp
  next
    fix i t assume i: "i < length vec" and It: "?I i t"
    let ?u = "vec ! i"
    have fr: "adj_frame s t" and sub: "edges t V \<subseteq> edges s V" and star: "(edges t V)\<^sup>* = (edges s V)\<^sup>*"
      using It by blast+
    have u: "?u \<in> V" "?u \<notin> set (take i vec)"
      using vec i nth_mem by (auto simp: distinct_conv_nth in_set_conv_nth)
    have acy: "acyclic (edges t V)" using wf_graph_acyclic [OF wf] sub acyclic_subset by blast
    have "wf_adj t V" using It by blast
    from reduce_edge_iter_ok [OF this acy star u(1) test [OF fr], of "[]" "succs t ?u"]
    obtain r where r: "reduce_edge_iter (test t) ?u [] (succs t ?u) t = Inr r" "adj_frame t r" "wf_adj r V"
      "edges r V \<subseteq> edges t V" "(edges r V)\<^sup>* = (edges s V)\<^sup>*" "\<forall>x. x \<noteq> ?u \<longrightarrow> succs r x = succs t x"
      "\<forall>v\<in>set (succs r ?u). \<forall>w\<in>set (succs r ?u). w \<noteq> v \<longrightarrow> (w, v) \<notin> (edges s V)\<^sup>*"
      by auto
    have "irredundant r V x" if "x \<in> set (take (Suc i) vec)" for x
    proof (cases "x = ?u")
      case True
      then show ?thesis using r(5,7) by (simp add: irredundant_def)
    next
      case False
      then have "x \<in> set (take i vec)" using that i by (simp add: take_Suc_conv_app_nth)
      then show ?thesis using It False r(5,6) star by (simp add: irredundant_def)
    qed
    moreover have "adj_frame s r" using fr r(2) by (rule adj_frame_trans)
    moreover have "edges r V \<subseteq> edges s V" using sub r(4) by blast
    ultimately have "?I (Suc i) r" using r(3,5) by blast
    then show "\<exists>r. reduce_edge_iter (test t) ?u [] (succs t ?u) t = Inr r \<and> ?I (Suc i) r" using r(1) by blast
  qed
  then show ?thesis using vec(1) by simp
qed

lemma structural_reach_callback: "structural reach_callback"
  by (simp add: structural_def reach_callback_def Let_def)

lemma pass_reduce_edge_ok:
  assumes ok: "graph_ok s g V (2 + k)"
  shows "\<exists>t. pass_reduce_edge g s = Inr t \<and> graph_ok t g V k \<and> reduces s g V t V \<and>
    commands t = commands s \<and> length (nodes t) = length (nodes s) \<and>
    (\<forall>u<length (nodes s). ntype (node_at t u) = ntype (node_at s u) \<and>
       ncommand (node_at t u) = ncommand (node_at s u) \<and>
       device_unique_id (node_at t u) = device_unique_id (node_at s u)) \<and>
    edges t V \<subseteq> edges s V \<and> (edges t V)\<^sup>* = (edges s V)\<^sup>* \<and> (\<forall>u\<in>V. irredundant t V u)"
proof -
  obtain s1 vec where it: "create_node_iterators True COMMAND_GRAPH_WALK_SEARCH_DFS
      COMMAND_GRAPH_WALK_ORDER_PRE g s = (s1, vec)" by force
  have ok': "graph_ok s g V (Suc (Suc k))" using ok by simp
  note c = graph_ok_iterators [OF ok' it]
  have wf: "wf_graph s g V" using ok by (simp add: graph_ok_def)
  obtain s2 r where wk: "walk_from_entry COMMAND_GRAPH_WALK_SEARCH_DFS COMMAND_GRAPH_WALK_ORDER_POST g
      reach_callback (s1, bitset2d_new (length vec)) = (s2, r)" by force
  have vec: "set vec = V" using c(5) by (simp add: iterated_def)
  have wf1: "wf_graph s1 g V" using c(1) by (simp add: graph_ok_def)
  have m: "bs_test r (iterator_index (node_at s1 w)) (iterator_index (node_at s1 v)) \<longleftrightarrow> (w, v) \<in> (edges s1 V)\<^sup>*"
    if "w \<in> V" "v \<in> V" for w v
    by (rule reachability_matrix [OF c(1,4) vec c(6) wk that])
  have s2: "s2 = fst (walk COMMAND_GRAPH_WALK_SEARCH_DFS COMMAND_GRAPH_WALK_ORDER_POST g
      (node_get_entry s1 g) reach_callback (s1, bitset2d_new (length vec)))"
    using wk by (simp add: walk_from_entry_def)
  have ok2: "graph_ok s2 g V k" and ss12: "same_structure s1 s2"
    unfolding s2 by (rule graph_ok_walk_effect [OF c(1) structural_reach_callback wf_graph_entry [OF wf1]])+
  have wf2: "wf_graph s2 g V" using ok2 by (simp add: graph_ok_def)
  have ss: "same_structure s s2" using c(2) ss12 by (rule same_structure_trans)
  have e2: "edges s2 V = edges s V" by (rule same_structure_edges [OF ss wf_graph_adj [OF wf]])
  have e1: "edges s1 V = edges s V" by (rule same_structure_edges [OF c(2) wf_graph_adj [OF wf]])
  have ix: "iterator_index (node_at s2 x) = iterator_index (node_at s1 x)" if "x \<in> V" for x
  proof -
    let ?s1 = "upd_graph g (\<lambda>gr. gr\<lparr>graph_walk_id := graph_walk_id (graph_at s1 g) + 1\<rparr>) s1"
    have lt: "node_get_entry s1 g < length (nodes s1)" "x < length (nodes s1)"
      using wf_adjD(1) [OF wf_graph_adj [OF wf1]] wf_graph_entry [OF wf1] that by simp_all
    have "s2 = put_marks (walk_marks COMMAND_GRAPH_WALK_SEARCH_DFS COMMAND_GRAPH_WALK_ORDER_POST g
        (node_get_entry s1 g) s1) ?s1"
      unfolding s2 by (simp add: walk_eq_fold Let_def fold_reach_callback)
    then show ?thesis using lt by (simp add: walk_marks_length)
  qed
  let ?test = "\<lambda>t w v. bs_test r (iterator_index (node_at t w)) (iterator_index (node_at t v))"
  have test: "?test t w v \<longleftrightarrow> (w, v) \<in> (edges s2 V)\<^sup>*" if "adj_frame s2 t" "w \<in> V" "v \<in> V" for t w v
    using m [OF that(2,3)] ix that e1 e2 by (simp add: adj_frameD(8) [OF that(1)])
  obtain t where t: "for_each (\<lambda>u s. reduce_edge_iter (?test s) u [] (succs s u) s) vec s2 = Inr t"
    "adj_frame s2 t" "wf_adj t V" "edges t V \<subseteq> edges s2 V" "(edges t V)\<^sup>* = (edges s2 V)\<^sup>*"
    "\<forall>u\<in>V. irredundant t V u"
    using reduce_edge_loop [OF wf2 vec c(4), of ?test] test by blast
  have "pass_reduce_edge g s = Inr t" using t(1) it wk by (simp add: pass_reduce_edge_def)
  moreover have wft: "wf_graph t g V" by (rule wf_graph_fewer_edges [OF wf2 t(2-5)])
  moreover have "graph_ok t g V k" by (rule graph_ok_adj_frame [OF ok2 t(2) wft order_refl])
  moreover have "reduces s g V t V"
  proof (rule reduces_trans)
    show "reduces s g V s2 V" by (rule same_structure_reduces [OF ss wf])
    show "reduces s2 g V t V" using t(5) adj_frameD(5,6) [OF t(2)] by (simp add: reduces_def)
  qed
  moreover have "\<forall>u<length (nodes s). ntype (node_at t u) = ntype (node_at s u) \<and>
       ncommand (node_at t u) = ncommand (node_at s u) \<and>
       device_unique_id (node_at t u) = device_unique_id (node_at s u)"
    using ss by (simp add: same_structure_def adj_frameD [OF t(2)])
  moreover have "commands t = commands s" "length (nodes t) = length (nodes s)"
    using ss by (simp_all add: same_structure_def adj_frameD [OF t(2)])
  ultimately show ?thesis using t(4-6) e2 by auto
qed

interpretation reduce_edge: graph_pass pass_reduce_edge 2 "\<lambda>_ _. True"
proof
  fix s g V k assume "graph_ok s g V (2 + k)"
  then show "\<exists>t W. pass_reduce_edge g s = Inr t \<and> graph_ok t g W k \<and> True \<and> reduces s g V t W"
    using pass_reduce_edge_ok [of s g V k] by blast
qed

subsection \<open>Properties\<close>

text \<open>
  C1. \<^verbatim>\<open>pass_reduce_edge\<close> is a transitive reduction: on every well-formed graph with two walk
  identifiers left it succeeds (no assertion fails, every erased edge is found), keeps all
  nodes and the whole reachability relation, only deletes edges, and leaves none that the
  others imply.
\<close>

theorem reduce_edge_transitive_reduction:
  assumes "graph_ok s g V (2 + k)"
  shows "\<exists>t. pass_reduce_edge g s = Inr t \<and> graph_ok t g V k \<and> edges t V \<subseteq> edges s V \<and>
    (edges t V)\<^sup>* = (edges s V)\<^sup>* \<and> (\<forall>(u, v)\<in>edges t V. (u, v) \<notin> (edges t V - {(u, v)})\<^sup>*)"
proof -
  obtain t where t: "pass_reduce_edge g s = Inr t" "graph_ok t g V k" "edges t V \<subseteq> edges s V"
    "(edges t V)\<^sup>* = (edges s V)\<^sup>*" "\<forall>u\<in>V. irredundant t V u"
    using pass_reduce_edge_ok [OF assms] by blast
  have wf: "wf_graph t g V" using t(2) by (simp add: graph_ok_def)
  have "(u, v) \<notin> (edges t V - {(u, v)})\<^sup>*" if uv: "(u, v) \<in> edges t V" for u v
  proof
    assume path: "(u, v) \<in> (edges t V - {(u, v)})\<^sup>*"
    have "u \<noteq> v" using uv wf_graph_acyclic [OF wf] by (auto simp: acyclic_def)
    then obtain w where w: "(u, w) \<in> edges t V - {(u, v)}" "(w, v) \<in> (edges t V - {(u, v)})\<^sup>*"
      using path by (metis converse_rtranclE)
    have "(w, v) \<in> (edges t V)\<^sup>*" using w(2) rtrancl_mono [of "edges t V - {(u, v)}" "edges t V"] by blast
    moreover have "irredundant t V u" using t(5) uv by (simp add: edges_def)
    ultimately show False using w(1) uv by (auto simp: irredundant_def edges_def)
  qed
  then show ?thesis using t(1-4) by blast
qed

end
