(* ===== verification/Copy_Normalize.thy ===== *)
theory Copy_Normalize
  imports Pass_Contract
begin

text \<open>
  \<^verbatim>\<open>command_graph_t::pass_copy_normalize\<close> (\<^verbatim>\<open>src/pod/copy-normalize.cc\<close>): a 2D copy whose
  columns are contiguous on both sides becomes a 1D copy, any other 2D copy is rescaled to
  bytes. The meaning of a copy is the set of byte moves it makes on 64-bit addresses, columns
  \<open>src_ld\<close> and \<open>dst_ld\<close> elements apart; the pass keeps it.
\<close>

subsection \<open>The code\<close>

fun copy_1D_type_of :: "command_type \<Rightarrow> command_type" where
  "copy_1D_type_of COMMAND_TYPE_COPY_H2H_2D = COMMAND_TYPE_COPY_H2H_1D"
| "copy_1D_type_of COMMAND_TYPE_COPY_H2D_2D = COMMAND_TYPE_COPY_H2D_1D"
| "copy_1D_type_of COMMAND_TYPE_COPY_D2H_2D = COMMAND_TYPE_COPY_D2H_1D"
| "copy_1D_type_of COMMAND_TYPE_COPY_D2D_2D = COMMAND_TYPE_COPY_D2D_1D"
| "copy_1D_type_of t = t"

text \<open>
  The body of \<^verbatim>\<open>HANDLE_CASE\<close>. The device identifiers are the common initial members of the
  two structs of the union: the 1D copy keeps those of the 2D copy.
\<close>

definition copy_2D_to_1D :: "copy_2D \<Rightarrow> copy_1D" where
  "copy_2D_to_1D x =
     \<lparr>src_device_unique_id = src_device_unique_id2 x, dst_device_unique_id = dst_device_unique_id2 x,
      src_device_addr = src_addr x, dst_device_addr = dst_addr x,
      csize = cm x * cn x * sizeof_type x\<rparr>"

definition copy_2D_to_bytes :: "copy_2D \<Rightarrow> copy_2D" where
  "copy_2D_to_bytes x =
     x\<lparr>sizeof_type := 1, cm := cm x * sizeof_type x, src_ld := src_ld x * sizeof_type x,
       dst_ld := dst_ld x * sizeof_type x\<rparr>"

definition normalize_command :: "command \<Rightarrow> command result" where
  "normalize_command c =
     (if is_copy_2D_type (ctype c)
      then bind_result (get_copy_2D c) (\<lambda>x.
             if cm x = src_ld x \<and> cm x = dst_ld x
             then Inr \<lparr>ctype = copy_1D_type_of (ctype c), cbody = Body_copy_1D (copy_2D_to_1D x)\<rparr>
             else Inr (c\<lparr>cbody := Body_copy_2D (copy_2D_to_bytes x)\<rparr>))
      else Inr c)"

definition copy_normalize_step :: "node_ref \<Rightarrow> store \<Rightarrow> store result" where
  "copy_normalize_step u s =
     (if ntype (node_at s u) = COMMAND_GRAPH_NODE_TYPE_COMMAND
      then case ncommand (node_at s u) of
             None \<Rightarrow> Inl Assertion_failed
           | Some c \<Rightarrow> bind_result (normalize_command (commands s ! c))
                         (\<lambda>x. Inr (upd_command c (\<lambda>_. x) s))
      else Inr s)"

definition pass_copy_normalize :: "graph_ref \<Rightarrow> store \<Rightarrow> store result" where
  "pass_copy_normalize g s =
     (let (s1, vec) = create_node_iterators False COMMAND_GRAPH_WALK_SEARCH_DFS
                        COMMAND_GRAPH_WALK_ORDER_PRE g s
      in for_each copy_normalize_step vec s1)"

subsection \<open>The bytes a copy moves\<close>

definition bytes_1D :: "copy_1D \<Rightarrow> (uintptr \<times> uintptr) set" where
  "bytes_1D x =
     {(src_device_addr x + word_of_nat k, dst_device_addr x + word_of_nat k) |k. k < unat (csize x)}"

definition bytes_2D :: "copy_2D \<Rightarrow> (uintptr \<times> uintptr) set" where
  "bytes_2D x =
     {(src_addr x + (word_of_nat j * src_ld x + word_of_nat i) * sizeof_type x + word_of_nat b,
       dst_addr x + (word_of_nat j * dst_ld x + word_of_nat i) * sizeof_type x + word_of_nat b) |j i b.
      j < unat (cn x) \<and> i < unat (cm x) \<and> b < unat (sizeof_type x)}"

text \<open>Source device, destination device and byte moves; \<open>None\<close> for other commands.\<close>

definition transfer :: "command \<Rightarrow> (device_id \<times> device_id \<times> (uintptr \<times> uintptr) set) option" where
  "transfer c =
     (case cbody c of
        Body_copy_1D x \<Rightarrow> Some (src_device_unique_id x, dst_device_unique_id x, bytes_1D x)
      | Body_copy_2D x \<Rightarrow> Some (src_device_unique_id2 x, dst_device_unique_id2 x, bytes_2D x)
      | _ \<Rightarrow> None)"

text \<open>The extent of a 2D copy is a byte count that \<^verbatim>\<open>size_t\<close> can hold.\<close>

definition extent_fits :: "command \<Rightarrow> bool" where
  "extent_fits c =
     (case cbody c of
        Body_copy_2D x \<Rightarrow>
          unat (cm x) * unat (sizeof_type x) < 2 ^ 64 \<and> unat (cm x) * unat (cn x) < 2 ^ 64 \<and>
          unat (cm x) * unat (cn x) * unat (sizeof_type x) < 2 ^ 64
      | _ \<Rightarrow> True)"

text \<open>Counting \<open>b\<close>-byte elements row by row, or bytes.\<close>

lemma split_index:
  assumes "(k :: nat) < m * s"
  shows "k div s < m" "k mod s < s" "k = (k div s) * s + k mod s"
proof -
  have s: "0 < s" using assms by (cases s) simp_all
  then show "k mod s < s" "k = (k div s) * s + k mod s" by simp_all
  show "k div s < m" using assms by (simp add: less_mult_imp_div_less)
qed

lemma join_index: "i < m \<Longrightarrow> b < s \<Longrightarrow> i * s + b < m * (s :: nat)"
proof -
  assume "i < m" "b < s"
  then have "i * s + b < i * s + s" by simp
  also have "\<dots> = Suc i * s" by simp
  also have "\<dots> \<le> m * s" using \<open>i < m\<close> by (intro mult_right_mono) simp_all
  finally show ?thesis .
qed

lemma unat_mult_fits: "unat a * unat b < 2 ^ 64 \<Longrightarrow> unat (a * b :: 64 word) = unat a * unat b"
  by (simp add: unat_word_ariths)

lemma bytes_2D_to_1D:
  assumes "cm x = src_ld x" "cm x = dst_ld x" "unat (cm x) * unat (cn x) * unat (sizeof_type x) < 2 ^ 64"
    "unat (cm x) * unat (cn x) < 2 ^ 64"
  shows "bytes_1D (copy_2D_to_1D x) = bytes_2D x"
proof -
  let ?m = "unat (cm x)" and ?n = "unat (cn x)" and ?s = "unat (sizeof_type x)"
  have size: "unat (csize (copy_2D_to_1D x)) = ?n * ?m * ?s"
  proof -
    have mn: "unat (cm x * cn x) = ?m * ?n" by (rule unat_mult_fits [OF assms(4)])
    have "unat (cm x * cn x * sizeof_type x) = unat (cm x * cn x) * ?s"
      by (rule unat_mult_fits) (use mn assms(3) in simp)
    then show ?thesis unfolding mn by (simp only: copy_2D_to_1D_def copy_1D.simps mult.commute)
  qed
  have w: "word_of_nat ((j * ?m + i) * ?s + b) =
      (word_of_nat j * cm x + word_of_nat i) * sizeof_type x + word_of_nat b" for j i b
    by (simp add: algebra_simps)
  show ?thesis
  proof (intro equalityI subsetI)
    fix p assume "p \<in> bytes_1D (copy_2D_to_1D x)"
    then obtain k where k: "k < ?n * ?m * ?s"
      "p = (src_addr x + word_of_nat k, dst_addr x + word_of_nat k)"
      by (auto simp: bytes_1D_def size) (simp add: copy_2D_to_1D_def)
    define q where "q = k div ?s"
    have q: "q < ?n * ?m" "k mod ?s < ?s" "k = q * ?s + k mod ?s"
      using split_index [OF k(1)] by (simp_all add: q_def)
    have "k = ((q div ?m) * ?m + q mod ?m) * ?s + k mod ?s"
      using q(3) split_index(3) [OF q(1)] by simp
    then have wk: "word_of_nat k = (word_of_nat (q div ?m) * cm x + word_of_nat (q mod ?m)) * sizeof_type x
        + word_of_nat (k mod ?s)"
      using w [of "q div ?m" "q mod ?m" "k mod ?s"] by metis
    show "p \<in> bytes_2D x"
      unfolding bytes_2D_def k(2) mem_Collect_eq assms(1,2) [symmetric]
      by (intro exI [of _ "q div ?m"] exI [of _ "q mod ?m"] exI [of _ "k mod ?s"] conjI
          split_index(1,2) [OF q(1)] q(2))
        (simp add: wk add.assoc)
  next
    fix p assume "p \<in> bytes_2D x"
    then obtain j i b where jib: "j < ?n" "i < ?m" "b < ?s"
      "p = (src_addr x + (word_of_nat j * cm x + word_of_nat i) * sizeof_type x + word_of_nat b,
            dst_addr x + (word_of_nat j * cm x + word_of_nat i) * sizeof_type x + word_of_nat b)"
      using assms(1,2) by (auto simp: bytes_2D_def)
    have "(j * ?m + i) * ?s + b < ?n * ?m * ?s"
      by (rule join_index [OF join_index [OF jib(1,2)] jib(3)])
    then show "p \<in> bytes_1D (copy_2D_to_1D x)"
      unfolding bytes_1D_def size jib(4) mem_Collect_eq
      by (intro exI [of _ "(j * ?m + i) * ?s + b"]) (simp only: w, simp add: copy_2D_to_1D_def add.assoc)
  qed
qed

lemma bytes_2D_to_bytes:
  assumes "unat (cm x) * unat (sizeof_type x) < 2 ^ 64"
  shows "bytes_2D (copy_2D_to_bytes x) = bytes_2D x"
proof -
  let ?m = "unat (cm x)" and ?s = "unat (sizeof_type x)"
  have size: "unat (cm x * sizeof_type x) = ?m * ?s" using assms by (simp add: unat_mult_fits)
  have w: "word_of_nat (i * ?s + b) = word_of_nat i * sizeof_type x + word_of_nat b" for i b
    by simp
  have eq: "bytes_2D (copy_2D_to_bytes x) =
      {(src_addr x + word_of_nat j * (src_ld x * sizeof_type x) + word_of_nat k,
        dst_addr x + word_of_nat j * (dst_ld x * sizeof_type x) + word_of_nat k) |j k.
       j < unat (cn x) \<and> k < ?m * ?s}"
    by (auto simp: bytes_2D_def copy_2D_to_bytes_def size add.assoc)
  show ?thesis
    unfolding eq
  proof (intro equalityI subsetI)
    fix p assume "p \<in> {(src_addr x + word_of_nat j * (src_ld x * sizeof_type x) + word_of_nat k,
        dst_addr x + word_of_nat j * (dst_ld x * sizeof_type x) + word_of_nat k) |j k.
       j < unat (cn x) \<and> k < ?m * ?s}"
    then obtain j k where jk: "j < unat (cn x)" "k < ?m * ?s"
      "p = (src_addr x + word_of_nat j * (src_ld x * sizeof_type x) + word_of_nat k,
        dst_addr x + word_of_nat j * (dst_ld x * sizeof_type x) + word_of_nat k)" by blast
    have "word_of_nat k = word_of_nat (k div ?s) * sizeof_type x + word_of_nat (k mod ?s)"
      using w [of "k div ?s" "k mod ?s"] split_index(3) [OF jk(2)] by metis
    then show "p \<in> bytes_2D x"
      unfolding bytes_2D_def mem_Collect_eq jk(3)
      by (intro exI [of _ j] exI [of _ "k div ?s"] exI [of _ "k mod ?s"] conjI jk(1) split_index(1,2) [OF jk(2)])
        (simp add: algebra_simps)
  next
    fix p assume "p \<in> bytes_2D x"
    then obtain j i b where jib: "j < unat (cn x)" "i < ?m" "b < ?s"
      "p = (src_addr x + (word_of_nat j * src_ld x + word_of_nat i) * sizeof_type x + word_of_nat b,
            dst_addr x + (word_of_nat j * dst_ld x + word_of_nat i) * sizeof_type x + word_of_nat b)"
      by (auto simp: bytes_2D_def)
    have "p = (src_addr x + word_of_nat j * (src_ld x * sizeof_type x) + word_of_nat (i * ?s + b),
        dst_addr x + word_of_nat j * (dst_ld x * sizeof_type x) + word_of_nat (i * ?s + b))"
      unfolding jib(4) w by (simp add: algebra_simps)
    then show "p \<in> {(src_addr x + word_of_nat j * (src_ld x * sizeof_type x) + word_of_nat k,
        dst_addr x + word_of_nat j * (dst_ld x * sizeof_type x) + word_of_nat k) |j k.
       j < unat (cn x) \<and> k < ?m * ?s}"
      using jib(1) join_index [OF jib(2,3)] by blast
  qed
qed

subsection \<open>One command\<close>

lemma copy_1D_type_of_copy: "is_copy_2D_type t \<Longrightarrow> is_copy_1D_type (copy_1D_type_of t)"
  by (cases t) simp_all

lemma normalize_command_ok:
  assumes wf: "wf_command c" and fits: "extent_fits c"
  shows "\<exists>d. normalize_command c = Inr d \<and> wf_command d \<and> extent_fits d \<and> transfer d = transfer c \<and>
    (\<not> is_copy_2D_type (ctype c) \<longrightarrow> d = c)"
proof (cases "is_copy_2D_type (ctype c)")
  case True
  then obtain x where x: "cbody c = Body_copy_2D x" using wf wf_command_copy_2D by blast
  have f: "unat (cm x) * unat (sizeof_type x) < 2 ^ 64" "unat (cm x) * unat (cn x) < 2 ^ 64"
    "unat (cm x) * unat (cn x) * unat (sizeof_type x) < 2 ^ 64"
    using fits x by (simp_all add: extent_fits_def)
  show ?thesis
  proof (cases "cm x = src_ld x \<and> cm x = dst_ld x")
    case contiguous: True
    let ?d = "\<lparr>ctype = copy_1D_type_of (ctype c), cbody = Body_copy_1D (copy_2D_to_1D x)\<rparr>"
    have "normalize_command c = Inr ?d" using True x contiguous by (auto simp: normalize_command_def)
    moreover have "transfer ?d = transfer c"
    proof -
      have "bytes_1D (copy_2D_to_1D x) = bytes_2D x" using bytes_2D_to_1D [of x] contiguous f(2,3) by blast
      moreover have "src_device_unique_id (copy_2D_to_1D x) = src_device_unique_id2 x"
        "dst_device_unique_id (copy_2D_to_1D x) = dst_device_unique_id2 x"
        by (simp_all add: copy_2D_to_1D_def)
      ultimately show ?thesis using x by (simp add: transfer_def)
    qed
    moreover have "wf_command ?d" "extent_fits ?d"
      using copy_1D_type_of_copy [OF True] by (simp_all add: wf_command_def extent_fits_def)
    ultimately show ?thesis using True by blast
  next
    case False
    let ?d = "c\<lparr>cbody := Body_copy_2D (copy_2D_to_bytes x)\<rparr>"
    have "normalize_command c = Inr ?d" using True x False by (auto simp: normalize_command_def)
    moreover have "transfer ?d = transfer c"
    proof -
      have "src_device_unique_id2 (copy_2D_to_bytes x) = src_device_unique_id2 x"
        "dst_device_unique_id2 (copy_2D_to_bytes x) = dst_device_unique_id2 x"
        by (simp_all add: copy_2D_to_bytes_def)
      then show ?thesis using x bytes_2D_to_bytes [OF f(1)] by (simp add: transfer_def)
    qed
    moreover have "wf_command ?d" using True by (simp add: wf_command_def)
    moreover have "unat (cm x * sizeof_type x) = unat (cm x) * unat (sizeof_type x)"
      by (rule unat_mult_fits [OF f(1)])
    then have "extent_fits ?d"
      using f by (simp add: extent_fits_def copy_2D_to_bytes_def ac_simps)
    ultimately show ?thesis using True by blast
  qed
next
  case False
  then show ?thesis using assms by (simp add: normalize_command_def)
qed

text \<open>Normalising twice: the second time finds nothing to do.\<close>

lemma normalize_command_idempotent:
  assumes "wf_command c" "normalize_command c = Inr d"
    and "\<And>x. cbody c = Body_copy_2D x \<Longrightarrow> sizeof_type x \<noteq> 0 \<and>
      unat (cm x) * unat (sizeof_type x) < 2 ^ 64 \<and> unat (src_ld x) * unat (sizeof_type x) < 2 ^ 64 \<and>
      unat (dst_ld x) * unat (sizeof_type x) < 2 ^ 64"
  shows "normalize_command d = Inr d"
proof (cases "is_copy_2D_type (ctype c)")
  case True
  then obtain x where x: "cbody c = Body_copy_2D x" using assms(1) wf_command_copy_2D by blast
  show ?thesis
  proof (cases "cm x = src_ld x \<and> cm x = dst_ld x")
    case contiguous: True
    have "\<not> is_copy_2D_type (copy_1D_type_of (ctype c))"
      using True by (cases "ctype c") simp_all
    then show ?thesis using assms(2) True x contiguous by (auto simp: normalize_command_def)
  next
    case False
    have d: "d = c\<lparr>cbody := Body_copy_2D (copy_2D_to_bytes x)\<rparr>"
      using assms(2) True x False by (auto simp: normalize_command_def)
    have s: "unat (sizeof_type x) \<noteq> 0" using assms(3) [OF x] by (simp add: unat_eq_0)
    have inj: "a * sizeof_type x = b * sizeof_type x \<longleftrightarrow> a = b"
      if "unat a * unat (sizeof_type x) < 2 ^ 64" "unat b * unat (sizeof_type x) < 2 ^ 64" for a b
      using unat_mult_fits [OF that(1)] unat_mult_fits [OF that(2)] s
      by (metis mult_cancel2 word_unat_eq_iff)
    have "copy_2D_to_bytes (copy_2D_to_bytes x) = copy_2D_to_bytes x"
      by (simp add: copy_2D_to_bytes_def)
    then show ?thesis
      using d True False inj assms(3) [OF x]
      by (auto simp: normalize_command_def copy_2D_to_bytes_def)
  qed
next
  case False
  then show ?thesis using assms(2) by (simp add: normalize_command_def)
qed

subsection \<open>The pass\<close>

text \<open>What the passes on commands need: every COMMAND node owns a well-formed command.\<close>

definition commands_ok :: "store \<Rightarrow> node_ref set \<Rightarrow> bool" where
  "commands_ok s V \<longleftrightarrow>
     (\<forall>u\<in>V. ntype (node_at s u) = COMMAND_GRAPH_NODE_TYPE_COMMAND \<longrightarrow>
        (\<exists>c. ncommand (node_at s u) = Some c \<and> c < length (commands s)))"

definition all_commands :: "(command \<Rightarrow> bool) \<Rightarrow> store \<Rightarrow> bool" where
  "all_commands P s \<longleftrightarrow> (\<forall>c<length (commands s). P (commands s ! c))"

text \<open>Two stores that differ in the contents of commands only.\<close>

definition same_graphs :: "store \<Rightarrow> store \<Rightarrow> bool" where
  "same_graphs s t \<longleftrightarrow> nodes t = nodes s \<and> graphs t = graphs s \<and> length (commands t) = length (commands s)"

lemma same_graphs_ok: "same_graphs s t \<Longrightarrow> graph_ok s g V k \<Longrightarrow> graph_ok t g V k"
  by (simp add: same_graphs_def graph_ok_def walk_ok_def wf_graph_def wf_adj_def edges_def node_at_def
      graph_at_def node_get_entry_def node_get_exit_def)

lemma same_graphs_reduces: "same_graphs s t \<Longrightarrow> reduces s g V t V"
  by (simp add: same_graphs_def reduces_def edges_def node_at_def graph_at_def node_get_entry_def
      node_get_exit_def)

lemma copy_normalize_step_ok:
  assumes ok: "commands_ok s V" "u \<in> V" and P: "all_commands (\<lambda>c. wf_command c \<and> extent_fits c) s"
  shows "\<exists>t. copy_normalize_step u s = Inr t \<and> same_graphs s t \<and>
    all_commands (\<lambda>c. wf_command c \<and> extent_fits c) t \<and>
    (\<forall>c<length (commands s). transfer (commands t ! c) = transfer (commands s ! c) \<and>
       (\<not> is_copy_2D_type (ctype (commands s ! c)) \<longrightarrow> commands t ! c = commands s ! c))"
proof (cases "ntype (node_at s u) = COMMAND_GRAPH_NODE_TYPE_COMMAND")
  case True
  then obtain c where c: "ncommand (node_at s u) = Some c" "c < length (commands s)"
    using ok by (auto simp: commands_ok_def)
  obtain d where d: "normalize_command (commands s ! c) = Inr d" "wf_command d" "extent_fits d"
    "transfer d = transfer (commands s ! c)"
    "\<not> is_copy_2D_type (ctype (commands s ! c)) \<longrightarrow> d = commands s ! c"
    using normalize_command_ok [of "commands s ! c"] P c(2) by (auto simp: all_commands_def)
  have "copy_normalize_step u s = Inr (upd_command c (\<lambda>_. d) s)"
    using True c(1) d(1) by (simp add: copy_normalize_step_def)
  moreover have "same_graphs s (upd_command c (\<lambda>_. d) s)" by (simp add: same_graphs_def)
  moreover have "all_commands (\<lambda>c. wf_command c \<and> extent_fits c) (upd_command c (\<lambda>_. d) s)"
    using P c(2) d(2,3) by (simp add: all_commands_def)
  ultimately show ?thesis using c(2) d(4,5) by auto
next
  case False
  then show ?thesis using P by (auto simp: copy_normalize_step_def same_graphs_def)
qed

lemma copy_normalize_loop:
  assumes "commands_ok s V" "set vec \<subseteq> V" "all_commands (\<lambda>c. wf_command c \<and> extent_fits c) s"
  shows "\<exists>t. for_each copy_normalize_step vec s = Inr t \<and> same_graphs s t \<and>
    all_commands (\<lambda>c. wf_command c \<and> extent_fits c) t \<and>
    (\<forall>c<length (commands s). transfer (commands t ! c) = transfer (commands s ! c) \<and>
       (\<not> is_copy_2D_type (ctype (commands s ! c)) \<longrightarrow> commands t ! c = commands s ! c))"
  using assms
proof (induction vec arbitrary: s)
  case Nil
  then show ?case by (simp add: same_graphs_def)
next
  case (Cons u vec)
  obtain t where t: "copy_normalize_step u s = Inr t" "same_graphs s t"
    "all_commands (\<lambda>c. wf_command c \<and> extent_fits c) t"
    "\<forall>c<length (commands s). transfer (commands t ! c) = transfer (commands s ! c) \<and>
       (\<not> is_copy_2D_type (ctype (commands s ! c)) \<longrightarrow> commands t ! c = commands s ! c)"
    using copy_normalize_step_ok [OF Cons.prems(1) _ Cons.prems(3), of u] Cons.prems(2) by auto
  have ok: "commands_ok t V" "length (commands t) = length (commands s)"
    using Cons.prems(1) t(2) by (simp_all add: commands_ok_def same_graphs_def node_at_def)
  have sub: "set vec \<subseteq> V" using Cons.prems(2) by simp
  obtain r where r: "for_each copy_normalize_step vec t = Inr r" "same_graphs t r"
    "all_commands (\<lambda>c. wf_command c \<and> extent_fits c) r"
    "\<forall>c<length (commands t). transfer (commands r ! c) = transfer (commands t ! c) \<and>
       (\<not> is_copy_2D_type (ctype (commands t ! c)) \<longrightarrow> commands r ! c = commands t ! c)"
    using Cons.IH [OF ok(1) sub t(3)] by blast
  have "same_graphs s r" using t(2) r(2) by (simp add: same_graphs_def)
  moreover have "transfer (commands r ! c) = transfer (commands s ! c) \<and>
       (\<not> is_copy_2D_type (ctype (commands s ! c)) \<longrightarrow> commands r ! c = commands s ! c)"
    if "c < length (commands s)" for c
    using t(4) r(4) ok(2) that by simp
  moreover have "for_each copy_normalize_step (u # vec) s = Inr r" using t(1) r(1) by simp
  ultimately show ?case using r(3) by blast
qed

text \<open>The requirement of the copy passes on a store and the nodes of a graph.\<close>

definition copies_ok :: "store \<Rightarrow> node_ref set \<Rightarrow> bool" where
  "copies_ok s V \<longleftrightarrow> commands_ok s V \<and> all_commands (\<lambda>c. wf_command c \<and> extent_fits c) s"

lemma commands_ok_same_structure:
  assumes "same_structure s t" "commands_ok s V" "\<And>u. u \<in> V \<Longrightarrow> u < length (nodes s)"
  shows "commands_ok t V"
  using assms by (simp add: commands_ok_def same_structure_def)

lemma pass_copy_normalize_ok:
  assumes ok: "graph_ok s g V (Suc k)" and cmds: "copies_ok s V"
  shows "\<exists>t. pass_copy_normalize g s = Inr t \<and> graph_ok t g V k \<and> reduces s g V t V \<and> copies_ok t V \<and>
    edges t V = edges s V \<and> length (commands t) = length (commands s) \<and>
    (\<forall>u\<in>V. ntype (node_at t u) = ntype (node_at s u)) \<and>
    (\<forall>c<length (commands s). transfer (commands t ! c) = transfer (commands s ! c) \<and>
       (\<not> is_copy_2D_type (ctype (commands s ! c)) \<longrightarrow> commands t ! c = commands s ! c))"
proof -
  obtain s1 vec where it: "create_node_iterators False COMMAND_GRAPH_WALK_SEARCH_DFS
      COMMAND_GRAPH_WALK_ORDER_PRE g s = (s1, vec)" by force
  note c = graph_ok_iterators [OF ok it]
  have wf: "wf_graph s g V" using ok by (simp add: graph_ok_def)
  have vec: "set vec \<subseteq> V" using c(5) by (auto simp: iterated_def)
  have cm: "commands s1 = commands s" using c(2) by (simp add: same_structure_def)
  have "commands_ok s1 V"
    by (rule commands_ok_same_structure [OF c(2)])
      (use cmds wf_adjD(1) [OF wf_graph_adj [OF wf]] in \<open>simp_all add: copies_ok_def\<close>)
  moreover have "all_commands (\<lambda>c. wf_command c \<and> extent_fits c) s1"
    using cmds cm by (simp add: copies_ok_def all_commands_def)
  ultimately obtain t where t: "for_each copy_normalize_step vec s1 = Inr t" "same_graphs s1 t"
    "all_commands (\<lambda>c. wf_command c \<and> extent_fits c) t"
    "\<forall>c<length (commands s1). transfer (commands t ! c) = transfer (commands s1 ! c) \<and>
       (\<not> is_copy_2D_type (ctype (commands s1 ! c)) \<longrightarrow> commands t ! c = commands s1 ! c)"
    using copy_normalize_loop vec by blast
  have "commands_ok t V"
    using \<open>commands_ok s1 V\<close> t(2) by (simp add: commands_ok_def same_graphs_def node_at_def)
  moreover have "pass_copy_normalize g s = Inr t" using t(1) it by (simp add: pass_copy_normalize_def)
  moreover have "graph_ok t g V k" by (rule same_graphs_ok [OF t(2) c(1)])
  moreover have "reduces s g V t V" by (rule reduces_trans [OF c(3) same_graphs_reduces [OF t(2)]])
  moreover have "edges t V = edges s V"
    using same_structure_edges [OF c(2) wf_graph_adj [OF wf]] t(2)
    by (simp add: same_graphs_def edges_def node_at_def)
  moreover have "length (commands t) = length (commands s)" using t(2) cm by (simp add: same_graphs_def)
  moreover have "\<forall>u\<in>V. ntype (node_at t u) = ntype (node_at s u)"
    using t(2) c(2) wf_adjD(1) [OF wf_graph_adj [OF wf]]
    by (simp add: same_graphs_def node_at_def same_structure_def)
  ultimately show ?thesis using t(3,4) cm by (auto simp: copies_ok_def)
qed

interpretation copy_normalize: graph_pass pass_copy_normalize 1 copies_ok
proof
  fix s g V k assume "graph_ok s g V (1 + k)" "copies_ok s V"
  then show "\<exists>t W. pass_copy_normalize g s = Inr t \<and> graph_ok t g W k \<and> copies_ok t W \<and> reduces s g V t W"
    using pass_copy_normalize_ok [of s g V k] by auto
qed

subsection \<open>Properties\<close>

text \<open>
  Normalising a 2D copy keeps, byte for byte, what it moves: the same devices and the
  same source and destination addresses modulo \<open>2 ^ 64\<close>, whether it becomes a 1D copy or is
  rescaled, as long as its extent fits \<^verbatim>\<open>size_t\<close>; the result is again a well-formed command,
  with element size 1 when it stays 2D.
\<close>

theorem normalize_keeps_bytes:
  assumes "wf_command c" "extent_fits c"
  shows "\<exists>d. normalize_command c = Inr d \<and> transfer d = transfer c \<and> wf_command d \<and>
    (\<forall>x. cbody d = Body_copy_2D x \<longrightarrow> sizeof_type x = 1)"
proof -
  obtain d where d: "normalize_command c = Inr d" "wf_command d" "transfer d = transfer c"
    using normalize_command_ok [OF assms] by blast
  have "sizeof_type x = 1" if x: "cbody d = Body_copy_2D x" for x
  proof (cases "is_copy_2D_type (ctype c)")
    case True
    then obtain y where "cbody c = Body_copy_2D y" using assms(1) wf_command_copy_2D by blast
    then show ?thesis
      using d(1) True x by (auto simp: normalize_command_def copy_2D_to_bytes_def split: if_splits)
  next
    case False
    then have "d = c" using d(1) by (simp add: normalize_command_def)
    then show ?thesis using x assms(1) False by (simp add: wf_command_def)
  qed
  then show ?thesis using d by blast
qed

text \<open>
  C31. \<^verbatim>\<open>pass_copy_normalize\<close> over a whole graph succeeds when every COMMAND node owns a
  command, leaves every edge in place, keeps the byte moves of every command, and does not
  touch a command that is not a 2D copy.
\<close>

theorem copy_normalize_sound:
  assumes "graph_ok s g V (Suc k)" "copies_ok s V"
  shows "\<exists>t. pass_copy_normalize g s = Inr t \<and> graph_ok t g V k \<and> copies_ok t V \<and> edges t V = edges s V \<and>
    (\<forall>c<length (commands s). transfer (commands t ! c) = transfer (commands s ! c) \<and>
       (\<not> is_copy_2D_type (ctype (commands s ! c)) \<longrightarrow> commands t ! c = commands s ! c))"
  using pass_copy_normalize_ok [OF assms] by blast

text \<open>
  Normalisation is idempotent on copies whose element size is not 0 and whose extent and
  strides in bytes fit \<^verbatim>\<open>size_t\<close>: a second run of the pass changes no command.
\<close>

theorem normalize_idempotent:
  assumes "wf_command c" "normalize_command c = Inr d"
    and "\<And>x. cbody c = Body_copy_2D x \<Longrightarrow> sizeof_type x \<noteq> 0 \<and>
      unat (cm x) * unat (sizeof_type x) < 2 ^ 64 \<and> unat (src_ld x) * unat (sizeof_type x) < 2 ^ 64 \<and>
      unat (dst_ld x) * unat (sizeof_type x) < 2 ^ 64"
  shows "normalize_command d = Inr d"
  by (rule normalize_command_idempotent [OF assms])

end
