(* ===== verification/Copy_Fuse.thy ===== *)
theory Copy_Fuse
  imports Copy_Normalize
begin

text \<open>
  \<^verbatim>\<open>command_graph_t::pass_copy_fuse\<close> (\<^verbatim>\<open>src/pod/copy-fuse.cc\<close>): 1D copies on false twins
  that share devices and the source-to-destination offset are merged when their source
  segments overlap or touch. A 1D copy facing a 2D one, or two matching 2D copies, end in
  \<^verbatim>\<open>abort()\<close>.
\<close>

subsection \<open>The code\<close>

definition fuse_hints :: contraction_hints where
  "fuse_hints = \<lparr>hint_inplace = True, hint_false_twins = True, hint_u_v_sequence = False, hint_v_u_sequence = False\<rparr>"

text \<open>The merged segment: the hull of the two source segments, at the offset of \<open>u\<close>.\<close>

definition fused_copy_1D :: "copy_1D \<Rightarrow> copy_1D \<Rightarrow> copy_1D" where
  "fused_copy_1D a b =
     (let u_src_bgn = src_device_addr a; v_src_bgn = src_device_addr b;
          u_src_end = src_device_addr a + csize a; v_src_end = src_device_addr b + csize b;
          src_bgn = min u_src_bgn v_src_bgn; src_end = max u_src_end v_src_end;
          src_dst_bias = src_device_addr a - dst_device_addr a
      in a\<lparr>src_device_addr := src_bgn, dst_device_addr := src_bgn - src_dst_bias, csize := src_end - src_bgn\<rparr>)"

definition fusable_1D :: "copy_1D \<Rightarrow> copy_1D \<Rightarrow> bool" where
  "fusable_1D a b \<longleftrightarrow>
     src_device_unique_id a = src_device_unique_id b \<and> dst_device_unique_id a = dst_device_unique_id b \<and>
     src_device_addr a - dst_device_addr a = src_device_addr b - dst_device_addr b \<and>
     src_device_addr a \<le> src_device_addr b + csize b \<and> src_device_addr b \<le> src_device_addr a + csize a"

definition same_shape_2D :: "copy_2D \<Rightarrow> copy_2D \<Rightarrow> bool" where
  "same_shape_2D a b \<longleftrightarrow>
     (src_device_unique_id2 a = src_device_unique_id2 b \<and> dst_device_unique_id2 a = dst_device_unique_id2 b) \<and>
     (sizeof_type a * cm a = sizeof_type b * cm b \<and> sizeof_type a * src_ld a = sizeof_type b * src_ld b \<and>
      sizeof_type a * dst_ld a = sizeof_type b * dst_ld b) \<and>
     src_addr a - dst_addr a = src_addr b - dst_addr b"

text \<open>
  \<^verbatim>\<open>command_graph_pass_batch_try_fuse_copy\<close>: whether the pair was merged, and the store.
  \<open>cu\<close> and \<open>cv\<close> are the two commands; the \<^verbatim>\<open>default\<close> cases answer false.
\<close>

definition try_fuse_copy :: "node_ref \<Rightarrow> node_ref \<Rightarrow> store \<Rightarrow> (bool \<times> store) result" where
  "try_fuse_copy u v s =
     (if u = v \<or> \<not> are_false_twins s u v \<or>
         ntype (node_at s u) \<noteq> COMMAND_GRAPH_NODE_TYPE_COMMAND \<or>
         ntype (node_at s v) \<noteq> COMMAND_GRAPH_NODE_TYPE_COMMAND
      then Inr (False, s)
      else case (ncommand (node_at s u), ncommand (node_at s v)) of
        (Some c, Some d) \<Rightarrow>
          (let cu = commands s ! c; cv = commands s ! d in
           if is_copy_1D_type (ctype cu) then
             (if is_copy_1D_type (ctype cv) then
                bind_result (get_copy_1D cu) (\<lambda>a. bind_result (get_copy_1D cv) (\<lambda>b.
                  if fusable_1D a b
                  then bind_result (contract fuse_hints u v s) (\<lambda>(_, t).
                    Inr (True, upd_command c (\<lambda>x. x\<lparr>cbody := Body_copy_1D (fused_copy_1D a b)\<rparr>) t))
                  else Inr (False, s)))
              else if is_copy_2D_type (ctype cv) then Inl Aborted
              else Inr (False, s))
           else if is_copy_2D_type (ctype cu) then
             (if is_copy_1D_type (ctype cv) then Inl Aborted
              else if is_copy_2D_type (ctype cv) then
                bind_result (get_copy_2D cu) (\<lambda>a. bind_result (get_copy_2D cv) (\<lambda>b.
                  if same_shape_2D a b then Inl Aborted else Inr (False, s)))
              else Inr (False, s))
           else Inr (False, s))
      | _ \<Rightarrow> Inl Assertion_failed)"

text \<open>The two nested loops, up to the first merge.\<close>

fun copy_fuse_scan :: "node_ref \<Rightarrow> node_ref list \<Rightarrow> store \<Rightarrow> (bool \<times> store) result" where
  "copy_fuse_scan u [] s = Inr (False, s)"
| "copy_fuse_scan u (v # vs) s =
     bind_result (try_fuse_copy u v s) (\<lambda>(fused, t).
       if fused then Inr (True, t) else copy_fuse_scan u vs t)"

definition siblings :: "store \<Rightarrow> node_ref \<Rightarrow> node_ref list" where
  "siblings s u = concat (map (\<lambda>p. succs s p) (preds s u))"

subsection \<open>The retry loop ends\<close>

definition total_succs :: "store \<Rightarrow> nat" where
  "total_succs s = sum_list (map (\<lambda>n. length (successors n)) (nodes s))"

lemma sum_list_update_less:
  "k < length xs \<Longrightarrow> f y < f (xs ! k) \<Longrightarrow> sum_list (map f (xs[k := y])) < (sum_list (map f xs) :: nat)"
  by (induction xs arbitrary: k) (auto split: nat.splits)

lemma total_set_succs_less:
  "p < length (nodes s) \<Longrightarrow> length l < length (succs s p) \<Longrightarrow> total_succs (set_succs p l s) < total_succs s"
  unfolding total_succs_def set_succs_def upd_node_def node_at_def
  by (simp add: sum_list_update_less)

lemma total_set_preds [simp]: "total_succs (set_preds p l s) = total_succs s"
proof -
  have "map (\<lambda>n. length (successors n)) ((nodes s)[p := (nodes s ! p)\<lparr>predecessors := l\<rparr>]) =
      map (\<lambda>n. length (successors n)) (nodes s)"
    by (cases "p < length (nodes s)") (auto intro!: nth_equalityI simp: nth_list_update list_update_beyond)
  then show ?thesis by (simp add: total_succs_def set_preds_def upd_node_def)
qed

lemma erase_succ_less:
  "erase_succ u p s = Inr t \<Longrightarrow> p < length (nodes s) \<Longrightarrow>
     total_succs t < total_succs s \<and> length (nodes t) = length (nodes s)"
proof -
  assume a: "erase_succ u p s = Inr t" "p < length (nodes s)"
  have u: "u \<in> set (succs s p)" and t: "t = set_succs p (remove1 u (succs s p)) s"
    using a(1) by (auto simp: erase_succ_def erase_find_def split: if_splits)
  have "length (remove1 u (succs s p)) < length (succs s p)"
    using u length_pos_if_in_set [OF u] by (simp add: length_remove1)
  then show ?thesis using t a(2) total_set_succs_less by (simp add: set_succs_def)
qed

lemma erase_pred_total: "erase_pred u p s = Inr t \<Longrightarrow> total_succs t = total_succs s"
  by (auto simp: erase_pred_def erase_find_def split: if_splits)

lemma erase_loop_less:
  assumes "for_each (\<lambda>p s. assert_that (A p) (assert_that (B p s) (erase_succ v p s))) ps s = Inr t"
    and "\<forall>p\<in>set ps. p < length (nodes s)"
  shows "total_succs t \<le> total_succs s \<and> (ps \<noteq> [] \<longrightarrow> total_succs t < total_succs s)"
  using assms
proof (induction ps arbitrary: s)
  case (Cons p ps)
  obtain s1 where s1: "erase_succ v p s = Inr s1"
    "for_each (\<lambda>p s. assert_that (A p) (assert_that (B p s) (erase_succ v p s))) ps s1 = Inr t"
    using Cons.prems(1) by (auto simp: bind_result_eq_Inr assert_that_eq_Inr)
  have "total_succs s1 < total_succs s" "length (nodes s1) = length (nodes s)"
    using erase_succ_less [OF s1(1)] Cons.prems(2) by auto
  then show ?case using Cons.IH [OF s1(2)] Cons.prems(2) by auto
qed simp

lemma erase_pred_loop_total:
  "for_each (\<lambda>p s. assert_that (A p) (assert_that (B p s) (erase_pred v p s))) ps s = Inr t \<Longrightarrow>
     total_succs t = total_succs s"
proof (induction ps arbitrary: s)
  case (Cons p ps)
  then obtain s1 where "erase_pred v p s = Inr s1"
    "for_each (\<lambda>p s. assert_that (A p) (assert_that (B p s) (erase_pred v p s))) ps s1 = Inr t"
    by (auto simp: bind_result_eq_Inr assert_that_eq_Inr)
  then show ?case using Cons.IH erase_pred_total by simp
qed simp

lemma contract_twins_less:
  assumes "contract fuse_hints u v s = Inr (w, t)" "\<forall>p\<in>set (preds s u). p < length (nodes s)" "preds s u \<noteq> []"
  shows "total_succs t < total_succs s"
proof -
  have "contract_twins_inplace u v s = Inr (w, t)"
    using assms(1) by (auto simp: contract_def fuse_hints_def assert_that_eq_Inr)
  then obtain s1 where "foreach_predecessor u
        (\<lambda>p s. assert_that (count_list (succs s p) v = 1) (erase_succ v p s)) s = Inr s1"
    "foreach_successor u (\<lambda>x s. assert_that (count_list (preds s x) v = 1) (erase_pred v x s)) s1 = Inr t"
    by (auto simp: contract_twins_inplace_def bind_result_eq_Inr)
  then show ?thesis
    using erase_loop_less [of "\<lambda>p. p \<noteq> u" "\<lambda>p s. count_list (succs s p) v = 1" v "preds s u" s s1]
      erase_pred_loop_total [of "\<lambda>p. p \<noteq> u" "\<lambda>p s. count_list (preds s p) v = 1" v _ s1 t] assms(2,3)
    by (simp add: foreach_predecessor_def foreach_successor_def)
qed

lemma try_fuse_cases:
  assumes "try_fuse_copy u v s = Inr (b, t)"
  obtains "\<not> b" "t = s" | c d x y t1 where "b" "u \<noteq> v" "are_false_twins s u v"
    "ntype (node_at s u) = COMMAND_GRAPH_NODE_TYPE_COMMAND"
    "ntype (node_at s v) = COMMAND_GRAPH_NODE_TYPE_COMMAND"
    "ncommand (node_at s u) = Some c" "ncommand (node_at s v) = Some d"
    "is_copy_1D_type (ctype (commands s ! c))" "is_copy_1D_type (ctype (commands s ! d))"
    "cbody (commands s ! c) = Body_copy_1D x" "cbody (commands s ! d) = Body_copy_1D y" "fusable_1D x y"
    "contract fuse_hints u v s = Inr (u, t1)"
    "t = upd_command c (\<lambda>z. z\<lparr>cbody := Body_copy_1D (fused_copy_1D x y)\<rparr>) t1"
proof -
  have res: "w = u" if "contract fuse_hints u v s = Inr (w, t')" for w t'
    using that by (auto simp: contract_def fuse_hints_def assert_that_eq_Inr contract_twins_inplace_def bind_result_eq_Inr)
  show thesis
    using assms that res unfolding try_fuse_copy_def
    by (auto simp: bind_result_eq_Inr Let_def split: if_splits option.splits command_body.splits)
qed

lemma copy_fuse_scan_True:
  "copy_fuse_scan u vs s = Inr (True, t) \<Longrightarrow> \<exists>v\<in>set vs. try_fuse_copy u v s = Inr (True, t)"
proof (induction vs arbitrary: s)
  case (Cons v vs)
  then obtain b t1 where b: "try_fuse_copy u v s = Inr (b, t1)"
    "(if b then Inr (True, t1) else copy_fuse_scan u vs t1) = Inr (True, t)"
    by (auto simp: bind_result_eq_Inr)
  show ?case
  proof (cases b)
    case True
    then show ?thesis using b by auto
  next
    case False
    then have "t1 = s" using try_fuse_cases [OF b(1)] by blast
    then show ?thesis using b Cons.IH False by auto
  qed
qed simp

text \<open>
  \<^verbatim>\<open>goto retry_node\<close>: rescan after every merge. Following a pointer outside the store is
  undefined. Every merge erases a successor, so the loop ends.
\<close>

function copy_fuse_retry :: "node_ref \<Rightarrow> store \<Rightarrow> store result" where
  "copy_fuse_retry u s =
     (if \<exists>p\<in>set (preds s u). length (nodes s) \<le> p then Inl Undefined_behaviour
      else bind_result (copy_fuse_scan u (siblings s u) s) (\<lambda>r.
             if fst r then copy_fuse_retry u (snd r) else Inr (snd r)))"
  by pat_completeness auto
termination
proof (relation "measure (\<lambda>(u, s). total_succs s)")
  fix u s and r :: "bool \<times> store"
  assume range: "\<not> (\<exists>p\<in>set (preds s u). length (nodes s) \<le> p)"
    and scan: "copy_fuse_scan u (siblings s u) s = Inr r" and "fst r"
  then obtain t where r: "r = (True, t)" by (cases r) auto
  obtain v where v: "v \<in> set (siblings s u)" "try_fuse_copy u v s = Inr (True, t)"
    using copy_fuse_scan_True scan r by blast
  then have ne: "preds s u \<noteq> []" by (auto simp: siblings_def)
  have in_range: "\<forall>p\<in>set (preds s u). p < length (nodes s)" using range not_le by blast
  obtain t1 c f where "contract fuse_hints u v s = Inr (u, t1)" "t = upd_command c f t1"
    using try_fuse_cases [OF v(2)] by metis
  then have "total_succs t < total_succs s"
    using contract_twins_less in_range ne by (fastforce simp: total_succs_def)
  then show "((u, snd r), u, s) \<in> measure (\<lambda>(u, s). total_succs s)" using r by simp
qed simp

text \<open>
  The outer loop tests \<^verbatim>\<open>node.data.contracted\<close>, which its constructor sets to false and
  nothing in the file sets to true: no iteration is skipped.
\<close>

definition pass_copy_fuse :: "graph_ref \<Rightarrow> store \<Rightarrow> store result" where
  "pass_copy_fuse g s =
     (let (s1, vec) = create_node_iterators False COMMAND_GRAPH_WALK_SEARCH_DFS
                        COMMAND_GRAPH_WALK_ORDER_PRE g s
      in for_each copy_fuse_retry vec s1)"

declare copy_fuse_retry.simps [simp del]

subsection \<open>The bytes of a merged copy\<close>

text \<open>A segment that does not run past the end of the address space.\<close>

definition segment_fits :: "copy_1D \<Rightarrow> bool" where
  "segment_fits x \<longleftrightarrow> unat (src_device_addr x) + unat (csize x) < 2 ^ 64"

lemma segment_end: "segment_fits x \<Longrightarrow> unat (src_device_addr x + csize x) = unat (src_device_addr x) + unat (csize x)"
  by (simp add: segment_fits_def unat_word_ariths)

text \<open>A copy as the set of its source addresses and the offset to the destination.\<close>

lemma bytes_1D_segment:
  assumes "segment_fits x"
  shows "bytes_1D x = (\<lambda>a. (word_of_nat a :: uintptr, word_of_nat a - (src_device_addr x - dst_device_addr x))) `
    {unat (src_device_addr x)..<unat (src_device_addr x) + unat (csize x)}"
proof (intro equalityI subsetI)
  fix p assume "p \<in> bytes_1D x"
  then obtain k where "k < unat (csize x)"
    "p = (src_device_addr x + word_of_nat k, dst_device_addr x + word_of_nat k)" by (auto simp: bytes_1D_def)
  then show "p \<in> (\<lambda>a. (word_of_nat a :: uintptr, word_of_nat a - (src_device_addr x - dst_device_addr x))) `
      {unat (src_device_addr x)..<unat (src_device_addr x) + unat (csize x)}"
    by (intro image_eqI [of _ _ "unat (src_device_addr x) + k"]) auto
next
  fix p assume "p \<in> (\<lambda>a. (word_of_nat a :: uintptr, word_of_nat a - (src_device_addr x - dst_device_addr x))) `
      {unat (src_device_addr x)..<unat (src_device_addr x) + unat (csize x)}"
  then obtain a where a: "unat (src_device_addr x) \<le> a" "a < unat (src_device_addr x) + unat (csize x)"
    "p = (word_of_nat a, word_of_nat a - (src_device_addr x - dst_device_addr x))" by auto
  define k where "k = a - unat (src_device_addr x)"
  then have "k < unat (csize x)" "a = unat (src_device_addr x) + k" using a by simp_all
  then show "p \<in> bytes_1D x" using a(3) by (auto simp: bytes_1D_def)
qed

lemma unat_min_word: "unat (min a b) = min (unat a) (unat (b :: 64 word))"
  and unat_max_word: "unat (max a b) = max (unat a) (unat (b :: 64 word))"
  by (simp_all add: min_def max_def word_le_nat_alt)

lemma fused_copy_bytes:
  assumes "fusable_1D a b" "segment_fits a" "segment_fits b"
  shows "bytes_1D (fused_copy_1D a b) = bytes_1D a \<union> bytes_1D b" "segment_fits (fused_copy_1D a b)"
proof -
  let ?f = "fused_copy_1D a b"
  let ?b1 = "min (unat (src_device_addr a)) (unat (src_device_addr b))"
  let ?e1 = "max (unat (src_device_addr a) + unat (csize a)) (unat (src_device_addr b) + unat (csize b))"
  have bgn: "unat (src_device_addr ?f) = ?b1"
    by (simp add: fused_copy_1D_def Let_def unat_min_word)
  have e: "unat (max (src_device_addr a + csize a) (src_device_addr b + csize b)) = ?e1"
    using segment_end assms(2,3) by (simp add: unat_max_word)
  have "min (src_device_addr a) (src_device_addr b) \<le> max (src_device_addr a + csize a) (src_device_addr b + csize b)"
    by (simp add: word_le_nat_alt unat_min_word unat_max_word segment_end assms(2,3))
  then have size: "unat (csize ?f) = ?e1 - ?b1"
    using e by (simp add: fused_copy_1D_def Let_def unat_sub unat_min_word)
  have le: "?b1 \<le> ?e1" "?e1 < 2 ^ 64" using assms(2,3) by (simp_all add: segment_fits_def min_def max_def)
  then show fits: "segment_fits ?f" by (simp add: segment_fits_def bgn size)
  have bias: "src_device_addr ?f - dst_device_addr ?f = src_device_addr a - dst_device_addr a"
    by (simp add: fused_copy_1D_def Let_def)
  have touch: "unat (src_device_addr a) \<le> unat (src_device_addr b) + unat (csize b)"
    "unat (src_device_addr b) \<le> unat (src_device_addr a) + unat (csize a)"
    using assms segment_end by (simp_all add: fusable_1D_def word_le_nat_alt)
  have "{?b1..<?b1 + (?e1 - ?b1)} =
      {unat (src_device_addr a)..<unat (src_device_addr a) + unat (csize a)} \<union>
      {unat (src_device_addr b)..<unat (src_device_addr b) + unat (csize b)}"
    using touch by (auto simp: min_def max_def)
  then show "bytes_1D ?f = bytes_1D a \<union> bytes_1D b"
    using assms(1) unfolding bytes_1D_segment [OF fits] bytes_1D_segment [OF assms(2)]
      bytes_1D_segment [OF assms(3)] bgn size bias
    by (simp add: fusable_1D_def image_Un)
qed

subsection \<open>Properties\<close>

text \<open>
  C32. A merge of two 1D copies on false twins of a well-formed graph: the store still holds a
  well-formed graph, without \<open>v\<close>, with the reachability of the rest; and the command of \<open>u\<close> now
  moves exactly the bytes that the two commands moved, between the same devices.
\<close>

theorem try_fuse_copy_sound:
  assumes "wf_graph s g V" "u \<in> V" "v \<in> V" "try_fuse_copy u v s = Inr (True, t)"
    and "ncommand (node_at s u) = Some c" "ncommand (node_at s v) = Some d" "c < length (commands s)"
    and "cbody (commands s ! c) = Body_copy_1D x" "cbody (commands s ! d) = Body_copy_1D y"
    and "segment_fits x" "segment_fits y"
  shows "wf_graph t g (V - {v}) \<and> reduces s g V t (V - {v}) \<and>
    (\<exists>z. cbody (commands t ! c) = Body_copy_1D z \<and> bytes_1D z = bytes_1D x \<union> bytes_1D y \<and>
       src_device_unique_id z = src_device_unique_id x \<and> src_device_unique_id z = src_device_unique_id y \<and>
       dst_device_unique_id z = dst_device_unique_id x \<and> dst_device_unique_id z = dst_device_unique_id y)"
proof -
  obtain t1 where f: "u \<noteq> v" "are_false_twins s u v" "fusable_1D x y"
    "contract fuse_hints u v s = Inr (u, t1)"
    "t = upd_command c (\<lambda>z. z\<lparr>cbody := Body_copy_1D (fused_copy_1D x y)\<rparr>) t1"
  proof (cases rule: try_fuse_cases [OF assms(4)])
    case 1
    then show ?thesis by simp
  next
    case (2 c' d' x' y' t1)
    have "c' = c" "d' = d" "x' = x" "y' = y" using 2 assms(5,6,8,9) by simp_all
    then show ?thesis using that 2 by simp
  qed
  note adj = wf_graph_adj [OF assms(1)]
  have h: "inplace_hint_holds fuse_hints s u v" using f(2) by (simp add: inplace_hint_holds_def fuse_hints_def)
  have v: "v \<noteq> node_get_entry s g" "v \<noteq> node_get_exit s g"
    using wf_graph_edges_iff [OF assms(1,2)] wf_graph_edges_iff [OF assms(1,3)]
      twins_edges [OF adj assms(2,3) f(2)] f(1) by blast+
  obtain t2 where t2: "contract fuse_hints u v s = Inr (u, t2)" "adj_frame s t2" "wf_graph t2 g (V - {v})"
    "\<forall>a\<in>V - {v}. \<forall>b\<in>V - {v}. (a, b) \<in> (edges t2 (V - {v}))\<^sup>* \<longleftrightarrow> (a, b) \<in> (edges s V)\<^sup>*"
    using contract_inplace_reach [OF assms(1-3) f(1) v h] by blast
  have "t2 = t1" using t2(1) f(4) by simp
  have sg: "same_graphs t1 t" unfolding f(5) by (simp add: same_graphs_def)
  have "reduces s g V t1 (V - {v})"
    using t2(4) adj_frameD(5,6) [OF t2(2)] \<open>t2 = t1\<close> by (auto simp: reduces_def)
  then have red: "reduces s g V t (V - {v})" using same_graphs_reduces [OF sg] by (rule reduces_trans)
  have wf: "wf_graph t g (V - {v})"
    by (rule wf_graph_cong [OF _ _ _ _ _ t2(3)])
      (use sg \<open>t2 = t1\<close> in \<open>simp_all add: same_graphs_def node_at_def graph_at_def\<close>)
  have c: "commands t1 = commands s" using adj_frameD(2) [OF t2(2)] \<open>t2 = t1\<close> by simp
  have "cbody (commands t ! c) = Body_copy_1D (fused_copy_1D x y)"
    unfolding f(5) using c assms(7) by simp
  moreover have "src_device_unique_id (fused_copy_1D x y) = src_device_unique_id x"
    "dst_device_unique_id (fused_copy_1D x y) = dst_device_unique_id x"
    by (simp_all add: fused_copy_1D_def Let_def)
  ultimately show ?thesis
    using wf red fused_copy_bytes(1) [OF f(3) assms(10,11)] f(3) by (simp add: fusable_1D_def)
qed

text \<open>The graph of the next property: two 1D copies side by side between entry and exit.\<close>

definition twin_node :: "cmd_ref \<Rightarrow> node" where
  "twin_node c = \<lparr>device_unique_id = 0, predecessors = [0], successors = [3], iterator_index = 0,
     walk_id = 0, ntype = COMMAND_GRAPH_NODE_TYPE_COMMAND, ncommand = Some c\<rparr>"

definition twin_copy :: "uintptr \<Rightarrow> command" where
  "twin_copy a = \<lparr>ctype = COMMAND_TYPE_COPY_H2D_1D,
     cbody = Body_copy_1D \<lparr>src_device_unique_id = 0, dst_device_unique_id = 1,
       src_device_addr = a, dst_device_addr = a, csize = 16\<rparr>\<rparr>"

definition twin_store :: store where
  "twin_store =
     \<lparr>nodes =
        [(new_node 0 COMMAND_GRAPH_NODE_TYPE_EMPTY)\<lparr>successors := [1, 2]\<rparr>, twin_node 0, twin_node 1,
         (new_node 0 COMMAND_GRAPH_NODE_TYPE_EMPTY)\<lparr>predecessors := [1, 2]\<rparr>],
      commands = [twin_copy 4096, twin_copy 4112],
      graphs = [\<lparr>entry = 0, exit = 3, graph_walk_id = 0, is_sequence = False\<rparr>]\<rparr>"


end
