(* ===== verification/Prog_Fuse.thy ===== *)
theory Prog_Fuse
  imports Copy_Normalize
begin

text \<open>
  \<^verbatim>\<open>command_graph_t::pass_prog_fuse\<close> (\<^verbatim>\<open>src/pod/prog-fuse.cc\<close>) and
  \<^verbatim>\<open>command_graph_t::pass_jit\<close> (\<^verbatim>\<open>src/pod/jit.cc\<close>). The LLVM-IR core that merges program
  sources (\<^verbatim>\<open>command_graph_prog_fuse_llvmir\<close>) and the one that compiles a program
  (\<^verbatim>\<open>command_graph_jit_llvmir\<close>) work through LLVM and are the parameters \<open>fuse\<close> and \<open>jit\<close>.
\<close>

definition node_is_llvmir_prog :: "store \<Rightarrow> node_ref \<Rightarrow> bool" where
  "node_is_llvmir_prog s u \<longleftrightarrow>
     ntype (node_at s u) = COMMAND_GRAPH_NODE_TYPE_COMMAND \<and>
     (case ncommand (node_at s u) of
        None \<Rightarrow> False
      | Some c \<Rightarrow> ctype (commands s ! c) = COMMAND_TYPE_PROG \<and>
          (case get_prog (commands s ! c) of
             Inl _ \<Rightarrow> False
           | Inr p \<Rightarrow> source_type (source p) = CGIR_COMMAND_PROG_SOURCE_TYPE_LLVMIR \<and>
               raw (llvmir (source p)) \<noteq> 0))"

definition node_prog :: "store \<Rightarrow> node_ref \<Rightarrow> prog result" where
  "node_prog s u = bind_result (get_command s u) get_prog"

definition set_prog :: "node_ref \<Rightarrow> prog \<Rightarrow> store \<Rightarrow> store" where
  "set_prog u p s =
     (case ncommand (node_at s u) of
        None \<Rightarrow> s
      | Some c \<Rightarrow> upd_command c (\<lambda>x. x\<lparr>cbody := Body_prog p\<rparr>) s)"

text \<open>The \<^verbatim>\<open>while\<close> loop that collects the chain after its head \<open>u\<close>; \<open>fuel\<close> as in theory Sequence.\<close>

fun prog_chain :: "nat \<Rightarrow> store \<Rightarrow> node_ref \<Rightarrow> node_ref \<Rightarrow> node_ref list result" where
  "prog_chain 0 s u cur = Inl Diverges"
| "prog_chain (Suc fuel) s u cur =
     (if length (succs s cur) = 1 then
        (let w = hd (succs s cur) in
         if \<not> node_is_llvmir_prog s w \<or> \<not> are_sequence s cur w then Inr []
         else bind_result (node_prog s u) (\<lambda>pu. bind_result (node_prog s w) (\<lambda>pw.
                if \<not> launch_params_equal pu pw then Inr []
                else bind_result (prog_chain fuel s u w) (\<lambda>ws. Inr (w # ws)))))
      else Inr [])"

definition sequence_hints :: contraction_hints where
  "sequence_hints = \<lparr>hint_inplace = True, hint_false_twins = False, hint_u_v_sequence = True, hint_v_u_sequence = False\<rparr>"

fun collect_progs :: "store \<Rightarrow> node_ref list \<Rightarrow> prog list result" where
  "collect_progs s [] = Inr []"
| "collect_progs s (c # cs) =
     bind_result (node_prog s c) (\<lambda>p. bind_result (collect_progs s cs) (\<lambda>ps. Inr (p # ps)))"

text \<open>Absorbing the chain into its head, one node after the other.\<close>

definition absorb_chain ::
  "node_ref \<Rightarrow> node_ref list \<Rightarrow> store \<times> bool list \<Rightarrow> (store \<times> bool list) result" where
  "absorb_chain u ws sc =
     for_each
       (\<lambda>w (s, contracted).
          bind_result (contract sequence_hints u w s) (\<lambda>(_, t).
            Inr (t, contracted[iterator_index (node_at t w) := True])))
       ws sc"

definition prog_fuse_step ::
  "(prog list \<Rightarrow> prog \<Rightarrow> prog result) \<Rightarrow> node_ref list \<Rightarrow> nat \<Rightarrow> store \<times> bool list
     \<Rightarrow> (store \<times> bool list) result" where
  "prog_fuse_step fuse vec i sc =
     (let s = fst sc; contracted = snd sc; u = vec ! i in
      if contracted ! i then Inr sc
      else if \<not> node_is_llvmir_prog s u then Inr sc
      else bind_result (prog_chain (Suc (length (nodes s))) s u u) (\<lambda>ws.
        if length (u # ws) < 2 then Inr sc
        else bind_result (collect_progs s (u # ws)) (\<lambda>ps.
             bind_result (node_prog s u) (\<lambda>pu.
             bind_result (fuse ps pu) (\<lambda>p.
             absorb_chain u ws (set_prog u p s, contracted))))))"

definition pass_prog_fuse ::
  "(prog list \<Rightarrow> prog \<Rightarrow> prog result) \<Rightarrow> graph_ref \<Rightarrow> store \<Rightarrow> store result" where
  "pass_prog_fuse fuse g s =
     (let (s1, vec) = create_node_iterators False COMMAND_GRAPH_WALK_SEARCH_DFS
                        COMMAND_GRAPH_WALK_ORDER_PRE g s;
          n = length vec
      in bind_result (for_each (prog_fuse_step fuse vec) [0..<n] (s1, replicate n False))
           (\<lambda>(s2, _). Inr s2))"

subsection \<open>The jit pass\<close>

text \<open>\<^verbatim>\<open>node_has_llvmir_source\<close> is the same test as \<^verbatim>\<open>node_is_llvmir_prog\<close>, written again.\<close>

definition node_has_llvmir_source :: "store \<Rightarrow> node_ref \<Rightarrow> bool" where
  "node_has_llvmir_source s u = node_is_llvmir_prog s u"

text \<open>
  The call-back of the walk; an error of \<open>jit\<close> (an assertion or \<^verbatim>\<open>abort()\<close> inside the core)
  ends the program, so later nodes are not visited.
\<close>

definition jit_callback ::
  "(prog \<Rightarrow> prog result) \<Rightarrow> node_ref \<Rightarrow> store \<times> cg_error option \<Rightarrow> store \<times> cg_error option" where
  "jit_callback jit u se =
     (case snd se of
        Some e \<Rightarrow> se
      | None \<Rightarrow>
          if node_has_llvmir_source (fst se) u
          then case bind_result (node_prog (fst se) u) jit of
                 Inl e \<Rightarrow> (fst se, Some e)
               | Inr p \<Rightarrow> (set_prog u p (fst se), None)
          else se)"

definition pass_jit :: "(prog \<Rightarrow> prog result) \<Rightarrow> graph_ref \<Rightarrow> store \<Rightarrow> store result" where
  "pass_jit jit g s =
     (case walk_from_entry COMMAND_GRAPH_WALK_SEARCH_DFS COMMAND_GRAPH_WALK_ORDER_PRE g
             (jit_callback jit) (s, None) of
        (t, None) \<Rightarrow> Inr t
      | (t, Some e) \<Rightarrow> Inl e)"

end
