(* ===== verification/Sequence.thy ===== *)
theory Sequence
  imports Pass_Contract
begin

text \<open>
  \<^verbatim>\<open>command_graph_t::pass_sequence\<close> (\<^verbatim>\<open>src/pod/sequence.cc\<close>): maximal chains of same-device
  control nodes and TASK\_SPAWN programs become BATCH nodes whose sub-graph is the chain. The
  nodes of a chain keep their inner edges; only its boundary moves to the BATCH node.
\<close>

subsection \<open>The code\<close>

text \<open>
  \<^verbatim>\<open>NODE_IS_SEQABLE\<close>. The launch mode is read from the program member, which is the active
  one of a PROG command; an ill-formed command counts as not sequence-able here.
\<close>

definition node_is_seqable :: "store \<Rightarrow> node_ref \<Rightarrow> bool" where
  "node_is_seqable s x \<longleftrightarrow>
     ntype (node_at s x) = COMMAND_GRAPH_NODE_TYPE_EMPTY \<or>
     (ntype (node_at s x) = COMMAND_GRAPH_NODE_TYPE_COMMAND \<and>
      (case ncommand (node_at s x) of
         None \<Rightarrow> False
       | Some c \<Rightarrow> ctype (commands s ! c) = COMMAND_TYPE_PROG \<and>
           (case get_prog (commands s ! c) of
              Inl _ \<Rightarrow> False
            | Inr p \<Rightarrow> prog_launch_mode p = CGIR_COMMAND_PROG_LAUNCH_MODE_TASK_SPAWN)))"

definition is_cand :: "graph_ref \<Rightarrow> store \<Rightarrow> node_ref \<Rightarrow> bool" where
  "is_cand g s x \<longleftrightarrow> x \<noteq> node_get_entry s g \<and> x \<noteq> node_get_exit s g \<and> node_is_seqable s x"

text \<open>
  Moving one neighbour of the chain's boundary from the chain end \<open>h\<close> to the batch node \<open>B\<close>:
  the pointer is overwritten, or erased when \<open>B\<close> is already in the list.
\<close>

definition move_succ :: "node_ref \<Rightarrow> node_ref \<Rightarrow> node_ref \<Rightarrow> store \<Rightarrow> store result" where
  "move_succ h B p s =
     assert_that (h \<in> set (succs s p))
       (if B \<notin> set (succs s p) then assign_succ h B p s else erase_succ h p s)"

definition move_pred :: "node_ref \<Rightarrow> node_ref \<Rightarrow> node_ref \<Rightarrow> store \<Rightarrow> store result" where
  "move_pred t B x s =
     assert_that (t \<in> set (preds s x))
       (if B \<notin> set (preds s x) then assign_pred t B x s else erase_pred t x s)"

definition sequence_detach_boundary :: "node_ref \<Rightarrow> node_ref \<Rightarrow> node_ref \<Rightarrow> store \<Rightarrow> store result" where
  "sequence_detach_boundary B head tail s =
     bind_result (for_each (move_succ head B) (preds s head) s) (\<lambda>s1.
     let s2 = set_preds head [] (set_preds B (preds s1 head) s1)
     in bind_result (for_each (move_pred tail B) (succs s2 tail) s2) (\<lambda>s3.
        Inr (set_succs tail [] (set_succs B (succs s3 tail) s3))))"

text \<open>
  The \<^verbatim>\<open>while\<close> loop along the chain, on the flags \<^verbatim>\<open>contracted\<close>, the count of COMMAND nodes
  and the tail. On a ring of one-successor nodes the source loops for ever; \<open>fuel\<close> bounds it.
\<close>

fun sequence_walk ::
  "nat \<Rightarrow> graph_ref \<Rightarrow> store \<Rightarrow> node_ref \<Rightarrow> bool list \<times> nat \<times> node_ref
     \<Rightarrow> (bool list \<times> nat \<times> node_ref) result" where
  "sequence_walk 0 g s cur st = Inl Diverges"
| "sequence_walk (Suc fuel) g s cur st =
     (if length (succs s cur) = 1 then
        (let nxt = hd (succs s cur) in
         if \<not> is_cand g s nxt \<or>
            device_unique_id (node_at s nxt) \<noteq> device_unique_id (node_at s cur) \<or>
            length (preds s nxt) \<noteq> 1
         then Inr st
         else sequence_walk fuel g s nxt
                (case st of (contracted, ncmd, tail) \<Rightarrow>
                   (contracted[iterator_index (node_at s nxt) := True],
                    if ntype (node_at s nxt) = COMMAND_GRAPH_NODE_TYPE_COMMAND then ncmd + 1 else ncmd,
                    nxt)))
      else Inr st)"

text \<open>
  Materialisation of the chain from \<open>u\<close> to \<open>tail\<close>: a BATCH command, a node for it, the moved
  boundary, and the sub-graph around the chain.
\<close>

definition sequence_materialize :: "node_ref \<Rightarrow> node_ref \<Rightarrow> store \<Rightarrow> store result" where
  "sequence_materialize u tail s =
     (let (cmd, s1) = command_new COMMAND_TYPE_BATCH s;
          s2 = upd_command cmd (\<lambda>c. c\<lparr>cbody := Body_batch \<lparr>batch_cg = None, driver_handle = 0\<rparr>\<rparr>) s1;
          (B, s3) = command_graph_node_new (device_unique_id (node_at s2 u)) COMMAND_GRAPH_NODE_TYPE_COMMAND s2;
          s4 = upd_node B (\<lambda>n. n\<lparr>ncommand := Some cmd\<rparr>) s3
      in bind_result (sequence_detach_boundary B u tail s4) (\<lambda>s5.
         bind_result (command_graph_new (Some u) (Some tail) s5) (\<lambda>(sub, s6).
         Inr (upd_graph sub (\<lambda>gr. gr\<lparr>is_sequence := True\<rparr>)
               (upd_command cmd (\<lambda>c. c\<lparr>cbody := Body_batch \<lparr>batch_cg = Some sub, driver_handle = 0\<rparr>\<rparr>) s6)))))"

text \<open>One iteration of the outer loop, on the store and the flags; \<open>continue\<close> returns them.\<close>

definition sequence_step ::
  "graph_ref \<Rightarrow> node_ref list \<Rightarrow> nat \<Rightarrow> store \<times> bool list \<Rightarrow> (store \<times> bool list) result" where
  "sequence_step g vec i sc =
     (let s = fst sc; contracted = snd sc; u = vec ! i in
      if contracted ! i \<or> \<not> is_cand g s u \<or> length (succs s u) \<noteq> 1 then Inr sc
      else let v = hd (succs s u) in
        if \<not> is_cand g s v \<or> device_unique_id (node_at s v) \<noteq> device_unique_id (node_at s u) \<or>
           length (preds s v) \<noteq> 1
        then Inr sc
        else assert_that (hd (preds s v) = u)
          (let c1 = contracted[iterator_index (node_at s u) := True];
               n1 = (if ntype (node_at s u) = COMMAND_GRAPH_NODE_TYPE_COMMAND then 1 else 0)
           in bind_result (sequence_walk (Suc (length (nodes s))) g s u (c1, n1, u))
                (\<lambda>(c2, ncmd, tail).
                   if ncmd < 2 then Inr (s, c2)
                   else bind_result (sequence_materialize u tail s) (\<lambda>s'. Inr (s', c2)))))"

definition pass_sequence :: "graph_ref \<Rightarrow> store \<Rightarrow> store result" where
  "pass_sequence g s =
     (let (s1, vec) = create_node_iterators True COMMAND_GRAPH_WALK_SEARCH_DFS
                        COMMAND_GRAPH_WALK_ORDER_PRE g s;
          n = length vec
      in if n \<le> 2 then Inr s1
         else bind_result
                (for_each (sequence_step g vec) [0..<n] (s1, replicate n False)) (\<lambda>(s2, _).
              coherence_checks g s2))"

end
