(* ===== verification/Union_Find.thy ===== *)
theory Union_Find
  imports Prelude
begin

text \<open>
  The union-find of the batch pass (\<^verbatim>\<open>src/pod/batch.cc\<close>, lambdas \<^verbatim>\<open>find\<close> and \<^verbatim>\<open>unite\<close>): an
  array of parents, path halving in \<^verbatim>\<open>find\<close>, no ranks. The interface \<open>disjoint_sets\<close> states
  what the pass relies on.
\<close>

subsection \<open>The code\<close>

text \<open>
  \<^verbatim>\<open>while (parent[x] != x) { parent[x] = parent[parent[x]]; x = parent[x]; }\<close>. On a cycle of
  parents the loop does not end; \<open>uf_find_ends\<close> shows that \<open>length par\<close> steps are enough on the
  forests the pass builds.
\<close>

fun uf_find_loop :: "nat \<Rightarrow> nat \<Rightarrow> nat list \<Rightarrow> (nat \<times> nat list) result" where
  "uf_find_loop 0 x par = Inl Diverges"
| "uf_find_loop (Suc fuel) x par =
     (if par ! x = x then Inr (x, par)
      else let par1 = par[x := par ! (par ! x)] in uf_find_loop fuel (par1 ! x) par1)"

definition uf_find :: "nat \<Rightarrow> nat list \<Rightarrow> (nat \<times> nat list) result" where
  "uf_find x par = uf_find_loop (Suc (length par)) x par"

definition uf_unite :: "nat \<Rightarrow> nat \<Rightarrow> nat list \<Rightarrow> nat list result" where
  "uf_unite a b par =
     bind_result (uf_find a par) (\<lambda>(ra, par1).
     bind_result (uf_find b par1) (\<lambda>(rb, par2).
     Inr (if ra \<noteq> rb then par2[ra := rb] else par2)))"

subsection \<open>Forests\<close>

text \<open>
  A forest has a height that grows towards the leaves; the root of \<open>x\<close> is where the parent
  chain stops.
\<close>

definition uf_edges :: "nat list \<Rightarrow> (nat \<times> nat) set" where
  "uf_edges par = {(x, par ! x) |x. x < length par \<and> par ! x \<noteq> x}"

definition uf_wf :: "nat list \<Rightarrow> bool" where
  "uf_wf par \<longleftrightarrow> (\<forall>x<length par. par ! x < length par) \<and> acyclic (uf_edges par)"

definition uf_is_root :: "nat list \<Rightarrow> nat \<Rightarrow> bool" where
  "uf_is_root par r \<longleftrightarrow> r < length par \<and> par ! r = r"

definition uf_rep :: "nat list \<Rightarrow> nat \<Rightarrow> nat \<Rightarrow> bool" where
  "uf_rep par x r \<longleftrightarrow> (x, r) \<in> (uf_edges par)\<^sup>* \<and> uf_is_root par r"

definition uf_same :: "nat list \<Rightarrow> nat \<Rightarrow> nat \<Rightarrow> bool" where
  "uf_same par x y \<longleftrightarrow> (\<exists>r. uf_rep par x r \<and> uf_rep par y r)"

lemma uf_edges_iff: "(x, y) \<in> uf_edges par \<longleftrightarrow> x < length par \<and> y = par ! x \<and> y \<noteq> x"
  by (auto simp: uf_edges_def)

lemma uf_edges_finite: "finite (uf_edges par)"
proof -
  have "uf_edges par \<subseteq> (\<lambda>x. (x, par ! x)) ` {..<length par}" by (auto simp: uf_edges_def)
  then show ?thesis by (rule finite_subset) simp
qed

lemma uf_wf_converse: "uf_wf par \<Longrightarrow> wf ((uf_edges par)\<inverse>)"
  by (simp add: uf_wf_def finite_acyclic_wf_converse uf_edges_finite)

lemma uf_rep_exists:
  assumes "uf_wf par" "x < length par"
  shows "\<exists>r. uf_rep par x r"
  using uf_wf_converse [OF assms(1)] assms(2)
proof (induction x rule: wf_induct_rule)
  case (less x)
  show ?case
  proof (cases "par ! x = x")
    case True
    then show ?thesis using less.prems by (auto simp: uf_rep_def uf_is_root_def)
  next
    case False
    then have e: "(x, par ! x) \<in> uf_edges par" using less.prems by (simp add: uf_edges_iff)
    moreover have "par ! x < length par" using assms(1) less.prems by (simp add: uf_wf_def)
    ultimately obtain r where "uf_rep par (par ! x) r" using less.IH by auto
    then show ?thesis using e by (auto simp: uf_rep_def intro: converse_rtrancl_into_rtrancl)
  qed
qed

lemma uf_root_stays: "uf_is_root par r \<Longrightarrow> (r, y) \<in> (uf_edges par)\<^sup>* \<Longrightarrow> y = r"
  by (erule converse_rtranclE) (auto simp: uf_is_root_def uf_edges_iff)

lemma uf_rep_step:
  assumes "x < length par" "par ! x \<noteq> x"
  shows "uf_rep par x r \<longleftrightarrow> uf_rep par (par ! x) r"
proof
  assume r: "uf_rep par x r"
  then have "x \<noteq> r" using assms(2) by (auto simp: uf_rep_def uf_is_root_def)
  then show "uf_rep par (par ! x) r"
    using r by (auto simp: uf_rep_def elim!: converse_rtranclE [of x r]) (auto simp: uf_edges_iff)
next
  assume "uf_rep par (par ! x) r"
  moreover have "(x, par ! x) \<in> uf_edges par" using assms by (simp add: uf_edges_iff)
  ultimately show "uf_rep par x r" by (auto simp: uf_rep_def intro: converse_rtrancl_into_rtrancl)
qed

lemma uf_rep_root: "uf_is_root par x \<Longrightarrow> uf_rep par x r \<longleftrightarrow> r = x"
  using uf_root_stays by (auto simp: uf_rep_def)

lemma uf_rep_unique:
  assumes "uf_wf par" "x < length par" "uf_rep par x r" "uf_rep par x q"
  shows "r = q"
  using uf_wf_converse [OF assms(1)] assms(2-4)
proof (induction x rule: wf_induct_rule)
  case (less x)
  show ?case
  proof (cases "par ! x = x")
    case True
    then have "uf_is_root par x" using less.prems(1) by (simp add: uf_is_root_def)
    then have "r = x" "q = x" using less.prems(2,3) by (simp_all add: uf_rep_root)
    then show ?thesis by simp
  next
    case False
    then have e: "(par ! x, x) \<in> (uf_edges par)\<inverse>" using less.prems(1) by (simp add: uf_edges_iff)
    have "par ! x < length par" using assms(1) less.prems(1) by (simp add: uf_wf_def)
    then show ?thesis using less.IH [OF e] less.prems uf_rep_step [OF less.prems(1) False] by blast
  qed
qed

subsection \<open>Path halving\<close>

text \<open>Pointing \<open>x\<close> at its grandparent changes no root.\<close>

lemma uf_halve_edges: "uf_edges (par[x := par ! (par ! x)]) \<subseteq> (uf_edges par)\<^sup>+" if "uf_wf par" "x < length par"
proof (rule subrelI)
  fix a b assume "(a, b) \<in> uf_edges (par[x := par ! (par ! x)])"
  then have a: "a < length par" "b = par[x := par ! (par ! x)] ! a" "b \<noteq> a" by (simp_all add: uf_edges_iff)
  show "(a, b) \<in> (uf_edges par)\<^sup>+"
  proof (cases "a = x")
    case True
    then have b: "b = par ! (par ! x)" "b \<noteq> x" using a that by simp_all
    have "par ! x < length par" using that by (simp add: uf_wf_def)
    moreover have "par ! x \<noteq> x" using b by auto
    ultimately have e: "(x, par ! x) \<in> uf_edges par" and
      "par ! (par ! x) = par ! x \<or> (par ! x, par ! (par ! x)) \<in> uf_edges par"
      using that(2) by (auto simp: uf_edges_iff)
    then show ?thesis unfolding True b(1)
      by (metis r_into_trancl trancl.trancl_into_trancl)
  next
    case False
    then show ?thesis using a by (auto simp: uf_edges_iff)
  qed
qed

lemma uf_halve_wf:
  assumes "uf_wf par" "x < length par"
  shows "uf_wf (par[x := par ! (par ! x)])"
proof -
  have "acyclic (uf_edges (par[x := par ! (par ! x)]))"
    by (rule acyclic_subset [OF _ uf_halve_edges [OF assms]])
      (use assms(1) in \<open>simp add: uf_wf_def acyclic_def\<close>)
  then show ?thesis using assms by (auto simp: uf_wf_def nth_list_update)
qed

lemma uf_halve_root:
  assumes "uf_wf par" "x < length par"
  shows "uf_is_root (par[x := par ! (par ! x)]) r \<longleftrightarrow> uf_is_root par r"
proof (cases "r = x")
  case True
  have "par ! (par ! x) = x \<Longrightarrow> par ! x = x"
  proof (rule ccontr)
    assume c: "par ! (par ! x) = x" "par ! x \<noteq> x"
    have "par ! x < length par" using assms by (simp add: uf_wf_def)
    then have "(x, par ! x) \<in> uf_edges par" "(par ! x, x) \<in> uf_edges par"
      using c assms(2) by (auto simp: uf_edges_iff)
    then show False using assms(1) unfolding uf_wf_def acyclic_def by (meson trancl.simps)
  qed
  then show ?thesis using True assms(2) by (auto simp: uf_is_root_def)
next
  case False
  then show ?thesis by (simp add: uf_is_root_def)
qed

lemma uf_halve_rep:
  assumes "uf_wf par" "x < length par" "y < length par"
  shows "uf_rep (par[x := par ! (par ! x)]) y r \<longleftrightarrow> uf_rep par y r"
proof -
  let ?p = "par[x := par ! (par ! x)]"
  have imp: "uf_rep par y r" if "uf_rep ?p y r" for r
  proof -
    have "(uf_edges ?p)\<^sup>* \<subseteq> ((uf_edges par)\<^sup>+)\<^sup>*" by (rule rtrancl_mono [OF uf_halve_edges [OF assms(1,2)]])
    then show ?thesis using that uf_halve_root [OF assms(1,2)] by (auto simp: uf_rep_def)
  qed
  obtain q where q: "uf_rep ?p y q" using uf_rep_exists [OF uf_halve_wf [OF assms(1,2)]] assms(3) by auto
  show ?thesis using imp q uf_rep_unique [OF assms(1,3)] by blast
qed


subsection \<open>The loop of \<^verbatim>\<open>find\<close> ends\<close>

text \<open>Two forests with the same nodes and the same roots.\<close>

definition uf_equiv :: "nat list \<Rightarrow> nat list \<Rightarrow> bool" where
  "uf_equiv par par' \<longleftrightarrow>
     length par' = length par \<and> (\<forall>y<length par. \<forall>r. uf_rep par' y r \<longleftrightarrow> uf_rep par y r) \<and>
     (\<forall>r. uf_is_root par' r \<longleftrightarrow> uf_is_root par r)"

lemma uf_equiv_refl: "uf_equiv par par"
  by (simp add: uf_equiv_def)

lemma uf_equiv_trans: "uf_equiv p q \<Longrightarrow> uf_equiv q r \<Longrightarrow> uf_equiv p r"
  by (simp add: uf_equiv_def)

lemma uf_halve_equiv: "uf_wf par \<Longrightarrow> x < length par \<Longrightarrow> uf_equiv par (par[x := par ! (par ! x)])"
  by (simp add: uf_equiv_def uf_halve_rep uf_halve_root)

definition uf_above :: "nat list \<Rightarrow> nat \<Rightarrow> nat set" where
  "uf_above par x = {y. (x, y) \<in> (uf_edges par)\<^sup>+}"

lemma uf_above_bound:
  assumes "uf_wf par"
  shows "uf_above par x \<subseteq> {..<length par}"
proof
  fix y assume "y \<in> uf_above par x"
  then have "(x, y) \<in> (uf_edges par)\<^sup>+" by (simp add: uf_above_def)
  then obtain z where "(z, y) \<in> uf_edges par" by (blast elim: tranclE)
  then show "y \<in> {..<length par}" using assms by (auto simp: uf_edges_iff uf_wf_def)
qed

lemma uf_above_finite: "uf_wf par \<Longrightarrow> finite (uf_above par x)"
  by (rule finite_subset [OF uf_above_bound]) simp_all

lemma uf_above_halve:
  assumes "uf_wf par" "x < length par" "par ! x \<noteq> x"
  shows "card (uf_above (par[x := par ! (par ! x)]) (par ! (par ! x))) < card (uf_above par x)"
proof (rule psubset_card_mono [OF uf_above_finite [OF assms(1)]])
  let ?p = "par[x := par ! (par ! x)]" and ?g = "par ! (par ! x)"
  have e: "(x, par ! x) \<in> uf_edges par" using assms by (simp add: uf_edges_iff)
  have "par ! x < length par" using assms by (simp add: uf_wf_def)
  then have "?g = par ! x \<or> (par ! x, ?g) \<in> uf_edges par" by (auto simp: uf_edges_iff)
  with e have xg: "(x, ?g) \<in> (uf_edges par)\<^sup>+" by (metis r_into_trancl trancl.trancl_into_trancl)
  have "(uf_edges ?p)\<^sup>+ \<subseteq> ((uf_edges par)\<^sup>+)\<^sup>+"
    by (rule trancl_mono_subset [OF uf_halve_edges [OF assms(1,2)]])
  then have "uf_above ?p ?g \<subseteq> uf_above par ?g" by (auto simp: uf_above_def)
  moreover have "uf_above par ?g \<subseteq> uf_above par x" using xg by (auto simp: uf_above_def)
  moreover have "?g \<in> uf_above par x" "?g \<notin> uf_above par ?g"
    using xg assms(1) by (auto simp: uf_above_def uf_wf_def acyclic_def)
  ultimately show "uf_above ?p ?g \<subset> uf_above par x" by blast
qed

lemma uf_find_loop_ends:
  "uf_wf par \<Longrightarrow> x < length par \<Longrightarrow> card (uf_above par x) < fuel \<Longrightarrow>
     \<exists>r par'. uf_find_loop fuel x par = Inr (r, par') \<and> uf_rep par x r \<and> uf_wf par' \<and> uf_equiv par par'"
proof (induction fuel arbitrary: x par)
  case 0
  then show ?case by simp
next
  case (Suc fuel)
  show ?case
  proof (cases "par ! x = x")
    case True
    then have "uf_is_root par x" using Suc.prems by (simp add: uf_is_root_def)
    then show ?thesis using True Suc.prems uf_equiv_refl by (simp add: uf_rep_root)
  next
    case False
    let ?g = "par ! (par ! x)"
    let ?p = "par[x := ?g]"
    have px: "par ! x < length par" "?g < length par" using Suc.prems by (simp_all add: uf_wf_def)
    have w: "uf_wf ?p" by (rule uf_halve_wf [OF Suc.prems(1,2)])
    have "card (uf_above ?p ?g) < fuel" using uf_above_halve [OF Suc.prems(1,2) False] Suc.prems(3) by simp
    then obtain r par' where r: "uf_find_loop fuel ?g ?p = Inr (r, par')" "uf_rep ?p ?g r"
      "uf_wf par'" "uf_equiv ?p par'"
      using Suc.IH [OF w, of ?g] px by auto
    have q: "uf_equiv par ?p" by (rule uf_halve_equiv [OF Suc.prems(1,2)])
    have "uf_rep par ?g r" using q r(2) px by (simp add: uf_equiv_def)
    then have "uf_rep par x r"
      using uf_rep_step [OF Suc.prems(2) False] uf_rep_step [OF px(1)] by (cases "?g = par ! x") simp_all
    moreover have "uf_find_loop (Suc fuel) x par = Inr (r, par')"
      using False r(1) Suc.prems(2) by (simp add: Let_def)
    ultimately show ?thesis using r(3) uf_equiv_trans [OF q r(4)] by blast
  qed
qed

lemma uf_find_ends:
  assumes "uf_wf par" "x < length par"
  shows "\<exists>r par'. uf_find x par = Inr (r, par') \<and> uf_rep par x r \<and> uf_wf par' \<and> uf_equiv par par'"
proof -
  have "card (uf_above par x) \<le> card {..<length par}"
    by (rule card_mono [OF _ uf_above_bound [OF assms(1)]]) simp
  then show ?thesis unfolding uf_find_def by (intro uf_find_loop_ends [OF assms]) simp
qed

subsection \<open>Union\<close>

text \<open>Hanging a root under another one.\<close>

lemma uf_link:
  assumes wf: "uf_wf par" and ra: "uf_is_root par ra" and rb: "uf_is_root par rb" and ne: "ra \<noteq> rb"
  shows "uf_wf (par[ra := rb])"
    and "uf_is_root (par[ra := rb]) r \<longleftrightarrow> uf_is_root par r \<and> r \<noteq> ra"
    and "y < length par \<Longrightarrow> uf_rep par y q \<Longrightarrow> uf_rep (par[ra := rb]) y (if q = ra then rb else q)"
proof -
  let ?p = "par[ra := rb]"
  have len: "ra < length par" "rb < length par" using ra rb by (simp_all add: uf_is_root_def)
  have e: "uf_edges ?p = insert (ra, rb) (uf_edges par)"
    using ra ne len by (auto simp: uf_edges_def uf_is_root_def nth_list_update split: if_splits)
  have "(rb, ra) \<notin> (uf_edges par)\<^sup>*" using uf_root_stays [OF rb] ne by blast
  then have "acyclic (uf_edges ?p)" using wf unfolding e uf_wf_def by (simp add: acyclic_insert)
  then show "uf_wf ?p" using wf len by (auto simp: uf_wf_def nth_list_update)
  show root: "uf_is_root ?p r \<longleftrightarrow> uf_is_root par r \<and> r \<noteq> ra" for r
    using ne len by (auto simp: uf_is_root_def nth_list_update)
  have up: "(uf_edges par)\<^sup>* \<subseteq> (uf_edges ?p)\<^sup>*" unfolding e by (intro rtrancl_mono) blast
  have "(ra, rb) \<in> uf_edges ?p" unfolding e by simp
  then show "uf_rep ?p y (if q = ra then rb else q)" if "y < length par" "uf_rep par y q"
    using that up rb ne root unfolding uf_rep_def by (auto intro: rtrancl_into_rtrancl)
qed

lemma uf_unite_ends:
  assumes wf: "uf_wf par" and ab: "a < length par" "b < length par"
  shows "\<exists>par'. uf_unite a b par = Inr par' \<and> uf_wf par' \<and> length par' = length par \<and>
    (\<exists>ra rb. uf_rep par a ra \<and> uf_rep par b rb \<and>
       (\<forall>y<length par. \<forall>q. uf_rep par y q \<longrightarrow> uf_rep par' y (if q = ra then rb else q)) \<and>
       (\<forall>r. uf_is_root par' r \<longleftrightarrow> uf_is_root par r \<and> (r = ra \<longrightarrow> ra = rb)))"
proof -
  obtain ra p1 where 1: "uf_find a par = Inr (ra, p1)" "uf_rep par a ra" "uf_wf p1" "uf_equiv par p1"
    using uf_find_ends [OF wf ab(1)] by blast
  have l1: "length p1 = length par" using 1(4) by (simp add: uf_equiv_def)
  obtain rb p2 where 2: "uf_find b p1 = Inr (rb, p2)" "uf_rep p1 b rb" "uf_wf p2" "uf_equiv p1 p2"
    using uf_find_ends [OF 1(3)] ab(2) l1 by metis
  have q: "uf_equiv par p2" by (rule uf_equiv_trans [OF 1(4) 2(4)])
  have l2: "length p2 = length par" using q by (simp add: uf_equiv_def)
  have rb: "uf_rep par b rb" using 1(4) 2(2) ab(2) by (simp add: uf_equiv_def)
  have roots: "uf_is_root p2 ra" "uf_is_root p2 rb" using 1(2) rb q by (simp_all add: uf_equiv_def uf_rep_def)
  let ?p = "if ra \<noteq> rb then p2[ra := rb] else p2"
  have u: "uf_unite a b par = Inr ?p" using 1(1) 2(1) by (simp add: uf_unite_def)
  have w: "uf_wf ?p" using uf_link(1) [OF 2(3) roots] 2(3) by simp
  have len: "length ?p = length par" using l2 by simp
  have rep: "uf_rep ?p y (if x = ra then rb else x)" if "y < length par" "uf_rep par y x" for y x
  proof -
    have y: "uf_rep p2 y x" using q that by (simp add: uf_equiv_def)
    show ?thesis
    proof (cases "ra = rb")
      case True
      then show ?thesis using y by (cases "x = ra") simp_all
    next
      case False
      then show ?thesis using uf_link(3) [OF 2(3) roots False] that(1) y l2 by simp
    qed
  qed
  have root: "uf_is_root ?p r \<longleftrightarrow> uf_is_root par r \<and> (r = ra \<longrightarrow> ra = rb)" for r
  proof (cases "ra = rb")
    case True
    then show ?thesis using q by (simp add: uf_equiv_def)
  next
    case False
    have "uf_is_root p2 r \<longleftrightarrow> uf_is_root par r" using q by (simp add: uf_equiv_def)
    then show ?thesis using uf_link(2) [OF 2(3) roots False] False by auto
  qed
  have "\<forall>y<length par. \<forall>x. uf_rep par y x \<longrightarrow> uf_rep ?p y (if x = ra then rb else x)" using rep by blast
  moreover have "\<forall>r. uf_is_root ?p r \<longleftrightarrow> uf_is_root par r \<and> (r = ra \<longrightarrow> ra = rb)" using root by blast
  ultimately show ?thesis using u w len 1(2) rb by blast
qed


subsection \<open>The interface\<close>

text \<open>What the pass relies on, stated with the representative of every element.\<close>

locale disjoint_sets =
  fixes find :: "nat \<Rightarrow> 'p \<Rightarrow> (nat \<times> 'p) result" and unite :: "nat \<Rightarrow> nat \<Rightarrow> 'p \<Rightarrow> 'p result"
    and ok :: "'p \<Rightarrow> bool" and elems :: "'p \<Rightarrow> nat" and root :: "'p \<Rightarrow> nat \<Rightarrow> nat"
  assumes find_law: "ok p \<Longrightarrow> x < elems p \<Longrightarrow>
      \<exists>p'. find x p = Inr (root p x, p') \<and> ok p' \<and> elems p' = elems p \<and> (\<forall>y<elems p. root p' y = root p y)"
    and root_law: "ok p \<Longrightarrow> x < elems p \<Longrightarrow> root p x < elems p \<and> root p (root p x) = root p x"
    and unite_law: "ok p \<Longrightarrow> a < elems p \<Longrightarrow> b < elems p \<Longrightarrow>
      \<exists>p'. unite a b p = Inr p' \<and> ok p' \<and> elems p' = elems p \<and>
        (\<forall>y<elems p. root p' y = (if root p y = root p a then root p b else root p y))"
begin

definition same :: "'p \<Rightarrow> (nat \<times> nat) set" where
  "same p = {(x, y). x < elems p \<and> y < elems p \<and> root p x = root p y}"

definition classes :: "'p \<Rightarrow> nat set" where
  "classes p = root p ` {..<elems p}"

lemma same_trans: "(x, y) \<in> same p \<Longrightarrow> (y, z) \<in> same p \<Longrightarrow> (x, z) \<in> same p"
  and same_sym: "(x, y) \<in> same p \<Longrightarrow> (y, x) \<in> same p"
  by (auto simp: same_def)

lemma same_trancl: "(same p)\<^sup>+ = same p"
  by (rule trancl_id) (auto simp: trans_def intro: same_trans)

lemma classes_bound: "ok p \<Longrightarrow> classes p \<subseteq> {..<elems p}"
  using root_law by (auto simp: classes_def)

lemma unite_same:
  assumes p: "ok p" "a < elems p" "b < elems p" and u: "unite a b p = Inr p'"
  shows "ok p'" "elems p' = elems p" "same p' = (same p \<union> {(a, b), (b, a)})\<^sup>+"
proof -
  have l: "ok p'" "elems p' = elems p"
    "\<And>y. y < elems p \<Longrightarrow> root p' y = (if root p y = root p a then root p b else root p y)"
    using unite_law [OF p] u by auto
  show "ok p'" "elems p' = elems p" by (rule l)+
  let ?E = "same p \<union> {(a, b), (b, a)}"
  have "?E \<subseteq> same p'" using p l by (auto simp: same_def)
  then have "?E\<^sup>+ \<subseteq> (same p')\<^sup>+" by (rule trancl_mono_subset)
  moreover have "(x, y) \<in> ?E\<^sup>+" if xy: "(x, y) \<in> same p'" for x y
  proof -
    have r: "x < elems p" "y < elems p" "root p' x = root p' y" using xy l(2) by (simp_all add: same_def)
    consider "root p x = root p y" | "root p x = root p a" "root p y = root p b"
      | "root p x = root p b" "root p y = root p a"
      using r l(3) [OF r(1)] l(3) [OF r(2)] by (auto split: if_splits)
    then show ?thesis
    proof cases
      case 1
      then show ?thesis using r by (auto simp: same_def)
    next
      case 2
      then have "(x, a) \<in> ?E" "(a, b) \<in> ?E" "(b, y) \<in> ?E" using r p by (simp_all add: same_def)
      then show ?thesis by (meson trancl.simps)
    next
      case 3
      then have "(x, b) \<in> ?E" "(b, a) \<in> ?E" "(a, y) \<in> ?E" using r p by (simp_all add: same_def)
      then show ?thesis by (meson trancl.simps)
    qed
  qed
  ultimately show "same p' = ?E\<^sup>+" unfolding same_trancl by auto
qed

text \<open>A sequence of unions computes the equivalence closure of the pairs.\<close>

lemma unite_all:
  assumes "ok p" "\<And>a b. (a, b) \<in> set es \<Longrightarrow> a < elems p \<and> b < elems p"
  shows "\<exists>p'. for_each (\<lambda>(a, b). unite a b) es p = Inr p' \<and> ok p' \<and> elems p' = elems p \<and>
    same p' = (same p \<union> set es \<union> (set es)\<inverse>)\<^sup>+"
  using assms
proof (induction es arbitrary: p)
  case Nil
  then show ?case by (simp add: same_trancl)
next
  case (Cons e es)
  obtain a b where e: "e = (a, b)" by (cases e)
  have ab: "a < elems p" "b < elems p" using Cons.prems(2) [of a b] e by simp_all
  obtain q where q: "unite a b p = Inr q" using unite_law [OF Cons.prems(1) ab] by blast
  note uq = unite_same [OF Cons.prems(1) ab q]
  obtain p' where p': "for_each (\<lambda>(a, b). unite a b) es q = Inr p'" "ok p'" "elems p' = elems q"
    "same p' = (same q \<union> set es \<union> (set es)\<inverse>)\<^sup>+"
    using Cons.IH [OF uq(1)] Cons.prems(2) uq(2) by auto
  have "((A\<^sup>+) \<union> B)\<^sup>+ = (A \<union> B)\<^sup>+" for A B :: "(nat \<times> nat) set"
  proof
    have "A\<^sup>+ \<union> B \<subseteq> (A \<union> B)\<^sup>+" by (auto intro: trancl_mono)
    then have "(A\<^sup>+ \<union> B)\<^sup>+ \<subseteq> ((A \<union> B)\<^sup>+)\<^sup>+" by (rule trancl_mono_subset)
    then show "(A\<^sup>+ \<union> B)\<^sup>+ \<subseteq> (A \<union> B)\<^sup>+" by simp
    show "(A \<union> B)\<^sup>+ \<subseteq> (A\<^sup>+ \<union> B)\<^sup>+" by (rule trancl_mono_subset) auto
  qed
  from this [of "same p \<union> {(a, b), (b, a)}" "set es \<union> (set es)\<inverse>"]
  have "same p' = (same p \<union> {(a, b), (b, a)} \<union> (set es \<union> (set es)\<inverse>))\<^sup>+"
    using p'(4) uq(3) by (simp add: Un_assoc)
  also have "same p \<union> {(a, b), (b, a)} \<union> (set es \<union> (set es)\<inverse>) = same p \<union> set (e # es) \<union> (set (e # es))\<inverse>"
    using e by auto
  finally show ?case using q p' uq(2) e by simp
qed

text \<open>A union of two classes leaves one class less.\<close>

lemma unite_classes:
  assumes p: "ok p" "a < elems p" "b < elems p" and u: "unite a b p = Inr p'" and ne: "root p a \<noteq> root p b"
  shows "classes p' = classes p - {root p a}" "card (classes p') < card (classes p)"
proof -
  have l: "elems p' = elems p"
    "\<And>y. y < elems p \<Longrightarrow> root p' y = (if root p y = root p a then root p b else root p y)"
    using unite_law [OF p(1-3)] u by auto
  have sub: "classes p' = (\<lambda>y. if root p y = root p a then root p b else root p y) ` {..<elems p}"
    unfolding classes_def using l by (intro image_cong) auto
  show c: "classes p' = classes p - {root p a}"
  proof
    show "classes p' \<subseteq> classes p - {root p a}" unfolding sub using ne p(3) by (auto simp: classes_def)
    show "classes p - {root p a} \<subseteq> classes p'" unfolding sub by (auto simp: classes_def)
  qed
  have "finite (classes p)" by (simp add: classes_def)
  moreover have "root p a \<in> classes p" using p(2) by (simp add: classes_def)
  ultimately show "card (classes p') < card (classes p)" unfolding c by (intro psubset_card_mono) auto
qed

end

text \<open>The root that \<^verbatim>\<open>find\<close> returns.\<close>

definition uf_root :: "nat list \<Rightarrow> nat \<Rightarrow> nat" where
  "uf_root par x = (case uf_find x par of Inl _ \<Rightarrow> x | Inr r \<Rightarrow> fst r)"

lemma uf_root_rep: "uf_wf par \<Longrightarrow> x < length par \<Longrightarrow> uf_rep par x (uf_root par x)"
  using uf_find_ends by (fastforce simp: uf_root_def)

lemma uf_root_eq: "uf_wf par \<Longrightarrow> x < length par \<Longrightarrow> uf_rep par x r \<Longrightarrow> uf_root par x = r"
  using uf_rep_unique uf_root_rep by blast

interpretation union_find: disjoint_sets uf_find uf_unite uf_wf length uf_root
proof
  fix p x assume p: "uf_wf p" "x < length p"
  obtain r p' where f: "uf_find x p = Inr (r, p')" "uf_rep p x r" "uf_wf p'" "uf_equiv p p'"
    using uf_find_ends [OF p] by blast
  have len: "length p' = length p" using f(4) by (simp add: uf_equiv_def)
  have "uf_root p' y = uf_root p y" if "y < length p" for y
    using uf_root_eq [OF f(3)] uf_root_rep [OF p(1) that] that len f(4) by (simp add: uf_equiv_def)
  then show "\<exists>p'. uf_find x p = Inr (uf_root p x, p') \<and> uf_wf p' \<and> length p' = length p \<and>
      (\<forall>y<length p. uf_root p' y = uf_root p y)"
    using f(1,3) uf_root_eq [OF p f(2)] len by auto
  have r: "uf_is_root p (uf_root p x)" using uf_root_rep [OF p] by (simp add: uf_rep_def)
  then have l: "uf_root p x < length p" by (simp add: uf_is_root_def)
  have "uf_rep p (uf_root p x) (uf_root p x)" using uf_rep_root [OF r] by blast
  then have "uf_root p (uf_root p x) = uf_root p x" by (rule uf_root_eq [OF p(1) l])
  with l show "uf_root p x < length p \<and> uf_root p (uf_root p x) = uf_root p x" by blast
next
  fix p a b assume p: "uf_wf p" "a < length p" "b < length p"
  obtain p' ra rb where u: "uf_unite a b p = Inr p'" "uf_wf p'" "length p' = length p"
    "uf_rep p a ra" "uf_rep p b rb"
    and rep: "\<forall>y<length p. \<forall>q. uf_rep p y q \<longrightarrow> uf_rep p' y (if q = ra then rb else q)"
    using uf_unite_ends [OF p] by metis
  have u6: "uf_rep p' y (if q = ra then rb else q)" if "y < length p" "uf_rep p y q" for y q
    using rep that by blast
  have ab: "uf_root p a = ra" "uf_root p b = rb" using uf_root_eq [OF p(1)] p(2,3) u(4,5) by blast+
  have "uf_root p' y = (if uf_root p y = ra then rb else uf_root p y)" if y: "y < length p" for y
    using uf_root_eq [OF u(2) _ u6 [OF y uf_root_rep [OF p(1) y]]] y u(3) by simp
  then show "\<exists>p'. uf_unite a b p = Inr p' \<and> uf_wf p' \<and> length p' = length p \<and>
      (\<forall>y<length p. uf_root p' y = (if uf_root p y = uf_root p a then uf_root p b else uf_root p y))"
    using u(1-3) ab by auto
qed

text \<open>The forest the pass starts from: every node its own parent.\<close>

lemma uf_initial: "uf_wf [0..<n]" "y < n \<Longrightarrow> uf_root [0..<n] y = y"
proof -
  have e: "uf_edges [0..<n] = {}" by (auto simp: uf_edges_def)
  then show w: "uf_wf [0..<n]" by (simp add: uf_wf_def acyclic_def)
  show "uf_root [0..<n] y = y" if "y < n"
    using that by (intro uf_root_eq [OF w]) (simp_all add: uf_rep_def uf_is_root_def)
qed

end
