(* ===== verification/Batch.thy ===== *)
theory Batch
  imports Pass_Contract Union_Find
begin

text \<open>
  \<^verbatim>\<open>command_graph_t::pass_batch\<close> (\<^verbatim>\<open>src/pod/batch.cc\<close>): same-device islands are found by
  union-find along edges, folded with their false twins, and every island of at least two
  COMMAND nodes becomes a BATCH node whose sub-graph reuses the members. The order in which
  \<^verbatim>\<open>std::unordered_map\<close> is iterated is not specified by the standard library: it is the
  parameter \<open>ord\<close>, any function that permutes the keys.
\<close>

subsection \<open>Candidates\<close>

definition batch_boundary :: "graph_ref \<Rightarrow> store \<Rightarrow> node_ref \<Rightarrow> bool" where
  "batch_boundary g s u \<longleftrightarrow>
     u = node_get_entry s g \<or> u = node_get_exit s g \<or>
     ntype (node_at s u) = COMMAND_GRAPH_NODE_TYPE_COMMAND_GRAPH \<or>
     (ntype (node_at s u) = COMMAND_GRAPH_NODE_TYPE_COMMAND \<and>
      (case ncommand (node_at s u) of
         None \<Rightarrow> False
       | Some c \<Rightarrow> ctype (commands s ! c) = COMMAND_TYPE_BATCH))"

subsection \<open>Islands: flood-fill along same-device edges\<close>

definition flood_edge :: "store \<Rightarrow> bool list \<Rightarrow> device_id \<Rightarrow> nat \<Rightarrow> node_ref \<Rightarrow> nat list \<Rightarrow> nat list result" where
  "flood_edge s cand di i v par =
     (let j = iterator_index (node_at s v)
      in if cand ! j \<and> di = device_unique_id (node_at s v) then uf_unite i j par else Inr par)"

definition flood_fill :: "store \<Rightarrow> node_ref list \<Rightarrow> bool list \<Rightarrow> nat list \<Rightarrow> nat list result" where
  "flood_fill s vec cand par =
     for_each
       (\<lambda>i par. if \<not> cand ! i then Inr par
                else for_each (flood_edge s cand (device_unique_id (node_at s (vec ! i))) i)
                       (succs s (vec ! i)) par)
       [0..<length vec] par"

subsection \<open>Folding false twins of the quotient\<close>

text \<open>
  \<^verbatim>\<open>rpred\<close> and \<^verbatim>\<open>rsucc\<close>: the neighbour islands of every root; \<^verbatim>\<open>find\<close> halves paths on the
  way, so the parents are threaded through.
\<close>

record quotient =
  qparent :: "nat list"
  rpred :: "nat \<Rightarrow> nat set"
  rsucc :: "nat \<Rightarrow> nat set"

definition quotient_edge :: "store \<Rightarrow> nat \<Rightarrow> node_ref \<Rightarrow> quotient \<Rightarrow> quotient result" where
  "quotient_edge s ri v q =
     bind_result (uf_find (iterator_index (node_at s v)) (qparent q)) (\<lambda>(rj, par).
       Inr (if ri \<noteq> rj
            then q\<lparr>qparent := par, rsucc := (rsucc q)(ri := insert rj (rsucc q ri)),
                   rpred := (rpred q)(rj := insert ri (rpred q rj))\<rparr>
            else q\<lparr>qparent := par\<rparr>))"

definition build_quotient :: "store \<Rightarrow> node_ref list \<Rightarrow> nat list \<Rightarrow> quotient result" where
  "build_quotient s vec par =
     for_each
       (\<lambda>i q. bind_result (uf_find i (qparent q)) (\<lambda>(ri, par).
                for_each (quotient_edge s ri) (succs s (vec ! i)) (q\<lparr>qparent := par\<rparr>)))
       [0..<length vec] \<lparr>qparent = par, rpred = (\<lambda>_. {}), rsucc = (\<lambda>_. {})\<rparr>"

text \<open>The scan for roots with equal keys, on the parents, \<^verbatim>\<open>seen\<close> and \<^verbatim>\<open>changed\<close>.\<close>

type_synonym twin_key = "device_id \<times> nat set \<times> nat set"

definition twin_step ::
  "store \<Rightarrow> node_ref list \<Rightarrow> bool list \<Rightarrow> quotient \<Rightarrow> nat
     \<Rightarrow> nat list \<times> (twin_key \<times> nat) list \<times> bool \<Rightarrow> (nat list \<times> (twin_key \<times> nat) list \<times> bool) result" where
  "twin_step s vec cand q i st =
     (case st of (par, seen, changed) \<Rightarrow>
        if \<not> cand ! i then Inr st
        else bind_result (uf_find i par) (\<lambda>(r, par1).
          if r \<noteq> i then Inr (par1, seen, changed)
          else let key = (device_unique_id (node_at s (vec ! i)), rpred q i, rsucc q i)
               in case map_of seen key of
                    None \<Rightarrow> Inr (par1, (key, i) # seen, changed)
                  | Some k \<Rightarrow> bind_result (uf_unite i k par1) (\<lambda>par2. Inr (par2, seen, True))))"

definition twin_round :: "store \<Rightarrow> node_ref list \<Rightarrow> bool list \<Rightarrow> nat list \<Rightarrow> (nat list \<times> bool) result" where
  "twin_round s vec cand par =
     bind_result (build_quotient s vec par) (\<lambda>q.
     bind_result (for_each (twin_step s vec cand q) [0..<length vec] (qparent q, [], False))
       (\<lambda>(par', _, changed). Inr (par', changed)))"

text \<open>
  \<^verbatim>\<open>while (changed)\<close>: a round that changes something merges two roots, so there are at most
  as many rounds as nodes, plus the last.
\<close>

fun fold_twins :: "nat \<Rightarrow> store \<Rightarrow> node_ref list \<Rightarrow> bool list \<Rightarrow> nat list \<Rightarrow> nat list result" where
  "fold_twins 0 s vec cand par = Inl Diverges"
| "fold_twins (Suc fuel) s vec cand par =
     bind_result (twin_round s vec cand par) (\<lambda>(par', changed).
       if changed then fold_twins fuel s vec cand par' else Inr par')"

subsection \<open>Grouping and materialisation\<close>

text \<open>\<^verbatim>\<open>island[find(i)].push_back(..)\<close>, the map as an association list in insertion order.\<close>

fun push_member :: "nat \<Rightarrow> node_ref \<Rightarrow> (nat \<times> node_ref list) list \<Rightarrow> (nat \<times> node_ref list) list" where
  "push_member r u [] = [(r, [u])]"
| "push_member r u ((k, ms) # rest) =
     (if k = r then (k, ms @ [u]) # rest else (k, ms) # push_member r u rest)"

definition group_islands ::
  "node_ref list \<Rightarrow> bool list \<Rightarrow> nat list \<Rightarrow> (nat list \<times> (nat \<times> node_ref list) list) result" where
  "group_islands vec cand par =
     for_each
       (\<lambda>i (par, island). if \<not> cand ! i then Inr (par, island)
          else bind_result (uf_find i par) (\<lambda>(r, par1). Inr (par1, push_member r (vec ! i) island)))
       [0..<length vec] (par, [])"

definition members_of :: "(nat \<times> node_ref list) list \<Rightarrow> nat \<Rightarrow> node_ref list" where
  "members_of island r = (case map_of island r of None \<Rightarrow> [] | Some ms \<Rightarrow> ms)"

text \<open>\<^verbatim>\<open>ncmd\<close> and \<^verbatim>\<open>gdev\<close>: the number of COMMAND members and the device of the first.\<close>

definition island_commands :: "store \<Rightarrow> node_ref list \<Rightarrow> node_ref list" where
  "island_commands s ms = filter (\<lambda>m. ntype (node_at s m) = COMMAND_GRAPH_NODE_TYPE_COMMAND) ms"

definition island_device :: "store \<Rightarrow> node_ref \<Rightarrow> node_ref list \<Rightarrow> device_id" where
  "island_device s root ms =
     device_unique_id (node_at s (case island_commands s ms of [] \<Rightarrow> root | m # _ \<Rightarrow> m))"

record island_mat =
  mat_root :: nat
  mat_sub :: graph_ref
  mat_entry :: node_ref
  mat_exit :: node_ref

definition materialize_island ::
  "node_ref list \<Rightarrow> (nat \<times> node_ref list) list \<Rightarrow> nat
     \<Rightarrow> store \<times> node_ref list \<times> island_mat list \<Rightarrow> (store \<times> node_ref list \<times> island_mat list) result" where
  "materialize_island vec island r st =
     (case st of (s, rep, mat) \<Rightarrow>
       (let ms = members_of island r in
        if length (island_commands s ms) < 2 then Inr st
        else
          let gdev = island_device s (vec ! r) ms;
              (cmd, s1) = command_new COMMAND_TYPE_BATCH s;
              s2 = upd_command cmd (\<lambda>c. c\<lparr>cbody := Body_batch \<lparr>batch_cg = None, driver_handle = 0\<rparr>\<rparr>) s1
          in bind_result (command_graph_new None None s2) (\<lambda>(sub, s3).
               let s4 = upd_command cmd (\<lambda>c. c\<lparr>cbody := Body_batch \<lparr>batch_cg = Some sub, driver_handle = 0\<rparr>\<rparr>) s3;
                   en = node_get_entry s4 sub; ex = node_get_exit s4 sub;
                   s5 = set_preds ex [] (set_succs en [] s4);
                   (B, s6) = command_graph_node_new gdev COMMAND_GRAPH_NODE_TYPE_COMMAND s5;
                   s7 = upd_node B (\<lambda>n. n\<lparr>ncommand := Some cmd\<rparr>) s6;
                   rep' = fold (\<lambda>m rep. rep[iterator_index (node_at s7 m) := B]) ms rep
               in Inr (s7, rep', mat @ [\<lparr>mat_root = r, mat_sub = sub, mat_entry = en, mat_exit = ex\<rparr>]))))"

subsection \<open>Rewiring\<close>

definition all_edges :: "store \<Rightarrow> node_ref list \<Rightarrow> (node_ref \<times> node_ref) list" where
  "all_edges s vec = concat (map (\<lambda>u. map (\<lambda>v. (u, v)) (succs s u)) vec)"

definition rewire_edge :: "node_ref list \<Rightarrow> node_ref \<times> node_ref \<Rightarrow> store \<Rightarrow> store result" where
  "rewire_edge rep e s =
     (let u = fst e; v = snd e;
          ru = rep ! iterator_index (node_at s u); rv = rep ! iterator_index (node_at s v)
      in if ru = rv then Inr s
         else if ru = u \<and> rv = v then Inr s
         else bind_result (erase_succ v u s) (\<lambda>s1.
              bind_result (erase_pred u v s1) (\<lambda>s2.
              Inr (connect ru rv s2))))"

definition connect_member :: "node_ref \<Rightarrow> node_ref \<Rightarrow> node_ref \<Rightarrow> store \<Rightarrow> store" where
  "connect_member en ex m s =
     (let s1 = (if preds s m = [] then precedes en m s else s)
      in if succs s1 m = [] then precedes m ex s1 else s1)"

definition connect_island :: "(nat \<times> node_ref list) list \<Rightarrow> island_mat \<Rightarrow> store \<Rightarrow> store" where
  "connect_island island M s =
     fold (connect_member (mat_entry M) (mat_exit M)) (members_of island (mat_root M)) s"

subsection \<open>The pass\<close>

text \<open>The islands of a graph, on the store after the iterators were created.\<close>

definition batch_islands ::
  "graph_ref \<Rightarrow> store \<Rightarrow> node_ref list \<Rightarrow> (nat \<times> node_ref list) list result" where
  "batch_islands g s vec =
     (let n = length vec; cand = map (\<lambda>u. \<not> batch_boundary g s u) vec
      in bind_result (flood_fill s vec cand [0..<n]) (\<lambda>par1.
         bind_result (fold_twins (Suc n) s vec cand par1) (\<lambda>par2.
         bind_result (group_islands vec cand par2) (\<lambda>(_, island). Inr island))))"

text \<open>\<open>ord\<close> gives the iteration order of \<^verbatim>\<open>island\<close>, \<open>ord2\<close> that of \<^verbatim>\<open>mat\<close>.\<close>

definition pass_batch ::
  "(nat list \<Rightarrow> nat list) \<Rightarrow> (island_mat list \<Rightarrow> island_mat list) \<Rightarrow> graph_ref \<Rightarrow> store \<Rightarrow> store result" where
  "pass_batch ord ord2 g s =
     (let (s1, vec) = create_node_iterators True COMMAND_GRAPH_WALK_SEARCH_DFS
                        COMMAND_GRAPH_WALK_ORDER_PRE g s
      in if length vec \<le> 2 then Inr s1
         else bind_result (batch_islands g s1 vec) (\<lambda>island.
              bind_result (for_each (materialize_island vec island) (ord (map fst island)) (s1, vec, []))
                (\<lambda>(s2, rep, mat).
                   bind_result (for_each (rewire_edge rep) (all_edges s2 vec) s2) (\<lambda>s3.
                   coherence_checks g (fold (connect_island island) (ord2 mat) s3)))))"

end
