(* ===== verification/Dump.thy ===== *)
theory Dump
  imports Walk_Props
begin

text \<open>
  The Graphviz dump of a command graph (\<^verbatim>\<open>src/pod/command-graph.cc\<close>): the lines written, as
  values, and the store afterwards, since a dump walks the graph and so moves its walk
  counter and the iterator indices.
\<close>

text \<open>
  One constructor per \<^verbatim>\<open>fprintf\<close>, with what it prints of the node: its identity, index,
  device, and command type name. Pointers print as positions in the store.
\<close>

datatype dump_line =
    Line_node node_ref nat device_id "string option"
  | Line_cluster_begin node_ref
  | Line_cluster_anchor node_ref
  | Line_cluster_label nat device_id string
  | Line_cluster_end
  | Line_edge node_ref node_ref bool bool
  | Line_digraph
  | Line_compound
  | Line_end

text \<open>\<^verbatim>\<open>n->type == COMMAND && n->command->type == BATCH\<close>; a null command is dereferenced.\<close>

definition is_batch_node :: "store \<Rightarrow> node_ref \<Rightarrow> bool result" where
  "is_batch_node s u =
     (if ntype (node_at s u) = COMMAND_GRAPH_NODE_TYPE_COMMAND
      then case ncommand (node_at s u) of
             None \<Rightarrow> Inl Undefined_behaviour
           | Some c \<Rightarrow> Inr (ctype (commands s ! c) = COMMAND_TYPE_BATCH)
      else Inr False)"

definition dump_edge :: "node_ref \<Rightarrow> node_ref \<Rightarrow> store \<times> dump_line list \<Rightarrow> (store \<times> dump_line list) result" where
  "dump_edge u v so =
     assert_that (v \<noteq> u)
       (bind_result (is_batch_node (fst so) u) (\<lambda>ltail.
        bind_result (is_batch_node (fst so) v) (\<lambda>lhead.
        Inr (fst so, snd so @ [Line_edge u v ltail lhead]))))"

text \<open>One iteration of the loop; \<open>rec\<close> dumps the sub-graph of a BATCH node.\<close>

definition dump_node ::
  "(graph_ref \<Rightarrow> store \<times> dump_line list \<Rightarrow> (store \<times> dump_line list) result)
     \<Rightarrow> node_ref \<Rightarrow> store \<times> dump_line list \<Rightarrow> (store \<times> dump_line list) result" where
  "dump_node rec u so =
     (let n = node_at (fst so) u;
          plain = (\<lambda>nm. Inr (fst so, snd so @ [Line_node u (iterator_index n) (device_unique_id n) nm]))
      in bind_result
           (case ntype n of
              COMMAND_GRAPH_NODE_TYPE_COMMAND \<Rightarrow>
                bind_result (get_command (fst so) u) (\<lambda>c.
                  if ctype c = COMMAND_TYPE_BATCH
                  then bind_result (get_batch c) (\<lambda>b.
                    case batch_cg b of
                      None \<Rightarrow> plain (Some (command_type_to_str (ctype c)))
                    | Some sub \<Rightarrow>
                        bind_result
                          (rec sub (fst so, snd so @ [Line_cluster_begin u, Line_cluster_anchor u,
                             Line_cluster_label (iterator_index n) (device_unique_id n)
                               (command_type_to_str (ctype c))]))
                          (\<lambda>so1. Inr (fst so1, snd so1 @ [Line_cluster_end])))
                  else plain (Some (command_type_to_str (ctype c))))
            | _ \<Rightarrow> plain None)
           (\<lambda>so1. for_each (dump_edge u) (succs (fst so1) u) so1))"

text \<open>
  \<open>depth\<close> bounds the nesting of BATCH sub-graphs; a graph that contains itself would be dumped
  for ever.
\<close>

primrec dump_interior ::
  "nat \<Rightarrow> graph_ref \<Rightarrow> store \<times> dump_line list \<Rightarrow> (store \<times> dump_line list) result" where
  "dump_interior 0 = (\<lambda>g so. Inl Diverges)"
| "dump_interior (Suc depth) =
     (\<lambda>g so. let (s1, vec) = create_node_iterators True COMMAND_GRAPH_WALK_SEARCH_DFS
                               COMMAND_GRAPH_WALK_ORDER_PRE g (fst so)
             in for_each (dump_node (dump_interior depth)) vec (s1, snd so))"

definition dump :: "nat \<Rightarrow> graph_ref \<Rightarrow> store \<Rightarrow> (store \<times> dump_line list) result" where
  "dump depth g s =
     bind_result (dump_interior depth g (s, [Line_digraph, Line_compound])) (\<lambda>so.
     Inr (fst so, snd so @ [Line_end]))"

end
