(* ===== verification/Mlir_Graph.thy ===== *)
theory Mlir_Graph
  imports Graph_Ops Pass_Contract
begin

text \<open>
  The \<^verbatim>\<open>cg\<close> dialect (\<^verbatim>\<open>include/cgir/mlir/CG/CGOps.td\<close>) and the import of a command graph
  (\<^verbatim>\<open>src/mlir/import.cpp\<close>). An operation holds its attributes and the list of the operations
  whose tokens it consumes; a graph region is the list of its operations. Of the MLIR library
  the model has the documented meaning of operand lists (\<^verbatim>\<open>setOperands\<close>, \<^verbatim>\<open>eraseOperand\<close>,
  \<^verbatim>\<open>replaceAllUsesWith\<close>, \<^verbatim>\<open>getUsers\<close>: one user per operand that names the token) and of
  \<^verbatim>\<open>erase\<close>, which is an error while the token has uses. The order in which \<^verbatim>\<open>getUsers\<close>
  enumerates is not documented: it is the parameter \<open>ord\<close>, any permutation.
\<close>

subsection \<open>Operations\<close>

type_synonym op_ref = nat

record copy_1D_attrs =
  c1_kind :: command_type
  c1_src_duid :: "32 word"
  c1_dst_duid :: "32 word"
  c1_src_addr :: "64 word"
  c1_dst_addr :: "64 word"
  c1_size :: "64 word"

record copy_2D_attrs =
  c2_kind :: command_type
  c2_src_duid :: "32 word"
  c2_dst_duid :: "32 word"
  c2_src_addr :: "64 word"
  c2_src_ld :: "64 word"
  c2_dst_addr :: "64 word"
  c2_dst_ld :: "64 word"
  c2_m :: "64 word"
  c2_n :: "64 word"
  c2_sizeof_type :: "64 word"

text \<open>The byte blob of \<^verbatim>\<open>cg.generic\<close> is the command itself; a batch holds its region.\<close>

datatype cg_payload =
    Empty_op (op_entry: bool) (op_exit: bool)
  | Copy_1D_op copy_1D_attrs
  | Copy_2D_op copy_2D_attrs
  | Generic_op command_type command
  | Batch_op "op_ref list"

record cg_op =
  duid :: "32 word"
  payload :: cg_payload
  operands :: "op_ref list"
  src_node :: "node_ref option"

text \<open>Every operation ever created, and the block of the \<^verbatim>\<open>cg.graph\<close>.\<close>

record cg_graph =
  ops :: "cg_op list"
  body :: "op_ref list"

definition op_at :: "cg_graph \<Rightarrow> op_ref \<Rightarrow> cg_op" where
  "op_at m o' = ops m ! o'"

definition upd_op :: "op_ref \<Rightarrow> (cg_op \<Rightarrow> cg_op) \<Rightarrow> cg_graph \<Rightarrow> cg_graph" where
  "upd_op o' f m = m\<lparr>ops := (ops m)[o' := f (ops m ! o')]\<rparr>"

text \<open>\<^verbatim>\<open>b.create(st)\<close> at the end of the block.\<close>

definition create_op :: "32 word \<Rightarrow> cg_payload \<Rightarrow> op_ref list \<Rightarrow> cg_graph \<Rightarrow> op_ref \<times> cg_graph" where
  "create_op d p os m =
     (length (ops m),
      m\<lparr>ops := ops m @ [\<lparr>duid = d, payload = p, operands = os, src_node = None\<rparr>],
        body := body m @ [length (ops m)]\<rparr>)"

definition set_operands :: "op_ref \<Rightarrow> op_ref list \<Rightarrow> cg_graph \<Rightarrow> cg_graph" where
  "set_operands o' os m = upd_op o' (\<lambda>x. x\<lparr>operands := os\<rparr>) m"

text \<open>The operations inside the graph: those of the block and of the batch regions in it.\<close>

definition region :: "cg_graph \<Rightarrow> op_ref \<Rightarrow> op_ref list" where
  "region m o' = (case payload (op_at m o') of Batch_op ms \<Rightarrow> ms | _ \<Rightarrow> [])"

definition live :: "cg_graph \<Rightarrow> op_ref list" where
  "live m = concat (map (\<lambda>o'. o' # region m o') (body m))"

text \<open>\<^verbatim>\<open>getUsers\<close> of the token of \<open>o'\<close>, in block order.\<close>

definition users :: "cg_graph \<Rightarrow> op_ref \<Rightarrow> op_ref list" where
  "users m o' = concat (map (\<lambda>u. replicate (count_list (operands (op_at m u)) o') u) (live m))"

definition replace_all_uses :: "op_ref \<Rightarrow> op_ref \<Rightarrow> cg_graph \<Rightarrow> cg_graph" where
  "replace_all_uses old new m =
     fold (\<lambda>u. upd_op u (\<lambda>x. x\<lparr>operands := map (\<lambda>t. if t = old then new else t) (operands x)\<rparr>)) (live m) m"

definition erase_op :: "op_ref \<Rightarrow> cg_graph \<Rightarrow> cg_graph result" where
  "erase_op o' m =
     assert_that (users m o' = []) (Inr (m\<lparr>body := remove1 o' (body m)\<rparr>))"

definition is_permuting :: "('a list \<Rightarrow> 'a list) \<Rightarrow> bool" where
  "is_permuting ord \<longleftrightarrow> (\<forall>xs. mset (ord xs) = mset xs)"

subsection \<open>Import\<close>

definition get_src_node :: "cg_graph \<Rightarrow> op_ref \<Rightarrow> node_ref option" where
  "get_src_node m o' = src_node (op_at m o')"

definition set_src_node :: "op_ref \<Rightarrow> node_ref option \<Rightarrow> cg_graph \<Rightarrow> cg_graph" where
  "set_src_node o' n m = upd_op o' (\<lambda>x. x\<lparr>src_node := n\<rparr>) m"

definition import_copy_1D :: "command_type \<Rightarrow> copy_1D \<Rightarrow> copy_1D_attrs" where
  "import_copy_1D k x =
     \<lparr>c1_kind = k, c1_src_duid = ucast (src_device_unique_id x), c1_dst_duid = ucast (dst_device_unique_id x),
      c1_src_addr = src_device_addr x, c1_dst_addr = dst_device_addr x, c1_size = csize x\<rparr>"

definition import_copy_2D :: "command_type \<Rightarrow> copy_2D \<Rightarrow> copy_2D_attrs" where
  "import_copy_2D k x =
     \<lparr>c2_kind = k, c2_src_duid = ucast (src_device_unique_id2 x), c2_dst_duid = ucast (dst_device_unique_id2 x),
      c2_src_addr = src_addr x, c2_src_ld = src_ld x, c2_dst_addr = dst_addr x, c2_dst_ld = dst_ld x,
      c2_m = cm x, c2_n = cn x, c2_sizeof_type = sizeof_type x\<rparr>"

text \<open>The payload \<^verbatim>\<open>create_node_op\<close> gives the operation of a command.\<close>

definition import_command :: "command \<Rightarrow> cg_payload result" where
  "import_command c =
     (if is_copy_1D_type (ctype c)
      then bind_result (get_copy_1D c) (\<lambda>x. Inr (Copy_1D_op (import_copy_1D (ctype c) x)))
      else if is_copy_2D_type (ctype c)
      then bind_result (get_copy_2D c) (\<lambda>x. Inr (Copy_2D_op (import_copy_2D (ctype c) x)))
      else Inr (Generic_op (ctype c) c))"

definition create_node_op ::
  "store \<Rightarrow> node_ref \<Rightarrow> bool \<Rightarrow> bool \<Rightarrow> cg_graph \<Rightarrow> (op_ref \<times> cg_graph) result" where
  "create_node_op s u is_entry is_exit m =
     (let d = ucast (device_unique_id (node_at s u)) in
      case ntype (node_at s u) of
        COMMAND_GRAPH_NODE_TYPE_EMPTY \<Rightarrow> Inr (create_op d (Empty_op is_entry is_exit) [] m)
      | COMMAND_GRAPH_NODE_TYPE_COMMAND \<Rightarrow>
          (case ncommand (node_at s u) of
             None \<Rightarrow> Inl Assertion_failed
           | Some c \<Rightarrow> bind_result (import_command (commands s ! c)) (\<lambda>p. Inr (create_op d p [] m)))
      | _ \<Rightarrow> Inl Aborted)"

text \<open>
  The two loops of \<^verbatim>\<open>import_command_graph\<close>: one operation per node, stored at the node's
  \<^verbatim>\<open>iterator_index\<close> in \<open>v\<close>, then the operands from the predecessor lists.
\<close>

definition import_node ::
  "store \<Rightarrow> graph_ref \<Rightarrow> nat \<Rightarrow> node_ref \<Rightarrow> op_ref option list \<times> cg_graph
     \<Rightarrow> (op_ref option list \<times> cg_graph) result" where
  "import_node s g n u vm =
     bind_result (create_node_op s u (u = node_get_entry s g) (u = node_get_exit s g) (snd vm)) (\<lambda>(o', m1).
       assert_that (iterator_index (node_at s u) < n)
         (Inr ((fst vm)[iterator_index (node_at s u) := Some o'], set_src_node o' (Some u) m1)))"

fun import_preds :: "store \<Rightarrow> op_ref option list \<Rightarrow> node_ref list \<Rightarrow> op_ref list result" where
  "import_preds s v [] = Inr []"
| "import_preds s v (p # ps) =
     (let i = iterator_index (node_at s p) in
      assert_that (i < length v)
        (case v ! i of
           None \<Rightarrow> Inl Assertion_failed
         | Some o' \<Rightarrow> bind_result (import_preds s v ps) (\<lambda>os. Inr (o' # os))))"

definition import_edges :: "store \<Rightarrow> op_ref option list \<Rightarrow> node_ref \<Rightarrow> cg_graph \<Rightarrow> cg_graph result" where
  "import_edges s v u m =
     bind_result (import_preds s v (preds s u)) (\<lambda>os.
       case v ! iterator_index (node_at s u) of
         None \<Rightarrow> Inl Undefined_behaviour
       | Some o' \<Rightarrow> Inr (set_operands o' os m))"

definition import_command_graph :: "graph_ref \<Rightarrow> store \<Rightarrow> (store \<times> cg_graph) result" where
  "import_command_graph g s =
     (let (s1, vec) = create_node_iterators True COMMAND_GRAPH_WALK_SEARCH_DFS
                        COMMAND_GRAPH_WALK_ORDER_PRE g s;
          n = length vec
      in bind_result (for_each (import_node s1 g n) vec (replicate n None, \<lparr>ops = [], body = []\<rparr>)) (\<lambda>(v, m).
         bind_result (for_each (import_edges s1 v) vec m) (\<lambda>m1.
         Inr (s1, m1))))"

subsection \<open>Export\<close>

definition get_duid :: "cg_graph \<Rightarrow> op_ref \<Rightarrow> device_id" where
  "get_duid m o' = ucast (duid (op_at m o'))"

definition op_is_entry :: "cg_graph \<Rightarrow> op_ref \<Rightarrow> bool" where
  "op_is_entry m o' = (case payload (op_at m o') of Empty_op en _ \<Rightarrow> en | _ \<Rightarrow> False)"

definition op_is_exit :: "cg_graph \<Rightarrow> op_ref \<Rightarrow> bool" where
  "op_is_exit m o' = (case payload (op_at m o') of Empty_op _ ex \<Rightarrow> ex | _ \<Rightarrow> False)"

definition export_copy_1D :: "copy_1D_attrs \<Rightarrow> command" where
  "export_copy_1D a =
     \<lparr>ctype = c1_kind a,
      cbody = Body_copy_1D
        \<lparr>src_device_unique_id = ucast (c1_src_duid a), dst_device_unique_id = ucast (c1_dst_duid a),
         src_device_addr = c1_src_addr a, dst_device_addr = c1_dst_addr a, csize = c1_size a\<rparr>\<rparr>"

definition export_copy_2D :: "copy_2D_attrs \<Rightarrow> command" where
  "export_copy_2D a =
     \<lparr>ctype = c2_kind a,
      cbody = Body_copy_2D
        \<lparr>src_device_unique_id2 = ucast (c2_src_duid a), dst_device_unique_id2 = ucast (c2_dst_duid a),
         src_addr = c2_src_addr a, src_ld = c2_src_ld a, dst_addr = c2_dst_addr a, dst_ld = c2_dst_ld a,
         cm = c2_m a, cn = c2_n a, sizeof_type = c2_sizeof_type a\<rparr>\<rparr>"

text \<open>
  \<^verbatim>\<open>update_node_from_op\<close>: the fields of a copy are written back into the command of the node,
  when it has one.
\<close>

definition update_command :: "node_ref \<Rightarrow> command \<Rightarrow> store \<Rightarrow> store" where
  "update_command u d s =
     (case ncommand (node_at s u) of None \<Rightarrow> s | Some c \<Rightarrow> upd_command c (\<lambda>_. d) s)"

definition update_node_from_op :: "cg_graph \<Rightarrow> node_ref \<Rightarrow> op_ref \<Rightarrow> store \<Rightarrow> store" where
  "update_node_from_op m u o' s =
     (let s1 = upd_node u (\<lambda>n. n\<lparr>device_unique_id := get_duid m o'\<rparr>) s
      in case payload (op_at m o') of
           Copy_1D_op a \<Rightarrow> update_command u (export_copy_1D a) s1
         | Copy_2D_op a \<Rightarrow> update_command u (export_copy_2D a) s1
         | _ \<Rightarrow> s1)"

text \<open>A fresh COMMAND node with a fresh command.\<close>

definition new_command_node :: "device_id \<Rightarrow> command_type \<Rightarrow> command \<Rightarrow> store \<Rightarrow> node_ref \<times> store" where
  "new_command_node d t c s =
     (let (cmd, s1) = command_new t s;
          s2 = upd_command cmd (\<lambda>_. c) s1;
          (u, s3) = command_graph_node_new d COMMAND_GRAPH_NODE_TYPE_COMMAND s2
      in (u, upd_node u (\<lambda>n. n\<lparr>ncommand := Some cmd\<rparr>) s3))"

definition clear_adjacency :: "node_ref \<Rightarrow> store \<Rightarrow> store" where
  "clear_adjacency u s = set_succs u [] (set_preds u [] s)"

text \<open>The member of a sub-graph that an operation of a batch region becomes; \<open>fresh\<close> makes new ones.\<close>

definition export_member ::
  "(op_ref \<Rightarrow> store \<Rightarrow> (node_ref \<times> store) result) \<Rightarrow> cg_graph \<Rightarrow> op_ref
     \<Rightarrow> (op_ref \<Rightarrow> node_ref option) \<times> store \<Rightarrow> ((op_ref \<Rightarrow> node_ref option) \<times> store) result" where
  "export_member fresh m o' fs =
     (let s = snd fs; sn = get_src_node m o';
          reuse = (case sn of None \<Rightarrow> None
                   | Some u \<Rightarrow> (case ncommand (node_at s u) of None \<Rightarrow> None
                       | Some c \<Rightarrow> if ntype (node_at s u) = COMMAND_GRAPH_NODE_TYPE_COMMAND then Some c else None));
          is_empty = (case sn of None \<Rightarrow> False | Some u \<Rightarrow> ntype (node_at s u) = COMMAND_GRAPH_NODE_TYPE_EMPTY)
      in bind_result
           (case reuse of
              Some c \<Rightarrow>
                (let (v, s1) = command_graph_node_new (get_duid m o') COMMAND_GRAPH_NODE_TYPE_COMMAND s;
                     s2 = upd_node v (\<lambda>n. n\<lparr>ncommand := Some c\<rparr>) s1
                 in Inr (v, update_node_from_op m v o' s2))
            | None \<Rightarrow>
                if is_empty
                then Inr (command_graph_node_new (get_duid m o') COMMAND_GRAPH_NODE_TYPE_EMPTY s)
                else fresh o' s) (\<lambda>(v, s3).
         Inr ((fst fs)(o' := Some v), clear_adjacency v s3)))"

text \<open>The internal edges of a region, and entry and exit around its sources and sinks.\<close>

definition export_operand :: "(op_ref \<Rightarrow> node_ref option) \<Rightarrow> node_ref \<Rightarrow> op_ref \<Rightarrow> store \<Rightarrow> store result" where
  "export_operand f v t s =
     (case f t of None \<Rightarrow> Inl Assertion_failed | Some p \<Rightarrow> Inr (precedes p v s))"

definition export_operands :: "cg_graph \<Rightarrow> (op_ref \<Rightarrow> node_ref option) \<Rightarrow> op_ref \<Rightarrow> store \<Rightarrow> store result" where
  "export_operands m f o' s =
     (case f o' of
        None \<Rightarrow> Inl Undefined_behaviour
      | Some v \<Rightarrow> for_each (export_operand f v) (operands (op_at m o')) s)"

definition export_boundary :: "(op_ref \<Rightarrow> node_ref option) \<Rightarrow> node_ref \<Rightarrow> node_ref \<Rightarrow> op_ref \<Rightarrow> store \<Rightarrow> store result" where
  "export_boundary f en ex o' s =
     (case f o' of
        None \<Rightarrow> Inl Undefined_behaviour
      | Some v \<Rightarrow>
          (let s1 = (if preds s v = [] then precedes en v s else s)
           in Inr (if succs s1 v = [] then precedes v ex s1 else s1)))"

text \<open>
  \<^verbatim>\<open>create_pod_node_from_op\<close> and \<^verbatim>\<open>build_batch_node\<close> call each other; \<open>fuel\<close> bounds the nesting
  of batch regions.
\<close>

fun create_pod_node_from_op :: "nat \<Rightarrow> cg_graph \<Rightarrow> op_ref \<Rightarrow> store \<Rightarrow> (node_ref \<times> store) result" where
  "create_pod_node_from_op 0 m o' s = Inl Diverges"
| "create_pod_node_from_op (Suc fuel) m o' s =
     (case payload (op_at m o') of
        Empty_op _ _ \<Rightarrow> Inr (command_graph_node_new (get_duid m o') COMMAND_GRAPH_NODE_TYPE_EMPTY s)
      | Copy_1D_op a \<Rightarrow> Inr (new_command_node (get_duid m o') (c1_kind a) (export_copy_1D a) s)
      | Copy_2D_op a \<Rightarrow> Inr (new_command_node (get_duid m o') (c2_kind a) (export_copy_2D a) s)
      | Generic_op k c \<Rightarrow> Inr (new_command_node (get_duid m o') k c s)
      | Batch_op ms \<Rightarrow>
          bind_result (command_graph_new None None s) (\<lambda>(sub, s1).
          let en = node_get_entry s1 sub; ex = node_get_exit s1 sub;
              s2 = set_preds ex [] (set_succs en [] s1)
          in bind_result (for_each (export_member (create_pod_node_from_op fuel m) m) ms (\<lambda>_. None, s2)) (\<lambda>(f, s3).
             bind_result (for_each (export_operands m f) ms s3) (\<lambda>s4.
             bind_result (for_each (export_boundary f en ex) ms s4) (\<lambda>s5.
             Inr (new_command_node (get_duid m o') COMMAND_TYPE_BATCH
                    \<lparr>ctype = COMMAND_TYPE_BATCH,
                     cbody = Body_batch \<lparr>batch_cg = Some sub, driver_handle = 0\<rparr>\<rparr> s5))))))"

text \<open>The first loop of \<^verbatim>\<open>export_command_graph\<close> on the map \<open>out\<close>, the entry and the exit found.\<close>

record export_state =
  out :: "op_ref \<Rightarrow> node_ref option"
  entry_node :: "node_ref option"
  exit_node :: "node_ref option"
  exported :: store

definition export_op :: "cg_graph \<Rightarrow> op_ref \<Rightarrow> export_state \<Rightarrow> export_state result" where
  "export_op m o' e =
     bind_result
       (case get_src_node m o' of
          Some u \<Rightarrow> Inr (u, update_node_from_op m u o' (exported e))
        | None \<Rightarrow> create_pod_node_from_op (Suc (length (ops m))) m o' (exported e)) (\<lambda>(v, s).
     Inr \<lparr>out = (out e)(o' := Some v),
          entry_node = (if op_is_entry m o' then Some v else entry_node e),
          exit_node = (if op_is_exit m o' then Some v else exit_node e),
          exported = clear_adjacency v s\<rparr>)"

definition export_command_graph :: "cg_graph \<Rightarrow> graph_ref \<Rightarrow> store \<Rightarrow> store result" where
  "export_command_graph m g s =
     bind_result
       (for_each (export_op m) (body m) \<lparr>out = (\<lambda>_. None), entry_node = None, exit_node = None, exported = s\<rparr>) (\<lambda>e.
     bind_result (for_each (export_operands m (out e)) (body m) (exported e)) (\<lambda>t.
     case (entry_node e, exit_node e) of
       (Some en, Some ex) \<Rightarrow>
         assert_that (preds t en = [])
           (assert_that (succs t ex = [])
             (Inr (upd_graph g (\<lambda>gr. gr\<lparr>entry := en, exit := ex\<rparr>) t)))
     | _ \<Rightarrow> Inl Assertion_failed))"

end
