(* ===== verification/Mlir_Passes.thy ===== *)
theory Mlir_Passes
  imports Mlir_Graph Bitset2d Copy_Normalize Prog_Fuse
begin

text \<open>
  The passes of the MLIR pipeline (\<^verbatim>\<open>src/mlir/passes/\<close>) on the \<^verbatim>\<open>cg\<close> graph: reduce-node,
  copy-normalize, reduce-edge, copy-fuse and prog-fuse. The batch pass has its own theory.
\<close>

subsection \<open>cg-reduce-node\<close>

text \<open>\<^verbatim>\<open>llvm::SetVector\<close>: insertion order, first occurrences.\<close>

definition set_vector :: "'a list \<Rightarrow> 'a list" where
  "set_vector xs = fold (\<lambda>x acc. if x \<in> set acc then acc else acc @ [x]) xs []"

definition mlir_bypass_user :: "op_ref \<Rightarrow> op_ref list \<Rightarrow> op_ref \<Rightarrow> cg_graph \<Rightarrow> cg_graph" where
  "mlir_bypass_user e ps u m =
     set_operands u (set_vector (filter (\<lambda>t. t \<noteq> e) (operands (op_at m u)) @ ps)) m"

definition mlir_reduce_node_op :: "(op_ref list \<Rightarrow> op_ref list) \<Rightarrow> op_ref \<Rightarrow> cg_graph \<Rightarrow> cg_graph result" where
  "mlir_reduce_node_op ord e g =
     (case payload (op_at g e) of
        Empty_op en ex \<Rightarrow>
          if en \<or> ex then Inr g
          else
            (let m = word_of_nat (length (operands (op_at g e))) :: size_t;
                 n = word_of_nat (length (users g e)) :: size_t
             in if \<not> (m * n < 1 + m + n) then Inr g
                else
                  let ps = operands (op_at g e);
                      us = set_vector (ord (users g e))
                  in erase_op e (fold (mlir_bypass_user e ps) us g))
      | _ \<Rightarrow> Inr g)"

text \<open>\<^verbatim>\<open>make_early_inc_range\<close> visits the operations the block held at the start.\<close>

definition mlir_reduce_node :: "(op_ref list \<Rightarrow> op_ref list) \<Rightarrow> cg_graph \<Rightarrow> cg_graph result" where
  "mlir_reduce_node ord g = for_each (mlir_reduce_node_op ord) (body g) g"

subsection \<open>cg-copy-normalize\<close>

fun copy_2d_to_1d_kind :: "command_type \<Rightarrow> command_type" where
  "copy_2d_to_1d_kind COMMAND_TYPE_COPY_H2H_2D = COMMAND_TYPE_COPY_H2H_1D"
| "copy_2d_to_1d_kind COMMAND_TYPE_COPY_H2D_2D = COMMAND_TYPE_COPY_H2D_1D"
| "copy_2d_to_1d_kind COMMAND_TYPE_COPY_D2H_2D = COMMAND_TYPE_COPY_D2H_1D"
| "copy_2d_to_1d_kind COMMAND_TYPE_COPY_D2D_2D = COMMAND_TYPE_COPY_D2D_1D"
| "copy_2d_to_1d_kind k = k"

definition normalize_1D_attrs :: "copy_2D_attrs \<Rightarrow> copy_1D_attrs" where
  "normalize_1D_attrs a =
     \<lparr>c1_kind = copy_2d_to_1d_kind (c2_kind a), c1_src_duid = c2_src_duid a, c1_dst_duid = c2_dst_duid a,
      c1_src_addr = c2_src_addr a, c1_dst_addr = c2_dst_addr a,
      c1_size = c2_m a * c2_n a * c2_sizeof_type a\<rparr>"

definition normalize_2D_attrs :: "copy_2D_attrs \<Rightarrow> copy_2D_attrs" where
  "normalize_2D_attrs a =
     a\<lparr>c2_src_ld := c2_src_ld a * c2_sizeof_type a, c2_dst_ld := c2_dst_ld a * c2_sizeof_type a,
       c2_m := c2_m a * c2_sizeof_type a, c2_sizeof_type := 1\<rparr>"

text \<open>The new operation goes before the old one in the block.\<close>

definition insert_before :: "op_ref \<Rightarrow> cg_op \<Rightarrow> cg_graph \<Rightarrow> op_ref \<times> cg_graph" where
  "insert_before c x g =
     (length (ops g),
      g\<lparr>ops := ops g @ [x],
        body := takeWhile (\<lambda>b. b \<noteq> c) (body g) @ length (ops g) # dropWhile (\<lambda>b. b \<noteq> c) (body g)\<rparr>)"

definition mlir_copy_normalize_op :: "op_ref \<Rightarrow> cg_graph \<Rightarrow> cg_graph result" where
  "mlir_copy_normalize_op c g =
     (case payload (op_at g c) of
        Copy_2D_op a \<Rightarrow>
          if c2_m a = c2_src_ld a \<and> c2_m a = c2_dst_ld a
          then
            (let (node_1d, g1) = insert_before c
                   \<lparr>duid = duid (op_at g c), payload = Copy_1D_op (normalize_1D_attrs a),
                    operands = operands (op_at g c), src_node = None\<rparr> g;
                 g2 = (case get_src_node g1 c of None \<Rightarrow> g1 | Some sn \<Rightarrow> set_src_node node_1d (Some sn) g1)
             in erase_op c (replace_all_uses c node_1d g2))
          else Inr (upd_op c (\<lambda>x. x\<lparr>payload := Copy_2D_op (normalize_2D_attrs a)\<rparr>) g)
      | _ \<Rightarrow> Inr g)"

definition mlir_copy_normalize :: "cg_graph \<Rightarrow> cg_graph result" where
  "mlir_copy_normalize g = for_each mlir_copy_normalize_op (body g) g"

subsection \<open>cg-reduce-edge\<close>

text \<open>The position of an operation in the block, as \<^verbatim>\<open>idx\<close> records it.\<close>

fun position :: "'a \<Rightarrow> 'a list \<Rightarrow> nat option" where
  "position x [] = None"
| "position x (y # ys) = (if x = y then Some 0 else map_option Suc (position x ys))"

definition mlir_succ :: "(op_ref list \<Rightarrow> op_ref list) \<Rightarrow> cg_graph \<Rightarrow> nat \<Rightarrow> nat list" where
  "mlir_succ ord g i =
     concat (map (\<lambda>v. case position v (body g) of None \<Rightarrow> [] | Some j \<Rightarrow> [j])
       (set_vector (ord (users g (body g ! i)))))"

definition mlir_indeg :: "cg_graph \<Rightarrow> nat \<Rightarrow> int" where
  "mlir_indeg g j =
     int (length (filter (\<lambda>d. position d (body g) \<noteq> None) (set_vector (operands (op_at g (body g ! j))))))"

text \<open>
  Kahn's algorithm with a stack: \<open>dec_degree\<close> is the inner loop over the successors of \<open>u\<close>, on
  the degrees and the stack (its end is the last element). Every round pops an index that is
  pushed once, so one round per node is enough.
\<close>

definition dec_degree :: "nat \<Rightarrow> int list \<times> nat list \<Rightarrow> int list \<times> nat list" where
  "dec_degree w dq =
     (let d = fst dq ! w - 1; deg = (fst dq)[w := d]
      in (deg, if d = 0 then snd dq @ [w] else snd dq))"

fun kahn :: "nat \<Rightarrow> (nat \<Rightarrow> nat list) \<Rightarrow> int list \<Rightarrow> nat list \<Rightarrow> nat list \<Rightarrow> nat list result" where
  "kahn 0 succ deg queue topo = (if queue = [] then Inr topo else Inl Diverges)"
| "kahn (Suc fuel) succ deg queue topo =
     (if queue = [] then Inr topo
      else let u = last queue; (deg', queue') = fold dec_degree (succ u) (deg, butlast queue)
           in kahn fuel succ deg' queue' (topo @ [u]))"

definition mlir_reachability :: "(nat \<Rightarrow> nat list) \<Rightarrow> nat \<Rightarrow> nat list \<Rightarrow> bitset2d" where
  "mlir_reachability succ n topo =
     fold (\<lambda>i r. fold (\<lambda>s. bs_or_rows i s) (succ i) (bs_set i i r)) (rev topo) (bitset2d_new n)"

definition erase_first_operand :: "op_ref \<Rightarrow> op_ref \<Rightarrow> cg_graph \<Rightarrow> cg_graph" where
  "erase_first_operand tok v g = set_operands v (remove1 tok (operands (op_at g v))) g"

definition mlir_redundant :: "bitset2d \<Rightarrow> nat list \<Rightarrow> nat \<Rightarrow> bool" where
  "mlir_redundant r ws v \<longleftrightarrow> list_ex (\<lambda>w. w \<noteq> v \<and> bs_test r w v) ws"

definition mlir_reduce_edge :: "(op_ref list \<Rightarrow> op_ref list) \<Rightarrow> cg_graph \<Rightarrow> cg_graph result" where
  "mlir_reduce_edge ord g =
     (let n = length (body g) in
      if n = 0 then Inr g
      else
        let succ = (\<lambda>i. mlir_succ ord g i);
            indeg = map (mlir_indeg g) [0..<n]
        in bind_result (kahn (Suc n) succ indeg (filter (\<lambda>i. indeg ! i = 0) [0..<n]) []) (\<lambda>topo.
           let r = mlir_reachability succ n topo
           in Inr (fold
                (\<lambda>i. fold (\<lambda>v g'. if mlir_redundant r (succ i) v
                                  then erase_first_operand (body g ! i) (body g ! v) g' else g') (succ i))
                [0..<n] g)))"

subsection \<open>cg-copy-fuse\<close>

definition mlir_false_twins :: "cg_graph \<Rightarrow> op_ref \<Rightarrow> op_ref \<Rightarrow> bool" where
  "mlir_false_twins g u v \<longleftrightarrow>
     set (operands (op_at g u)) = set (operands (op_at g v)) \<and> set (users g u) = set (users g v)"

definition fused_attrs :: "copy_1D_attrs \<Rightarrow> copy_1D_attrs \<Rightarrow> copy_1D_attrs" where
  "fused_attrs a b =
     (let ubias = c1_src_addr a - c1_dst_addr a;
          ub = c1_src_addr a; ue = c1_src_addr a + c1_size a;
          vb = c1_src_addr b; ve = c1_src_addr b + c1_size b;
          sb = min ub vb; se = max ue ve
      in a\<lparr>c1_src_addr := sb, c1_dst_addr := sb - ubias, c1_size := se - sb\<rparr>)"

definition fusable_attrs :: "copy_1D_attrs \<Rightarrow> copy_1D_attrs \<Rightarrow> bool" where
  "fusable_attrs a b \<longleftrightarrow>
     c1_src_duid a = c1_src_duid b \<and> c1_dst_duid a = c1_dst_duid b \<and>
     c1_src_addr a - c1_dst_addr a = c1_src_addr b - c1_dst_addr b \<and>
     c1_src_addr a \<le> c1_src_addr b + c1_size b \<and> c1_src_addr b \<le> c1_src_addr a + c1_size a"

definition drop_token :: "op_ref \<Rightarrow> op_ref \<Rightarrow> cg_graph \<Rightarrow> cg_graph" where
  "drop_token tok u g = set_operands u (filter (\<lambda>t. t \<noteq> tok) (operands (op_at g u))) g"

definition mlir_try_fuse :: "op_ref \<Rightarrow> op_ref \<Rightarrow> copy_1D_attrs \<Rightarrow> copy_1D_attrs \<Rightarrow> cg_graph \<Rightarrow> bool \<times> cg_graph" where
  "mlir_try_fuse u v a b g =
     (if u = v \<or> \<not> mlir_false_twins g u v \<or> \<not> fusable_attrs a b then (False, g)
      else (True, fold (drop_token v) (users g v)
                    (upd_op u (\<lambda>x. x\<lparr>payload := Copy_1D_op (fused_attrs a b)\<rparr>) g)))"

text \<open>The scan of the siblings up to the first fusion, on the graph and the dead set.\<close>

fun mlir_fuse_scan :: "op_ref \<Rightarrow> op_ref list \<Rightarrow> cg_graph \<times> op_ref list \<Rightarrow> bool \<times> cg_graph \<times> op_ref list" where
  "mlir_fuse_scan u [] gd = (False, gd)"
| "mlir_fuse_scan u (v # vs) gd =
     (if v = u \<or> v \<in> set (snd gd) then mlir_fuse_scan u vs gd
      else case (payload (op_at (fst gd) u), payload (op_at (fst gd) v)) of
             (Copy_1D_op a, Copy_1D_op b) \<Rightarrow>
               (let (fused, g1) = mlir_try_fuse u v a b (fst gd)
                in if fused then (True, g1, snd gd @ [v]) else mlir_fuse_scan u vs gd)
           | _ \<Rightarrow> mlir_fuse_scan u vs gd)"

text \<open>\<^verbatim>\<open>while (changed)\<close>: every fusion adds to the dead set, so one round per operation is enough.\<close>

fun mlir_fuse_loop ::
  "nat \<Rightarrow> (op_ref list \<Rightarrow> op_ref list) \<Rightarrow> op_ref \<Rightarrow> cg_graph \<times> op_ref list \<Rightarrow> (cg_graph \<times> op_ref list) result" where
  "mlir_fuse_loop 0 ord u gd = Inl Diverges"
| "mlir_fuse_loop (Suc fuel) ord u gd =
     (case operands (op_at (fst gd) u) of
        [] \<Rightarrow> Inr gd
      | p0 # _ \<Rightarrow>
          (let (changed, gd1) = mlir_fuse_scan u (ord (users (fst gd) p0)) gd
           in if changed then mlir_fuse_loop fuel ord u gd1 else Inr gd1))"

definition is_copy_1D_op :: "cg_graph \<Rightarrow> op_ref \<Rightarrow> bool" where
  "is_copy_1D_op g u = (case payload (op_at g u) of Copy_1D_op _ \<Rightarrow> True | _ \<Rightarrow> False)"

definition mlir_copy_fuse ::
  "(op_ref list \<Rightarrow> op_ref list) \<Rightarrow> (op_ref list \<Rightarrow> op_ref list) \<Rightarrow> cg_graph \<Rightarrow> cg_graph result" where
  "mlir_copy_fuse ord ord_dead g =
     bind_result
       (for_each
          (\<lambda>u gd. if u \<in> set (snd gd) then Inr gd else mlir_fuse_loop (Suc (length (ops g))) ord u gd)
          (filter (is_copy_1D_op g) (body g)) (g, [])) (\<lambda>(g1, dead).
     for_each erase_op (ord_dead dead) g1)"

subsection \<open>cg-prog-fuse\<close>

text \<open>\<^verbatim>\<open>prog_src_node\<close>: the originating node of an imported program.\<close>

definition prog_src_node :: "cg_graph \<Rightarrow> store \<Rightarrow> op_ref \<Rightarrow> node_ref option" where
  "prog_src_node g s o' =
     (case get_src_node g o' of
        None \<Rightarrow> None
      | Some u \<Rightarrow>
          (case ncommand (node_at s u) of
             None \<Rightarrow> None
           | Some c \<Rightarrow>
               if ntype (node_at s u) = COMMAND_GRAPH_NODE_TYPE_COMMAND \<and> ctype (commands s ! c) = COMMAND_TYPE_PROG
               then Some u else None))"

definition is_series :: "cg_graph \<Rightarrow> op_ref \<Rightarrow> op_ref \<Rightarrow> bool" where
  "is_series g u v \<longleftrightarrow> users g u = [v] \<and> operands (op_at g v) = [u]"

definition is_prog_op :: "cg_graph \<Rightarrow> op_ref \<Rightarrow> bool" where
  "is_prog_op g o' = (case payload (op_at g o') of Generic_op k _ \<Rightarrow> k = COMMAND_TYPE_PROG | _ \<Rightarrow> False)"

definition has_llvmir :: "store \<Rightarrow> node_ref \<Rightarrow> bool" where
  "has_llvmir s u \<longleftrightarrow>
     (case node_prog s u of
        Inl _ \<Rightarrow> False
      | Inr p \<Rightarrow> source_type (source p) = CGIR_COMMAND_PROG_SOURCE_TYPE_LLVMIR \<and> raw (llvmir (source p)) \<noteq> 0)"

definition same_launch :: "store \<Rightarrow> node_ref \<Rightarrow> node_ref \<Rightarrow> bool" where
  "same_launch s u w \<longleftrightarrow>
     (case (node_prog s u, node_prog s w) of (Inr a, Inr b) \<Rightarrow> launch_params_equal a b | _ \<Rightarrow> False)"

text \<open>The \<^verbatim>\<open>for (;;)\<close> loop, from the current operation \<open>cur\<close>: the rest of the chain with its nodes.\<close>

fun mlir_prog_chain ::
  "nat \<Rightarrow> cg_graph \<Rightarrow> store \<Rightarrow> op_ref list \<Rightarrow> node_ref \<Rightarrow> op_ref \<Rightarrow> (op_ref \<times> node_ref) list result" where
  "mlir_prog_chain 0 g s dead un cur = Inl Diverges"
| "mlir_prog_chain (Suc fuel) g s dead un cur =
     (case users g cur of
        [w] \<Rightarrow>
          if w \<in> set dead \<or> \<not> is_prog_op g w then Inr []
          else (case prog_src_node g s w of
                  None \<Rightarrow> Inr []
                | Some wn \<Rightarrow>
                    if \<not> is_series g cur w \<or> \<not> has_llvmir s wn \<or> \<not> same_launch s un wn then Inr []
                    else bind_result (mlir_prog_chain fuel g s dead un w) (\<lambda>ws. Inr ((w, wn) # ws)))
      | _ \<Rightarrow> Inr [])"

definition mlir_prog_fuse_op ::
  "(prog list \<Rightarrow> prog \<Rightarrow> prog result) \<Rightarrow> op_ref \<Rightarrow> cg_graph \<times> store \<times> op_ref list
     \<Rightarrow> (cg_graph \<times> store \<times> op_ref list) result" where
  "mlir_prog_fuse_op fuse u st =
     (case st of (g, s, dead) \<Rightarrow>
        if u \<in> set dead then Inr st
        else (case prog_src_node g s u of
                None \<Rightarrow> Inr st
              | Some un \<Rightarrow>
                  if \<not> has_llvmir s un then Inr st
                  else bind_result (mlir_prog_chain (Suc (length (ops g))) g s dead un u) (\<lambda>ws.
                    if ws = [] then Inr st
                    else bind_result (collect_progs s (un # map snd ws)) (\<lambda>ps.
                         bind_result (node_prog s un) (\<lambda>pu.
                         bind_result (fuse ps pu) (\<lambda>p.
                         bind_result
                           (for_each erase_op (rev (map fst ws)) (replace_all_uses (fst (last ws)) u g)) (\<lambda>g1.
                         Inr (g1, set_prog un p s, dead @ rev (map fst ws)))))))))"

definition mlir_prog_fuse ::
  "(prog list \<Rightarrow> prog \<Rightarrow> prog result) \<Rightarrow> cg_graph \<Rightarrow> store \<Rightarrow> (cg_graph \<times> store) result" where
  "mlir_prog_fuse fuse g s =
     bind_result (for_each (mlir_prog_fuse_op fuse) (filter (is_prog_op g) (body g)) (g, s, [])) (\<lambda>(g1, s1, _).
     Inr (g1, s1))"

end
