(* ===== verification/Mlir_Batch.thy ===== *)
theory Mlir_Batch
  imports Mlir_Graph
begin

text \<open>
  \<^verbatim>\<open>cg-batch\<close> (\<^verbatim>\<open>src/mlir/passes/Batch.cpp\<close>): greedy contraction of same-device false twins and
  series on a scratch graph of index sets, then one \<^verbatim>\<open>cg.batch\<close> operation per group of at
  least two commands. Unlike the flood-fill of the legacy pass, a step merges two nodes only.
\<close>

subsection \<open>The scratch graph\<close>

definition is_entry_exit :: "cg_graph \<Rightarrow> op_ref \<Rightarrow> bool" where
  "is_entry_exit m o' = (case payload (op_at m o') of Empty_op en ex \<Rightarrow> en \<or> ex | _ \<Rightarrow> False)"

definition is_empty_op :: "cg_graph \<Rightarrow> op_ref \<Rightarrow> bool" where
  "is_empty_op m o' = (case payload (op_at m o') of Empty_op _ _ \<Rightarrow> True | _ \<Rightarrow> False)"

record scratch =
  sdev :: "32 word list"
  scand :: "bool list"
  salive :: "bool list"
  spreds :: "nat set list"
  ssuccs :: "nat set list"
  smembers :: "op_ref list list"

definition index_in :: "cg_graph \<Rightarrow> op_ref \<Rightarrow> nat" where
  "index_in m o' = length (takeWhile (\<lambda>x. x \<noteq> o') (body m))"

definition scratch_of :: "cg_graph \<Rightarrow> scratch" where
  "scratch_of m =
     (let n = length (body m);
          preds_of = (\<lambda>i. index_in m ` (set (operands (op_at m (body m ! i))) \<inter> set (body m)))
      in \<lparr>sdev = map (\<lambda>o'. duid (op_at m o')) (body m),
          scand = map (\<lambda>o'. \<not> is_entry_exit m o') (body m),
          salive = replicate n True,
          spreds = map preds_of [0..<n],
          ssuccs = map (\<lambda>j. set (filter (\<lambda>i. j \<in> preds_of i) [0..<n])) [0..<n],
          smembers = map (\<lambda>o'. [o']) (body m)\<rparr>)"

definition can_batch :: "scratch \<Rightarrow> nat \<Rightarrow> nat \<Rightarrow> bool" where
  "can_batch x a b \<longleftrightarrow>
     a \<noteq> b \<and> salive x ! a \<and> salive x ! b \<and> scand x ! a \<and> scand x ! b \<and> sdev x ! a = sdev x ! b"

definition scratch_twins :: "scratch \<Rightarrow> nat \<Rightarrow> nat \<Rightarrow> bool" where
  "scratch_twins x a b \<longleftrightarrow> spreds x ! a = spreds x ! b \<and> ssuccs x ! a = ssuccs x ! b"

definition scratch_seq :: "scratch \<Rightarrow> nat \<Rightarrow> nat \<Rightarrow> bool" where
  "scratch_seq x a b \<longleftrightarrow> ssuccs x ! a = {b} \<and> spreds x ! b = {a}"

text \<open>\<^verbatim>\<open>merge(a, b)\<close>: the two loops, the self-loops, the members, and \<open>b\<close> emptied.\<close>

definition upd_nth :: "nat \<Rightarrow> ('a \<Rightarrow> 'a) \<Rightarrow> 'a list \<Rightarrow> 'a list" where
  "upd_nth i f xs = xs[i := f (xs ! i)]"

definition merge_pred :: "nat \<Rightarrow> nat \<Rightarrow> nat \<Rightarrow> scratch \<Rightarrow> scratch" where
  "merge_pred a b p x =
     (if p = a then x
      else x\<lparr>ssuccs := upd_nth p (\<lambda>ss. insert a (ss - {b})) (ssuccs x),
             spreds := upd_nth a (insert p) (spreds x)\<rparr>)"

definition merge_succ :: "nat \<Rightarrow> nat \<Rightarrow> nat \<Rightarrow> scratch \<Rightarrow> scratch" where
  "merge_succ a b y x =
     (if y = a then x
      else x\<lparr>spreds := upd_nth y (\<lambda>ps. insert a (ps - {b})) (spreds x),
             ssuccs := upd_nth a (insert y) (ssuccs x)\<rparr>)"

definition merge_scratch :: "nat \<Rightarrow> nat \<Rightarrow> scratch \<Rightarrow> scratch" where
  "merge_scratch a b x =
     (let x1 = fold (merge_pred a b) (sorted_list_of_set (spreds x ! b)) x;
          x2 = fold (merge_succ a b) (sorted_list_of_set (ssuccs x1 ! b)) x1
      in x2\<lparr>spreds := (upd_nth a (\<lambda>ps. ps - {b} - {a}) (spreds x2))[b := {}],
            ssuccs := (upd_nth a (\<lambda>ss. ss - {b} - {a}) (ssuccs x2))[b := {}],
            smembers := upd_nth a (\<lambda>ms. ms @ smembers x2 ! b) (smembers x2),
            salive := (salive x2)[b := False]\<rparr>)"

subsection \<open>Greedy contraction\<close>

text \<open>The candidate that the three searches of one round find, in the order of the sets.\<close>

definition twin_candidate :: "scratch \<Rightarrow> nat \<Rightarrow> nat option" where
  "twin_candidate x i =
     find (\<lambda>v. can_batch x i v \<and> scratch_twins x i v)
       (concat (map (\<lambda>p. sorted_list_of_set (ssuccs x ! p)) (sorted_list_of_set (spreds x ! i))))"

definition succ_candidate :: "scratch \<Rightarrow> nat \<Rightarrow> nat option" where
  "succ_candidate x i = find (\<lambda>v. can_batch x i v \<and> scratch_seq x i v) (sorted_list_of_set (ssuccs x ! i))"

definition pred_candidate :: "scratch \<Rightarrow> nat \<Rightarrow> nat option" where
  "pred_candidate x i = find (\<lambda>v. can_batch x i v \<and> scratch_seq x v i) (sorted_list_of_set (spreds x ! i))"

definition merge_candidate :: "scratch \<Rightarrow> nat \<Rightarrow> nat option" where
  "merge_candidate x i =
     (case twin_candidate x i of
        Some v \<Rightarrow> Some v
      | None \<Rightarrow> (case succ_candidate x i of Some v \<Rightarrow> Some v | None \<Rightarrow> pred_candidate x i))"

text \<open>
  \<^verbatim>\<open>while (!q.empty())\<close>: a round that finds a candidate kills one node and queues one index, any
  other round shortens the queue, so twice the number of nodes is enough rounds.
\<close>

fun greedy :: "nat \<Rightarrow> nat list \<Rightarrow> scratch \<Rightarrow> scratch result" where
  "greedy fuel [] x = Inr x"
| "greedy 0 (i # q) x = Inl Diverges"
| "greedy (Suc fuel) (i # q) x =
     (if \<not> salive x ! i \<or> \<not> scand x ! i then greedy fuel q x
      else case merge_candidate x i of
             Some v \<Rightarrow> greedy fuel (q @ [i]) (merge_scratch i v x)
           | None \<Rightarrow> greedy fuel q x)"

subsection \<open>Groups\<close>

definition group_commands :: "cg_graph \<Rightarrow> op_ref list \<Rightarrow> op_ref list" where
  "group_commands m ms = filter (\<lambda>o'. \<not> is_empty_op m o') ms"

definition group_of :: "cg_graph \<Rightarrow> scratch \<Rightarrow> nat \<Rightarrow> (op_ref list \<times> 32 word) list" where
  "group_of m x i =
     (if salive x ! i \<and> scand x ! i \<and> 2 \<le> length (smembers x ! i)
      then case group_commands m (smembers x ! i) of
             c # _ # _ \<Rightarrow> [(smembers x ! i, duid (op_at m c))]
           | _ \<Rightarrow> []
      else [])"

subsection \<open>Materialisation\<close>

definition set_vector_tokens :: "op_ref list \<Rightarrow> op_ref list" where
  "set_vector_tokens xs = fold (\<lambda>x acc. if x \<in> set acc then acc else acc @ [x]) xs []"

definition external_preds :: "cg_graph \<Rightarrow> op_ref list \<Rightarrow> op_ref list" where
  "external_preds m ms =
     set_vector_tokens (concat (map (\<lambda>o'. filter (\<lambda>t. t \<notin> set ms) (operands (op_at m o'))) ms))"

definition redirect_uses :: "op_ref \<Rightarrow> op_ref list \<Rightarrow> op_ref \<Rightarrow> cg_graph \<Rightarrow> cg_graph" where
  "redirect_uses batch_op ms o' m =
     fold (\<lambda>u. upd_op u (\<lambda>x. x\<lparr>operands := map (\<lambda>t. if t = o' then batch_op else t) (operands x)\<rparr>))
       (filter (\<lambda>u. u \<noteq> batch_op \<and> u \<notin> set ms) (live m)) m"

definition materialize_batch :: "op_ref list \<times> 32 word \<Rightarrow> cg_graph \<Rightarrow> cg_graph" where
  "materialize_batch grp m =
     (let ms = fst grp;
          (batch_op, m1) = create_op (snd grp) (Batch_op []) (external_preds m ms) m;
          m2 = fold (redirect_uses batch_op ms) ms m1;
          m3 = upd_op batch_op (\<lambda>x. x\<lparr>payload := Batch_op ms\<rparr>)
                 (m2\<lparr>body := filter (\<lambda>o'. o' \<notin> set ms) (body m2)\<rparr>)
      in fold (\<lambda>o'. upd_op o' (\<lambda>x. x\<lparr>operands := filter (\<lambda>t. t \<in> set ms) (operands x)\<rparr>)) ms m3)"

definition mlir_batch :: "cg_graph \<Rightarrow> cg_graph result" where
  "mlir_batch m =
     (let n = length (body m) in
      if n = 0 then Inr m
      else
        let x0 = scratch_of m
        in bind_result (greedy (2 * n) (filter (\<lambda>i. scand x0 ! i) [0..<n]) x0) (\<lambda>x.
           Inr (fold materialize_batch (concat (map (group_of m x) [0..<n])) m)))"

end
