(* ===== verification/Mlir_Optimize.thy ===== *)
theory Mlir_Optimize
  imports Mlir_Passes Mlir_Batch
begin

text \<open>
  The MLIR side of the dispatcher (\<^verbatim>\<open>src/mlir/optimize.cpp\<close>): the factory of the passes and the
  run of one pass between an import and an export. The verifier and the pass manager of MLIR
  are not code of the repository: the verifier is the parameter \<open>verified\<close>, and the pass
  manager runs the pass.
\<close>

text \<open>
  What the MLIR pipeline takes from outside: the unspecified orders and the verifier. \<open>fuse\<close> is
  the LLVM core of program fusion, shared with the legacy pass.
\<close>

record mlir_externals =
  mx_users :: "op_ref list \<Rightarrow> op_ref list"
  mx_dead :: "op_ref list \<Rightarrow> op_ref list"
  mx_verified :: "cg_graph \<Rightarrow> bool"

text \<open>\<^verbatim>\<open>create_pass\<close>: None is the null pointer.\<close>

fun create_pass ::
  "(prog list \<Rightarrow> prog \<Rightarrow> prog result) \<Rightarrow> mlir_externals \<Rightarrow> command_graph_pass \<Rightarrow> (cg_graph \<times> store \<Rightarrow> (cg_graph \<times> store) result) option" where
  "create_pass fuse x COMMAND_GRAPH_PASS_COPY_NORMALIZE =
     Some (\<lambda>(m, s). bind_result (mlir_copy_normalize m) (\<lambda>m. Inr (m, s)))"
| "create_pass fuse x COMMAND_GRAPH_PASS_COPY_FUSE =
     Some (\<lambda>(m, s). bind_result (mlir_copy_fuse (mx_users x) (mx_dead x) m) (\<lambda>m. Inr (m, s)))"
| "create_pass fuse x COMMAND_GRAPH_PASS_REDUCE_NODE =
     Some (\<lambda>(m, s). bind_result (mlir_reduce_node (mx_users x) m) (\<lambda>m. Inr (m, s)))"
| "create_pass fuse x COMMAND_GRAPH_PASS_REDUCE_EDGE =
     Some (\<lambda>(m, s). bind_result (mlir_reduce_edge (mx_users x) m) (\<lambda>m. Inr (m, s)))"
| "create_pass fuse x COMMAND_GRAPH_PASS_PROG_FUSE = Some (\<lambda>(m, s). mlir_prog_fuse fuse m s)"
| "create_pass fuse x COMMAND_GRAPH_PASS_JIT = None"
| "create_pass fuse x COMMAND_GRAPH_PASS_SEQUENCE = None"
| "create_pass fuse x COMMAND_GRAPH_PASS_BATCH =
     Some (\<lambda>(m, s). bind_result (mlir_batch m) (\<lambda>m. Inr (m, s)))"
| "create_pass fuse x COMMAND_GRAPH_PASS_MAX = None"

text \<open>\<open>legacy\<close> is \<^verbatim>\<open>optimize_legacy\<close>, the fall-back of the passes that are not ported.\<close>

definition command_graph_optimize_mlir ::
  "(prog list \<Rightarrow> prog \<Rightarrow> prog result) \<Rightarrow> mlir_externals \<Rightarrow> (command_graph_pass \<Rightarrow> graph_ref \<Rightarrow> store \<Rightarrow> store result)
     \<Rightarrow> command_graph_pass \<Rightarrow> graph_ref \<Rightarrow> store \<Rightarrow> store result" where
  "command_graph_optimize_mlir fuse x legacy pass g s =
     (case create_pass fuse x pass of
        None \<Rightarrow> legacy pass g s
      | Some p \<Rightarrow>
          bind_result (import_command_graph g s) (\<lambda>(s1, m).
          if \<not> mx_verified x m then Inl Aborted
          else bind_result (p (m, s1)) (\<lambda>(m', s2). export_command_graph m' g s2)))"

end
