(* ===== verification/Dispatch.thy ===== *)
theory Dispatch
  imports Reduce_Node Reduce_Edge Copy_Fuse Prog_Fuse Sequence Batch Dump Mlir_Optimize
begin

text \<open>
  The optimization dispatcher (\<^verbatim>\<open>src/cgir.cc\<close>) and \<^verbatim>\<open>optimize_legacy\<close>: which implementation
  of a pass runs, the dump and statistics switches read from the environment and cached, the
  dump file names, and the metrics of a graph.
\<close>

subsection \<open>The legacy passes\<close>

text \<open>
  What the passes take from outside the modelled code: the LLVM core of program fusion and
  jit, the iteration orders of the batch pass, and what the MLIR pipeline leaves open.
\<close>

record externals =
  ext_fuse :: "prog list \<Rightarrow> prog \<Rightarrow> prog result"
  ext_jit :: "prog \<Rightarrow> prog result"
  ext_order :: "nat list \<Rightarrow> nat list"
  ext_mat_order :: "island_mat list \<Rightarrow> island_mat list"
  ext_mlir :: mlir_externals

fun optimize_legacy :: "externals \<Rightarrow> command_graph_pass \<Rightarrow> graph_ref \<Rightarrow> store \<Rightarrow> store result" where
  "optimize_legacy x COMMAND_GRAPH_PASS_COPY_NORMALIZE g s = pass_copy_normalize g s"
| "optimize_legacy x COMMAND_GRAPH_PASS_COPY_FUSE g s = pass_copy_fuse g s"
| "optimize_legacy x COMMAND_GRAPH_PASS_REDUCE_NODE g s = pass_reduce_node g s"
| "optimize_legacy x COMMAND_GRAPH_PASS_REDUCE_EDGE g s = pass_reduce_edge g s"
| "optimize_legacy x COMMAND_GRAPH_PASS_PROG_FUSE g s = pass_prog_fuse (ext_fuse x) g s"
| "optimize_legacy x COMMAND_GRAPH_PASS_JIT g s = pass_jit (ext_jit x) g s"
| "optimize_legacy x COMMAND_GRAPH_PASS_SEQUENCE g s = pass_sequence g s"
| "optimize_legacy x COMMAND_GRAPH_PASS_BATCH g s = pass_batch (ext_order x) (ext_mat_order x) g s"
| "optimize_legacy x COMMAND_GRAPH_PASS_MAX g s = Inl Aborted"

subsection \<open>Metrics\<close>

record cg_metrics =
  m_nodes :: nat
  m_edges :: nat
  m_empty :: nat
  m_command :: nat
  m_graph :: nat
  m_condition :: nat
  m_prog :: nat
  m_copy1d :: nat
  m_copy2d :: nat
  m_batch :: nat

definition zero_metrics :: cg_metrics where
  "zero_metrics = \<lparr>m_nodes = 0, m_edges = 0, m_empty = 0, m_command = 0, m_graph = 0, m_condition = 0,
     m_prog = 0, m_copy1d = 0, m_copy2d = 0, m_batch = 0\<rparr>"

definition count_command_type :: "command_type \<Rightarrow> cg_metrics \<Rightarrow> cg_metrics" where
  "count_command_type t m =
     (if t = COMMAND_TYPE_PROG then m\<lparr>m_prog := m_prog m + 1\<rparr>
      else if is_copy_1D_type t then m\<lparr>m_copy1d := m_copy1d m + 1\<rparr>
      else if is_copy_2D_type t then m\<lparr>m_copy2d := m_copy2d m + 1\<rparr>
      else if t = COMMAND_TYPE_BATCH then m\<lparr>m_batch := m_batch m + 1\<rparr>
      else m)"

definition count_node :: "node_ref \<Rightarrow> store \<times> cg_metrics \<Rightarrow> store \<times> cg_metrics" where
  "count_node u sm =
     (let s = fst sm; m0 = snd sm; n = node_at s u;
          m = m0\<lparr>m_nodes := m_nodes m0 + 1, m_edges := m_edges m0 + length (successors n)\<rparr>
      in (s, case ntype n of
               COMMAND_GRAPH_NODE_TYPE_EMPTY \<Rightarrow> m\<lparr>m_empty := m_empty m + 1\<rparr>
             | COMMAND_GRAPH_NODE_TYPE_COMMAND \<Rightarrow>
                 (let m1 = m\<lparr>m_command := m_command m + 1\<rparr>
                  in case ncommand n of
                       None \<Rightarrow> m1
                     | Some c \<Rightarrow> count_command_type (ctype (commands s ! c)) m1)
             | COMMAND_GRAPH_NODE_TYPE_COMMAND_GRAPH \<Rightarrow> m\<lparr>m_graph := m_graph m + 1\<rparr>
             | COMMAND_GRAPH_NODE_TYPE_CONDITION \<Rightarrow> m\<lparr>m_condition := m_condition m + 1\<rparr>))"

definition stats_compute_metrics :: "graph_ref \<Rightarrow> store \<Rightarrow> store \<times> cg_metrics" where
  "stats_compute_metrics g s =
     walk_from_entry COMMAND_GRAPH_WALK_SEARCH_DFS COMMAND_GRAPH_WALK_ORDER_PRE g count_node
       (s, zero_metrics)"

subsection \<open>Paths\<close>

text \<open>
  \<^verbatim>\<open>optimize_dump_mkdir_p\<close>: \<open>mk\<close> answers whether \<^verbatim>\<open>mkdir\<close> succeeded or the directory existed;
  the result is the answer and the paths it was called on. \<open>rest\<close> is the path from position
  \<^verbatim>\<open>i\<close> on.
\<close>

function mkdir_p_loop :: "(string \<Rightarrow> bool) \<Rightarrow> string \<Rightarrow> string \<Rightarrow> bool \<times> string list" where
  "mkdir_p_loop mk partial rest =
     (if rest = [] then (True, [])
      else let seg = takeWhile (\<lambda>c. c \<noteq> CHR ''/'') rest; p = partial @ seg;
               next = drop (length seg + 1) rest
           in if p \<noteq> [] \<and> \<not> mk p then (False, [p])
              else let (ok, calls) = mkdir_p_loop mk (p @ ''/'') next
                   in (ok, (if p = [] then [] else [p]) @ calls))"
  by pat_completeness auto
termination by (relation "measure (\<lambda>(mk, partial, rest). length rest)") auto

declare mkdir_p_loop.simps [simp del]

definition mkdir_p :: "(string \<Rightarrow> bool) \<Rightarrow> string \<Rightarrow> bool \<times> string list" where
  "mkdir_p mk path =
     (if path \<noteq> [] \<and> hd path = CHR ''/'' then mkdir_p_loop mk ''/'' (tl path)
      else mkdir_p_loop mk [] path)"

text \<open>The environment and the file system the dispatcher sees.\<close>

record environment =
  getenv :: "string \<Rightarrow> string option"
  mkdir_ok :: "string \<Rightarrow> bool"
  fopen_ok :: "string \<Rightarrow> bool"

definition base_dir_of :: "environment \<Rightarrow> string" where
  "base_dir_of env =
     (let b = (case getenv env ''CGIR_OPTIMIZE_DUMP'' of
                 Some (c # cs) \<Rightarrow>
                   if c = CHR ''/'' then c # cs
                   else (case getenv env ''HOME'' of Some h \<Rightarrow> h | None \<Rightarrow> ''.'') @ ''/.cgir/tmp''
               | _ \<Rightarrow> (case getenv env ''HOME'' of Some h \<Rightarrow> h | None \<Rightarrow> ''.'') @ ''/.cgir/tmp'')
      in if fst (mkdir_p (mkdir_ok env) b) then b else [])"

definition dump_path :: "string \<Rightarrow> 32 word \<Rightarrow> command_graph_pass \<Rightarrow> string \<Rightarrow> string" where
  "dump_path base seq pass phase =
     base @ ''/optimize-'' @ decimal (unat seq) @ ''-'' @ command_graph_pass_to_str pass @ ''-'' @
     phase @ ''.dot''"

text \<open>A switch is on when its variable is set to anything but the empty string and \<^verbatim>\<open>0\<close>.\<close>

definition switch_value :: "environment \<Rightarrow> string \<Rightarrow> string option" where
  "switch_value env var =
     (case getenv env var of
        None \<Rightarrow> None
      | Some v \<Rightarrow> if v \<noteq> [] \<and> v \<noteq> ''0'' then Some v else None)"

subsection \<open>The process state\<close>

text \<open>
  The function-local statics: \<open>None\<close> until first read. \<open>outputs\<close> is what was written, oldest
  first, and \<open>csv_started\<close> whether the CSV file has content.
\<close>

datatype io_output =
    Dot_file string "dump_line list"
  | Csv_header string
  | Csv_row string string "32 word" string cg_metrics cg_metrics
  | Warning string

record process =
  mlir_cache :: "bool option"
  dump_cache :: "bool option"
  base_cache :: "string option"
  stats_cache :: "string option option"
  seq_counter :: "32 word"
  csv_started :: bool
  outputs :: "io_output list"

definition use_mlir_optimizer :: "environment \<Rightarrow> process \<Rightarrow> bool \<times> process" where
  "use_mlir_optimizer env p =
     (case mlir_cache p of
        Some b \<Rightarrow> (b, p)
      | None \<Rightarrow> let b = (getenv env ''CGIR_OPTIMIZER'' = Some ''mlir'') in (b, p\<lparr>mlir_cache := Some b\<rparr>))"

definition optimize_dump_enabled :: "environment \<Rightarrow> process \<Rightarrow> bool \<times> process" where
  "optimize_dump_enabled env p =
     (case dump_cache p of
        Some b \<Rightarrow> (b, p)
      | None \<Rightarrow> let b = (switch_value env ''CGIR_OPTIMIZE_DUMP'' \<noteq> None)
                in (b, p\<lparr>dump_cache := Some b\<rparr>))"

definition stats_csv_path :: "environment \<Rightarrow> process \<Rightarrow> string option \<times> process" where
  "stats_csv_path env p =
     (case stats_cache p of
        Some r \<Rightarrow> (r, p)
      | None \<Rightarrow> let r = switch_value env ''CGIR_STATS_CSV'' in (r, p\<lparr>stats_cache := Some r\<rparr>))"

definition optimize_dump_base_dir :: "environment \<Rightarrow> process \<Rightarrow> string \<times> process" where
  "optimize_dump_base_dir env p =
     (case base_cache p of
        Some b \<Rightarrow> (b, p)
      | None \<Rightarrow> let b = base_dir_of env in (b, p\<lparr>base_cache := Some b\<rparr>))"

definition optimize_dump_make_seq :: "process \<Rightarrow> 32 word \<times> process" where
  "optimize_dump_make_seq p = (seq_counter p, p\<lparr>seq_counter := seq_counter p + 1\<rparr>)"

definition optimize_dump_graph ::
  "environment \<Rightarrow> nat \<Rightarrow> graph_ref \<Rightarrow> 32 word \<Rightarrow> command_graph_pass \<Rightarrow> string
     \<Rightarrow> process \<times> store \<Rightarrow> (process \<times> store) result" where
  "optimize_dump_graph env depth g seq pass phase ps =
     (let (base, p1) = optimize_dump_base_dir env (fst ps) in
      if base = [] then Inr (p1, snd ps)
      else let path = dump_path base seq pass phase in
        if \<not> fopen_ok env path then Inr (p1\<lparr>outputs := outputs p1 @ [Warning path]\<rparr>, snd ps)
        else bind_result (dump depth g (snd ps)) (\<lambda>(s1, ls).
          Inr (p1\<lparr>outputs := outputs p1 @ [Dot_file path ls]\<rparr>, s1)))"

definition stats_emit ::
  "environment \<Rightarrow> command_graph_pass \<Rightarrow> 32 word \<Rightarrow> cg_metrics \<Rightarrow> cg_metrics \<Rightarrow> process \<Rightarrow> process" where
  "stats_emit env pass seq b a p =
     (case stats_csv_path env p of
        (None, p1) \<Rightarrow> p1
      | (Some path, p1) \<Rightarrow>
          if \<not> fopen_ok env path then p1\<lparr>outputs := outputs p1 @ [Warning path]\<rparr>
          else p1\<lparr>outputs := outputs p1 @ (if csv_started p1 then [] else [Csv_header path]) @
                    [Csv_row path (case getenv env ''CGIR_STATS_TAG'' of None \<Rightarrow> [] | Some t \<Rightarrow> t) seq
                       (command_graph_pass_to_str pass) b a],
                  csv_started := True\<rparr>)"

text \<open>
  \<^verbatim>\<open>command_graph_optimize\<close>. \<open>mlir_built\<close> is the build option \<^verbatim>\<open>CGIR_USE_MLIR\<close>, \<open>depth\<close> bounds
  the dump's nesting; the wall-clock column of the statistics is left out of the rows.
\<close>

definition command_graph_optimize ::
  "externals \<Rightarrow> bool \<Rightarrow> environment \<Rightarrow> nat \<Rightarrow> graph_ref \<Rightarrow> command_graph_pass
     \<Rightarrow> process \<times> store \<Rightarrow> (process \<times> store) result" where
  "command_graph_optimize x mlir_built env depth g pass ps =
     (let (dump_on, p1) = optimize_dump_enabled env (fst ps);
          (path, p2) = stats_csv_path env p1;
          stats = (path \<noteq> None);
          (seq, p3) = (if dump_on \<or> stats then optimize_dump_make_seq p2 else (0, p2))
      in bind_result
           (if dump_on then optimize_dump_graph env depth g seq pass ''before'' (p3, snd ps)
            else Inr (p3, snd ps)) (\<lambda>(p4, s1).
         let (s2, before) = (if stats then stats_compute_metrics g s1 else (s1, zero_metrics));
             (mlir, p5) = (if mlir_built then use_mlir_optimizer env p4 else (False, p4))
         in bind_result (if mlir
                        then command_graph_optimize_mlir (ext_fuse x) (ext_mlir x) (optimize_legacy x) pass g s2
                        else optimize_legacy x pass g s2) (\<lambda>s3.
            let (p6, s4) =
                  (if stats
                   then let (s4, after) = stats_compute_metrics g s3
                        in (stats_emit env pass seq before after p5, s4)
                   else (p5, s3))
            in if dump_on then optimize_dump_graph env depth g seq pass ''after'' (p6, s4)
               else Inr (p6, s4))))"

text \<open>\<^verbatim>\<open>command_graph_t::optimize\<close> with a set of passes, through the dispatcher.\<close>

definition optimize ::
  "externals \<Rightarrow> bool \<Rightarrow> environment \<Rightarrow> nat \<Rightarrow> graph_ref \<Rightarrow> pass_set
     \<Rightarrow> process \<times> store \<Rightarrow> (process \<times> store) result" where
  "optimize x mlir_built env depth g passes ps =
     optimize_set (command_graph_optimize x mlir_built env depth g) passes ps"

end
