(* ===== verification/Chain.thy ===== *)
theory Chain
  imports Pass_Contract
begin

text \<open>
  Chains of nodes, each the only successor of the one before and it its only predecessor: what
  prog-fuse absorbs and sequence turns into sub-graphs, and the flags both keep of visited nodes.
\<close>

subsection \<open>Sequences as edges\<close>

definition seq_edge :: "('a \<times> 'a) set \<Rightarrow> 'a \<Rightarrow> 'a \<Rightarrow> bool" where
  "seq_edge E a b \<longleftrightarrow> (\<forall>x. (a, x) \<in> E \<longleftrightarrow> x = b) \<and> (\<forall>x. (x, b) \<in> E \<longleftrightarrow> x = a)"

lemma distinct_singleton: "distinct xs \<Longrightarrow> length xs = 1 \<and> hd xs = x \<longleftrightarrow> set xs = {x}"
  by (cases xs rule: remdups_adj.cases) auto

lemma are_sequence_edges:
  assumes "wf_adj s V" "a \<in> V" "b \<in> V"
  shows "are_sequence s a b \<longleftrightarrow> seq_edge (edges s V) a b"
  unfolding are_sequence_def seq_edge_def
    distinct_singleton [OF wf_adjD(4) [OF assms(1,2)]] distinct_singleton [OF wf_adjD(5) [OF assms(1,3)]]
  using wf_adj_succs_edges [OF assms(1,2)] wf_adj_preds_edges [OF assms(1,3)] by blast

text \<open>Bypassing the second node of a sequence keeps the later ones, and joins the first two.\<close>

lemma seq_edge_bypass:
  assumes "seq_edge E u w" "acyclic E"
  shows "seq_edge E w x \<Longrightarrow> seq_edge (bypass w E) u x"
    and "seq_edge E a b \<Longrightarrow> a \<noteq> w \<Longrightarrow> b \<noteq> w \<Longrightarrow> seq_edge (bypass w E) a b"
proof -
  have irr: "(z, z) \<notin> E" for z using assms(2) by (auto simp: acyclic_def)
  have uw: "u \<noteq> w" using assms(1) irr by (auto simp: seq_edge_def)
  show "seq_edge E w x \<Longrightarrow> seq_edge (bypass w E) u x"
    using assms(1) uw irr unfolding seq_edge_def bypass_def by auto
  show "seq_edge E a b \<Longrightarrow> a \<noteq> w \<Longrightarrow> b \<noteq> w \<Longrightarrow> seq_edge (bypass w E) a b"
    using assms(1) uw irr unfolding seq_edge_def bypass_def by auto
qed

text \<open>A chain that starts after \<open>a\<close>.\<close>

fun seq_chain :: "('a \<times> 'a) set \<Rightarrow> 'a \<Rightarrow> 'a list \<Rightarrow> bool" where
  "seq_chain E a [] = True"
| "seq_chain E a (b # bs) = (seq_edge E a b \<and> seq_chain E b bs)"

lemma seq_chain_reach: "seq_chain E a bs \<Longrightarrow> b \<in> set bs \<Longrightarrow> (a, b) \<in> E\<^sup>+"
  by (induction bs arbitrary: a) (auto simp: seq_edge_def intro: trancl_into_trancl2)

lemma seq_chain_bypass:
  assumes "seq_edge E u w" "acyclic E"
  shows "seq_chain E a bs \<Longrightarrow> a \<noteq> w \<Longrightarrow> w \<notin> set bs \<Longrightarrow> seq_chain (bypass w E) a bs"
  by (induction bs arbitrary: a) (auto intro: seq_edge_bypass(2) [OF assms])

lemma seq_chain_join:
  assumes "seq_chain E u (w # ws)" "acyclic E"
  shows "seq_chain (bypass w E) u ws"
proof (cases ws)
  case (Cons x xs)
  have uw: "seq_edge E u w" and wx: "seq_edge E w x" and xs: "seq_chain E x xs"
    using assms(1) Cons by simp_all
  have "w \<notin> set (x # xs)"
    using seq_chain_reach [of E w "x # xs" w] wx xs assms(2) unfolding acyclic_def by auto
  then show ?thesis
    using Cons seq_edge_bypass(1) [OF uw assms(2) wx] seq_chain_bypass [OF uw assms(2) xs] by auto
qed simp

text \<open>The nodes ahead of \<open>a\<close>: they bound the length of the chain from \<open>a\<close>.\<close>

definition ahead :: "('a \<times> 'a) set \<Rightarrow> 'a \<Rightarrow> 'a set" where
  "ahead E a = {x. (a, x) \<in> E\<^sup>+}"

lemma ahead_subset: "E \<subseteq> V \<times> V \<Longrightarrow> ahead E a \<subseteq> V"
  unfolding ahead_def using trancl_subset_Sigma by blast

lemma ahead_step:
  assumes "finite V" "E \<subseteq> V \<times> V" "acyclic E" "(a, b) \<in> E"
  shows "card (ahead E b) < card (ahead E a)"
proof (rule psubset_card_mono)
  show "finite (ahead E a)" using ahead_subset [OF assms(2)] assms(1) finite_subset by blast
  have "b \<in> ahead E a" "b \<notin> ahead E b"
    using assms(3,4) by (auto simp: ahead_def acyclic_def)
  moreover have "ahead E b \<subseteq> ahead E a"
    using assms(4) by (auto simp: ahead_def intro: trancl_into_trancl2)
  ultimately show "ahead E b \<subset> ahead E a" by blast
qed

subsection \<open>The flags of a pass\<close>

text \<open>The flags \<^verbatim>\<open>contracted\<close>, set at the iterator indices of some nodes.\<close>

abbreviation set_flags :: "store \<Rightarrow> node_ref list \<Rightarrow> bool list \<Rightarrow> bool list" where
  "set_flags s \<equiv> fold (\<lambda>w c. c[iterator_index (node_at s w) := True])"

lemma set_flags_length [simp]: "length (set_flags s ws c) = length c"
  by (induction ws arbitrary: c) simp_all

lemma set_flag_nth: "j < length c \<Longrightarrow> c[i := True] ! j \<longleftrightarrow> c ! j \<or> j = i"
  by (cases "j = i") simp_all

lemma set_flags_nth:
  "j < length c \<Longrightarrow> set_flags s ws c ! j \<longleftrightarrow> c ! j \<or> j \<in> (\<lambda>w. iterator_index (node_at s w)) ` set ws"
  by (induction ws arbitrary: c) (simp_all add: set_flag_nth disj_assoc insert_commute)

end
