(* ===== verification/Prog_Fuse_Props.thy ===== *)
theory Prog_Fuse_Props
  imports Prog_Fuse Chain
begin

text \<open>
  The program-fusion pass and the jit pass meet the contract of theory Pass\_Contract: on a
  well-formed graph none of their assertions fails, the loop along a chain ends, chains are
  absorbed into their heads, and reachability among the remaining nodes is that of the graph
  before.
\<close>

subsection \<open>Collecting a chain\<close>

lemma llvmir_node_prog:
  assumes "node_is_llvmir_prog s u"
  obtains c p where "ntype (node_at s u) = COMMAND_GRAPH_NODE_TYPE_COMMAND" "ncommand (node_at s u) = Some c"
    "ctype (commands s ! c) = COMMAND_TYPE_PROG" "node_prog s u = Inr p"
  using assms
  by (auto simp: node_is_llvmir_prog_def node_prog_def get_command_def split: option.splits sum.splits)

lemma collect_progs_ok:
  "(\<And>w. w \<in> set ws \<Longrightarrow> node_is_llvmir_prog s w) \<Longrightarrow>
     \<exists>ps. collect_progs s ws = Inr ps \<and> length ps = length ws"
proof (induction ws)
  case (Cons w ws)
  obtain p where "node_prog s w = Inr p" using Cons.prems llvmir_node_prog by (metis list.set_intros(1))
  then show ?case using Cons by auto
qed simp

lemma prog_chain_ok:
  assumes adj: "wf_adj s V" "acyclic (edges s V)" and u: "node_is_llvmir_prog s u"
  shows "cur \<in> V \<Longrightarrow> card (ahead (edges s V) cur) < fuel \<Longrightarrow>
    \<exists>ws. prog_chain fuel s u cur = Inr ws \<and> seq_chain (edges s V) cur ws \<and> set ws \<subseteq> V \<and>
      (\<forall>w\<in>set ws. node_is_llvmir_prog s w)"
proof (induction fuel arbitrary: cur)
  case (Suc fuel)
  obtain pu where pu: "node_prog s u = Inr pu" using u llvmir_node_prog by metis
  let ?w = "hd (succs s cur)"
  show ?case
  proof (cases "length (succs s cur) = 1 \<and> node_is_llvmir_prog s ?w \<and> are_sequence s cur ?w")
    case True
    then have "?w \<in> set (succs s cur)" by (cases "succs s cur") auto
    then have w: "?w \<in> V" "(cur, ?w) \<in> edges s V"
      using wf_adjD(2) [OF adj(1) Suc.prems(1)] Suc.prems(1) by (auto simp: edges_def)
    have "card (ahead (edges s V) ?w) < card (ahead (edges s V) cur)"
      by (rule ahead_step [OF wf_adj_finite [OF adj(1)] wf_adj_edges_subset [OF adj(1)] adj(2) w(2)])
    then obtain ws where ws: "prog_chain fuel s u ?w = Inr ws" "seq_chain (edges s V) ?w ws" "set ws \<subseteq> V"
      "\<forall>w\<in>set ws. node_is_llvmir_prog s w"
      using Suc.IH [OF w(1)] Suc.prems(2) by auto
    obtain pw where pw: "node_prog s ?w = Inr pw" using True llvmir_node_prog by metis
    have sq: "seq_edge (edges s V) cur ?w"
      using True are_sequence_edges [OF adj(1) Suc.prems(1) w(1)] by simp
    show ?thesis
    proof (cases "launch_params_equal pu pw")
      case True
      then have "prog_chain (Suc fuel) s u cur = Inr (?w # ws)"
        using \<open>length (succs s cur) = 1 \<and> _\<close> pu pw ws(1) by simp
      then show ?thesis
        using ws(2-4) sq w(1) \<open>length (succs s cur) = 1 \<and> _\<close> by (intro exI [of _ "?w # ws"]) simp
    next
      case False
      then have "prog_chain (Suc fuel) s u cur = Inr []"
        using \<open>length (succs s cur) = 1 \<and> _\<close> pu pw by simp
      then show ?thesis by simp
    qed
  next
    case False
    then have "prog_chain (Suc fuel) s u cur = Inr []" by (auto simp: Let_def)
    then show ?thesis by simp
  qed
qed simp

subsection \<open>Absorbing a chain\<close>

lemma absorb_chain_ok:
  assumes "wf_graph s g V" "u \<in> V" "seq_chain (edges s V) u ws" "set ws \<subseteq> V" "node_get_exit s g \<notin> set ws"
  shows "\<exists>t. absorb_chain u ws (s, c) = Inr (t, set_flags s ws c) \<and> adj_frame s t \<and>
    wf_graph t g (V - set ws) \<and> reduces s g V t (V - set ws)"
  using assms
proof (induction ws arbitrary: s V c)
  case Nil
  then show ?case using reduces_refl by (simp add: absorb_chain_def)
next
  case (Cons w ws)
  note adj = wf_graph_adj [OF Cons.prems(1)] and acy = wf_graph_acyclic [OF Cons.prems(1)]
  have w: "w \<in> V" "w \<noteq> node_get_exit s g" using Cons.prems(4,5) by auto
  have uw: "seq_edge (edges s V) u w" using Cons.prems(3) by simp
  then have e: "(u, w) \<in> edges s V" by (simp add: seq_edge_def)
  then have wu: "u \<noteq> w" using acy by (auto simp: acyclic_def)
  have en: "w \<noteq> node_get_entry s g"
    using wf_graph_edges_iff(1) [OF Cons.prems(1) w(1)] e by blast
  have h: "inplace_hint_holds sequence_hints s u w"
    using uw are_sequence_edges [OF adj Cons.prems(2) w(1)]
    by (simp add: inplace_hint_holds_def sequence_hints_def)
  obtain t where t: "contract sequence_hints u w s = Inr (u, t)" "adj_frame s t" "wf_graph t g (V - {w})"
    "edges t (V - {w}) = bypass w (edges s V)"
    using contract_inplace [OF Cons.prems(1,2) w(1) wu en w(2) h] by (auto simp: sequence_hints_def)
  have red: "reduces s g V t (V - {w})"
    using contract_inplace_reach [OF Cons.prems(1,2) w(1) wu en w(2) h] t(1)
    by (auto simp: reduces_def adj_frameD(5,6) [OF t(2)])
  have "w \<notin> set ws"
    using Cons.prems(3) seq_chain_reach [of "edges s V" w ws w] acy by (auto simp: acyclic_def)
  then have ws: "set ws \<subseteq> V - {w}" "u \<in> V - {w}" "node_get_exit t g \<notin> set ws"
    using Cons.prems(2,4,5) wu by (auto simp: adj_frameD(6) [OF t(2)])
  have "seq_chain (edges t (V - {w})) u ws"
    unfolding t(4) by (rule seq_chain_join [OF Cons.prems(3) acy])
  then obtain r where r: "absorb_chain u ws (t, c[iterator_index (node_at t w) := True]) =
      Inr (r, set_flags t ws (c[iterator_index (node_at t w) := True]))"
    "adj_frame t r" "wf_graph r g (V - {w} - set ws)" "reduces t g (V - {w}) r (V - {w} - set ws)"
    using Cons.IH [OF t(3) ws(2) _ ws(1,3)] by blast
  have V: "V - {w} - set ws = V - set (w # ws)" by auto
  have "absorb_chain u (w # ws) (s, c) = Inr (r, set_flags s (w # ws) c)"
    using t(1) r(1) by (simp add: absorb_chain_def adj_frameD(8) [OF t(2)])
  then show ?case
    using adj_frame_trans [OF t(2) r(2)] r(3) reduces_trans [OF red r(4)] unfolding V by blast
qed

subsection \<open>What a pass on programs changes\<close>

text \<open>
  Nodes keep their labels, only programs change, and a node that is an LLVM-IR program was one
  before.
\<close>

definition progs_only :: "store \<Rightarrow> store \<Rightarrow> bool" where
  "progs_only s t \<longleftrightarrow>
     length (nodes t) = length (nodes s) \<and> length (commands t) = length (commands s) \<and>
     (\<forall>x. ntype (node_at t x) = ntype (node_at s x) \<and> ncommand (node_at t x) = ncommand (node_at s x) \<and>
        iterator_index (node_at t x) = iterator_index (node_at s x) \<and>
        (node_is_llvmir_prog t x \<longrightarrow> node_is_llvmir_prog s x)) \<and>
     (\<forall>c<length (commands s). ctype (commands t ! c) = ctype (commands s ! c) \<and>
        (ctype (commands s ! c) \<noteq> COMMAND_TYPE_PROG \<longrightarrow> commands t ! c = commands s ! c))"

lemma progs_only_refl [simp]: "progs_only s s"
  by (simp add: progs_only_def)

lemma progs_only_trans: "progs_only s t \<Longrightarrow> progs_only t r \<Longrightarrow> progs_only s r"
  unfolding progs_only_def by simp

lemma llvmir_prog_cong:
  "ntype (node_at t x) = ntype (node_at s x) \<Longrightarrow> ncommand (node_at t x) = ncommand (node_at s x) \<Longrightarrow>
     commands t = commands s \<Longrightarrow> node_is_llvmir_prog t x = node_is_llvmir_prog s x"
  by (auto simp: node_is_llvmir_prog_def split: option.split)

lemma progs_only_adj_frame: "adj_frame s t \<Longrightarrow> progs_only s t"
  unfolding progs_only_def
  by (simp add: adj_frameD llvmir_prog_cong [of t _ s])

text \<open>Only the commands matter of what \<open>copies_ok\<close> reads.\<close>

lemma copies_ok_frame:
  assumes "copies_ok s V" "W \<subseteq> V" "commands t = commands s"
    and "\<And>x. x \<in> W \<Longrightarrow> ntype (node_at t x) = ntype (node_at s x) \<and> ncommand (node_at t x) = ncommand (node_at s x)"
  shows "copies_ok t W"
  using assms by (auto simp: copies_ok_def commands_ok_def all_commands_def)

lemma all_commands_upd:
  assumes "all_commands P s" "P (f (commands s ! c))"
  shows "all_commands P (upd_command c f s)"
  unfolding all_commands_def
proof (intro allI impI)
  fix d assume "d < length (commands (upd_command c f s))"
  then show "P (commands (upd_command c f s) ! d)"
    using assms by (cases "d = c") (simp_all add: all_commands_def upd_command_def)
qed

lemma set_prog_ok:
  assumes "node_is_llvmir_prog s u" "u \<in> V" "copies_ok s V"
  shows "same_graphs s (set_prog u p s)" "copies_ok (set_prog u p s) V" "progs_only s (set_prog u p s)"
proof -
  obtain c where c: "ntype (node_at s u) = COMMAND_GRAPH_NODE_TYPE_COMMAND" "ncommand (node_at s u) = Some c"
    "ctype (commands s ! c) = COMMAND_TYPE_PROG" using llvmir_node_prog [OF assms(1)] by metis
  then have len: "c < length (commands s)" using assms(2,3) by (auto simp: copies_ok_def commands_ok_def)
  have eq: "set_prog u p s = upd_command c (\<lambda>x. x\<lparr>cbody := Body_prog p\<rparr>) s"
    using c(2) by (simp add: set_prog_def)
  show "same_graphs s (set_prog u p s)" by (simp add: eq same_graphs_def)
  show "copies_ok (set_prog u p s) V"
    unfolding eq copies_ok_def
  proof
    show "commands_ok (upd_command c (\<lambda>x. x\<lparr>cbody := Body_prog p\<rparr>) s) V"
      using assms(3) by (simp add: copies_ok_def commands_ok_def)
    show "all_commands (\<lambda>c. wf_command c \<and> extent_fits c) (upd_command c (\<lambda>x. x\<lparr>cbody := Body_prog p\<rparr>) s)"
      using assms(3) c(3)
      by (intro all_commands_upd) (simp_all add: copies_ok_def wf_command_def extent_fits_def)
  qed
  have "node_is_llvmir_prog s x" if x: "node_is_llvmir_prog (set_prog u p s) x" for x
  proof (cases "ncommand (node_at s x) = Some c")
    case True
    then show ?thesis using x assms(1) c(1,2) by (simp add: eq node_is_llvmir_prog_def)
  next
    case False
    then show ?thesis using x len
      by (auto simp: eq node_is_llvmir_prog_def split: option.splits)
  qed
  then show "progs_only s (set_prog u p s)" using c(3) len by (auto simp: eq progs_only_def)
qed

subsection \<open>One node\<close>

text \<open>The requirement on the fusion core: it fuses any two programs or more.\<close>

definition core_succeeds :: "(prog list \<Rightarrow> prog \<Rightarrow> prog result) \<Rightarrow> bool" where
  "core_succeeds fuse \<longleftrightarrow> (\<forall>ps p. 2 \<le> length ps \<longrightarrow> (\<exists>q. fuse ps p = Inr q))"

lemma core_succeedsD: "core_succeeds fuse \<Longrightarrow> 2 \<le> length ps \<Longrightarrow> \<exists>q. fuse ps p = Inr q"
  by (simp add: core_succeeds_def)

lemma prog_fuse_step_ok:
  assumes ok: "graph_ok s g V k" "copies_ok s V"
    and ex: "ntype (node_at s (node_get_exit s g)) \<noteq> COMMAND_GRAPH_NODE_TYPE_COMMAND"
    and fuse: "core_succeeds fuse"
    and u: "\<not> c ! i \<Longrightarrow> vec ! i \<in> V"
  shows "\<exists>t d W. prog_fuse_step fuse vec i (s, c) = Inr (t, d) \<and> graph_ok t g W k \<and> copies_ok t W \<and>
    reduces s g V t W \<and> progs_only s t \<and> length d = length c \<and>
    (\<forall>j<length c. c ! j \<longrightarrow> d ! j) \<and>
    (\<forall>v\<in>V - W. node_is_llvmir_prog s v \<and> (iterator_index (node_at s v) < length c \<longrightarrow> d ! iterator_index (node_at s v)))"
proof -
  let ?u = "vec ! i"
  have stay: ?thesis if "prog_fuse_step fuse vec i (s, c) = Inr (s, c)"
    using that ok reduces_refl [of s g V] by (intro exI [of _ s] exI [of _ c] exI [of _ V]) simp
  consider "c ! i \<or> \<not> node_is_llvmir_prog s ?u" | (go) "\<not> c ! i" "node_is_llvmir_prog s ?u" by blast
  then show ?thesis
  proof cases
    case 1
    then show ?thesis by (intro stay) (auto simp: prog_fuse_step_def Let_def)
  next
    case go
    have wf: "wf_graph s g V" using ok(1) by (simp add: graph_ok_def)
    note adj = wf_graph_adj [OF wf] and uV = u [OF go(1)]
    have "card (ahead (edges s V) ?u) \<le> card {..<length (nodes s)}"
      using ahead_subset [OF wf_adj_edges_subset [OF adj], of ?u] wf_adjD(1) [OF adj]
      by (intro card_mono) auto
    then have "card (ahead (edges s V) ?u) < Suc (length (nodes s))" by simp
    then obtain ws where ws: "prog_chain (Suc (length (nodes s))) s ?u ?u = Inr ws"
      "seq_chain (edges s V) ?u ws" "set ws \<subseteq> V" "\<forall>w\<in>set ws. node_is_llvmir_prog s w"
      using prog_chain_ok [OF adj wf_graph_acyclic [OF wf] go(2) uV] by blast
    show ?thesis
    proof (cases "ws = []")
      case True
      then show ?thesis using go ws(1) by (intro stay) (simp add: prog_fuse_step_def Let_def del: prog_chain.simps)
    next
      case False
      obtain ps where ps: "collect_progs s (?u # ws) = Inr ps" "length ps = length (?u # ws)"
        using collect_progs_ok [of "?u # ws" s] go(2) ws(4) by auto
      obtain pu where pu: "node_prog s ?u = Inr pu" using llvmir_node_prog [OF go(2)] by metis
      obtain q where q: "fuse ps pu = Inr q" using core_succeedsD [OF fuse, of ps pu] ps(2) False by (cases ws) auto
      let ?t = "set_prog ?u q s"
      note sp = set_prog_ok [OF go(2) uV ok(2), of q]
      have nodes: "nodes ?t = nodes s" "graphs ?t = graphs s" using sp(1) by (simp_all add: same_graphs_def)
      then have eqs: "edges ?t V = edges s V" "node_get_exit ?t g = node_get_exit s g"
        "\<And>x. node_at ?t x = node_at s x"
        by (simp_all add: edges_def node_at_def node_get_exit_def graph_at_def)
      have ok': "graph_ok ?t g V k" by (rule same_graphs_ok [OF sp(1) ok(1)])
      then have wf': "wf_graph ?t g V" by (simp add: graph_ok_def)
      have "node_get_exit ?t g \<notin> set ws"
        using ws(4) ex unfolding eqs by (auto simp: node_is_llvmir_prog_def)
      then obtain r where r: "absorb_chain ?u ws (?t, c) = Inr (r, set_flags ?t ws c)" "adj_frame ?t r"
        "wf_graph r g (V - set ws)" "reduces ?t g V r (V - set ws)"
        using absorb_chain_ok [OF wf' uV _ ws(3)] ws(2) unfolding eqs by blast
      have "prog_fuse_step fuse vec i (s, c) = Inr (r, set_flags ?t ws c)"
        using go ws(1) ps pu q r(1) False
        by (simp add: prog_fuse_step_def Let_def del: prog_chain.simps collect_progs.simps)
      moreover have "graph_ok r g (V - set ws) k" by (rule graph_ok_adj_frame [OF ok' r(2,3)]) auto
      moreover have "copies_ok r (V - set ws)"
        by (rule copies_ok_frame [OF sp(2)]) (auto simp: adj_frameD [OF r(2)])
      moreover have "reduces s g V r (V - set ws)"
        by (rule reduces_trans [OF same_graphs_reduces [OF sp(1)] r(4)])
      moreover have "progs_only s r" by (rule progs_only_trans [OF sp(3) progs_only_adj_frame [OF r(2)]])
      ultimately show ?thesis
        using ws(4) by (intro exI [of _ r] exI [of _ "set_flags ?t ws c"] exI [of _ "V - set ws"])
          (auto simp: set_flags_nth eqs(3))
    qed
  qed
qed

subsection \<open>The pass\<close>

lemma prog_fuse_loop:
  assumes ok: "graph_ok s g V k" "copies_ok s V"
    and ex: "ntype (node_at s (node_get_exit s g)) \<noteq> COMMAND_GRAPH_NODE_TYPE_COMMAND"
    and fuse: "core_succeeds fuse"
    and vec: "set vec \<subseteq> V" "\<And>i. i < length vec \<Longrightarrow> iterator_index (node_at s (vec ! i)) = i"
  shows "\<exists>t d W. for_each (prog_fuse_step fuse vec) [0..<length vec] (s, replicate (length vec) False) = Inr (t, d) \<and>
    graph_ok t g W k \<and> copies_ok t W \<and> reduces s g V t W \<and> progs_only s t \<and>
    (\<forall>v\<in>V - W. node_is_llvmir_prog s v)"
proof -
  let ?n = "length vec"
  let ?Q = "\<lambda>t d W. graph_ok t g W k \<and> copies_ok t W \<and> reduces s g V t W \<and> progs_only s t \<and>
      (\<forall>v\<in>V - W. node_is_llvmir_prog s v) \<and> length d = ?n \<and> (\<forall>j<?n. vec ! j \<notin> W \<longrightarrow> d ! j)"
  let ?I = "\<lambda>(i :: nat) sd. \<exists>W. ?Q (fst sd) (snd sd) W"
  have "\<exists>r. for_each (prog_fuse_step fuse vec) [0..<?n] (s, replicate ?n False) = Inr r \<and> ?I (length [0..<?n]) r"
  proof (rule for_each_invariant)
    have "?Q s (replicate ?n False) V" using ok reduces_refl vec(1) nth_mem by fastforce
    then show "?I 0 (s, replicate ?n False)" by auto
  next
    fix i sd assume i: "i < length [0..<?n]" and "?I i sd"
    then obtain t d W where sd: "sd = (t, d)" and Q: "?Q t d W" by (cases sd) auto
    then have W: "graph_ok t g W k" "copies_ok t W" "reduces s g V t W" "progs_only s t"
      "length d = ?n" "\<And>j. j < ?n \<Longrightarrow> vec ! j \<notin> W \<Longrightarrow> d ! j" "\<And>v. v \<in> V - W \<Longrightarrow> node_is_llvmir_prog s v"
      by blast+
    have ex': "ntype (node_at t (node_get_exit t g)) \<noteq> COMMAND_GRAPH_NODE_TYPE_COMMAND"
      using ex W(3,4) by (simp add: progs_only_def reduces_def)
    have "vec ! i \<in> W" if "\<not> d ! i" using that W(6) i by auto
    then obtain r e U where r:
      "prog_fuse_step fuse vec i (t, d) = Inr (r, e)" "graph_ok r g U k" "copies_ok r U" "reduces t g W r U"
      "progs_only t r" "length e = length d" "\<And>j. j < length d \<Longrightarrow> d ! j \<Longrightarrow> e ! j"
      "\<And>v. v \<in> W - U \<Longrightarrow> node_is_llvmir_prog t v \<and>
         (iterator_index (node_at t v) < length d \<longrightarrow> e ! iterator_index (node_at t v))"
      using prog_fuse_step_ok [OF W(1,2) ex' fuse, of d i vec] by blast
    have "node_is_llvmir_prog s v" if "v \<in> V - U" for v
      using that W(4,7) r(8) [of v] by (cases "v \<in> W") (auto simp: progs_only_def)
    moreover have "e ! j" if j: "j < ?n" "vec ! j \<notin> U" for j
    proof (cases "vec ! j \<in> W")
      case True
      then show ?thesis using r(8) [of "vec ! j"] j W(4,5) vec(2) [OF j(1)] by (simp add: progs_only_def)
    next
      case False
      then show ?thesis using W(5,6) r(7) j by simp
    qed
    moreover have "length e = ?n" using W(5) r(6) by simp
    ultimately have "?Q r e U"
      using r(2,3) reduces_trans [OF W(3) r(4)] progs_only_trans [OF W(4) r(5)] by blast
    then have "?I (Suc i) (r, e)" by auto
    moreover have "prog_fuse_step fuse vec ([0..<?n] ! i) sd = Inr (r, e)" using r(1) sd i by simp
    ultimately show "\<exists>r. prog_fuse_step fuse vec ([0..<?n] ! i) sd = Inr r \<and> ?I (Suc i) r" by blast
  qed
  then obtain r W where "for_each (prog_fuse_step fuse vec) [0..<?n] (s, replicate ?n False) = Inr r"
    "?Q (fst r) (snd r) W" by blast
  then show ?thesis by (intro exI [of _ "fst r"] exI [of _ "snd r"] exI [of _ W]) auto
qed

lemma pass_prog_fuse_ok:
  assumes ok: "graph_ok s g V (Suc k)" "copies_ok s V"
    and ex: "ntype (node_at s (node_get_exit s g)) \<noteq> COMMAND_GRAPH_NODE_TYPE_COMMAND"
    and fuse: "core_succeeds fuse"
  shows "\<exists>t W. pass_prog_fuse fuse g s = Inr t \<and> graph_ok t g W k \<and> copies_ok t W \<and> reduces s g V t W \<and>
    length (nodes t) = length (nodes s) \<and> length (commands t) = length (commands s) \<and>
    (\<forall>u<length (nodes s). ntype (node_at t u) = ntype (node_at s u) \<and> ncommand (node_at t u) = ncommand (node_at s u)) \<and>
    (\<forall>c<length (commands s). ctype (commands t ! c) = ctype (commands s ! c) \<and>
       (ctype (commands s ! c) \<noteq> COMMAND_TYPE_PROG \<longrightarrow> commands t ! c = commands s ! c)) \<and>
    (\<forall>u\<in>V - W. node_is_llvmir_prog s u)"
proof -
  obtain s1 vec where it: "create_node_iterators False COMMAND_GRAPH_WALK_SEARCH_DFS
      COMMAND_GRAPH_WALK_ORDER_PRE g s = (s1, vec)" by force
  note c = graph_ok_iterators [OF ok(1) it]
  have wf: "wf_graph s g V" using ok(1) by (simp add: graph_ok_def)
  have ss: "length (nodes s1) = length (nodes s)" "commands s1 = commands s"
    "\<And>u. u < length (nodes s) \<Longrightarrow> ntype (node_at s1 u) = ntype (node_at s u) \<and> ncommand (node_at s1 u) = ncommand (node_at s u)"
    using c(2) by (simp_all add: same_structure_def)
  have lt: "u < length (nodes s)" if "u \<in> V" for u using wf_adjD(1) [OF wf_graph_adj [OF wf] that] .
  have ok1: "copies_ok s1 V" using ss lt by (intro copies_ok_frame [OF ok(2)]) auto
  have ex1: "ntype (node_at s1 (node_get_exit s1 g)) \<noteq> COMMAND_GRAPH_NODE_TYPE_COMMAND"
    using ex c(3) ss(3) [OF lt [OF wf_graph_exit [OF wf]]] by (simp add: reduces_def)
  have vec: "set vec \<subseteq> V" using c(5) by (auto simp: iterated_def)
  obtain t d W where t: "for_each (prog_fuse_step fuse vec) [0..<length vec] (s1, replicate (length vec) False) = Inr (t, d)"
    "graph_ok t g W k" "copies_ok t W" "reduces s1 g V t W" "progs_only s1 t" "\<forall>v\<in>V - W. node_is_llvmir_prog s1 v"
    using prog_fuse_loop [OF c(1) ok1 ex1 fuse vec c(6)] by blast
  have "pass_prog_fuse fuse g s = Inr t" using t(1) it by (simp add: pass_prog_fuse_def)
  moreover have "\<forall>u\<in>V - W. node_is_llvmir_prog s u"
    using t(6) ss lt llvmir_prog_cong [of s1 _ s] by auto
  moreover have "reduces s g V t W" by (rule reduces_trans [OF c(3) t(4)])
  ultimately show ?thesis using t(2,3,5) ss by (auto simp: progs_only_def)
qed


subsection \<open>The jit pass\<close>

text \<open>No two command nodes of the graph share a command.\<close>

definition own_commands :: "store \<Rightarrow> node_ref set \<Rightarrow> bool" where
  "own_commands s V \<longleftrightarrow>
     inj_on (\<lambda>u. ncommand (node_at s u)) {u \<in> V. ntype (node_at s u) = COMMAND_GRAPH_NODE_TYPE_COMMAND}"

definition jit_succeeds :: "(prog \<Rightarrow> prog result) \<Rightarrow> bool" where
  "jit_succeeds jit \<longleftrightarrow> (\<forall>p. \<exists>q. jit p = Inr q)"

lemma set_prog_other:
  assumes "own_commands s V" "node_is_llvmir_prog s u" "u \<in> V" "v \<in> V" "v \<noteq> u"
    "ntype (node_at s v) = COMMAND_GRAPH_NODE_TYPE_COMMAND"
  shows "get_command (set_prog u p s) v = get_command s v"
proof -
  obtain c where c: "ntype (node_at s u) = COMMAND_GRAPH_NODE_TYPE_COMMAND" "ncommand (node_at s u) = Some c"
    using llvmir_node_prog [OF assms(2)] by metis
  then have "ncommand (node_at s v) \<noteq> Some c"
    using assms(1,3-6) unfolding own_commands_def inj_on_def by fastforce
  then show ?thesis
    using c(2) by (auto simp: set_prog_def get_command_def upd_command_def node_at_def split: option.split)
qed

lemma llvmir_prog_get_command:
  "ntype (node_at t x) = ntype (node_at s x) \<Longrightarrow> get_command t x = get_command s x \<Longrightarrow>
     node_is_llvmir_prog t x = node_is_llvmir_prog s x \<and> node_prog t x = node_prog s x"
  by (auto simp: node_is_llvmir_prog_def node_prog_def get_command_def split: option.splits)

lemma node_prog_set_prog:
  assumes "node_is_llvmir_prog s u" "u \<in> V" "copies_ok s V"
  shows "node_prog (set_prog u p s) u = Inr p"
proof -
  obtain c where c: "ntype (node_at s u) = COMMAND_GRAPH_NODE_TYPE_COMMAND" "ncommand (node_at s u) = Some c"
    using llvmir_node_prog [OF assms(1)] by metis
  then have "c < length (commands s)" using assms(2,3) by (auto simp: copies_ok_def commands_ok_def)
  then show ?thesis using c(2) by (simp add: set_prog_def node_prog_def get_command_def)
qed

lemma jit_fold:
  assumes "jit_succeeds jit" "copies_ok s V" "set xs \<subseteq> V" "distinct xs"
  shows "\<exists>t. fold (jit_callback jit) xs (s, None) = (t, None) \<and> same_graphs s t \<and> copies_ok t V \<and>
    progs_only s t \<and>
    (own_commands s V \<longrightarrow>
      (\<forall>u\<in>set xs. node_is_llvmir_prog s u \<longrightarrow> node_prog t u = bind_result (node_prog s u) jit) \<and>
      (\<forall>u\<in>V. ntype (node_at s u) = COMMAND_GRAPH_NODE_TYPE_COMMAND \<longrightarrow>
         u \<notin> set xs \<or> \<not> node_is_llvmir_prog s u \<longrightarrow> get_command t u = get_command s u))"
  using assms(2-4)
proof (induction xs arbitrary: s)
  case Nil
  then show ?case by (simp add: same_graphs_def)
next
  case (Cons x xs)
  have x: "x \<in> V" "x \<notin> set xs" "set xs \<subseteq> V" "distinct xs" using Cons.prems(2,3) by auto
  show ?case
  proof (cases "node_is_llvmir_prog s x")
    case False
    then have "jit_callback jit x (s, None) = (s, None)" by (simp add: jit_callback_def node_has_llvmir_source_def)
    then show ?thesis using Cons.IH [OF Cons.prems(1) x(3,4)] False by auto
  next
    case True
    obtain p where p: "node_prog s x = Inr p" using llvmir_node_prog [OF True] by metis
    obtain q where q: "jit p = Inr q" using assms(1) by (auto simp: jit_succeeds_def)
    let ?s = "set_prog x q s"
    note sp = set_prog_ok [OF True x(1) Cons.prems(1), of q]
    have step: "jit_callback jit x (s, None) = (?s, None)"
      using True p q by (simp add: jit_callback_def node_has_llvmir_source_def)
    have node: "node_at ?s u = node_at s u" for u using sp(1) by (simp add: same_graphs_def node_at_def)
    obtain t where t: "fold (jit_callback jit) xs (?s, None) = (t, None)" "same_graphs ?s t" "copies_ok t V"
      "progs_only ?s t" and own: "own_commands ?s V \<Longrightarrow>
        (\<forall>u\<in>set xs. node_is_llvmir_prog ?s u \<longrightarrow> node_prog t u = bind_result (node_prog ?s u) jit) \<and>
        (\<forall>u\<in>V. ntype (node_at ?s u) = COMMAND_GRAPH_NODE_TYPE_COMMAND \<longrightarrow>
           u \<notin> set xs \<or> \<not> node_is_llvmir_prog ?s u \<longrightarrow> get_command t u = get_command ?s u)"
      using Cons.IH [OF sp(2) x(3,4)] by blast
    have "same_graphs s t" using sp(1) t(2) by (simp add: same_graphs_def)
    moreover have "progs_only s t" using sp(3) t(4) by (rule progs_only_trans)
    moreover have "(\<forall>u\<in>set (x # xs). node_is_llvmir_prog s u \<longrightarrow> node_prog t u = bind_result (node_prog s u) jit) \<and>
      (\<forall>u\<in>V. ntype (node_at s u) = COMMAND_GRAPH_NODE_TYPE_COMMAND \<longrightarrow>
         u \<notin> set (x # xs) \<or> \<not> node_is_llvmir_prog s u \<longrightarrow> get_command t u = get_command s u)"
      if o: "own_commands s V"
    proof -
      have o': "own_commands ?s V" using o by (simp add: own_commands_def node)
      note F = own [OF o', unfolded node]
      have C: "get_command ?s u = get_command s u"
        if "u \<in> V" "u \<noteq> x" "ntype (node_at s u) = COMMAND_GRAPH_NODE_TYPE_COMMAND" for u
        using set_prog_other [OF o True x(1)] that by blast
      have cmd: "ntype (node_at s u) = COMMAND_GRAPH_NODE_TYPE_COMMAND" if "node_is_llvmir_prog s u" for u
        using that by (simp add: node_is_llvmir_prog_def)
      have tx: "get_command t x = get_command ?s x" using F x(1,2) cmd [OF True] by blast
      have "node_prog t x = bind_result (node_prog s x) jit"
        using node_prog_set_prog [OF True x(1) Cons.prems(1)] tx p q by (simp add: node_prog_def)
      moreover have "node_prog t u = bind_result (node_prog s u) jit"
        if u: "u \<in> set xs" "node_is_llvmir_prog s u" for u
      proof -
        have "node_is_llvmir_prog ?s u = node_is_llvmir_prog s u \<and> node_prog ?s u = node_prog s u"
          using u x cmd by (intro llvmir_prog_get_command C) (auto simp: node)
        then show ?thesis using F u by auto
      qed
      moreover have "get_command t u = get_command s u"
        if u: "u \<in> V" "ntype (node_at s u) = COMMAND_GRAPH_NODE_TYPE_COMMAND"
          "u \<notin> set (x # xs) \<or> \<not> node_is_llvmir_prog s u" for u
      proof -
        have ux: "u \<noteq> x" using u(3) True by auto
        note cu = C [OF u(1) ux u(2)]
        have "node_is_llvmir_prog ?s u = node_is_llvmir_prog s u"
          using cu llvmir_prog_get_command [of ?s u s] by (simp add: node)
        then show ?thesis using F u ux cu by auto
      qed
      ultimately show ?thesis by auto
    qed
    ultimately show ?thesis using t(1,3) step by auto
  qed
qed

lemma same_graphs_put_marks: "same_graphs s t \<Longrightarrow> same_graphs (put_marks w s) (put_marks w t)"
  by (simp add: same_graphs_def put_marks_def)

lemma pass_jit_ok:
  assumes ok: "graph_ok s g V (Suc k)" "copies_ok s V" and jit: "jit_succeeds jit"
  shows "\<exists>t. pass_jit jit g s = Inr t \<and> graph_ok t g V k \<and> copies_ok t V \<and> reduces s g V t V \<and>
    edges t V = edges s V \<and>
    (\<forall>u\<in>V. ntype (node_at t u) = ntype (node_at s u) \<and> ncommand (node_at t u) = ncommand (node_at s u)) \<and>
    (\<forall>c<length (commands s). ctype (commands t ! c) = ctype (commands s ! c) \<and>
       (ctype (commands s ! c) \<noteq> COMMAND_TYPE_PROG \<longrightarrow> commands t ! c = commands s ! c)) \<and>
    (own_commands s V \<longrightarrow>
      (\<forall>u\<in>V. ntype (node_at s u) = COMMAND_GRAPH_NODE_TYPE_COMMAND \<longrightarrow>
         (if node_is_llvmir_prog s u then node_prog t u = bind_result (node_prog s u) jit
          else get_command t u = get_command s u)))"
proof -
  let ?e = "node_get_entry s g" and ?D = COMMAND_GRAPH_WALK_SEARCH_DFS and ?P = COMMAND_GRAPH_WALK_ORDER_PRE
  let ?s1 = "upd_graph g (\<lambda>gr. gr\<lparr>graph_walk_id := graph_walk_id (graph_at s g) + 1\<rparr>) s"
  let ?w = "walk_marks ?D ?P g ?e s" and ?xs = "visited ?D ?P g ?e s"
  let ?p = "put_marks ?w ?s1"
  have wf: "wf_graph s g V" using ok(1) by (simp add: graph_ok_def)
  note adj = wf_graph_adj [OF wf] and en = wf_graph_entry [OF wf]
  have "set ?xs = V" "distinct ?xs"
    using visited_exact [OF adj en graph_ok_walk(2,3) [OF ok(1)]] wf_graph_from_entry [OF wf]
      edges_rtrancl_in [OF adj en] by auto
  moreover have c1: "copies_ok ?s1 V" by (rule copies_ok_frame [OF ok(2)]) auto
  ultimately obtain t where t: "fold (jit_callback jit) ?xs (?s1, None) = (t, None)" "same_graphs ?s1 t"
    "copies_ok t V" "progs_only ?s1 t" and own: "own_commands ?s1 V \<Longrightarrow>
      (\<forall>u\<in>V. node_is_llvmir_prog ?s1 u \<longrightarrow> node_prog t u = bind_result (node_prog ?s1 u) jit) \<and>
      (\<forall>u\<in>V. ntype (node_at ?s1 u) = COMMAND_GRAPH_NODE_TYPE_COMMAND \<longrightarrow>
         u \<notin> V \<or> \<not> node_is_llvmir_prog ?s1 u \<longrightarrow> get_command t u = get_command ?s1 u)"
    using jit_fold [OF jit c1, of ?xs] by (metis order_refl)
  let ?t = "put_marks ?w t"
  have run: "pass_jit jit g s = Inr ?t"
    by (simp add: pass_jit_def walk_from_entry_def walk_eq_fold Let_def t(1))
  have p: "?p = fst (walk ?D ?P g ?e record_visit (s, []))"
    by (simp add: walk_eq_fold Let_def fold_record_visit)
  have str: "structural record_visit" by (simp add: structural_def record_visit_def)
  note we = graph_ok_walk_effect [OF ok(1) str en, where search = ?D and ord = ?P and a = "[]", folded p]
  have pt: "same_graphs ?p ?t" by (rule same_graphs_put_marks [OF t(2)])
  have len: "length ?w = length (nodes t)"
    using walk_marks_length wf_adjD(1) [OF adj en] t(2) by (simp add: same_graphs_def)
  have lt: "u < length (nodes t)" if "u \<in> V" for u
    using wf_adjD(1) [OF adj that] t(2) by (simp add: same_graphs_def)
  have lab: "ntype (node_at ?t u) = ntype (node_at t u)" "ncommand (node_at ?t u) = ncommand (node_at t u)"
    "ntype (node_at t u) = ntype (node_at s u)" "ncommand (node_at t u) = ncommand (node_at s u)" if "u \<in> V" for u
    using len lt [OF that] t(2) by (simp_all add: same_graphs_def node_at_def put_marks_def)
  have cmd: "commands ?t = commands t" by simp
  have get: "get_command ?t u = get_command t u" if "u \<in> V" for u
    using lab(2) [OF that] cmd by (auto simp: get_command_def split: option.split)
  have s1: "node_is_llvmir_prog ?s1 u = node_is_llvmir_prog s u" "get_command ?s1 u = get_command s u" for u
    by (auto simp: node_is_llvmir_prog_def get_command_def split: option.split)
  have F: "if node_is_llvmir_prog s u then node_prog ?t u = bind_result (node_prog s u) jit
          else get_command ?t u = get_command s u"
    if "own_commands s V" "u \<in> V" "ntype (node_at s u) = COMMAND_GRAPH_NODE_TYPE_COMMAND" for u
  proof -
    have "own_commands ?s1 V" using that(1) by (simp add: own_commands_def)
    then show ?thesis using own that(2,3) get s1 by (simp add: node_prog_def)
  qed
  have "graph_ok ?t g V k" by (rule same_graphs_ok [OF pt we(1)])
  moreover have "copies_ok ?t V" using t(3) lab cmd by (intro copies_ok_frame [OF t(3)]) auto
  moreover have "reduces s g V ?t V"
    by (rule reduces_trans [OF same_structure_reduces [OF we(2) wf] same_graphs_reduces [OF pt]])
  moreover have "edges ?t V = edges s V"
    using same_structure_edges [OF we(2) adj] pt by (simp add: same_graphs_def edges_def node_at_def)
  ultimately show ?thesis using run t(4) lab F by (auto simp: progs_only_def)
qed

text \<open>
  The jit pass, for a compiler that succeeds: the graph keeps every node, edge and well-formedness,
  every LLVM-IR program is replaced by its compilation exactly once, and every other command
  stays as it is, as long as no two nodes share a command.
\<close>

theorem jit_compiles_each_program_once:
  assumes "graph_ok s g V (Suc k)" "copies_ok s V" "own_commands s V" "jit_succeeds jit"
  shows "\<exists>t. pass_jit jit g s = Inr t \<and> graph_ok t g V k \<and> copies_ok t V \<and> edges t V = edges s V \<and>
    (\<forall>u\<in>V. ntype (node_at s u) = COMMAND_GRAPH_NODE_TYPE_COMMAND \<longrightarrow>
       (if node_is_llvmir_prog s u then node_prog t u = bind_result (node_prog s u) jit
        else get_command t u = get_command s u))"
  using pass_jit_ok [OF assms(1,2,4)] assms(3) by blast

end
