(* ===== verification/Dispatch_Props.thy ===== *)
theory Dispatch_Props
  imports Dispatch Prog_Fuse_Props
begin

text \<open>
  The dispatcher over the passes that keep the shape of a graph: any set of them, run through
  \<^verbatim>\<open>optimize\<close> with or without statistics, succeeds on a well-formed graph and leaves a reduction of
  it. The statistics count what they name, and no two dumps share a file.
\<close>

subsection \<open>The passes meet one contract\<close>

text \<open>What every pass of the pipeline needs and keeps: a node without successors carries no command.\<close>

definition passes_ok :: "store \<Rightarrow> node_ref set \<Rightarrow> bool" where
  "passes_ok s V \<longleftrightarrow> copies_ok s V \<and>
     (\<forall>u\<in>V. succs s u = [] \<longrightarrow> ntype (node_at s u) \<noteq> COMMAND_GRAPH_NODE_TYPE_COMMAND)"

lemma wf_graph_sink: "wf_graph s g V \<Longrightarrow> u \<in> V \<Longrightarrow> succs s u = [] \<Longrightarrow> u = node_get_exit s g"
  unfolding wf_graph_def by blast

lemma passes_ok_exit:
  "wf_graph s g V \<Longrightarrow> passes_ok s V \<Longrightarrow>
     ntype (node_at s (node_get_exit s g)) \<noteq> COMMAND_GRAPH_NODE_TYPE_COMMAND"
  unfolding passes_ok_def wf_graph_def by blast

lemma passes_ok_after:
  assumes "graph_ok s g V j" "passes_ok s V" "graph_ok t g W k" "reduces s g V t W" "copies_ok t W"
    and "\<And>u. u \<in> V \<Longrightarrow> ntype (node_at t u) = ntype (node_at s u)"
  shows "passes_ok t W"
proof -
  have wf: "wf_graph s g V" "wf_graph t g W" using assms(1,3) by (simp_all add: graph_ok_def)
  have "ntype (node_at t u) \<noteq> COMMAND_GRAPH_NODE_TYPE_COMMAND" if u: "u \<in> W" "succs t u = []" for u
  proof -
    have "u = node_get_exit s g" using wf_graph_sink [OF wf(2) u] assms(4) by (simp add: reduces_def)
    then show ?thesis using passes_ok_exit [OF wf(1) assms(2)] assms(6) [OF wf_graph_exit [OF wf(1)]] by simp
  qed
  then show ?thesis using assms(5) by (simp add: passes_ok_def)
qed

lemma passes_ok_frame:
  assumes "graph_ok s g V j" "passes_ok s V" "graph_ok t g W k" "reduces s g V t W" "commands t = commands s"
    and "\<And>u. u < length (nodes s) \<Longrightarrow> ntype (node_at t u) = ntype (node_at s u) \<and> ncommand (node_at t u) = ncommand (node_at s u)"
  shows "passes_ok t W"
proof (rule passes_ok_after [OF assms(1-4)])
  have lt: "u < length (nodes s)" if "u \<in> V" for u
    using assms(1) that wf_adjD(1) [OF wf_graph_adj] unfolding graph_ok_def by blast
  then show "\<And>u. u \<in> V \<Longrightarrow> ntype (node_at t u) = ntype (node_at s u)" using assms(6) by blast
  show "copies_ok t W"
  proof (rule copies_ok_frame)
    show "copies_ok s V" "W \<subseteq> V" using assms(2,4) by (simp_all add: passes_ok_def reduces_def)
    then show "ntype (node_at t x) = ntype (node_at s x) \<and> ncommand (node_at t x) = ncommand (node_at s x)"
      if "x \<in> W" for x using that assms(6) lt by blast
  qed (rule assms(5))
qed

interpretation normalize_pass: graph_pass pass_copy_normalize 1 passes_ok
proof
  fix s g V k assume a: "graph_ok s g V (1 + k)" "passes_ok s V"
  then have c: "copies_ok s V" by (simp add: passes_ok_def)
  from a show "\<exists>t W. pass_copy_normalize g s = Inr t \<and> graph_ok t g W k \<and> passes_ok t W \<and> reduces s g V t W"
    using passes_ok_after [OF a] pass_copy_normalize_ok [of s g V k] c by (metis plus_1_eq_Suc)
qed

interpretation reduce_node_pass: graph_pass pass_reduce_node 1 passes_ok
proof
  fix s g V k assume a: "graph_ok s g V (1 + k)" "passes_ok s V"
  then obtain t W where t: "pass_reduce_node g s = Inr t" "graph_ok t g W k" "reduces s g V t W"
    "commands t = commands s"
    "\<forall>u<length (nodes s). ntype (node_at t u) = ntype (node_at s u) \<and> ncommand (node_at t u) = ncommand (node_at s u)"
    using pass_reduce_node_ok [of s g V k] by auto
  then have "passes_ok t W" by (intro passes_ok_frame [OF a t(2-4)]) simp
  then show "\<exists>t W. pass_reduce_node g s = Inr t \<and> graph_ok t g W k \<and> passes_ok t W \<and> reduces s g V t W"
    using t(1-3) by blast
qed

interpretation reduce_edge_pass: graph_pass pass_reduce_edge 2 passes_ok
proof
  fix s g V k assume a: "graph_ok s g V (2 + k)" "passes_ok s V"
  then obtain t where t: "pass_reduce_edge g s = Inr t" "graph_ok t g V k" "reduces s g V t V"
    "commands t = commands s"
    "\<forall>u<length (nodes s). ntype (node_at t u) = ntype (node_at s u) \<and> ncommand (node_at t u) = ncommand (node_at s u)"
    using pass_reduce_edge_ok [of s g V k] by auto
  then have "passes_ok t V" by (intro passes_ok_frame [OF a t(2-4)]) simp
  then show "\<exists>t W. pass_reduce_edge g s = Inr t \<and> graph_ok t g W k \<and> passes_ok t W \<and> reduces s g V t W"
    using t(1-3) by blast
qed

lemma prog_fuse_graph_pass:
  assumes "core_succeeds fuse"
  shows "graph_pass (pass_prog_fuse fuse) 1 passes_ok"
proof
  fix s g V k assume a: "graph_ok s g V (1 + k)" "passes_ok s V"
  then have c: "graph_ok s g V (Suc k)" "copies_ok s V" and wf: "wf_graph s g V"
    by (simp_all add: passes_ok_def graph_ok_def)
  obtain t W where t: "pass_prog_fuse fuse g s = Inr t" "graph_ok t g W k" "copies_ok t W" "reduces s g V t W"
    "\<forall>u<length (nodes s). ntype (node_at t u) = ntype (node_at s u) \<and> ncommand (node_at t u) = ncommand (node_at s u)"
    using pass_prog_fuse_ok [OF c passes_ok_exit [OF wf a(2)] assms] by blast
  have "passes_ok t W"
    using t(5) wf_adjD(1) [OF wf_graph_adj [OF wf]] by (intro passes_ok_after [OF a t(2,4,3)]) simp
  then show "\<exists>t W. pass_prog_fuse fuse g s = Inr t \<and> graph_ok t g W k \<and> passes_ok t W \<and> reduces s g V t W"
    using t(1,2,4) by blast
qed

lemma jit_graph_pass:
  assumes "jit_succeeds jit"
  shows "graph_pass (pass_jit jit) 1 passes_ok"
proof
  fix s g V k assume a: "graph_ok s g V (1 + k)" "passes_ok s V"
  then have c: "graph_ok s g V (Suc k)" "copies_ok s V" by (simp_all add: passes_ok_def)
  obtain t where t: "pass_jit jit g s = Inr t" "graph_ok t g V k" "copies_ok t V" "reduces s g V t V"
    "\<forall>u\<in>V. ntype (node_at t u) = ntype (node_at s u) \<and> ncommand (node_at t u) = ncommand (node_at s u)"
    using pass_jit_ok [OF c assms] by blast
  have "passes_ok t V" using t(5) by (intro passes_ok_after [OF a t(2,4,3)]) simp
  then show "\<exists>t W. pass_jit jit g s = Inr t \<and> graph_ok t g W k \<and> passes_ok t W \<and> reduces s g V t W"
    using t(1,2,4) by blast
qed

subsection \<open>Statistics\<close>

text \<open>The command nodes whose command's type satisfies \<open>T\<close>.\<close>

definition carries :: "store \<Rightarrow> (command_type \<Rightarrow> bool) \<Rightarrow> node_ref \<Rightarrow> bool" where
  "carries s T u \<longleftrightarrow>
     ntype (node_at s u) = COMMAND_GRAPH_NODE_TYPE_COMMAND \<and>
     (case ncommand (node_at s u) of None \<Rightarrow> False | Some c \<Rightarrow> T (ctype (commands s ! c)))"

definition tally :: "('a \<Rightarrow> bool) \<Rightarrow> 'a list \<Rightarrow> nat" where
  "tally P xs = length (filter P xs)"

lemma tally_simps [simp]:
  "tally P [] = 0" "tally P (x # xs) = (if P x then Suc (tally P xs) else tally P xs)"
  by (simp_all add: tally_def)

lemma tally_card: "distinct xs \<Longrightarrow> tally P xs = card {x \<in> set xs. P x}"
  unfolding tally_def by (subst distinct_card [symmetric]) auto

lemma count_node_store [simp]: "fst (count_node u sm) = fst sm"
  by (simp add: count_node_def Let_def)

lemma structural_count_node: "structural count_node"
  by (simp add: structural_def)

lemma fold_count_node_store: "fst (fold count_node xs sm) = fst sm"
  by (induction xs arbitrary: sm) simp_all

lemma count_node_labels:
  "m_nodes (snd (count_node u (s, m))) = m_nodes m + 1"
  "m_edges (snd (count_node u (s, m))) = m_edges m + length (succs s u)"
  "m_empty (snd (count_node u (s, m))) =
     (if ntype (node_at s u) = COMMAND_GRAPH_NODE_TYPE_EMPTY then m_empty m + 1 else m_empty m)"
  "m_command (snd (count_node u (s, m))) =
     (if ntype (node_at s u) = COMMAND_GRAPH_NODE_TYPE_COMMAND then m_command m + 1 else m_command m)"
  "m_graph (snd (count_node u (s, m))) =
     (if ntype (node_at s u) = COMMAND_GRAPH_NODE_TYPE_COMMAND_GRAPH then m_graph m + 1 else m_graph m)"
  "m_condition (snd (count_node u (s, m))) =
     (if ntype (node_at s u) = COMMAND_GRAPH_NODE_TYPE_CONDITION then m_condition m + 1 else m_condition m)"
  by (simp_all add: count_node_def Let_def count_command_type_def split: node_type.split option.split)

lemma copy_type_classes:
  "is_copy_1D_type t \<Longrightarrow> t \<noteq> COMMAND_TYPE_PROG \<and> t \<noteq> COMMAND_TYPE_BATCH \<and> \<not> is_copy_2D_type t"
  "is_copy_2D_type t \<Longrightarrow> t \<noteq> COMMAND_TYPE_PROG \<and> t \<noteq> COMMAND_TYPE_BATCH \<and> \<not> is_copy_1D_type t"
  by (cases t; simp)+

lemma count_node_commands:
  "m_prog (snd (count_node u (s, m))) =
     (if carries s (\<lambda>t. t = COMMAND_TYPE_PROG) u then m_prog m + 1 else m_prog m)"
  "m_copy1d (snd (count_node u (s, m))) =
     (if carries s is_copy_1D_type u then m_copy1d m + 1 else m_copy1d m)"
  "m_copy2d (snd (count_node u (s, m))) =
     (if carries s is_copy_2D_type u then m_copy2d m + 1 else m_copy2d m)"
  "m_batch (snd (count_node u (s, m))) =
     (if carries s (\<lambda>t. t = COMMAND_TYPE_BATCH) u then m_batch m + 1 else m_batch m)"
  by (auto simp: count_node_def Let_def count_command_type_def carries_def dest: copy_type_classes
      split: node_type.split option.split)

lemma fold_count_node:
  "let m' = snd (fold count_node xs (s, m))
   in m_nodes m' = m_nodes m + length xs \<and>
      m_edges m' = m_edges m + (\<Sum>u\<leftarrow>xs. length (succs s u)) \<and>
      m_empty m' = m_empty m + tally (\<lambda>u. ntype (node_at s u) = COMMAND_GRAPH_NODE_TYPE_EMPTY) xs \<and>
      m_command m' = m_command m + tally (\<lambda>u. ntype (node_at s u) = COMMAND_GRAPH_NODE_TYPE_COMMAND) xs \<and>
      m_graph m' = m_graph m + tally (\<lambda>u. ntype (node_at s u) = COMMAND_GRAPH_NODE_TYPE_COMMAND_GRAPH) xs \<and>
      m_condition m' = m_condition m + tally (\<lambda>u. ntype (node_at s u) = COMMAND_GRAPH_NODE_TYPE_CONDITION) xs \<and>
      m_prog m' = m_prog m + tally (carries s (\<lambda>t. t = COMMAND_TYPE_PROG)) xs \<and>
      m_copy1d m' = m_copy1d m + tally (carries s is_copy_1D_type) xs \<and>
      m_copy2d m' = m_copy2d m + tally (carries s is_copy_2D_type) xs \<and>
      m_batch m' = m_batch m + tally (carries s (\<lambda>t. t = COMMAND_TYPE_BATCH)) xs"
proof (induction xs arbitrary: m)
  case (Cons x xs)
  obtain m1 where m1: "count_node x (s, m) = (s, m1)" by (metis count_node_store fst_conv prod.collapse)
  note counts = count_node_labels [where s = s and u = x and m = m, unfolded m1 snd_conv]
    count_node_commands [where s = s and u = x and m = m, unfolded m1 snd_conv]
  show ?case using Cons [of m1] by (simp add: Let_def m1 counts)
qed simp

lemma sum_degrees:
  assumes "finite V" "\<And>u. u \<in> V \<Longrightarrow> distinct (succs s u)"
  shows "(\<Sum>u\<in>V. length (succs s u)) = card (edges s V)"
proof -
  have "edges s V = (SIGMA u:V. set (succs s u))" by (auto simp: edges_def)
  then show ?thesis using assms by (simp add: distinct_card)
qed

text \<open>
  The metrics of a well-formed graph are its numbers of nodes, of edges, of nodes of each type
  and of commands of each class; computing them changes no more than marks, and takes one
  walk identifier.
\<close>

theorem metrics_count_graph:
  assumes "graph_ok s g V (Suc k)" "stats_compute_metrics g s = (t, m)"
  shows "same_structure s t \<and> graph_ok t g V k \<and> m_nodes m = card V \<and> m_edges m = card (edges s V) \<and>
    m_empty m = card {u \<in> V. ntype (node_at s u) = COMMAND_GRAPH_NODE_TYPE_EMPTY} \<and>
    m_command m = card {u \<in> V. ntype (node_at s u) = COMMAND_GRAPH_NODE_TYPE_COMMAND} \<and>
    m_graph m = card {u \<in> V. ntype (node_at s u) = COMMAND_GRAPH_NODE_TYPE_COMMAND_GRAPH} \<and>
    m_condition m = card {u \<in> V. ntype (node_at s u) = COMMAND_GRAPH_NODE_TYPE_CONDITION} \<and>
    m_prog m = card {u \<in> V. carries s (\<lambda>t. t = COMMAND_TYPE_PROG) u} \<and>
    m_copy1d m = card {u \<in> V. carries s is_copy_1D_type u} \<and>
    m_copy2d m = card {u \<in> V. carries s is_copy_2D_type u} \<and>
    m_batch m = card {u \<in> V. carries s (\<lambda>t. t = COMMAND_TYPE_BATCH) u}"
proof -
  let ?e = "node_get_entry s g" and ?D = COMMAND_GRAPH_WALK_SEARCH_DFS and ?P = COMMAND_GRAPH_WALK_ORDER_PRE
  let ?s1 = "upd_graph g (\<lambda>gr. gr\<lparr>graph_walk_id := graph_walk_id (graph_at s g) + 1\<rparr>) s"
  let ?xs = "visited ?D ?P g ?e s"
  have wf: "wf_graph s g V" using assms(1) by (simp add: graph_ok_def)
  note adj = wf_graph_adj [OF wf] and en = wf_graph_entry [OF wf]
  have xs: "set ?xs = V" "distinct ?xs"
    using visited_exact [OF adj en graph_ok_walk(2,3) [OF assms(1)]] wf_graph_from_entry [OF wf]
      edges_rtrancl_in [OF adj en] by auto
  have w: "walk ?D ?P g ?e count_node (s, zero_metrics) = (t, m)"
    using assms(2) by (simp add: stats_compute_metrics_def walk_from_entry_def)
  then have m: "m = snd (fold count_node ?xs (?s1, zero_metrics))" by (auto simp: walk_eq_fold Let_def)
  have t: "t = fst (walk ?D ?P g ?e count_node (s, zero_metrics))" using w by simp
  have same: "carries ?s1 T u = carries s T u" for T u by (auto simp: carries_def split: option.split)
  have deg: "(\<Sum>u\<leftarrow>?xs. length (succs s u)) = card (edges s V)"
    using sum_degrees [OF wf_adj_finite [OF adj] wf_adjD(4) [OF adj]] xs
    by (simp add: sum_list_distinct_conv_sum_set)
  have "length ?xs = card V" using xs by (metis distinct_card)
  moreover have "same_structure s t" "graph_ok t g V k"
    unfolding t using graph_ok_walk_effect [OF assms(1) structural_count_node en] by blast+
  ultimately show ?thesis
    using fold_count_node [of ?xs ?s1 zero_metrics] deg tally_card [OF xs(2)]
    unfolding m xs(1) by (simp add: Let_def zero_metrics_def same)
qed

subsection \<open>The dispatcher\<close>

definition pipeline_pass :: "command_graph_pass \<Rightarrow> bool" where
  "pipeline_pass p \<longleftrightarrow>
     p \<in> {COMMAND_GRAPH_PASS_COPY_NORMALIZE, COMMAND_GRAPH_PASS_REDUCE_NODE, COMMAND_GRAPH_PASS_REDUCE_EDGE,
          COMMAND_GRAPH_PASS_PROG_FUSE, COMMAND_GRAPH_PASS_JIT}"

definition externals_succeed :: "externals \<Rightarrow> bool" where
  "externals_succeed x \<longleftrightarrow> core_succeeds (ext_fuse x) \<and> jit_succeeds (ext_jit x)"

text \<open>Every one of them takes at most two walk identifiers.\<close>

lemma graph_pass_cost:
  assumes "graph_pass run c I" "c \<le> d"
  shows "graph_pass run d I"
proof
  fix s g V k assume a: "graph_ok s g V (d + k)" "I s V"
  have "graph_ok s g V (c + k)" by (rule graph_ok_less [OF a(1)]) (use assms(2) in simp)
  then show "\<exists>t W. run g s = Inr t \<and> graph_ok t g W k \<and> I t W \<and> reduces s g V t W"
    by (rule graph_pass.run_ok [OF assms(1) _ a(2)])
qed

lemma pipeline_graph_pass:
  assumes "externals_succeed x" "pipeline_pass p"
  shows "graph_pass (optimize_legacy x p) 2 passes_ok"
proof -
  have f: "core_succeeds (ext_fuse x)" "jit_succeeds (ext_jit x)"
    using assms(1) by (simp_all add: externals_succeed_def)
  have "optimize_legacy x COMMAND_GRAPH_PASS_COPY_NORMALIZE = pass_copy_normalize"
    "optimize_legacy x COMMAND_GRAPH_PASS_REDUCE_NODE = pass_reduce_node"
    "optimize_legacy x COMMAND_GRAPH_PASS_REDUCE_EDGE = pass_reduce_edge"
    "optimize_legacy x COMMAND_GRAPH_PASS_PROG_FUSE = pass_prog_fuse (ext_fuse x)"
    "optimize_legacy x COMMAND_GRAPH_PASS_JIT = pass_jit (ext_jit x)"
    by (simp_all add: fun_eq_iff)
  then show ?thesis
    using assms(2) graph_pass_cost [OF normalize_pass.graph_pass_axioms, of 2]
      graph_pass_cost [OF reduce_node_pass.graph_pass_axioms, of 2] reduce_edge_pass.graph_pass_axioms
      graph_pass_cost [OF prog_fuse_graph_pass [OF f(1)], of 2] graph_pass_cost [OF jit_graph_pass [OF f(2)], of 2]
    by (auto simp: pipeline_pass_def)
qed

text \<open>A statistics walk before or after a pass.\<close>

lemma stats_walk_ok:
  assumes "graph_ok s g V (Suc k)" "passes_ok s V"
  shows "graph_ok (fst (stats_compute_metrics g s)) g V k" "passes_ok (fst (stats_compute_metrics g s)) V"
    "reduces s g V (fst (stats_compute_metrics g s)) V"
proof -
  have wf: "wf_graph s g V" using assms(1) by (simp add: graph_ok_def)
  note w = graph_ok_walk_effect [OF assms(1) structural_count_node wf_graph_entry [OF wf],
    where search = COMMAND_GRAPH_WALK_SEARCH_DFS and ord = COMMAND_GRAPH_WALK_ORDER_PRE and a = zero_metrics]
  have eq: "fst (stats_compute_metrics g s) = fst (walk COMMAND_GRAPH_WALK_SEARCH_DFS
      COMMAND_GRAPH_WALK_ORDER_PRE g (node_get_entry s g) count_node (s, zero_metrics))"
    by (simp add: stats_compute_metrics_def walk_from_entry_def)
  show ok: "graph_ok (fst (stats_compute_metrics g s)) g V k" unfolding eq by (rule w(1))
  show red: "reduces s g V (fst (stats_compute_metrics g s)) V"
    unfolding eq by (rule same_structure_reduces [OF w(2) wf])
  show "passes_ok (fst (stats_compute_metrics g s)) V"
    by (rule passes_ok_frame [OF assms ok red]) (use w(2) in \<open>simp_all add: eq same_structure_def\<close>)
qed

text \<open>Dumps are off and stay off.\<close>

definition dumps_off :: "environment \<Rightarrow> process \<Rightarrow> bool" where
  "dumps_off env p \<longleftrightarrow> \<not> fst (optimize_dump_enabled env p)"

lemma dumps_off_step:
  "dumps_off env p \<Longrightarrow> dump_cache (snd (optimize_dump_enabled env p)) = Some False"
  by (auto simp: dumps_off_def optimize_dump_enabled_def Let_def split: option.splits)

lemma dump_cache_frame:
  "dump_cache (snd (stats_csv_path env p)) = dump_cache p"
  "dump_cache (snd (optimize_dump_make_seq p)) = dump_cache p"
  "dump_cache (stats_emit env pass seq b a p) = dump_cache p"
  by (auto simp: stats_csv_path_def optimize_dump_make_seq_def stats_emit_def Let_def split: option.splits prod.splits)

lemma dumps_off_cached: "dump_cache p = Some False \<Longrightarrow> dumps_off env p"
  by (simp add: dumps_off_def optimize_dump_enabled_def)

lemma dispatcher_runs_pass:
  assumes "dumps_off env p" "optimize_legacy x pass g (if stats then fst (stats_compute_metrics g s) else s) = Inr t"
    and "stats \<longleftrightarrow> fst (stats_csv_path env (snd (optimize_dump_enabled env p))) \<noteq> None"
  shows "\<exists>p'. command_graph_optimize x False env depth g pass (p, s) =
      Inr (p', if stats then fst (stats_compute_metrics g t) else t) \<and> dumps_off env p'"
proof -
  obtain p1 where p1: "optimize_dump_enabled env p = (False, p1)"
    using assms(1) by (metis dumps_off_def prod.collapse)
  obtain path p2 where p2: "stats_csv_path env p1 = (path, p2)" by force
  obtain q p3 where p3: "optimize_dump_make_seq p2 = (q, p3)" by force
  obtain s2 b where b: "stats_compute_metrics g s = (s2, b)" by force
  obtain s4 a where a: "stats_compute_metrics g t = (s4, a)" by force
  have c: "dump_cache p1 = Some False" using dumps_off_step [OF assms(1)] p1 by simp
  then have c23: "dump_cache p2 = Some False" "dump_cache p3 = Some False"
    using dump_cache_frame(1) [of env p1] dump_cache_frame(2) [of p2] p2 p3 by simp_all
  show ?thesis
  proof (cases "path = None")
    case True
    then have "\<not> stats" using assms(3) p1 p2 by simp
    then show ?thesis
      using True assms(2) p1 p2 dumps_off_cached [OF c23(1)]
      by (intro exI [of _ p2]) (simp add: command_graph_optimize_def Let_def)
  next
    case False
    then have st: "stats" using assms(3) p1 p2 by simp
    have "dumps_off env (stats_emit env pass q b a p3)"
      using c23(2) by (intro dumps_off_cached) (simp add: dump_cache_frame)
    then show ?thesis
      using False st assms(2) p1 p2 p3 a b
      by (intro exI [of _ "stats_emit env pass q b a p3"]) (simp add: command_graph_optimize_def Let_def)
  qed
qed

lemma command_graph_optimize_ok:
  assumes "externals_succeed x" "pipeline_pass pass" "dumps_off env p"
    and ok: "graph_ok s g V (4 + k)" "passes_ok s V"
  shows "\<exists>p' t W. command_graph_optimize x False env depth g pass (p, s) = Inr (p', t) \<and> dumps_off env p' \<and>
    graph_ok t g W k \<and> passes_ok t W \<and> reduces s g V t W"
proof -
  note gp = pipeline_graph_pass [OF assms(1,2)]
  define stats where "stats \<longleftrightarrow> fst (stats_csv_path env (snd (optimize_dump_enabled env p))) \<noteq> None"
  let ?s = "if stats then fst (stats_compute_metrics g s) else s"
  have ok4: "graph_ok s g V (Suc (2 + Suc k))" "graph_ok s g V (2 + Suc k)"
    by (rule graph_ok_less [OF ok(1)], simp)+
  have s: "graph_ok ?s g V (2 + Suc k)" "passes_ok ?s V" "reduces s g V ?s V"
    using stats_walk_ok [OF ok4(1) ok(2)] ok4(2) ok(2) reduces_refl by simp_all
  obtain t W where t: "optimize_legacy x pass g ?s = Inr t" "graph_ok t g W (Suc k)" "passes_ok t W" "reduces ?s g V t W"
    using graph_pass.run_ok [OF gp s(1,2)] by blast
  let ?t = "if stats then fst (stats_compute_metrics g t) else t"
  have r: "graph_ok ?t g W k" "passes_ok ?t W" "reduces t g W ?t W"
    using stats_walk_ok [OF t(2,3)] graph_ok_less [OF t(2), of k] t(3) reduces_refl by simp_all
  obtain p' where "command_graph_optimize x False env depth g pass (p, s) = Inr (p', ?t)" "dumps_off env p'"
    using dispatcher_runs_pass [OF assms(3) t(1)] stats_def by blast
  then show ?thesis
    using r(1,2) reduces_trans [OF s(3) reduces_trans [OF t(4) r(3)]] by blast
qed

lemma run_passes_ok:
  assumes "externals_succeed x" "\<And>q. q \<in> set qs \<Longrightarrow> pipeline_pass q" "dumps_off env p"
    and "graph_ok s g V (4 * length qs + k)" "passes_ok s V"
  shows "\<exists>p' t W. for_each (command_graph_optimize x False env depth g) qs (p, s) = Inr (p', t) \<and> dumps_off env p' \<and>
    graph_ok t g W k \<and> passes_ok t W \<and> reduces s g V t W"
  using assms(2-5)
proof (induction qs arbitrary: p s V)
  case Nil
  then show ?case using reduces_refl by auto
next
  case (Cons q qs)
  have "graph_ok s g V (4 + (4 * length qs + k))" by (rule graph_ok_less [OF Cons.prems(3)]) simp
  then obtain p1 t W where t: "command_graph_optimize x False env depth g q (p, s) = Inr (p1, t)" "dumps_off env p1"
    "graph_ok t g W (4 * length qs + k)" "passes_ok t W" "reduces s g V t W"
    using command_graph_optimize_ok [OF assms(1) _ Cons.prems(2) _ Cons.prems(4)] Cons.prems(1)
    by (metis list.set_intros(1))
  obtain p2 r U where r: "for_each (command_graph_optimize x False env depth g) qs (p1, t) = Inr (p2, r)" "dumps_off env p2"
    "graph_ok r g U k" "passes_ok r U" "reduces t g W r U"
    using Cons.IH [OF _ t(2,3,4)] Cons.prems(1) by auto
  have "for_each (command_graph_optimize x False env depth g) (q # qs) (p, s) = Inr (p2, r)"
    using t(1) r(1) by simp
  then show ?case using r(2-4) reduces_trans [OF t(5) r(5)] by blast
qed


subsection \<open>Dump files\<close>

lemma digit_value: "d < 10 \<Longrightarrow> (of_char (digit d) :: nat) = 48 + d"
  by (simp add: digit_def)

lemma digit_neq_dash: "d < 10 \<Longrightarrow> digit d \<noteq> CHR ''-''"
proof
  assume "d < 10" "digit d = CHR ''-''"
  then have "(of_char (CHR ''-'') :: nat) = 48 + d" using digit_value by metis
  then show False by simp
qed

lemma digit_inj: "d < 10 \<Longrightarrow> e < 10 \<Longrightarrow> digit d = digit e \<Longrightarrow> d = e"
  using digit_value by (metis add_left_cancel)

lemma decimal_no_dash: "CHR ''-'' \<notin> set (decimal n)"
proof (induction n rule: decimal.induct)
  case (1 n)
  have "digit (n mod 10) \<noteq> CHR ''-''" "n < 10 \<Longrightarrow> digit n \<noteq> CHR ''-''"
    using digit_neq_dash by simp_all
  then show ?case using 1 by (subst decimal.simps) auto
qed

lemma decimal_inj: "decimal m = decimal n \<Longrightarrow> m = n"
proof (induction m arbitrary: n rule: decimal.induct)
  case (1 m)
  have one: "decimal k \<noteq> []" for k by (subst decimal.simps) simp
  have len: "(k < 10) = (length (decimal k) = 1)" for k
    using one [of "k div 10"] by (subst decimal.simps) auto
  show ?case
  proof (cases "m < 10")
    case True
    then have n: "n < 10" using 1(2) len by metis
    have "decimal m = [digit m]" "decimal n = [digit n]" using True n by (simp_all add: decimal.simps)
    then show ?thesis using digit_inj True n 1(2) by simp
  next
    case False
    then have n: "\<not> n < 10" using 1(2) len by metis
    have "decimal m = decimal (m div 10) @ [digit (m mod 10)]" "decimal n = decimal (n div 10) @ [digit (n mod 10)]"
      using False n by (subst decimal.simps, simp)+
    then have "decimal (m div 10) = decimal (n div 10)" "digit (m mod 10) = digit (n mod 10)"
      using 1(2) by simp_all
    then have "m div 10 = n div 10" "m mod 10 = n mod 10"
      using 1(1) [OF False] digit_inj [of "m mod 10" "n mod 10"] by simp_all
    then show ?thesis by (metis div_mult_mod_eq)
  qed
qed

lemma split_at_dash:
  assumes "xs @ CHR ''-'' # as = ys @ CHR ''-'' # bs" "CHR ''-'' \<notin> set xs" "CHR ''-'' \<notin> set ys"
  shows "xs = ys \<and> as = bs"
proof -
  have "takeWhile (\<lambda>c. c \<noteq> CHR ''-'') (zs @ CHR ''-'' # cs) = zs" if "CHR ''-'' \<notin> set zs" for zs cs
    using that by (induction zs) auto
  then have "xs = ys" using assms by metis
  then show ?thesis using assms(1) by simp
qed

definition dump_phase :: "bool \<Rightarrow> string" where
  "dump_phase before = (if before then ''before'' else ''after'')"

lemma dump_suffix_inj:
  "command_graph_pass_to_str p @ ''-'' @ dump_phase a @ ''.dot'' = command_graph_pass_to_str q @ ''-'' @ dump_phase b @ ''.dot''
     \<Longrightarrow> p = q \<and> a = b"
  by (cases p; cases q; cases a; cases b) (simp_all add: dump_phase_def)

text \<open>
  The file a graph is dumped to names the invocation, the pass and the phase: two dumps have
  the same path only when all three agree, so no dump overwrites another as long as the
  32-bit sequence number has not wrapped.
\<close>

theorem dump_path_injective:
  "dump_path base i p (dump_phase a) = dump_path base j q (dump_phase b) \<longleftrightarrow> i = j \<and> p = q \<and> a = b"
proof
  assume "dump_path base i p (dump_phase a) = dump_path base j q (dump_phase b)"
  then have eq: "decimal (unat i) @ CHR ''-'' # (command_graph_pass_to_str p @ ''-'' @ dump_phase a @ ''.dot'') =
      decimal (unat j) @ CHR ''-'' # (command_graph_pass_to_str q @ ''-'' @ dump_phase b @ ''.dot'')"
    by (simp add: dump_path_def)
  note sp = split_at_dash [OF eq decimal_no_dash decimal_no_dash]
  have "unat i = unat j" by (rule decimal_inj) (use sp in blast)
  moreover have "p = q \<and> a = b" by (rule dump_suffix_inj) (use sp in blast)
  ultimately show "i = j \<and> p = q \<and> a = b" by (simp add: word_unat_eq_iff)
qed simp

end
