(* ===== verification/Batch_Islands.thy ===== *)
theory Batch_Islands
  imports Batch
begin

text \<open>
  The island detection of the batch pass is total and correct: the flood-fill and the twin
  folding end without error on the iterators of any graph, and the islands they leave
  partition the candidates by device, with no same-device edge between two islands and no two
  same-device islands with the same neighbours.
\<close>

subsection \<open>The vector of iterators\<close>

text \<open>What \<^verbatim>\<open>create_node_iterators\<close> gives: positions, and a vector closed under successors.\<close>

definition indexed :: "store \<Rightarrow> node_ref list \<Rightarrow> bool" where
  "indexed s vec \<longleftrightarrow>
     (\<forall>i<length vec. iterator_index (node_at s (vec ! i)) = i) \<and>
     (\<forall>u\<in>set vec. set (succs s u) \<subseteq> set vec)"

abbreviation index_of :: "store \<Rightarrow> node_ref \<Rightarrow> nat" where
  "index_of s v \<equiv> iterator_index (node_at s v)"

lemma indexed_nth: "indexed s vec \<Longrightarrow> i < length vec \<Longrightarrow> index_of s (vec ! i) = i"
  by (simp add: indexed_def)

lemma indexed_set:
  assumes "indexed s vec" "v \<in> set vec"
  shows "index_of s v < length vec" "vec ! index_of s v = v"
  using assms by (auto simp: indexed_def in_set_conv_nth)

lemma indexed_succ:
  assumes "indexed s vec" "i < length vec" "v \<in> set (succs s (vec ! i))"
  shows "v \<in> set vec" "index_of s v < length vec"
proof -
  show v: "v \<in> set vec" using assms(1,3) nth_mem [OF assms(2)] unfolding indexed_def by blast
  show "index_of s v < length vec" by (rule indexed_set(1) [OF assms(1) v])
qed

subsection \<open>Flood-fill\<close>

definition flood_pairs :: "store \<Rightarrow> node_ref list \<Rightarrow> bool list \<Rightarrow> (nat \<times> nat) list" where
  "flood_pairs s vec cand =
     concat (map (\<lambda>i. map (\<lambda>v. (i, index_of s v))
         (filter (\<lambda>v. cand ! index_of s v \<and> device_unique_id (node_at s (vec ! i)) = device_unique_id (node_at s v))
            (succs s (vec ! i))))
       (filter (\<lambda>i. cand ! i) [0..<length vec]))"

lemma flood_fill_pairs:
  "flood_fill s vec cand par = for_each (\<lambda>(a, b). uf_unite a b) (flood_pairs s vec cand) par"
proof -
  have edge: "flood_edge s cand d i v par =
      (if cand ! index_of s v \<and> d = device_unique_id (node_at s v) then uf_unite i (index_of s v) par else Inr par)"
    for d i v par by (simp add: flood_edge_def Let_def)
  let ?dev = "\<lambda>v. device_unique_id (node_at s v)"
  have inner: "for_each (flood_edge s cand d i) vs p =
      for_each (\<lambda>(a, b). uf_unite a b)
        (map (\<lambda>v. (i, index_of s v)) (filter (\<lambda>v. cand ! index_of s v \<and> d = ?dev v) vs)) p"
    for d i vs p by (induction vs arbitrary: p) (simp_all add: edge)
  have "flood_fill s vec cand par =
      for_each (\<lambda>i p. if cand ! i then for_each (flood_edge s cand (?dev (vec ! i)) i) (succs s (vec ! i)) p
          else Inr p) [0..<length vec] par"
    unfolding flood_fill_def by (rule for_each_cong) simp
  also have "\<dots> = for_each (\<lambda>i. for_each (flood_edge s cand (?dev (vec ! i)) i) (succs s (vec ! i)))
      (filter (\<lambda>i. cand ! i) [0..<length vec]) par"
    by (rule for_each_filter)
  also have "\<dots> = for_each (\<lambda>(a, b). uf_unite a b) (flood_pairs s vec cand) par"
    unfolding flood_pairs_def for_each_concat for_each_map [of _ "\<lambda>i. map (\<lambda>v. (i, index_of s v)) (_ i)"]
    by (rule for_each_cong) (rule inner)
  finally show ?thesis .
qed

lemma flood_pairs_iff:
  assumes "indexed s vec"
  shows "(i, j) \<in> set (flood_pairs s vec cand) \<longleftrightarrow>
     i < length vec \<and> j < length vec \<and> cand ! i \<and> cand ! j \<and> vec ! j \<in> set (succs s (vec ! i)) \<and>
     device_unique_id (node_at s (vec ! i)) = device_unique_id (node_at s (vec ! j))"
proof -
  let ?dev = "\<lambda>v. device_unique_id (node_at s v)"
  have m: "(i, j) \<in> set (flood_pairs s vec cand) \<longleftrightarrow> i < length vec \<and> cand ! i \<and>
      (\<exists>v\<in>set (succs s (vec ! i)). j = index_of s v \<and> cand ! index_of s v \<and> ?dev (vec ! i) = ?dev v)"
    by (auto simp: flood_pairs_def)
  show ?thesis
  proof
    assume "(i, j) \<in> set (flood_pairs s vec cand)"
    then obtain v where v: "i < length vec" "cand ! i" "v \<in> set (succs s (vec ! i))" "j = index_of s v"
      "cand ! index_of s v" "?dev (vec ! i) = ?dev v" using m by blast
    note vv = indexed_succ [OF assms v(1,3)]
    show "i < length vec \<and> j < length vec \<and> cand ! i \<and> cand ! j \<and> vec ! j \<in> set (succs s (vec ! i)) \<and>
        ?dev (vec ! i) = ?dev (vec ! j)"
      using v vv(2) indexed_set(2) [OF assms vv(1)] by simp
  next
    assume a: "i < length vec \<and> j < length vec \<and> cand ! i \<and> cand ! j \<and> vec ! j \<in> set (succs s (vec ! i)) \<and>
        ?dev (vec ! i) = ?dev (vec ! j)"
    then show "(i, j) \<in> set (flood_pairs s vec cand)"
      unfolding m using indexed_nth [OF assms] by (intro conjI bexI [of _ "vec ! j"]) simp_all
  qed
qed

subsection \<open>Homogeneous forests\<close>

text \<open>Every class has one device, and only candidates are ever joined.\<close>

definition homogeneous :: "store \<Rightarrow> node_ref list \<Rightarrow> bool list \<Rightarrow> nat list \<Rightarrow> bool" where
  "homogeneous s vec cand par \<longleftrightarrow>
     uf_wf par \<and> length par = length vec \<and>
     (\<forall>x<length vec. \<forall>y<length vec. uf_root par x = uf_root par y \<longrightarrow> x \<noteq> y \<longrightarrow>
        cand ! x \<and> cand ! y \<and>
        device_unique_id (node_at s (vec ! x)) = device_unique_id (node_at s (vec ! y)))"

lemma homogeneousD:
  assumes "homogeneous s vec cand par"
  shows "uf_wf par" "length par = length vec"
    and "x < length vec \<Longrightarrow> y < length vec \<Longrightarrow> uf_root par x = uf_root par y \<Longrightarrow>
      x = y \<or> cand ! x \<and> cand ! y \<and>
        device_unique_id (node_at s (vec ! x)) = device_unique_id (node_at s (vec ! y))"
  using assms unfolding homogeneous_def by blast+

lemma homogeneousI:
  assumes "uf_wf par" "length par = length vec"
    and "\<And>x y. x < length vec \<Longrightarrow> y < length vec \<Longrightarrow> uf_root par x = uf_root par y \<Longrightarrow> x \<noteq> y \<Longrightarrow>
      cand ! x \<and> cand ! y \<and> device_unique_id (node_at s (vec ! x)) = device_unique_id (node_at s (vec ! y))"
  shows "homogeneous s vec cand par"
  using assms unfolding homogeneous_def by blast

lemma homogeneous_find:
  assumes "homogeneous s vec cand par" "x < length vec"
  shows "\<exists>par'. uf_find x par = Inr (uf_root par x, par') \<and> homogeneous s vec cand par' \<and>
    (\<forall>y<length vec. uf_root par' y = uf_root par y)"
proof -
  note h = homogeneousD [OF assms(1)]
  obtain p where p: "uf_find x par = Inr (uf_root par x, p)" "uf_wf p" "length p = length par"
    "\<forall>y<length par. uf_root p y = uf_root par y"
    using union_find.find_law [OF h(1)] assms(2) h(2) by metis
  have "homogeneous s vec cand p"
  proof (rule homogeneousI)
    show "uf_wf p" "length p = length vec" using p h(2) by simp_all
    fix x y assume xy: "x < length vec" "y < length vec" "uf_root p x = uf_root p y" "x \<noteq> y"
    then have "uf_root par x = uf_root par y" using p(4) h(2) by simp
    then show "cand ! x \<and> cand ! y \<and> device_unique_id (node_at s (vec ! x)) = device_unique_id (node_at s (vec ! y))"
      using h(3) [OF xy(1,2)] xy(4) by blast
  qed
  then show ?thesis using p h(2) by simp
qed

lemma homogeneous_unite:
  assumes hom: "homogeneous s vec cand par" and ab: "a < length vec" "b < length vec"
    and c: "cand ! a" "cand ! b"
      "device_unique_id (node_at s (vec ! a)) = device_unique_id (node_at s (vec ! b))"
  shows "\<exists>par'. uf_unite a b par = Inr par' \<and> homogeneous s vec cand par' \<and>
    (\<forall>y<length vec. uf_root par' y = (if uf_root par y = uf_root par a then uf_root par b else uf_root par y))"
proof -
  note h = homogeneousD [OF hom]
  obtain p where p: "uf_unite a b par = Inr p" "uf_wf p" "length p = length par"
    and r: "\<forall>y<length par. uf_root p y = (if uf_root par y = uf_root par a then uf_root par b else uf_root par y)"
    using union_find.unite_law [OF h(1)] ab h(2) by metis
  have both: "cand ! x \<and> cand ! y \<and> device_unique_id (node_at s (vec ! x)) = device_unique_id (node_at s (vec ! y))"
    if xy: "x < length vec" "y < length vec" "uf_root p x = uf_root p y" "x \<noteq> y" for x y
  proof -
    have like: "z = w \<or> cand ! z \<and> cand ! w \<and>
        device_unique_id (node_at s (vec ! z)) = device_unique_id (node_at s (vec ! w))"
      if "z < length vec" "w < length vec" "uf_root par z = uf_root par w" for z w
      using h(3) [OF that] .
    have rx: "uf_root p x = (if uf_root par x = uf_root par a then uf_root par b else uf_root par x)"
      "uf_root p y = (if uf_root par y = uf_root par a then uf_root par b else uf_root par y)"
      using r xy(1,2) h(2) by simp_all
    then consider "uf_root par x = uf_root par y" | "uf_root par x = uf_root par a" "uf_root par y = uf_root par b"
      | "uf_root par x = uf_root par b" "uf_root par y = uf_root par a"
      using xy(3) by (auto split: if_splits)
    then show ?thesis
    proof cases
      case 1
      then show ?thesis using like [OF xy(1,2)] xy(4) by blast
    next
      case 2
      then show ?thesis using like [OF xy(1) ab(1)] like [OF xy(2) ab(2)] c by auto
    next
      case 3
      then show ?thesis using like [OF xy(1) ab(2)] like [OF xy(2) ab(1)] c by auto
    qed
  qed
  have "homogeneous s vec cand p"
  proof (rule homogeneousI)
    show "uf_wf p" by (rule p(2))
    show "length p = length vec" using p(3) h(2) by simp
  qed (rule both)
  then show ?thesis using p(1) r h(2) by simp
qed

lemma flood_fill_ok:
  assumes ix: "indexed s vec"
  shows "\<exists>par. flood_fill s vec cand [0..<length vec] = Inr par \<and> homogeneous s vec cand par \<and>
    (\<forall>(i, j)\<in>set (flood_pairs s vec cand). uf_root par i = uf_root par j)"
proof -
  let ?P = "flood_pairs s vec cand"
  let ?I = "\<lambda>k par. homogeneous s vec cand par \<and> (\<forall>(i, j)\<in>set (take k ?P). uf_root par i = uf_root par j)"
  have "\<exists>par. for_each (\<lambda>(a, b). uf_unite a b) ?P [0..<length vec] = Inr par \<and> ?I (length ?P) par"
  proof (rule for_each_invariant)
    show "?I 0 [0..<length vec]" by (simp add: homogeneous_def uf_initial)
  next
    fix k par assume k: "k < length ?P" and I: "?I k par"
    obtain a b where ab: "?P ! k = (a, b)" by (cases "?P ! k")
    then have e: "(a, b) \<in> set ?P" using k nth_mem by metis
    note f = flood_pairs_iff [OF ix, of a b cand, THEN iffD1, OF e]
    obtain p where p: "uf_unite a b par = Inr p" "homogeneous s vec cand p"
      "\<forall>y<length vec. uf_root p y = (if uf_root par y = uf_root par a then uf_root par b else uf_root par y)"
      using homogeneous_unite [of s vec cand par a b] I f by auto
    have "uf_root p i = uf_root p j" if "(i, j) \<in> set (take (Suc k) ?P)" for i j
    proof -
      have ij: "(i, j) \<in> set (take k ?P) \<or> (i, j) = (a, b)" using that ab k by (auto simp: take_Suc_conv_app_nth)
      then have "(i, j) \<in> set ?P" using e by (auto dest: in_set_takeD)
      then have "i < length vec" "j < length vec" using flood_pairs_iff [OF ix] by blast+
      moreover have "uf_root par i = uf_root par j \<or> (i, j) = (a, b)" using ij I by blast
      ultimately show ?thesis using p(3) f by auto
    qed
    then show "\<exists>p. (case ?P ! k of (a, b) \<Rightarrow> uf_unite a b) par = Inr p \<and> ?I (Suc k) p"
      using p(1,2) ab by auto
  qed
  then show ?thesis unfolding flood_fill_pairs by auto
qed


subsection \<open>The quotient\<close>

text \<open>The edges between islands, an island being named by its root.\<close>

definition island_edges :: "store \<Rightarrow> node_ref list \<Rightarrow> nat list \<Rightarrow> (nat \<times> nat) set" where
  "island_edges s vec par =
     {(uf_root par i, uf_root par (index_of s v)) |i v. i < length vec \<and> v \<in> set (succs s (vec ! i))}"

definition quotient_of :: "(nat \<times> nat) set \<Rightarrow> quotient \<Rightarrow> bool" where
  "quotient_of E q \<longleftrightarrow>
     rsucc q = (\<lambda>r. {b. (r, b) \<in> E \<and> r \<noteq> b}) \<and> rpred q = (\<lambda>r. {a. (a, r) \<in> E \<and> a \<noteq> r})"

definition same_roots :: "node_ref list \<Rightarrow> nat list \<Rightarrow> nat list \<Rightarrow> bool" where
  "same_roots vec par par' \<longleftrightarrow> (\<forall>y<length vec. uf_root par' y = uf_root par y)"

lemma quotient_edge_ok:
  assumes ix: "indexed s vec" and v: "v \<in> set vec"
    and q: "homogeneous s vec cand (qparent q)" "same_roots vec par (qparent q)" "quotient_of E q"
  shows "\<exists>q'. quotient_edge s ri v q = Inr q' \<and> homogeneous s vec cand (qparent q') \<and>
    same_roots vec par (qparent q') \<and> quotient_of (insert (ri, uf_root par (index_of s v)) E) q'"
proof -
  let ?j = "index_of s v"
  have j: "?j < length vec" by (rule indexed_set(1) [OF ix v])
  obtain p where p: "uf_find ?j (qparent q) = Inr (uf_root (qparent q) ?j, p)" "homogeneous s vec cand p"
    "\<forall>y<length vec. uf_root p y = uf_root (qparent q) y"
    using homogeneous_find [OF q(1) j] by blast
  have rj: "uf_root (qparent q) ?j = uf_root par ?j" using q(2) j by (simp add: same_roots_def)
  have sr: "same_roots vec par p" using p(3) q(2) by (simp add: same_roots_def)
  have "quotient_of (insert (ri, uf_root par ?j) E)
      (if ri \<noteq> uf_root par ?j
       then q\<lparr>qparent := p, rsucc := (rsucc q)(ri := insert (uf_root par ?j) (rsucc q ri)),
              rpred := (rpred q)(uf_root par ?j := insert ri (rpred q (uf_root par ?j)))\<rparr>
       else q\<lparr>qparent := p\<rparr>)"
    using q(3) by (auto simp: quotient_of_def fun_eq_iff)
  then show ?thesis using p(1,2) sr rj by (simp add: quotient_edge_def)
qed

lemma quotient_edges_ok:
  assumes ix: "indexed s vec"
  shows "set vs \<subseteq> set vec \<Longrightarrow> homogeneous s vec cand (qparent q) \<Longrightarrow> same_roots vec par (qparent q) \<Longrightarrow>
    quotient_of E q \<Longrightarrow>
    \<exists>q'. for_each (quotient_edge s ri) vs q = Inr q' \<and> homogeneous s vec cand (qparent q') \<and>
      same_roots vec par (qparent q') \<and> quotient_of (E \<union> (\<lambda>v. (ri, uf_root par (index_of s v))) ` set vs) q'"
proof (induction vs arbitrary: q E)
  case Nil
  then show ?case by simp
next
  case (Cons v vs)
  obtain q1 where q1: "quotient_edge s ri v q = Inr q1" "homogeneous s vec cand (qparent q1)"
    "same_roots vec par (qparent q1)" "quotient_of (insert (ri, uf_root par (index_of s v)) E) q1"
    using quotient_edge_ok [OF ix _ Cons.prems(2-4), of v ri] Cons.prems(1) by auto
  have "set vs \<subseteq> set vec" using Cons.prems(1) by simp
  from Cons.IH [OF this q1(2-4)] show ?case using q1(1) by simp
qed

lemma build_quotient_ok:
  assumes ix: "indexed s vec" and hom: "homogeneous s vec cand par"
  shows "\<exists>q. build_quotient s vec par = Inr q \<and> homogeneous s vec cand (qparent q) \<and>
    same_roots vec par (qparent q) \<and> quotient_of (island_edges s vec par) q"
proof -
  let ?e = "\<lambda>i v. (uf_root par i, uf_root par (index_of s v))"
  let ?E = "\<lambda>k. {?e i v |i v. i < k \<and> v \<in> set (succs s (vec ! i))}"
  let ?I = "\<lambda>k q. homogeneous s vec cand (qparent q) \<and> same_roots vec par (qparent q) \<and> quotient_of (?E k) q"
  let ?body = "\<lambda>i q. bind_result (uf_find i (qparent q)) (\<lambda>(ri, par).
      for_each (quotient_edge s ri) (succs s (vec ! i)) (q\<lparr>qparent := par\<rparr>))"
  have "\<exists>q. for_each ?body [0..<length vec] \<lparr>qparent = par, rpred = (\<lambda>_. {}), rsucc = (\<lambda>_. {})\<rparr> = Inr q \<and>
      ?I (length [0..<length vec]) q"
  proof (rule for_each_invariant)
    show "?I 0 \<lparr>qparent = par, rpred = (\<lambda>_. {}), rsucc = (\<lambda>_. {})\<rparr>"
      using hom by (simp add: same_roots_def quotient_of_def)
  next
    fix k q assume k: "k < length [0..<length vec]" and I: "?I k q"
    then have kn: "k < length vec" by simp
    obtain p where p: "uf_find k (qparent q) = Inr (uf_root (qparent q) k, p)" "homogeneous s vec cand p"
      "\<forall>y<length vec. uf_root p y = uf_root (qparent q) y"
      using homogeneous_find [of s vec cand "qparent q" k] I kn by blast
    have rk: "uf_root (qparent q) k = uf_root par k" using I kn by (simp add: same_roots_def)
    have sub: "set (succs s (vec ! k)) \<subseteq> set vec" using ix kn by (simp add: indexed_def)
    have "same_roots vec par p" using p(3) I by (simp add: same_roots_def)
    then obtain q' where q': "for_each (quotient_edge s (uf_root par k)) (succs s (vec ! k)) (q\<lparr>qparent := p\<rparr>) = Inr q'"
      "homogeneous s vec cand (qparent q')" "same_roots vec par (qparent q')"
      "quotient_of (?E k \<union> ?e k ` set (succs s (vec ! k))) q'"
      using quotient_edges_ok [OF ix sub, of cand "q\<lparr>qparent := p\<rparr>" par "?E k" "uf_root par k"] p(2) I
      by (auto simp: quotient_of_def)
    have "?E k \<union> ?e k ` set (succs s (vec ! k)) = ?E (Suc k)" by (auto simp: less_Suc_eq)
    then show "\<exists>q'. ?body ([0..<length vec] ! k) q = Inr q' \<and> ?I (Suc k) q'"
      using p(1) rk q' kn by auto
  qed
  then show ?thesis by (simp add: build_quotient_def island_edges_def)
qed


subsection \<open>One round of twin folding\<close>

definition island_key :: "store \<Rightarrow> node_ref list \<Rightarrow> quotient \<Rightarrow> nat \<Rightarrow> twin_key" where
  "island_key s vec q i = (device_unique_id (node_at s (vec ! i)), rpred q i, rsucc q i)"

text \<open>
  The state of the scan after \<open>k\<close> positions, against the parents \<open>p0\<close> of the start: \<open>seen\<close> holds
  roots with their keys; until something is united it holds every candidate root, once per key.
\<close>

definition scanned ::
  "store \<Rightarrow> node_ref list \<Rightarrow> bool list \<Rightarrow> quotient \<Rightarrow> nat list \<Rightarrow> nat \<Rightarrow> nat list \<Rightarrow> (twin_key \<times> nat) list \<Rightarrow> bool \<Rightarrow> bool" where
  "scanned s vec cand q p0 k p seen ch \<longleftrightarrow>
     homogeneous s vec cand p \<and>
     (\<forall>x<length vec. \<forall>y<length vec. uf_root p0 x = uf_root p0 y \<longrightarrow> uf_root p x = uf_root p y) \<and>
     (\<forall>(key, j)\<in>set seen. j < k \<and> cand ! j \<and> uf_root p j = j \<and> key = island_key s vec q j) \<and>
     (if ch then card (union_find.classes p) < card (union_find.classes p0)
      else same_roots vec p0 p \<and> distinct (map fst seen) \<and>
        (\<forall>j<k. cand ! j \<and> uf_root p0 j = j \<longrightarrow> (island_key s vec q j, j) \<in> set seen))"

lemma scannedI:
  assumes "homogeneous s vec cand p"
    and "\<And>x y. x < length vec \<Longrightarrow> y < length vec \<Longrightarrow> uf_root p0 x = uf_root p0 y \<Longrightarrow> uf_root p x = uf_root p y"
    and "\<And>key j. (key, j) \<in> set seen \<Longrightarrow> j < k \<and> cand ! j \<and> uf_root p j = j \<and> key = island_key s vec q j"
    and "ch \<Longrightarrow> card (union_find.classes p) < card (union_find.classes p0)"
    and "\<not> ch \<Longrightarrow> same_roots vec p0 p" and "\<not> ch \<Longrightarrow> distinct (map fst seen)"
    and "\<And>j. \<not> ch \<Longrightarrow> j < k \<Longrightarrow> cand ! j \<Longrightarrow> uf_root p0 j = j \<Longrightarrow> (island_key s vec q j, j) \<in> set seen"
  shows "scanned s vec cand q p0 k p seen ch"
proof -
  have "\<forall>(key, j)\<in>set seen. j < k \<and> cand ! j \<and> uf_root p j = j \<and> key = island_key s vec q j"
    using assms(3) by blast
  moreover have "\<forall>x<length vec. \<forall>y<length vec. uf_root p0 x = uf_root p0 y \<longrightarrow> uf_root p x = uf_root p y"
    using assms(2) by blast
  moreover have "if ch then card (union_find.classes p) < card (union_find.classes p0)
      else same_roots vec p0 p \<and> distinct (map fst seen) \<and>
        (\<forall>j<k. cand ! j \<and> uf_root p0 j = j \<longrightarrow> (island_key s vec q j, j) \<in> set seen)"
  proof (cases ch)
    case True
    then show ?thesis using assms(4) by simp
  next
    case False
    then show ?thesis using assms(5-7) by simp
  qed
  ultimately show ?thesis using assms(1) unfolding scanned_def by blast
qed

lemma scannedD:
  assumes "scanned s vec cand q p0 k p seen ch"
  shows "homogeneous s vec cand p"
    and "x < length vec \<Longrightarrow> y < length vec \<Longrightarrow> uf_root p0 x = uf_root p0 y \<Longrightarrow> uf_root p x = uf_root p y"
    and "(key, j) \<in> set seen \<Longrightarrow> j < k \<and> cand ! j \<and> uf_root p j = j \<and> key = island_key s vec q j"
    and "ch \<Longrightarrow> card (union_find.classes p) < card (union_find.classes p0)"
    and "\<not> ch \<Longrightarrow> same_roots vec p0 p" and "\<not> ch \<Longrightarrow> distinct (map fst seen)"
    and "\<not> ch \<Longrightarrow> j < k \<Longrightarrow> cand ! j \<Longrightarrow> uf_root p0 j = j \<Longrightarrow> (island_key s vec q j, j) \<in> set seen"
proof -
  note a = assms [unfolded scanned_def]
  show "homogeneous s vec cand p" using a by blast
  show "x < length vec \<Longrightarrow> y < length vec \<Longrightarrow> uf_root p0 x = uf_root p0 y \<Longrightarrow> uf_root p x = uf_root p y"
    using a by blast
  show "(key, j) \<in> set seen \<Longrightarrow> j < k \<and> cand ! j \<and> uf_root p j = j \<and> key = island_key s vec q j"
    using a by blast
  have i: "if ch then card (union_find.classes p) < card (union_find.classes p0)
      else same_roots vec p0 p \<and> distinct (map fst seen) \<and>
        (\<forall>j<k. cand ! j \<and> uf_root p0 j = j \<longrightarrow> (island_key s vec q j, j) \<in> set seen)"
    using a by blast
  show "ch \<Longrightarrow> card (union_find.classes p) < card (union_find.classes p0)"
    "\<not> ch \<Longrightarrow> same_roots vec p0 p" "\<not> ch \<Longrightarrow> distinct (map fst seen)"
    "\<not> ch \<Longrightarrow> j < k \<Longrightarrow> cand ! j \<Longrightarrow> uf_root p0 j = j \<Longrightarrow> (island_key s vec q j, j) \<in> set seen"
    using i by presburger+
qed

lemma classes_same_roots:
  assumes "same_roots vec p0 p" "length p0 = length vec" "length p = length vec"
  shows "union_find.classes p = union_find.classes p0"
  unfolding union_find.classes_def assms(2,3)
  by (rule image_cong) (use assms(1) in \<open>simp_all add: same_roots_def\<close>)

lemma same_rootsD: "same_roots vec p p' \<Longrightarrow> y < length vec \<Longrightarrow> uf_root p' y = uf_root p y"
  by (simp add: same_roots_def)

text \<open>A \<^verbatim>\<open>find\<close> in between changes nothing.\<close>

lemma scanned_same_roots:
  assumes sc: "scanned s vec cand q p0 k p seen ch" and kn: "k \<le> length vec"
    and p': "homogeneous s vec cand p'" "same_roots vec p p'"
  shows "scanned s vec cand q p0 k p' seen ch"
proof -
  note d = scannedD [OF sc] and r = same_rootsD [OF p'(2)]
  have cl: "union_find.classes p' = union_find.classes p"
    by (rule classes_same_roots [OF p'(2) homogeneousD(2) [OF d(1)] homogeneousD(2) [OF p'(1)]])
  show ?thesis
  proof (rule scannedI [OF p'(1)])
    fix x y assume "x < length vec" "y < length vec" "uf_root p0 x = uf_root p0 y"
    then show "uf_root p' x = uf_root p' y" using d(2) [of x y] r [of x] r [of y] by simp
  next
    fix key j assume "(key, j) \<in> set seen"
    from d(3) [OF this] show "j < k \<and> cand ! j \<and> uf_root p' j = j \<and> key = island_key s vec q j"
      using r [of j] kn by simp
  next
    show "ch \<Longrightarrow> card (union_find.classes p') < card (union_find.classes p0)" unfolding cl by (rule d(4))
    show "\<not> ch \<Longrightarrow> distinct (map fst seen)" by (rule d(6))
    show "\<not> ch \<Longrightarrow> j < k \<Longrightarrow> cand ! j \<Longrightarrow> uf_root p0 j = j \<Longrightarrow> (island_key s vec q j, j) \<in> set seen" for j
      by (rule d(7))
    assume "\<not> ch"
    then show "same_roots vec p0 p'" using same_rootsD [OF d(5)] r by (simp add: same_roots_def)
  qed
qed

text \<open>A position that is no candidate root adds nothing.\<close>

lemma scanned_skip:
  assumes sc: "scanned s vec cand q p0 k p seen ch" and k: "k < length vec"
    and skip: "\<not> (cand ! k \<and> uf_root p k = k)"
  shows "scanned s vec cand q p0 (Suc k) p seen ch"
proof -
  note d = scannedD [OF sc]
  show ?thesis
  proof (rule scannedI [OF d(1)])
    show "x < length vec \<Longrightarrow> y < length vec \<Longrightarrow> uf_root p0 x = uf_root p0 y \<Longrightarrow> uf_root p x = uf_root p y"
      for x y by (rule d(2))
    show "ch \<Longrightarrow> card (union_find.classes p) < card (union_find.classes p0)" by (rule d(4))
    show "\<not> ch \<Longrightarrow> same_roots vec p0 p" by (rule d(5))
    show "\<not> ch \<Longrightarrow> distinct (map fst seen)" by (rule d(6))
    fix key j assume "(key, j) \<in> set seen"
    from d(3) [OF this] show "j < Suc k \<and> cand ! j \<and> uf_root p j = j \<and> key = island_key s vec q j" by simp
  next
    fix j assume j: "\<not> ch" "j < Suc k" "cand ! j" "uf_root p0 j = j"
    have "j \<noteq> k" using skip j(3,4) same_rootsD [OF d(5) [OF j(1)] k] by auto
    then show "(island_key s vec q j, j) \<in> set seen" using d(7) j by simp
  qed
qed

text \<open>A root whose key was seen is united with the earlier one: one class less.\<close>

lemma scanned_unite:
  assumes sc: "scanned s vec cand q p0 k p seen ch" and len: "length p0 = length vec"
    and k: "k < length vec" "cand ! k" "uf_root p k = k"
    and m: "map_of seen (island_key s vec q k) = Some j"
  shows "\<exists>p'. uf_unite k j p = Inr p' \<and> scanned s vec cand q p0 (Suc k) p' seen True"
proof -
  note d = scannedD [OF sc]
  note h = homogeneousD [OF d(1)]
  have j: "j < k" "cand ! j" "uf_root p j = j" "island_key s vec q k = island_key s vec q j"
    using d(3) [OF map_of_SomeD [OF m]] by blast+
  have jn: "j < length vec" using j(1) k(1) by simp
  have dev: "device_unique_id (node_at s (vec ! k)) = device_unique_id (node_at s (vec ! j))"
    using j(4) by (simp add: island_key_def)
  obtain p' where p': "uf_unite k j p = Inr p'" "homogeneous s vec cand p'"
    and r: "\<forall>y<length vec. uf_root p' y = (if uf_root p y = uf_root p k then uf_root p j else uf_root p y)"
    using homogeneous_unite [OF d(1) k(1) jn k(2) j(2) dev] by blast
  have r': "uf_root p' y = (if uf_root p y = k then j else uf_root p y)" if "y < length vec" for y
    using r that k(3) j(3) by simp
  have less: "card (union_find.classes p') < card (union_find.classes p)"
  proof (rule union_find.unite_classes(2) [OF h(1) _ _ p'(1)])
    show "k < length p" "j < length p" using k(1) jn h(2) by simp_all
    show "uf_root p k \<noteq> uf_root p j" using k(3) j(1,3) by simp
  qed
  have "card (union_find.classes p) \<le> card (union_find.classes p0)"
  proof (cases ch)
    case True
    then show ?thesis using d(4) by simp
  next
    case False
    then show ?thesis using classes_same_roots [OF d(5) len h(2)] by simp
  qed
  with less have card: "card (union_find.classes p') < card (union_find.classes p0)" by simp
  have "scanned s vec cand q p0 (Suc k) p' seen True"
  proof (rule scannedI [OF p'(2)])
    fix x y assume xy: "x < length vec" "y < length vec" "uf_root p0 x = uf_root p0 y"
    show "uf_root p' x = uf_root p' y" unfolding r' [OF xy(1)] r' [OF xy(2)] d(2) [OF xy] by (rule refl)
  next
    fix key i assume "(key, i) \<in> set seen"
    from d(3) [OF this] show "i < Suc k \<and> cand ! i \<and> uf_root p' i = i \<and> key = island_key s vec q i"
      using r' [of i] k(1) by simp
  qed (use card in simp_all)
  then show ?thesis using p'(1) by blast
qed

lemma scanned_see:
  assumes sc: "scanned s vec cand q p0 k p seen ch" and k: "k < length vec" "cand ! k" "uf_root p k = k"
    and m: "map_of seen (island_key s vec q k) = None"
  shows "scanned s vec cand q p0 (Suc k) p ((island_key s vec q k, k) # seen) ch"
proof -
  note d = scannedD [OF sc]
  show ?thesis
  proof (rule scannedI [OF d(1)])
    show "x < length vec \<Longrightarrow> y < length vec \<Longrightarrow> uf_root p0 x = uf_root p0 y \<Longrightarrow> uf_root p x = uf_root p y"
      for x y by (rule d(2))
    show "ch \<Longrightarrow> card (union_find.classes p) < card (union_find.classes p0)" by (rule d(4))
    show "\<not> ch \<Longrightarrow> same_roots vec p0 p" by (rule d(5))
    assume "\<not> ch"
    then show "distinct (map fst ((island_key s vec q k, k) # seen))"
      using d(6) m by (simp add: map_of_eq_None_iff)
  next
    fix key j assume "(key, j) \<in> set ((island_key s vec q k, k) # seen)"
    then consider "key = island_key s vec q k" "j = k" | "(key, j) \<in> set seen" by auto
    then show "j < Suc k \<and> cand ! j \<and> uf_root p j = j \<and> key = island_key s vec q j"
    proof cases
      case 1
      then show ?thesis using k by simp
    next
      case 2
      from d(3) [OF this] show ?thesis by simp
    qed
  next
    fix j assume j: "\<not> ch" "j < Suc k" "cand ! j" "uf_root p0 j = j"
    then show "(island_key s vec q j, j) \<in> set ((island_key s vec q k, k) # seen)"
      using d(7) [of j] by (cases "j = k") simp_all
  qed
qed

lemma twin_step_ok:
  assumes sc: "scanned s vec cand q p0 k p seen ch" and len: "length p0 = length vec" and k: "k < length vec"
  shows "\<exists>p' seen' ch'. twin_step s vec cand q k (p, seen, ch) = Inr (p', seen', ch') \<and>
    scanned s vec cand q p0 (Suc k) p' seen' ch'"
proof (cases "cand ! k")
  case False
  then show ?thesis using scanned_skip [OF sc k] by (simp add: twin_step_def)
next
  case True
  obtain p1 where p1: "uf_find k p = Inr (uf_root p k, p1)" "homogeneous s vec cand p1"
    "\<forall>y<length vec. uf_root p1 y = uf_root p y"
    using homogeneous_find [OF scannedD(1) [OF sc] k] by blast
  have sc1: "scanned s vec cand q p0 k p1 seen ch"
    by (rule scanned_same_roots [OF sc _ p1(2)]) (use k p1(3) in \<open>simp_all add: same_roots_def\<close>)
  have r1: "uf_root p1 k = uf_root p k" using p1(3) k by simp
  show ?thesis
  proof (cases "uf_root p k = k")
    case False
    then show ?thesis using scanned_skip [OF sc1 k] r1 True p1(1) by (simp add: twin_step_def)
  next
    case root: True
    then have r1: "uf_root p1 k = k" using r1 by simp
    show ?thesis
    proof (cases "map_of seen (island_key s vec q k)")
      case None
      then show ?thesis
        using scanned_see [OF sc1 k True r1 None] True root p1(1) by (simp add: twin_step_def island_key_def)
    next
      case (Some j)
      obtain p' where "uf_unite k j p1 = Inr p'" "scanned s vec cand q p0 (Suc k) p' seen True"
        using scanned_unite [OF sc1 len k True r1 Some] by blast
      then show ?thesis using True root p1(1) Some by (auto simp: twin_step_def island_key_def)
    qed
  qed
qed


subsection \<open>Folding until stable\<close>

definition twin_free :: "store \<Rightarrow> node_ref list \<Rightarrow> bool list \<Rightarrow> nat list \<Rightarrow> bool" where
  "twin_free s vec cand par \<longleftrightarrow>
     (\<forall>i<length vec. \<forall>j<length vec.
        cand ! i \<longrightarrow> cand ! j \<longrightarrow> uf_root par i = i \<longrightarrow> uf_root par j = j \<longrightarrow>
        device_unique_id (node_at s (vec ! i)) = device_unique_id (node_at s (vec ! j)) \<longrightarrow>
        {a. (a, i) \<in> island_edges s vec par \<and> a \<noteq> i} = {a. (a, j) \<in> island_edges s vec par \<and> a \<noteq> j} \<longrightarrow>
        {b. (i, b) \<in> island_edges s vec par \<and> i \<noteq> b} = {b. (j, b) \<in> island_edges s vec par \<and> j \<noteq> b} \<longrightarrow>
        i = j)"

definition coarser :: "node_ref list \<Rightarrow> nat list \<Rightarrow> nat list \<Rightarrow> bool" where
  "coarser vec par par' \<longleftrightarrow>
     (\<forall>x<length vec. \<forall>y<length vec. uf_root par x = uf_root par y \<longrightarrow> uf_root par' x = uf_root par' y)"

lemma coarser_trans: "coarser vec a b \<Longrightarrow> coarser vec b c \<Longrightarrow> coarser vec a c"
  unfolding coarser_def by blast

lemma same_roots_coarser: "same_roots vec a b \<Longrightarrow> coarser vec a b"
  by (simp add: coarser_def same_roots_def)

lemma island_edges_UN:
  "island_edges s vec par =
     (\<Union>i\<in>{..<length vec}. (\<lambda>v. (uf_root par i, uf_root par (index_of s v))) ` set (succs s (vec ! i)))"
  by (auto simp: island_edges_def)

lemma island_edges_same_roots:
  assumes "indexed s vec" "same_roots vec par par'"
  shows "island_edges s vec par' = island_edges s vec par"
proof -
  have "uf_root par' i = uf_root par i \<and> uf_root par' (index_of s v) = uf_root par (index_of s v)"
    if "i < length vec" "v \<in> set (succs s (vec ! i))" for i v
    using indexed_succ(2) [OF assms(1) that] that(1) same_rootsD [OF assms(2)] by simp
  then have "(\<lambda>v. (uf_root par' i, uf_root par' (index_of s v))) ` set (succs s (vec ! i)) =
      (\<lambda>v. (uf_root par i, uf_root par (index_of s v))) ` set (succs s (vec ! i))" if "i < length vec" for i
    using that by (intro image_cong) simp_all
  then show ?thesis unfolding island_edges_UN by (intro SUP_cong) simp_all
qed

lemma twin_round_ok:
  assumes ix: "indexed s vec" and hom: "homogeneous s vec cand par"
  shows "\<exists>par' ch. twin_round s vec cand par = Inr (par', ch) \<and> homogeneous s vec cand par' \<and>
    coarser vec par par' \<and> (ch \<longrightarrow> card (union_find.classes par') < card (union_find.classes par)) \<and>
    (\<not> ch \<longrightarrow> twin_free s vec cand par')"
proof -
  obtain q where q: "build_quotient s vec par = Inr q" "homogeneous s vec cand (qparent q)"
    "same_roots vec par (qparent q)" "quotient_of (island_edges s vec par) q"
    using build_quotient_ok [OF ix hom] by blast
  let ?p0 = "qparent q"
  have len: "length par = length vec" "length ?p0 = length vec"
    using homogeneousD(2) [OF hom] homogeneousD(2) [OF q(2)] by simp_all
  let ?I = "\<lambda>k (p, seen, ch). scanned s vec cand q ?p0 k p seen ch"
  have "\<exists>st. for_each (twin_step s vec cand q) [0..<length vec] (?p0, [], False) = Inr st \<and>
      ?I (length [0..<length vec]) st"
  proof (rule for_each_invariant)
    have "scanned s vec cand q ?p0 0 ?p0 [] False"
      by (rule scannedI [OF q(2)]) (simp_all add: same_roots_def)
    then show "?I 0 (?p0, [], False)" by simp
  next
    fix k st assume k: "k < length [0..<length vec]" and I: "?I k st"
    obtain p seen ch where st: "st = (p, seen, ch)" by (cases st)
    have "k < length vec" using k by simp
    from twin_step_ok [OF _ len(2) this, of s cand q p seen ch] I st
    show "\<exists>st'. twin_step s vec cand q ([0..<length vec] ! k) st = Inr st' \<and> ?I (Suc k) st'"
      using k by auto
  qed
  then obtain p seen ch where r: "for_each (twin_step s vec cand q) [0..<length vec] (?p0, [], False) = Inr (p, seen, ch)"
    and sc: "scanned s vec cand q ?p0 (length vec) p seen ch" by auto
  note d = scannedD [OF sc]
  have cl: "union_find.classes ?p0 = union_find.classes par" by (rule classes_same_roots [OF q(3) len])
  have "coarser vec ?p0 p" unfolding coarser_def using d(2) by blast
  then have co: "coarser vec par p" by (rule coarser_trans [OF same_roots_coarser [OF q(3)]])
  have "twin_free s vec cand p" if ch: "\<not> ch"
    unfolding twin_free_def
  proof (intro allI impI)
    fix i j assume ij: "i < length vec" "j < length vec" "cand ! i" "cand ! j" "uf_root p i = i" "uf_root p j = j"
      "device_unique_id (node_at s (vec ! i)) = device_unique_id (node_at s (vec ! j))"
      "{a. (a, i) \<in> island_edges s vec p \<and> a \<noteq> i} = {a. (a, j) \<in> island_edges s vec p \<and> a \<noteq> j}"
      "{b. (i, b) \<in> island_edges s vec p \<and> i \<noteq> b} = {b. (j, b) \<in> island_edges s vec p \<and> j \<noteq> b}"
    note sr = same_rootsD [OF d(5) [OF ch]]
    have "same_roots vec par p" using sr same_rootsD [OF q(3)] by (simp add: same_roots_def)
    from island_edges_same_roots [OF ix this] have E: "island_edges s vec p = island_edges s vec par" .
    have "island_key s vec q i = island_key s vec q j"
      using q(4) ij(7-9) unfolding E by (simp add: island_key_def quotient_of_def)
    moreover have "uf_root ?p0 i = i" "uf_root ?p0 j = j" using sr [OF ij(1)] sr [OF ij(2)] ij(5,6) by simp_all
    then have "(island_key s vec q i, i) \<in> set seen" "(island_key s vec q j, j) \<in> set seen"
      using d(7) [OF ch ij(1,3)] d(7) [OF ch ij(2,4)] by simp_all
    ultimately show "i = j" using d(6) [OF ch] by (metis map_of_is_SomeI option.inject)
  qed
  moreover have "ch \<longrightarrow> card (union_find.classes p) < card (union_find.classes par)"
    using d(4) unfolding cl by simp
  ultimately show ?thesis using q(1) r d(1) co by (simp add: twin_round_def)
qed

lemma fold_twins_ok:
  assumes ix: "indexed s vec"
  shows "homogeneous s vec cand par \<Longrightarrow> card (union_find.classes par) < fuel \<Longrightarrow>
    \<exists>par'. fold_twins fuel s vec cand par = Inr par' \<and> homogeneous s vec cand par' \<and>
      coarser vec par par' \<and> twin_free s vec cand par'"
proof (induction fuel arbitrary: par)
  case 0
  then show ?case by simp
next
  case (Suc fuel)
  obtain p ch where p: "twin_round s vec cand par = Inr (p, ch)" "homogeneous s vec cand p" "coarser vec par p"
    "ch \<Longrightarrow> card (union_find.classes p) < card (union_find.classes par)" "\<not> ch \<Longrightarrow> twin_free s vec cand p"
    using twin_round_ok [OF ix Suc.prems(1)] by blast
  show ?case
  proof (cases ch)
    case True
    then have "card (union_find.classes p) < fuel" using p(4) Suc.prems(2) by simp
    from Suc.IH [OF p(2) this] show ?thesis using p(1,3) True coarser_trans by fastforce
  next
    case False
    then show ?thesis using p by simp
  qed
qed

subsection \<open>Grouping\<close>

lemma map_of_push_member:
  "map_of (push_member r u island) k =
     (if k = r then Some (members_of island r @ [u]) else map_of island k)"
  by (induction r u island rule: push_member.induct) (auto simp: members_of_def)

lemma distinct_push_member:
  "distinct (map fst island) \<Longrightarrow> distinct (map fst (push_member r u island))"
proof (induction r u island rule: push_member.induct)
  case (2 r u k ms rest)
  have "fst ` set (push_member r u rest) \<subseteq> insert r (fst ` set rest)"
    by (induction r u rest rule: push_member.induct) auto
  then show ?case using 2 by auto
qed simp

text \<open>The members of an island: the candidates with its root, in the order of the vector.\<close>

definition island_members :: "node_ref list \<Rightarrow> bool list \<Rightarrow> nat list \<Rightarrow> nat \<Rightarrow> nat \<Rightarrow> node_ref list" where
  "island_members vec cand par k r = map ((!) vec) (filter (\<lambda>i. cand ! i \<and> uf_root par i = r) [0..<k])"

lemma group_islands_ok:
  assumes hom: "homogeneous s vec cand par"
  shows "\<exists>p island. group_islands vec cand par = Inr (p, island) \<and> distinct (map fst island) \<and>
    (\<forall>r. members_of island r = island_members vec cand par (length vec) r) \<and>
    (\<forall>(r, ms)\<in>set island. ms \<noteq> [])"
proof -
  let ?I = "\<lambda>k (p, island). homogeneous s vec cand p \<and> same_roots vec par p \<and> distinct (map fst island) \<and>
      (\<forall>r. members_of island r = island_members vec cand par k r) \<and> (\<forall>r ms. map_of island r = Some ms \<longrightarrow> ms \<noteq> [])"
  let ?body = "\<lambda>i (par, island). if \<not> cand ! i then Inr (par, island)
      else bind_result (uf_find i par) (\<lambda>(r, par1). Inr (par1, push_member r (vec ! i) island))"
  have "\<exists>st. for_each ?body [0..<length vec] (par, []) = Inr st \<and> ?I (length [0..<length vec]) st"
  proof (rule for_each_invariant)
    show "?I 0 (par, [])" using hom by (simp add: same_roots_def members_of_def island_members_def)
  next
    fix k st assume k: "k < length [0..<length vec]" and I: "?I k st"
    obtain p island where st: "st = (p, island)" by (cases st)
    have kn: "k < length vec" using k by simp
    have I': "homogeneous s vec cand p" "same_roots vec par p" "distinct (map fst island)"
      "\<And>r. members_of island r = island_members vec cand par k r" "\<And>r ms. map_of island r = Some ms \<Longrightarrow> ms \<noteq> []"
      using I st by simp_all
    show "\<exists>st'. ?body ([0..<length vec] ! k) st = Inr st' \<and> ?I (Suc k) st'"
    proof (cases "cand ! k")
      case False
      then have "island_members vec cand par (Suc k) r = island_members vec cand par k r" for r
        by (simp add: island_members_def)
      then show ?thesis using False I' st kn by simp
    next
      case True
      obtain p1 where p1: "uf_find k p = Inr (uf_root p k, p1)" "homogeneous s vec cand p1"
        "\<forall>y<length vec. uf_root p1 y = uf_root p y"
        using homogeneous_find [OF I'(1) kn] by blast
      have rk: "uf_root p k = uf_root par k" by (rule same_rootsD [OF I'(2) kn])
      let ?i = "push_member (uf_root par k) (vec ! k) island"
      have "members_of ?i r = island_members vec cand par (Suc k) r" for r
        using True I'(4) [of r] by (auto simp: members_of_def map_of_push_member island_members_def)
      moreover have "ms \<noteq> []" if "map_of ?i r = Some ms" for r ms
        using that I'(5) [of r ms] by (auto simp: map_of_push_member split: if_splits)
      moreover have "same_roots vec par p1" using p1(3) I'(2) by (simp add: same_roots_def)
      ultimately show ?thesis
        using True p1(1,2) rk st kn distinct_push_member [OF I'(3)] by simp
    qed
  qed
  then obtain p island where r: "for_each ?body [0..<length vec] (par, []) = Inr (p, island)"
    and I: "distinct (map fst island)" "\<forall>r. members_of island r = island_members vec cand par (length vec) r"
      "\<forall>r ms. map_of island r = Some ms \<longrightarrow> ms \<noteq> []" by auto
  have "\<forall>(r, ms)\<in>set island. ms \<noteq> []" using I(1,3) by (auto dest: map_of_is_SomeI)
  then show ?thesis using r I(1,2) by (simp add: group_islands_def)
qed


subsection \<open>The islands of a graph\<close>

lemma iterators_indexed:
  assumes "graph_ok s g V (Suc k)"
    and "create_node_iterators True search ord g s = (s1, vec)"
  shows "indexed s1 vec" "set vec = V" "distinct vec" "wf_graph s1 g V"
proof -
  note c = graph_ok_iterators [OF assms]
  show wf: "wf_graph s1 g V" using c(1) by (simp add: graph_ok_def)
  show v: "set vec = V" "distinct vec" using c(4,5) by (simp_all add: iterated_def)
  show "indexed s1 vec"
    using c(6) wf_adjD(2) [OF wf_graph_adj [OF wf]] v(1) by (simp add: indexed_def)
qed

text \<open>Edges between the islands that a labelling of the nodes describes.\<close>

definition label_edges :: "store \<Rightarrow> node_ref set \<Rightarrow> (node_ref \<Rightarrow> nat) \<Rightarrow> (nat \<times> nat) set" where
  "label_edges s V lab = {(lab u, lab v) |u v. (u, v) \<in> edges s V}"

lemma island_edges_label:
  assumes "indexed s vec" "set vec = V"
  shows "island_edges s vec par = label_edges s V (\<lambda>u. uf_root par (index_of s u))"
proof
  show "island_edges s vec par \<subseteq> label_edges s V (\<lambda>u. uf_root par (index_of s u))"
  proof
    fix e assume "e \<in> island_edges s vec par"
    then obtain i v where iv: "e = (uf_root par i, uf_root par (index_of s v))" "i < length vec"
      "v \<in> set (succs s (vec ! i))" unfolding island_edges_def by blast
    then have "(vec ! i, v) \<in> edges s V" using assms(2) nth_mem [OF iv(2)] indexed_succ(1) [OF assms(1) iv(2,3)]
      by (simp add: edges_def)
    then show "e \<in> label_edges s V (\<lambda>u. uf_root par (index_of s u))"
      unfolding label_edges_def using iv(1) indexed_nth [OF assms(1) iv(2)] by (metis (mono_tags, lifting) mem_Collect_eq)
  qed
  show "label_edges s V (\<lambda>u. uf_root par (index_of s u)) \<subseteq> island_edges s vec par"
  proof
    fix e assume "e \<in> label_edges s V (\<lambda>u. uf_root par (index_of s u))"
    then obtain u v where uv: "e = (uf_root par (index_of s u), uf_root par (index_of s v))" "(u, v) \<in> edges s V"
      unfolding label_edges_def by blast
    then have "u \<in> set vec" "v \<in> set (succs s u)" using assms(2) by (simp_all add: edges_def)
    then show "e \<in> island_edges s vec par"
      unfolding island_edges_def using uv(1) indexed_set [OF assms(1), of u] by (metis (mono_tags, lifting) mem_Collect_eq)
  qed
qed

lemma batch_islands_total:
  assumes ix: "indexed s vec"
  shows "\<exists>par island. batch_islands g s vec = Inr island \<and> distinct (map fst island) \<and>
    homogeneous s vec (map (\<lambda>u. \<not> batch_boundary g s u) vec) par \<and>
    twin_free s vec (map (\<lambda>u. \<not> batch_boundary g s u) vec) par \<and>
    (\<forall>(i, j)\<in>set (flood_pairs s vec (map (\<lambda>u. \<not> batch_boundary g s u) vec)). uf_root par i = uf_root par j) \<and>
    (\<forall>r. members_of island r = island_members vec (map (\<lambda>u. \<not> batch_boundary g s u) vec) par (length vec) r) \<and>
    (\<forall>(r, ms)\<in>set island. ms \<noteq> [])"
proof -
  let ?c = "map (\<lambda>u. \<not> batch_boundary g s u) vec"
  obtain p1 where p1: "flood_fill s vec ?c [0..<length vec] = Inr p1" "homogeneous s vec ?c p1"
    "\<forall>(i, j)\<in>set (flood_pairs s vec ?c). uf_root p1 i = uf_root p1 j"
    using flood_fill_ok [OF ix, of ?c] by blast
  have "card (union_find.classes p1) \<le> card {..<length p1}"
    by (rule card_mono [OF _ union_find.classes_bound [OF homogeneousD(1) [OF p1(2)]]]) simp
  then have "card (union_find.classes p1) < Suc (length vec)" using homogeneousD(2) [OF p1(2)] by simp
  then obtain p2 where p2: "fold_twins (Suc (length vec)) s vec ?c p1 = Inr p2" "homogeneous s vec ?c p2"
    "coarser vec p1 p2" "twin_free s vec ?c p2"
    using fold_twins_ok [OF ix p1(2)] by blast
  obtain p3 island where p3: "group_islands vec ?c p2 = Inr (p3, island)" "distinct (map fst island)"
    "\<forall>r. members_of island r = island_members vec ?c p2 (length vec) r" "\<forall>(r, ms)\<in>set island. ms \<noteq> []"
    using group_islands_ok [OF p2(2)] by blast
  have "uf_root p2 i = uf_root p2 j" if e: "(i, j) \<in> set (flood_pairs s vec ?c)" for i j
  proof -
    have "i < length vec" "j < length vec" using flood_pairs_iff [OF ix] e by blast+
    moreover have "uf_root p1 i = uf_root p1 j" using p1(3) e by blast
    ultimately show ?thesis using p2(3) unfolding coarser_def by blast
  qed
  then have flood: "\<forall>(i, j)\<in>set (flood_pairs s vec ?c). uf_root p2 i = uf_root p2 j" by blast
  have "batch_islands g s vec = Inr island"
    using p1(1) p2(1) p3(1) by (simp add: batch_islands_def)
  then show ?thesis using p2(2,4) p3(2-4) flood by blast
qed


text \<open>
  The labelling of the nodes by the root of their island: it joins only candidates of one
  device, joins the ends of every same-device edge between candidates, and tells any two
  same-device islands apart by their neighbours.
\<close>

definition island_labelling :: "graph_ref \<Rightarrow> store \<Rightarrow> node_ref set \<Rightarrow> (node_ref \<Rightarrow> nat) \<Rightarrow> bool" where
  "island_labelling g s V lab \<longleftrightarrow>
     (\<forall>u\<in>V. \<forall>v\<in>V. lab u = lab v \<longrightarrow> u \<noteq> v \<longrightarrow>
        \<not> batch_boundary g s u \<and> \<not> batch_boundary g s v \<and>
        device_unique_id (node_at s u) = device_unique_id (node_at s v)) \<and>
     (\<forall>(u, v)\<in>edges s V. \<not> batch_boundary g s u \<longrightarrow> \<not> batch_boundary g s v \<longrightarrow>
        device_unique_id (node_at s u) = device_unique_id (node_at s v) \<longrightarrow> lab u = lab v) \<and>
     (\<forall>u\<in>V. \<forall>v\<in>V. \<not> batch_boundary g s u \<longrightarrow> \<not> batch_boundary g s v \<longrightarrow>
        device_unique_id (node_at s u) = device_unique_id (node_at s v) \<longrightarrow>
        {a. (a, lab u) \<in> label_edges s V lab \<and> a \<noteq> lab u} = {a. (a, lab v) \<in> label_edges s V lab \<and> a \<noteq> lab v} \<longrightarrow>
        {b. (lab u, b) \<in> label_edges s V lab \<and> lab u \<noteq> b} = {b. (lab v, b) \<in> label_edges s V lab \<and> lab v \<noteq> b} \<longrightarrow>
        lab u = lab v)"

lemma root_labelling:
  assumes ix: "indexed s vec" and V: "set vec = V" and c: "c = map (\<lambda>u. \<not> batch_boundary g s u) vec"
    and hom: "homogeneous s vec c par" and tf: "twin_free s vec c par"
    and flood: "\<forall>(i, j)\<in>set (flood_pairs s vec c). uf_root par i = uf_root par j"
  shows "island_labelling g s V (\<lambda>u. uf_root par (index_of s u))"
proof -
  let ?lab = "\<lambda>u. uf_root par (index_of s u)" and ?dev = "\<lambda>u. device_unique_id (node_at s u)"
  note h = homogeneousD [OF hom]
  have idx: "index_of s u < length vec" "vec ! index_of s u = u" if "u \<in> V" for u
    using indexed_set [OF ix] that V by blast+
  have cand: "c ! index_of s u \<longleftrightarrow> \<not> batch_boundary g s u" if "u \<in> V" for u
    using idx [OF that] by (simp add: c)
  have A: "\<not> batch_boundary g s u \<and> \<not> batch_boundary g s v \<and> ?dev u = ?dev v"
    if uv: "u \<in> V" "v \<in> V" "?lab u = ?lab v" "u \<noteq> v" for u v
  proof -
    have "index_of s u \<noteq> index_of s v" using idx uv by metis
    then show ?thesis using h(3) [OF idx(1) [OF uv(1)] idx(1) [OF uv(2)] uv(3)] cand uv(1,2) idx(2) by simp
  qed
  have B: "?lab u = ?lab v"
    if uv: "(u, v) \<in> edges s V" "\<not> batch_boundary g s u" "\<not> batch_boundary g s v" "?dev u = ?dev v" for u v
  proof -
    have u: "u \<in> V" "v \<in> set (succs s u)" using uv(1) by (simp_all add: edges_def)
    then have v: "v \<in> V" using ix V by (auto simp: indexed_def)
    have "(index_of s u, index_of s v) \<in> set (flood_pairs s vec c)"
      unfolding flood_pairs_iff [OF ix] using idx u v cand uv by simp
    then show ?thesis using flood by blast
  qed
  have C: "?lab u = ?lab v"
    if uv: "u \<in> V" "v \<in> V" "\<not> batch_boundary g s u" "\<not> batch_boundary g s v" "?dev u = ?dev v"
      "{a. (a, ?lab u) \<in> label_edges s V ?lab \<and> a \<noteq> ?lab u} = {a. (a, ?lab v) \<in> label_edges s V ?lab \<and> a \<noteq> ?lab v}"
      "{b. (?lab u, b) \<in> label_edges s V ?lab \<and> ?lab u \<noteq> b} = {b. (?lab v, b) \<in> label_edges s V ?lab \<and> ?lab v \<noteq> b}" for u v
  proof -
    have root: "?lab w < length vec" "uf_root par (?lab w) = ?lab w" "c ! ?lab w" "?dev (vec ! ?lab w) = ?dev w"
      if w: "w \<in> V" "\<not> batch_boundary g s w" for w
    proof -
      have wp: "index_of s w < length par" using idx(1) [OF w(1)] h(2) by simp
      then show r: "?lab w < length vec" "uf_root par (?lab w) = ?lab w"
        using union_find.root_law [OF h(1) wp] h(2) by simp_all
      have "?lab w = index_of s w \<or> c ! ?lab w \<and> ?dev (vec ! ?lab w) = ?dev (vec ! index_of s w)"
        using h(3) [OF r(1) idx(1) [OF w(1)] r(2)] by blast
      then show "c ! ?lab w" "?dev (vec ! ?lab w) = ?dev w" using cand [OF w(1)] w(2) idx(2) [OF w(1)] by auto
    qed
    note ru = root [OF uv(1,3)] and rv = root [OF uv(2,4)]
    have "?dev (vec ! ?lab u) = ?dev (vec ! ?lab v)" using ru(4) rv(4) uv(5) by simp
    from tf [unfolded twin_free_def island_edges_label [OF ix V], rule_format,
        OF ru(1) rv(1) ru(3) rv(3) ru(2) rv(2) this uv(6,7)]
    show ?thesis .
  qed
  show ?thesis
    unfolding island_labelling_def
  proof (intro conjI ballI impI)
    show "\<not> batch_boundary g s u" "\<not> batch_boundary g s v" "?dev u = ?dev v"
      if "u \<in> V" "v \<in> V" "?lab u = ?lab v" "u \<noteq> v" for u v
      using A [OF that] by blast+
    show "case e of (u, v) \<Rightarrow> \<not> batch_boundary g s u \<longrightarrow> \<not> batch_boundary g s v \<longrightarrow> ?dev u = ?dev v \<longrightarrow> ?lab u = ?lab v"
      if "e \<in> edges s V" for e
      using B that by (cases e) blast
  qed (rule C)
qed

lemma batch_islands_ok:
  assumes "graph_ok s g V (Suc k)"
    and "create_node_iterators True COMMAND_GRAPH_WALK_SEARCH_DFS COMMAND_GRAPH_WALK_ORDER_PRE g s = (s1, vec)"
  shows "\<exists>island lab. batch_islands g s1 vec = Inr island \<and> island_labelling g s1 V lab \<and>
    distinct (map fst island) \<and>
    (\<forall>(r, ms)\<in>set island. ms \<noteq> [] \<and> distinct ms \<and> set ms = {u \<in> V. \<not> batch_boundary g s1 u \<and> lab u = r}) \<and>
    (\<forall>u\<in>V. \<not> batch_boundary g s1 u \<longrightarrow> lab u \<in> fst ` set island)"
proof -
  note it = iterators_indexed [OF assms]
  let ?c = "map (\<lambda>u. \<not> batch_boundary g s1 u) vec"
  obtain par island where r: "batch_islands g s1 vec = Inr island" "distinct (map fst island)"
    "homogeneous s1 vec ?c par" "twin_free s1 vec ?c par"
    "\<forall>(i, j)\<in>set (flood_pairs s1 vec ?c). uf_root par i = uf_root par j"
    "\<forall>r. members_of island r = island_members vec ?c par (length vec) r" "\<forall>(r, ms)\<in>set island. ms \<noteq> []"
    using batch_islands_total [OF it(1), of g] by blast
  let ?lab = "\<lambda>u. uf_root par (index_of s1 u)"
  have lab: "island_labelling g s1 V ?lab" by (rule root_labelling [OF it(1,2) refl r(3-5)])
  have mem: "set (island_members vec ?c par (length vec) r) = {u \<in> V. \<not> batch_boundary g s1 u \<and> ?lab u = r}" for r
    using indexed_nth [OF it(1)] indexed_set [OF it(1)] it(2)
    by (fastforce simp: island_members_def image_iff)
  have dist: "distinct (island_members vec ?c par (length vec) r)" for r
    using it(3) by (auto simp: island_members_def distinct_map inj_on_def nth_eq_iff_index_eq)
  have "ms \<noteq> [] \<and> distinct ms \<and> set ms = {u \<in> V. \<not> batch_boundary g s1 u \<and> ?lab u = q}"
    if "(q, ms) \<in> set island" for q ms
  proof -
    have "members_of island q = ms" using that r(2) by (simp add: members_of_def)
    then have "ms = island_members vec ?c par (length vec) q" using r(6) by simp
    then show ?thesis using mem dist r(7) that by blast
  qed
  moreover have "?lab u \<in> fst ` set island" if u: "u \<in> V" "\<not> batch_boundary g s1 u" for u
  proof -
    have "u \<in> set (members_of island (?lab u))" using u mem r(6) by simp
    then have "map_of island (?lab u) \<noteq> None" by (cases "map_of island (?lab u)") (simp_all add: members_of_def)
    then show ?thesis by (simp add: map_of_eq_None_iff)
  qed
  ultimately show ?thesis using r(1,2) lab by blast
qed

text \<open>
  C8. The island detection of \<^verbatim>\<open>pass_batch\<close> is total on every well-formed graph: \<^verbatim>\<open>find\<close> never
  loops, the twin folding reaches its fixed point within one round per node, and the islands
  are the classes of a labelling that groups candidates of one device only, keeps same-device
  edges inside an island, and leaves no two same-device islands with the same neighbour
  islands. Every candidate is a member of exactly one island, once.
\<close>

theorem batch_islands_partition:
  assumes "graph_ok s g V (Suc k)"
    and "create_node_iterators True COMMAND_GRAPH_WALK_SEARCH_DFS COMMAND_GRAPH_WALK_ORDER_PRE g s = (s1, vec)"
  shows "\<exists>island lab. batch_islands g s1 vec = Inr island \<and> island_labelling g s1 V lab \<and>
    distinct (map fst island) \<and>
    (\<forall>(r, ms)\<in>set island. ms \<noteq> [] \<and> distinct ms \<and> set ms = {u \<in> V. \<not> batch_boundary g s1 u \<and> lab u = r}) \<and>
    (\<forall>u\<in>V. \<not> batch_boundary g s1 u \<longrightarrow> lab u \<in> fst ` set island)"
  by (rule batch_islands_ok [OF assms])

end
