(* ===== verification/Segment.thy ===== *)
theory Segment
  imports Sequence Chain
begin

text \<open>
  A segment of a graph (entered at one node, left at another) moves into a sub-graph and one
  BATCH node takes its place: what \<^verbatim>\<open>pass_sequence\<close> does to each chain it finds. The graph stays
  well formed, its edges are the contracted ones, and the segment is a well-formed graph.
\<close>

subsection \<open>Contracting a segment\<close>

text \<open>
  A segment is entered at \<open>h\<close> and left at \<open>t\<close> only, and every node of it lies between the two.
\<close>

definition segment :: "('a \<times> 'a) set \<Rightarrow> 'a set \<Rightarrow> 'a \<Rightarrow> 'a \<Rightarrow> bool" where
  "segment E C h t \<longleftrightarrow> h \<in> C \<and> t \<in> C \<and>
     (\<forall>a b. (a, b) \<in> E \<longrightarrow> a \<notin> C \<longrightarrow> b \<in> C \<longrightarrow> b = h) \<and>
     (\<forall>a b. (a, b) \<in> E \<longrightarrow> a \<in> C \<longrightarrow> b \<notin> C \<longrightarrow> a = t) \<and>
     (\<forall>a\<in>C. (h, a) \<in> E\<^sup>* \<and> (a, t) \<in> E\<^sup>*)"

definition squash :: "'a set \<Rightarrow> 'a \<Rightarrow> 'a \<Rightarrow> 'a" where
  "squash C B x = (if x \<in> C then B else x)"

definition contracted_edges :: "'a set \<Rightarrow> 'a \<Rightarrow> ('a \<times> 'a) set \<Rightarrow> ('a \<times> 'a) set" where
  "contracted_edges C B E = {(squash C B a, squash C B b) |a b. (a, b) \<in> E \<and> \<not> (a \<in> C \<and> b \<in> C)}"

lemma contracted_path:
  assumes "segment E C h t" "B \<notin> Domain E \<union> Range E" "B \<notin> C"
    and "(x, y) \<in> (contracted_edges C B E)\<^sup>+"
  shows "(if x = B then t else x, if y = B then h else y) \<in> E\<^sup>+"
  using assms(4)
proof (induction rule: trancl_induct)
  have edge: "(if x = B then t else x, if y = B then h else y) \<in> E" if "(x, y) \<in> contracted_edges C B E" for x y
  proof -
    obtain a b where ab: "(a, b) \<in> E" "x = squash C B a" "y = squash C B b" "\<not> (a \<in> C \<and> b \<in> C)"
      using \<open>(x, y) \<in> contracted_edges C B E\<close> by (auto simp: contracted_edges_def)
    have "a \<noteq> B" "b \<noteq> B" using ab(1) assms(2) by blast+
    then show ?thesis using ab assms(1) by (auto simp: squash_def segment_def)
  qed
  {
    case (base y)
    then show ?case using edge by blast
  next
    case (step y z)
    have "(if y = B then h else y, if y = B then t else y) \<in> E\<^sup>*" using assms(1) by (simp add: segment_def)
    then show ?case by (rule trancl_into_trancl [OF trancl_rtrancl_trancl [OF step.IH] edge [OF step.hyps(2)]])
  }
qed

lemma contracted_acyclic:
  assumes "segment E C h t" "B \<notin> Domain E \<union> Range E" "B \<notin> C" "acyclic E"
  shows "acyclic (contracted_edges C B E)"
  unfolding acyclic_def
proof (intro allI notI)
  fix x assume "(x, x) \<in> (contracted_edges C B E)\<^sup>+"
  then have "(if x = B then t else x, if x = B then h else x) \<in> E\<^sup>+" by (rule contracted_path [OF assms(1-3)])
  moreover have "(if x = B then h else x, if x = B then t else x) \<in> E\<^sup>*" using assms(1) by (simp add: segment_def)
  ultimately have "(if x = B then t else x, if x = B then t else x) \<in> E\<^sup>+" by (rule trancl_rtrancl_trancl)
  then show False using assms(4) unfolding acyclic_def by blast
qed

lemma squash_path: "(a, b) \<in> E\<^sup>* \<Longrightarrow> (squash C B a, squash C B b) \<in> (contracted_edges C B E)\<^sup>*"
proof (induction rule: rtrancl_induct)
  case (step y z)
  have "(squash C B y, squash C B z) \<in> (contracted_edges C B E)\<^sup>*"
  proof (cases "y \<in> C \<and> z \<in> C")
    case True
    then show ?thesis by (simp add: squash_def)
  next
    case False
    then have "(squash C B y, squash C B z) \<in> contracted_edges C B E"
      using step.hyps(2) by (auto simp: contracted_edges_def)
    then show ?thesis by blast
  qed
  then show ?case using step.IH by (rule rtrancl_trans [rotated])
qed simp

lemma contracted_reach:
  assumes "segment E C h t" "B \<notin> Domain E \<union> Range E" "B \<notin> C" "a \<notin> C" "b \<notin> C" "a \<noteq> B" "b \<noteq> B"
  shows "(a, b) \<in> (contracted_edges C B E)\<^sup>* \<longleftrightarrow> (a, b) \<in> E\<^sup>*"
proof
  assume "(a, b) \<in> (contracted_edges C B E)\<^sup>*"
  then show "(a, b) \<in> E\<^sup>*"
    using contracted_path [OF assms(1-3), of a b] assms(6,7) by (auto simp: rtrancl_eq_or_trancl)
next
  assume "(a, b) \<in> E\<^sup>*"
  from squash_path [OF this, of C B] show "(a, b) \<in> (contracted_edges C B E)\<^sup>*"
    using assms(4,5) by (simp add: squash_def)
qed

subsection \<open>Chains are segments\<close>

lemma seq_chain_last: "seq_chain E a bs \<Longrightarrow> (a, last (a # bs)) \<in> E\<^sup>*"
  by (induction bs arbitrary: a) (auto simp: seq_edge_def intro: converse_rtrancl_into_rtrancl)

lemma seq_chain_segment: "seq_chain E a bs \<Longrightarrow> segment E (set (a # bs)) a (last (a # bs))"
proof (induction bs arbitrary: a)
  case Nil
  then show ?case by (auto simp: segment_def)
next
  case (Cons b bs)
  have ab: "seq_edge E a b" and ch: "seq_chain E b bs" using Cons.prems by simp_all
  note seg = Cons.IH [OF ch]
  show ?case
    unfolding segment_def
  proof (intro conjI allI impI ballI)
    show "a \<in> set (a # b # bs)" "last (a # b # bs) \<in> set (a # b # bs)" by simp_all
  next
    fix x y assume "(x, y) \<in> E" "x \<notin> set (a # b # bs)" "y \<in> set (a # b # bs)"
    then show "y = a" using seg ab unfolding segment_def seq_edge_def by auto
  next
    fix x y assume "(x, y) \<in> E" "x \<in> set (a # b # bs)" "y \<notin> set (a # b # bs)"
    then show "x = last (a # b # bs)" using seg ab unfolding segment_def seq_edge_def by auto
  next
    fix x assume x: "x \<in> set (a # b # bs)"
    have e: "(a, b) \<in> E" using ab by (simp add: seq_edge_def)
    show "(a, x) \<in> E\<^sup>*"
      using x seg e unfolding segment_def by (auto intro: converse_rtrancl_into_rtrancl)
    show "(x, last (a # b # bs)) \<in> E\<^sup>*"
      using x seg e unfolding segment_def by (auto intro: converse_rtrancl_into_rtrancl)
  qed
qed

subsection \<open>Moving the boundary\<close>

lemma detach_boundary_effect:
  assumes len: "u < length (nodes s)" "tail < length (nodes s)" "B < length (nodes s)" "B \<noteq> u" "B \<noteq> tail"
    and P: "distinct (preds s u)" "\<And>p. p \<in> set (preds s u) \<Longrightarrow> p < length (nodes s) \<and> u \<in> set (succs s p) \<and>
      B \<notin> set (succs s p) \<and> p \<noteq> tail \<and> p \<noteq> B"
    and S: "distinct (succs s tail)" "\<And>x. x \<in> set (succs s tail) \<Longrightarrow> x < length (nodes s) \<and> tail \<in> set (preds s x) \<and>
      B \<notin> set (preds s x) \<and> x \<noteq> u \<and> x \<noteq> B"
  shows "\<exists>t. sequence_detach_boundary B u tail s = Inr t \<and> adj_frame s t \<and>
    (\<forall>x. succs t x = (if x = B then succs s tail else if x = tail then []
       else if x \<in> set (preds s u) then replace_first u B (succs s x) else succs s x)) \<and>
    (\<forall>x. preds t x = (if x = B then preds s u else if x = u then []
       else if x \<in> set (succs s tail) then replace_first tail B (preds s x) else preds s x))"
proof -
  have "\<exists>t. for_each (move_succ u B) (preds s u) s = Inr t \<and> adj_frame s t \<and> (\<forall>x. preds t x = preds s x) \<and>
      (\<forall>x. succs t x = (if x \<in> set (preds s u) then replace_first u B (succs s x) else succs s x))"
    using P by (intro succs_loop) (auto simp: move_succ_def assign_succ_def assign_found_Inr)
  then obtain s1 where s1: "for_each (move_succ u B) (preds s u) s = Inr s1" "adj_frame s s1"
    "\<And>x. preds s1 x = preds s x"
    "\<And>x. succs s1 x = (if x \<in> set (preds s u) then replace_first u B (succs s x) else succs s x)" by blast
  let ?s2 = "set_preds u [] (set_preds B (preds s1 u) s1)"
  have l1: "length (nodes s1) = length (nodes s)" by (rule adj_frameD(1) [OF s1(2)])
  have l2: "length (nodes (set_preds B l s1)) = length (nodes s)" for l using l1 by (simp add: set_preds_def)
  have f2: "adj_frame s1 ?s2" by (rule adj_frame_trans [OF adj_frame_set_preds adj_frame_set_preds])
  have p2: "preds ?s2 x = (if x = u then [] else if x = B then preds s u else preds s x)"
    and c2: "succs ?s2 x = succs s1 x" for x
    using len l1 l2 s1(3) by simp_all
  have tl: "succs ?s2 tail = succs s tail" using P(2) s1(4) unfolding c2 by auto
  have "\<exists>t. for_each (move_pred tail B) (succs s tail) ?s2 = Inr t \<and> adj_frame ?s2 t \<and> (\<forall>x. succs t x = succs ?s2 x) \<and>
      (\<forall>x. preds t x = (if x \<in> set (succs s tail) then replace_first tail B (preds ?s2 x) else preds ?s2 x))"
    using S adj_frameD(1) [OF f2] l1 p2
    by (intro preds_loop) (auto simp: move_pred_def assign_pred_def assign_found_Inr)
  then obtain s3 where s3: "for_each (move_pred tail B) (succs s tail) ?s2 = Inr s3" "adj_frame ?s2 s3"
    "\<And>x. succs s3 x = succs ?s2 x"
    "\<And>x. preds s3 x = (if x \<in> set (succs s tail) then replace_first tail B (preds ?s2 x) else preds ?s2 x)" by blast
  let ?t = "set_succs tail [] (set_succs B (succs s3 tail) s3)"
  have l3: "length (nodes s3) = length (nodes s)" using adj_frameD(1) [OF s3(2)] adj_frameD(1) [OF f2] l1 by simp
  then have l4: "length (nodes (set_succs B l s3)) = length (nodes s)" for l by (simp add: set_succs_def)
  have "sequence_detach_boundary B u tail s = Inr ?t"
    unfolding sequence_detach_boundary_def Let_def s1(1) bind_result_simps tl s3(1) ..
  moreover have "adj_frame s ?t"
    by (rule adj_frame_trans [OF s1(2) adj_frame_trans [OF f2 adj_frame_trans [OF s3(2)
        adj_frame_trans [OF adj_frame_set_succs adj_frame_set_succs]]]])
  moreover have "succs ?t x = (if x = B then succs s tail else if x = tail then []
       else if x \<in> set (preds s u) then replace_first u B (succs s x) else succs s x)" for x
    using len l3 l4 s3(3) c2 tl s1(4) by simp
  moreover have "preds ?t x = (if x = B then preds s u else if x = u then []
       else if x \<in> set (succs s tail) then replace_first tail B (preds s x) else preds s x)" for x
  proof -
    have "B \<notin> set (succs s tail)" "u \<notin> set (succs s tail)" using S(2) by blast+
    then show ?thesis using s3(4) p2 len(4) by auto
  qed
  ultimately show ?thesis by blast
qed

subsection \<open>Materialising a chain\<close>

text \<open>The store after the allocation of the command and the node of a batch.\<close>

definition with_batch_node :: "device_id \<Rightarrow> store \<Rightarrow> store" where
  "with_batch_node d s =
     s\<lparr>nodes := nodes s @ [(new_node d COMMAND_GRAPH_NODE_TYPE_COMMAND)\<lparr>ncommand := Some (length (commands s))\<rparr>],
       commands := commands s @ [\<lparr>ctype = COMMAND_TYPE_BATCH, cbody = Body_batch \<lparr>batch_cg = None, driver_handle = 0\<rparr>\<rparr>]\<rparr>"

lemma with_batch_node_at:
  "x < length (nodes s) \<Longrightarrow> node_at (with_batch_node d s) x = node_at s x"
  "node_at (with_batch_node d s) (length (nodes s)) =
     (new_node d COMMAND_GRAPH_NODE_TYPE_COMMAND)\<lparr>ncommand := Some (length (commands s))\<rparr>"
  "length (nodes (with_batch_node d s)) = Suc (length (nodes s))"
  "graphs (with_batch_node d s) = graphs s"
  by (simp_all add: with_batch_node_def node_at_def nth_append)

text \<open>The parts of \<open>sequence_materialize\<close>: the new sub-graph and what the batch points to.\<close>

definition with_sub_graph :: "node_ref \<Rightarrow> node_ref \<Rightarrow> store \<Rightarrow> store" where
  "with_sub_graph u tail s =
     s\<lparr>graphs := graphs s @ [\<lparr>entry = u, exit = tail, graph_walk_id = 0, is_sequence = True\<rparr>],
       commands := (commands s)[length (commands s) - 1 := (last (commands s))
         \<lparr>cbody := Body_batch \<lparr>batch_cg = Some (length (graphs s)), driver_handle = 0\<rparr>\<rparr>]\<rparr>"

lemma sequence_materialize_eq:
  assumes "u < length (nodes s)"
    and "sequence_detach_boundary (length (nodes s)) u tail (with_batch_node (device_unique_id (node_at s u)) s) = Inr r"
    and "preds r u = []" "succs r tail = []" "length (commands r) = Suc (length (commands s))"
  shows "sequence_materialize u tail s = Inr (with_sub_graph u tail r)"
proof -
  have c: "commands r \<noteq> []" using assms(5) by auto
  have g: "command_graph_new (Some u) (Some tail) r =
      Inr (length (graphs r), r\<lparr>graphs := graphs r @ [\<lparr>entry = u, exit = tail, graph_walk_id = 0, is_sequence = False\<rparr>]\<rparr>)"
    using assms(3,4) by (simp add: command_graph_new_def init_def upd_graph_def node_at_def)
  have w: "upd_node (length (nodes s)) (\<lambda>n. n\<lparr>ncommand := Some (length (commands s))\<rparr>)
      (s\<lparr>commands := commands s @ [\<lparr>ctype = COMMAND_TYPE_BATCH, cbody = Body_batch \<lparr>batch_cg = None, driver_handle = 0\<rparr>\<rparr>],
         nodes := nodes s @ [new_node (device_unique_id (node_at s u)) COMMAND_GRAPH_NODE_TYPE_COMMAND]\<rparr>) =
      with_batch_node (device_unique_id (node_at s u)) s"
    by (simp add: with_batch_node_def upd_node_def)
  show ?thesis
    using assms(1,2,5) c g w
    by (simp add: sequence_materialize_def Let_def command_new_def command_graph_node_new_def new_command_def
        upd_command_def upd_graph_def with_sub_graph_def last_conv_nth node_at_def)
qed

lemma wf_adjI_edges:
  assumes "E \<subseteq> V \<times> V"
    and "\<And>x. x \<in> V \<Longrightarrow> x < length (nodes t) \<and> distinct (succs t x) \<and> distinct (preds t x)"
    and "\<And>x. x \<in> V \<Longrightarrow> set (succs t x) = {y. (x, y) \<in> E}" "\<And>x. x \<in> V \<Longrightarrow> set (preds t x) = {y. (y, x) \<in> E}"
  shows "wf_adj t V" "edges t V = E"
proof -
  have "set (succs t x) \<subseteq> V" "set (preds t x) \<subseteq> V" if "x \<in> V" for x
    using assms(1,3,4) that by auto
  then show "wf_adj t V" using assms unfolding wf_adj_def by simp
  show "edges t V = E" using assms(1,3) by (auto simp: edges_def)
qed

text \<open>The inside and the outside of a segment of an acyclic relation.\<close>

lemma segment_no_back:
  assumes "segment E C h t" "acyclic E" "x \<in> C"
  shows "(x, h) \<notin> E" "(t, x) \<notin> E"
proof -
  have "(h, x) \<in> E\<^sup>*" "(x, t) \<in> E\<^sup>*" using assms(1,3) by (simp_all add: segment_def)
  then show "(x, h) \<notin> E" "(t, x) \<notin> E"
    using assms(2) unfolding acyclic_def by (meson rtrancl_into_trancl1 rtrancl_into_trancl2)+
qed

lemma segment_inner:
  assumes "segment E C h t" "acyclic E" "x \<in> C"
  shows "x \<noteq> h \<longleftrightarrow> (\<exists>y\<in>C. (y, x) \<in> E)" "x \<noteq> t \<longleftrightarrow> (\<exists>y\<in>C. (x, y) \<in> E)"
proof -
  have hx: "(h, x) \<in> E\<^sup>*" and xt: "(x, t) \<in> E\<^sup>*" using assms(1,3) by (simp_all add: segment_def)
  have "\<exists>y\<in>C. (y, x) \<in> E" if "x \<noteq> h"
  proof -
    obtain y where "(y, x) \<in> E" using hx \<open>x \<noteq> h\<close> by (auto elim: rtranclE)
    then show ?thesis using assms(1,3) that unfolding segment_def by blast
  qed
  then show "x \<noteq> h \<longleftrightarrow> (\<exists>y\<in>C. (y, x) \<in> E)" using segment_no_back(1) [OF assms(1,2)] by blast
  have "\<exists>y\<in>C. (x, y) \<in> E" if "x \<noteq> t"
  proof -
    obtain y where "(x, y) \<in> E" using xt \<open>x \<noteq> t\<close> by (auto elim: converse_rtranclE)
    then show ?thesis using assms(1,3) that unfolding segment_def by blast
  qed
  then show "x \<noteq> t \<longleftrightarrow> (\<exists>y\<in>C. (x, y) \<in> E)" using segment_no_back(2) [OF assms(1,2)] by blast
qed

lemma contracted_edges_iff:
  assumes seg: "segment E C h t" and E: "E \<subseteq> V \<times> V" and C: "C \<subseteq> V" "B \<notin> V" and acy: "acyclic E"
  shows "x \<in> V - C \<Longrightarrow> (x, y) \<in> contracted_edges C B E \<longleftrightarrow> (y = B \<and> (x, h) \<in> E) \<or> (y \<notin> C \<and> (x, y) \<in> E)"
    and "x \<in> V - C \<Longrightarrow> (y, x) \<in> contracted_edges C B E \<longleftrightarrow> (y = B \<and> (t, x) \<in> E) \<or> (y \<notin> C \<and> (y, x) \<in> E)"
    and "(B, y) \<in> contracted_edges C B E \<longleftrightarrow> (t, y) \<in> E" "(y, B) \<in> contracted_edges C B E \<longleftrightarrow> (y, h) \<in> E"
    and "contracted_edges C B E \<subseteq> insert B (V - C) \<times> insert B (V - C)"
proof -
  note nb = segment_no_back [OF seg acy]
  have ht: "h \<in> C" "t \<in> C" "\<And>a b. (a, b) \<in> E \<Longrightarrow> a \<notin> C \<Longrightarrow> b \<in> C \<Longrightarrow> b = h"
    "\<And>a b. (a, b) \<in> E \<Longrightarrow> a \<in> C \<Longrightarrow> b \<notin> C \<Longrightarrow> a = t" using seg unfolding segment_def by blast+
  have B: "(B, y) \<notin> E" "(y, B) \<notin> E" for y using E C by blast+
  have "(squash C B a, squash C B b) \<in> contracted_edges C B E" if "(a, b) \<in> E" "\<not> (a \<in> C \<and> b \<in> C)" for a b
    using that by (auto simp: contracted_edges_def)
  then have intro: "(a, b) \<in> E \<Longrightarrow> a \<notin> C \<Longrightarrow> b \<notin> C \<Longrightarrow> (a, b) \<in> contracted_edges C B E"
    "(a, h) \<in> E \<Longrightarrow> a \<notin> C \<Longrightarrow> (a, B) \<in> contracted_edges C B E"
    "(t, b) \<in> E \<Longrightarrow> b \<notin> C \<Longrightarrow> (B, b) \<in> contracted_edges C B E" for a b
    using ht(1,2) unfolding squash_def by (metis (full_types))+
  have elim: "(a \<notin> C \<and> b \<notin> C \<and> (a, b) \<in> E) \<or> (b = B \<and> a \<notin> C \<and> (a, h) \<in> E) \<or> (a = B \<and> b \<notin> C \<and> (t, b) \<in> E)"
    if "(a, b) \<in> contracted_edges C B E" for a b
  proof -
    obtain p q where pq: "(p, q) \<in> E" "a = squash C B p" "b = squash C B q" "\<not> (p \<in> C \<and> q \<in> C)"
      using \<open>(a, b) \<in> contracted_edges C B E\<close> by (auto simp: contracted_edges_def)
    show ?thesis
    proof (cases "p \<in> C")
      case True
      then show ?thesis using pq ht(4) [OF pq(1)] by (simp add: squash_def)
    next
      case False
      then show ?thesis using pq ht(3) [OF pq(1)] by (auto simp: squash_def)
    qed
  qed
  have CB: "B \<notin> C" using C by blast
  show "x \<in> V - C \<Longrightarrow> (x, y) \<in> contracted_edges C B E \<longleftrightarrow> (y = B \<and> (x, h) \<in> E) \<or> (y \<notin> C \<and> (x, y) \<in> E)"
    using intro elim [of x y] C B CB by blast
  show "x \<in> V - C \<Longrightarrow> (y, x) \<in> contracted_edges C B E \<longleftrightarrow> (y = B \<and> (t, x) \<in> E) \<or> (y \<notin> C \<and> (y, x) \<in> E)"
    using intro elim [of y x] C B CB by blast
  show "(B, y) \<in> contracted_edges C B E \<longleftrightarrow> (t, y) \<in> E"
    using intro(3) elim [of B y] B CB nb(2) by blast
  show "(y, B) \<in> contracted_edges C B E \<longleftrightarrow> (y, h) \<in> E"
    using intro(2) elim [of y B] B CB nb(1) by blast
  show "contracted_edges C B E \<subseteq> insert B (V - C) \<times> insert B (V - C)"
  proof (rule subrelI)
    fix a b assume "(a, b) \<in> contracted_edges C B E"
    from elim [OF this] show "(a, b) \<in> insert B (V - C) \<times> insert B (V - C)" using E by blast
  qed
qed

text \<open>
  What a materialisation does to the graph and to the store: the batch node \<open>B\<close> replaces the
  segment, the segment is a graph of its own, and nodes outside the graph are not touched.
\<close>

definition materialized ::
  "store \<Rightarrow> graph_ref \<Rightarrow> node_ref set \<Rightarrow> node_ref set \<Rightarrow> node_ref \<Rightarrow> node_ref \<Rightarrow> store \<Rightarrow> bool" where
  "materialized s g V C u tail t \<longleftrightarrow>
     (let B = length (nodes s); W = insert B (V - C); sub = length (graphs s)
      in wf_graph t g W \<and> edges t W = contracted_edges C B (edges s V) \<and> wf_graph t sub C \<and>
         length (nodes t) = Suc B \<and>
         (\<forall>x<B. device_unique_id (node_at t x) = device_unique_id (node_at s x) \<and>
            iterator_index (node_at t x) = iterator_index (node_at s x) \<and> walk_id (node_at t x) = walk_id (node_at s x) \<and>
            ntype (node_at t x) = ntype (node_at s x) \<and> ncommand (node_at t x) = ncommand (node_at s x)) \<and>
         (\<forall>x<B. x \<notin> V \<longrightarrow> succs t x = succs s x \<and> preds t x = preds s x) \<and>
         device_unique_id (node_at t B) = device_unique_id (node_at s u) \<and> walk_id (node_at t B) = 0 \<and>
         ntype (node_at t B) = COMMAND_GRAPH_NODE_TYPE_COMMAND \<and> ncommand (node_at t B) = Some (length (commands s)) \<and>
         commands t = commands s @ [\<lparr>ctype = COMMAND_TYPE_BATCH,
           cbody = Body_batch \<lparr>batch_cg = Some sub, driver_handle = 0\<rparr>\<rparr>] \<and>
         graphs t = graphs s @ [\<lparr>entry = u, exit = tail, graph_walk_id = 0, is_sequence = True\<rparr>])"

lemma materialize_lists:
  assumes wf: "wf_graph s g V" and C: "C \<subseteq> V" and seg: "segment (edges s V) C u tail"
  shows "\<exists>r. sequence_detach_boundary (length (nodes s)) u tail (with_batch_node d s) = Inr r \<and>
    adj_frame (with_batch_node d s) r \<and>
    succs r (length (nodes s)) = succs s tail \<and> preds r (length (nodes s)) = preds s u \<and>
    (\<forall>x<length (nodes s). succs r x = (if x = tail then []
       else if x \<in> set (preds s u) then replace_first u (length (nodes s)) (succs s x) else succs s x)) \<and>
    (\<forall>x<length (nodes s). preds r x = (if x = u then []
       else if x \<in> set (succs s tail) then replace_first tail (length (nodes s)) (preds s x) else preds s x))"
proof -
  let ?B = "length (nodes s)" and ?s = "with_batch_node d s"
  note adj = wf_graph_adj [OF wf] and acy = wf_graph_acyclic [OF wf]
  have V: "u \<in> V" "tail \<in> V" using seg C by (auto simp: segment_def)
  then have lt: "u < ?B" "tail < ?B" using wf_adjD(1) [OF adj] by simp_all
  have at: "node_at ?s x = node_at s x" if "x < ?B" for x using that by (rule with_batch_node_at)
  have inV: "x < ?B \<and> ?B \<notin> set (succs s x) \<and> ?B \<notin> set (preds s x)" if "x \<in> V" for x
    using wf_adjD(1-3) [OF adj] that by blast
  have P: "p \<in> V \<and> u \<in> set (succs s p) \<and> p \<noteq> tail" if "p \<in> set (preds s u)" for p
  proof -
    have "p \<in> V" "(p, u) \<in> edges s V"
      using that wf_adjD(3) [OF adj V(1)] wf_adj_preds_edges [OF adj V(1)] by blast+
    then show ?thesis
      using wf_adj_edge [OF adj] segment_no_back(1) [OF seg acy, of tail] seg by (auto simp: segment_def)
  qed
  have S: "x \<in> V \<and> tail \<in> set (preds s x) \<and> x \<noteq> u" if "x \<in> set (succs s tail)" for x
  proof -
    have "x \<in> V" "(tail, x) \<in> edges s V"
      using that wf_adjD(2) [OF adj V(2)] wf_adj_succs_edges [OF adj V(2)] by blast+
    then show ?thesis
      using wf_adj_edge_pred [OF adj] segment_no_back(2) [OF seg acy, of u] seg by (auto simp: segment_def)
  qed
  have "\<exists>r. sequence_detach_boundary ?B u tail ?s = Inr r \<and> adj_frame ?s r \<and>
    (\<forall>x. succs r x = (if x = ?B then succs ?s tail else if x = tail then []
       else if x \<in> set (preds ?s u) then replace_first u ?B (succs ?s x) else succs ?s x)) \<and>
    (\<forall>x. preds r x = (if x = ?B then preds ?s u else if x = u then []
       else if x \<in> set (succs ?s tail) then replace_first tail ?B (preds ?s x) else preds ?s x))"
  proof (rule detach_boundary_effect)
    show "u < length (nodes ?s)" "tail < length (nodes ?s)" "?B < length (nodes ?s)" "?B \<noteq> u" "?B \<noteq> tail"
      using lt by (simp_all add: with_batch_node_at(3))
    show "distinct (preds ?s u)" "distinct (succs ?s tail)"
      using wf_adjD(4,5) [OF adj] V at lt by simp_all
    fix p
    show "p \<in> set (preds ?s u) \<Longrightarrow> p < length (nodes ?s) \<and> u \<in> set (succs ?s p) \<and>
      ?B \<notin> set (succs ?s p) \<and> p \<noteq> tail \<and> p \<noteq> ?B"
      using P [of p] inV [of p] at lt by (simp add: with_batch_node_at(3))
    show "p \<in> set (succs ?s tail) \<Longrightarrow> p < length (nodes ?s) \<and> tail \<in> set (preds ?s p) \<and>
      ?B \<notin> set (preds ?s p) \<and> p \<noteq> u \<and> p \<noteq> ?B"
      using S [of p] inV [of p] at lt by (simp add: with_batch_node_at(3))
  qed
  then obtain r where r: "sequence_detach_boundary ?B u tail ?s = Inr r" "adj_frame ?s r"
    "\<And>x. succs r x = (if x = ?B then succs ?s tail else if x = tail then []
       else if x \<in> set (preds ?s u) then replace_first u ?B (succs ?s x) else succs ?s x)"
    "\<And>x. preds r x = (if x = ?B then preds ?s u else if x = u then []
       else if x \<in> set (succs ?s tail) then replace_first tail ?B (preds ?s x) else preds ?s x)" by blast
  show ?thesis by (rule exI [of _ r]) (simp add: r at lt)
qed

lemma edges_inside:
  assumes "wf_adj s V" "C \<subseteq> V" "x \<in> C"
  shows "{y. (x, y) \<in> {(a, b) \<in> edges s V. a \<in> C \<and> b \<in> C}} = set (succs s x) \<inter> C"
    "{y. (y, x) \<in> {(a, b) \<in> edges s V. a \<in> C \<and> b \<in> C}} = set (preds s x) \<inter> C"
  using assms wf_adj_succs_edges [OF assms(1), of x] wf_adj_preds_edges [OF assms(1), of x] by auto

text \<open>The lists of the nodes once the boundary moved, all of them.\<close>

definition detached :: "store \<Rightarrow> node_ref \<Rightarrow> node_ref \<Rightarrow> store \<Rightarrow> bool" where
  "detached s u tail t \<longleftrightarrow>
     length (nodes t) = Suc (length (nodes s)) \<and>
     succs t (length (nodes s)) = succs s tail \<and> preds t (length (nodes s)) = preds s u \<and>
     (\<forall>x<length (nodes s). succs t x = (if x = tail then []
        else if x \<in> set (preds s u) then replace_first u (length (nodes s)) (succs s x) else succs s x)) \<and>
     (\<forall>x<length (nodes s). preds t x = (if x = u then []
        else if x \<in> set (succs s tail) then replace_first tail (length (nodes s)) (preds s x) else preds s x))"

lemma wf_adj_lists:
  assumes "wf_adj s V" "x \<in> V"
  shows "set (succs s x) = {y. (x, y) \<in> edges s V}" "set (preds s x) = {y. (y, x) \<in> edges s V}"
    "distinct (succs s x)" "distinct (preds s x)" "x < length (nodes s)"
    "length (nodes s) \<notin> set (succs s x)" "length (nodes s) \<notin> set (preds s x)"
  using wf_adj_succs_edges [OF assms] wf_adj_preds_edges [OF assms] wf_adjD [OF assms] wf_adjD(1) [OF assms(1)] by blast+

lemma detached_succs:
  assumes adj: "wf_adj s V" "acyclic (edges s V)" and C: "C \<subseteq> V" and seg: "segment (edges s V) C u tail"
    and d: "detached s u tail t" and x: "x \<in> V - C"
  shows "set (succs t x) = {y. (x, y) \<in> contracted_edges C (length (nodes s)) (edges s V)} \<and> distinct (succs t x)"
proof -
  let ?B = "length (nodes s)" and ?E = "edges s V"
  have BV: "?B \<notin> V" using wf_adjD(1) [OF adj(1)] by blast
  have ut: "u \<in> C" "u \<in> V" "x \<noteq> tail" using seg C x by (auto simp: segment_def)
  have out: "y \<in> C \<Longrightarrow> (x, y) \<in> ?E \<Longrightarrow> y = u" for y using seg x unfolding segment_def by blast
  note cei = contracted_edges_iff(1) [OF seg wf_adj_edges_subset [OF adj(1)] C BV adj(2) x]
  have xV: "x \<in> V" using x by simp
  note L = wf_adj_lists [OF adj(1) xV]
  have tx: "succs t x = (if (x, u) \<in> ?E then replace_first u ?B (succs s x) else succs s x)"
    using d L(5) ut(3) wf_adj_lists(2) [OF adj(1) ut(2)] by (simp add: detached_def)
  show ?thesis
  proof (cases "(x, u) \<in> ?E")
    case True
    then have "set (succs t x) = insert ?B (set (succs s x) - {u})" "distinct (succs t x)"
      using tx L(1,3,6) set_replace_first [of "succs s x" u ?B] distinct_replace_first [of "succs s x" ?B u] by simp_all
    moreover have "(x, y) \<in> contracted_edges C ?B ?E \<longleftrightarrow> y = ?B \<or> (y \<noteq> u \<and> (x, y) \<in> ?E)" for y
      using cei [of y] out [of y] True ut(1) by blast
    ultimately show ?thesis using L(1) by auto
  next
    case False
    then have "(x, y) \<in> contracted_edges C ?B ?E \<longleftrightarrow> (x, y) \<in> ?E" for y using cei [of y] out [of y] by blast
    then show ?thesis using False tx L(1,3) by simp
  qed
qed

lemma detached_preds:
  assumes adj: "wf_adj s V" "acyclic (edges s V)" and C: "C \<subseteq> V" and seg: "segment (edges s V) C u tail"
    and d: "detached s u tail t" and x: "x \<in> V - C"
  shows "set (preds t x) = {y. (y, x) \<in> contracted_edges C (length (nodes s)) (edges s V)} \<and> distinct (preds t x)"
proof -
  let ?B = "length (nodes s)" and ?E = "edges s V"
  have BV: "?B \<notin> V" using wf_adjD(1) [OF adj(1)] by blast
  have ut: "tail \<in> C" "tail \<in> V" "x \<noteq> u" using seg C x by (auto simp: segment_def)
  have inn: "y \<in> C \<Longrightarrow> (y, x) \<in> ?E \<Longrightarrow> y = tail" for y using seg x unfolding segment_def by blast
  note cei = contracted_edges_iff(2) [OF seg wf_adj_edges_subset [OF adj(1)] C BV adj(2) x]
  have xV: "x \<in> V" using x by simp
  note L = wf_adj_lists [OF adj(1) xV]
  have tx: "preds t x = (if (tail, x) \<in> ?E then replace_first tail ?B (preds s x) else preds s x)"
    using d L(5) ut(3) wf_adj_lists(1) [OF adj(1) ut(2)] by (simp add: detached_def)
  show ?thesis
  proof (cases "(tail, x) \<in> ?E")
    case True
    then have "set (preds t x) = insert ?B (set (preds s x) - {tail})" "distinct (preds t x)"
      using tx L(2,4,7) set_replace_first [of "preds s x" tail ?B] distinct_replace_first [of "preds s x" ?B tail] by simp_all
    moreover have "(y, x) \<in> contracted_edges C ?B ?E \<longleftrightarrow> y = ?B \<or> (y \<noteq> tail \<and> (y, x) \<in> ?E)" for y
      using cei [of y] inn [of y] True ut(1) by blast
    ultimately show ?thesis using L(2) by auto
  next
    case False
    then have "(y, x) \<in> contracted_edges C ?B ?E \<longleftrightarrow> (y, x) \<in> ?E" for y using cei [of y] inn [of y] by blast
    then show ?thesis using False tx L(2,4) by simp
  qed
qed

text \<open>Outside, the edges are the contracted ones.\<close>

lemma detached_outer:
  assumes adj: "wf_adj s V" "acyclic (edges s V)" and C: "C \<subseteq> V" and seg: "segment (edges s V) C u tail"
    and d: "detached s u tail t"
  shows "wf_adj t (insert (length (nodes s)) (V - C))"
    "edges t (insert (length (nodes s)) (V - C)) = contracted_edges C (length (nodes s)) (edges s V)"
proof -
  let ?B = "length (nodes s)"
  have BV: "?B \<notin> V" using wf_adjD(1) [OF adj(1)] by blast
  note cei = contracted_edges_iff [OF seg wf_adj_edges_subset [OF adj(1)] C BV adj(2)]
  have ut: "u \<in> V" "tail \<in> V" using seg C by (auto simp: segment_def)
  have B: "succs t ?B = succs s tail" "preds t ?B = preds s u" and len: "length (nodes t) = Suc ?B"
    using d by (simp_all add: detached_def)
  note su = wf_adj_lists [OF adj(1) ut(1)] and st = wf_adj_lists [OF adj(1) ut(2)]
  have S: "set (succs t x) = {y. (x, y) \<in> contracted_edges C ?B (edges s V)} \<and> distinct (succs t x)"
    if "x \<in> insert ?B (V - C)" for x
    using that detached_succs [OF adj C seg d, of x] st(1,3) cei(3) B(1) by auto
  have P: "set (preds t x) = {y. (y, x) \<in> contracted_edges C ?B (edges s V)} \<and> distinct (preds t x)"
    if "x \<in> insert ?B (V - C)" for x
    using that detached_preds [OF adj C seg d, of x] su(2,4) cei(4) B(2) by auto
  have l: "x < length (nodes t) \<and> distinct (succs t x) \<and> distinct (preds t x)" if "x \<in> insert ?B (V - C)" for x
    using that S P len wf_adjD(1) [OF adj(1), of x] by auto
  show "wf_adj t (insert ?B (V - C))" "edges t (insert ?B (V - C)) = contracted_edges C ?B (edges s V)"
    by (rule wf_adjI_edges [OF cei(5) l]; use S P in simp)+
qed

lemma contracted_sources:
  assumes seg: "segment E C h t" and E: "E \<subseteq> V \<times> V" and C: "C \<subseteq> V" "B \<notin> V" and acy: "acyclic E"
    and x: "x \<in> V - C"
  shows "(\<exists>y. (y, x) \<in> contracted_edges C B E) \<longleftrightarrow> (\<exists>y. (y, x) \<in> E)"
    "(\<exists>y. (x, y) \<in> contracted_edges C B E) \<longleftrightarrow> (\<exists>y. (x, y) \<in> E)"
proof -
  have "y \<in> C \<Longrightarrow> (y, x) \<in> E \<Longrightarrow> y = t" "y \<in> C \<Longrightarrow> (x, y) \<in> E \<Longrightarrow> y = h" for y
    using seg x unfolding segment_def by blast+
  then show "(\<exists>y. (y, x) \<in> contracted_edges C B E) \<longleftrightarrow> (\<exists>y. (y, x) \<in> E)"
    "(\<exists>y. (x, y) \<in> contracted_edges C B E) \<longleftrightarrow> (\<exists>y. (x, y) \<in> E)"
    unfolding contracted_edges_iff(1,2) [OF seg E C acy x] by metis+
qed

lemma detached_outer_graph:
  assumes wf: "wf_graph s g V" and C: "C \<subseteq> V" "node_get_entry s g \<notin> C" "node_get_exit s g \<notin> C"
    and seg: "segment (edges s V) C u tail" and d: "detached s u tail t"
    and g: "g < length (graphs t)" "node_get_entry t g = node_get_entry s g" "node_get_exit t g = node_get_exit s g"
  shows "wf_graph t g (insert (length (nodes s)) (V - C))"
proof -
  let ?B = "length (nodes s)" and ?E = "edges s V"
  note adj = wf_graph_adj [OF wf] and acy = wf_graph_acyclic [OF wf]
  have BV: "?B \<notin> V" using wf_adjD(1) [OF adj] by blast
  have ut: "u \<in> V" "u \<noteq> node_get_entry s g" "tail \<in> V" "tail \<noteq> node_get_exit s g"
    using seg C by (auto simp: segment_def)
  note out = detached_outer [OF adj acy C(1) seg d]
  note cei = contracted_edges_iff [OF seg wf_adj_edges_subset [OF adj] C(1) BV acy]
  note src = contracted_sources [OF seg wf_adj_edges_subset [OF adj] C(1) BV acy]
  show ?thesis
  proof (rule wf_graphI_edges)
    show "acyclic (edges t (insert ?B (V - C)))"
      unfolding out(2) using BV C(1) wf_adj_edges_subset [OF adj]
      by (intro contracted_acyclic [OF seg _ _ acy]) auto
    show "node_get_entry t g \<in> insert ?B (V - C)" "node_get_exit t g \<in> insert ?B (V - C)"
      using wf_graph_entry [OF wf] wf_graph_exit [OF wf] C(2,3) by (simp_all add: g)
    fix x assume x: "x \<in> insert ?B (V - C)"
    have B: "?B \<noteq> node_get_entry s g" "?B \<noteq> node_get_exit s g"
      using wf_graph_entry [OF wf] wf_graph_exit [OF wf] BV by auto
    show "x \<noteq> node_get_entry t g \<longleftrightarrow> (\<exists>y. (y, x) \<in> edges t (insert ?B (V - C)))"
      using x wf_graph_edges_iff(1) [OF wf, of u] wf_graph_edges_iff(1) [OF wf, of x] src(1) [of x] cei(4) ut(1,2) B
      unfolding out(2) g(2) by auto
    show "x \<noteq> node_get_exit t g \<longleftrightarrow> (\<exists>y. (x, y) \<in> edges t (insert ?B (V - C)))"
      using x wf_graph_edges_iff(2) [OF wf, of tail] wf_graph_edges_iff(2) [OF wf, of x] src(2) [of x] cei(3) ut(3,4) B
      unfolding out(2) g(3) by auto
  qed (rule g(1), rule out(1))
qed

text \<open>Inside, the edges are those between members.\<close>

lemma detached_inner:
  assumes adj: "wf_adj s V" "acyclic (edges s V)" and C: "C \<subseteq> V" and seg: "segment (edges s V) C u tail"
    and d: "detached s u tail t" and x: "x \<in> C"
  shows "set (succs t x) = set (succs s x) \<inter> C \<and> distinct (succs t x)"
    "set (preds t x) = set (preds s x) \<inter> C \<and> distinct (preds t x)"
proof -
  note nb = segment_no_back [OF seg adj(2)]
  have V: "x \<in> V" "u \<in> V" "tail \<in> V" using x seg C by (auto simp: segment_def)
  note L = wf_adj_lists [OF adj(1) V(1)] and Lu = wf_adj_lists [OF adj(1) V(2)] and Lt = wf_adj_lists [OF adj(1) V(3)]
  have "succs t x = (if x = tail then [] else succs s x)"
    using d L(5) Lu(2) nb(1) [OF x] by (simp add: detached_def)
  moreover have "set (succs s tail) \<inter> C = {}" using Lt(1) nb(2) by auto
  moreover have "set (succs s x) \<subseteq> C" if "x \<noteq> tail"
    using L(1) seg x that unfolding segment_def by blast
  ultimately show "set (succs t x) = set (succs s x) \<inter> C \<and> distinct (succs t x)" using L(3) by auto
  have "preds t x = (if x = u then [] else preds s x)"
    using d L(5) Lt(1) nb(2) [OF x] by (simp add: detached_def)
  moreover have "set (preds s u) \<inter> C = {}" using Lu(2) nb(1) by auto
  moreover have "set (preds s x) \<subseteq> C" if "x \<noteq> u"
    using L(2) seg x that unfolding segment_def by blast
  ultimately show "set (preds t x) = set (preds s x) \<inter> C \<and> distinct (preds t x)" using L(4) by auto
qed

lemma detached_inner_graph:
  assumes adj: "wf_adj s V" "acyclic (edges s V)" and C: "C \<subseteq> V" and seg: "segment (edges s V) C u tail"
    and d: "detached s u tail t"
    and g: "h < length (graphs t)" "node_get_entry t h = u" "node_get_exit t h = tail"
  shows "wf_graph t h C"
proof -
  let ?EC = "{(a, b) \<in> edges s V. a \<in> C \<and> b \<in> C}"
  note inn = detached_inner [OF adj C seg d]
  have sub: "?EC \<subseteq> C \<times> C" by auto
  have l: "x < length (nodes t) \<and> distinct (succs t x) \<and> distinct (preds t x)" if "x \<in> C" for x
    using inn [OF that] d wf_adjD(1) [OF adj(1), of x] C that by (auto simp: detached_def)
  have adjC: "wf_adj t C" "edges t C = ?EC"
    by (rule wf_adjI_edges [OF sub l]; use inn edges_inside [OF adj(1) C] in simp)+
  show ?thesis
  proof (rule wf_graphI_edges [OF g(1) adjC(1)])
    show "acyclic (edges t C)" unfolding adjC(2) by (rule acyclic_subset [OF adj(2)]) auto
    show "node_get_entry t h \<in> C" "node_get_exit t h \<in> C" using seg by (simp_all add: g segment_def)
    fix x assume x: "x \<in> C"
    show "x \<noteq> node_get_entry t h \<longleftrightarrow> (\<exists>y. (y, x) \<in> edges t C)"
      "x \<noteq> node_get_exit t h \<longleftrightarrow> (\<exists>y. (x, y) \<in> edges t C)"
      using segment_inner [OF seg adj(2) x] x unfolding adjC(2) g by auto
  qed
qed

lemma materialize_ok:
  assumes wf: "wf_graph s g V" and C: "C \<subseteq> V" "node_get_entry s g \<notin> C" "node_get_exit s g \<notin> C"
    and seg: "segment (edges s V) C u tail"
  shows "\<exists>t. sequence_materialize u tail s = Inr t \<and> materialized s g V C u tail t"
proof -
  let ?B = "length (nodes s)" and ?d = "device_unique_id (node_at s u)"
  note adj = wf_graph_adj [OF wf] and acy = wf_graph_acyclic [OF wf]
  have ut: "u \<in> V" "tail \<in> V" using seg C by (auto simp: segment_def)
  then have lt: "u < ?B" "tail < ?B" using wf_adjD(1) [OF adj] by simp_all
  obtain r where r: "sequence_detach_boundary ?B u tail (with_batch_node ?d s) = Inr r"
    "adj_frame (with_batch_node ?d s) r" "succs r ?B = succs s tail" "preds r ?B = preds s u"
    and lists: "\<forall>x<?B. succs r x = (if x = tail then []
       else if x \<in> set (preds s u) then replace_first u ?B (succs s x) else succs s x)"
      "\<forall>x<?B. preds r x = (if x = u then []
       else if x \<in> set (succs s tail) then replace_first tail ?B (preds s x) else preds s x)"
    using materialize_lists [OF wf C(1) seg, of ?d] by blast
  note fr = adj_frameD [OF r(2)]
  let ?t = "with_sub_graph u tail r"
  have t: "node_at ?t x = node_at r x" "nodes ?t = nodes r" for x by (simp_all add: with_sub_graph_def node_at_def)
  have gr: "graphs ?t = graphs s @ [\<lparr>entry = u, exit = tail, graph_walk_id = 0, is_sequence = True\<rparr>]"
    using fr(3) by (simp add: with_sub_graph_def with_batch_node_at(4))
  have cr: "commands r = commands s @ [\<lparr>ctype = COMMAND_TYPE_BATCH, cbody = Body_batch \<lparr>batch_cg = None, driver_handle = 0\<rparr>\<rparr>]"
    using fr(2) by (simp add: with_batch_node_def)
  have cm: "commands ?t = commands s @ [\<lparr>ctype = COMMAND_TYPE_BATCH,
      cbody = Body_batch \<lparr>batch_cg = Some (length (graphs s)), driver_handle = 0\<rparr>\<rparr>]"
    using cr fr(3) by (simp add: with_sub_graph_def with_batch_node_at(4))
  have run: "sequence_materialize u tail s = Inr ?t"
    using lt lists cr by (intro sequence_materialize_eq [OF _ r(1)]) auto
  have det: "detached s u tail ?t"
    using lists r(3,4) fr(1) by (simp add: detached_def t with_batch_node_at(3))
  have "g < length (graphs s)" using wf by (simp add: wf_graph_def)
  then have eg: "g < length (graphs ?t)" "node_get_entry ?t g = node_get_entry s g" "node_get_exit ?t g = node_get_exit s g"
    using gr by (simp_all add: node_get_entry_def node_get_exit_def graph_at_def nth_append)
  have eh: "length (graphs s) < length (graphs ?t)" "node_get_entry ?t (length (graphs s)) = u"
    "node_get_exit ?t (length (graphs s)) = tail"
    using gr by (simp_all add: node_get_entry_def node_get_exit_def graph_at_def)
  have out: "succs ?t x = succs s x \<and> preds ?t x = preds s x" if x: "x < ?B" "x \<notin> V" for x
  proof -
    have "set (preds s u) \<subseteq> V" "set (succs s tail) \<subseteq> V" using wf_adjD(2,3) [OF adj] ut by blast+
    moreover have "x \<noteq> u" "x \<noteq> tail" using x(2) ut by blast+
    ultimately show ?thesis using lists x t by auto
  qed
  have "materialized s g V C u tail ?t"
    unfolding materialized_def Let_def
  proof (intro conjI allI impI)
    show "wf_graph ?t g (insert ?B (V - C))" by (rule detached_outer_graph [OF wf C seg det eg])
    show "edges ?t (insert ?B (V - C)) = contracted_edges C ?B (edges s V)"
      by (rule detached_outer(2) [OF adj acy C(1) seg det])
    show "wf_graph ?t (length (graphs s)) C" by (rule detached_inner_graph [OF adj acy C(1) seg det eh])
  qed (use out cm gr det in \<open>simp_all add: t fr with_batch_node_at new_node_def detached_def\<close>)
  then show ?thesis using run by blast
qed

end
