(* ===== verification/Sequence_Props.thy ===== *)
theory Sequence_Props
  imports Segment "HOL-Library.Disjoint_Sets"
begin

text \<open>
  The sequence pass: each chain it finds becomes one BATCH node with the chain as its sub-graph.
  The parent graph stays well formed with the reachability it had, the sub-graphs are
  well formed, and they hold exactly the nodes that left the parent.
\<close>

subsection \<open>Walking a chain\<close>

definition is_command_node :: "store \<Rightarrow> node_ref \<Rightarrow> bool" where
  "is_command_node s x \<longleftrightarrow> ntype (node_at s x) = COMMAND_GRAPH_NODE_TYPE_COMMAND"

lemma seq_chain_distinct: "seq_chain E a bs \<Longrightarrow> acyclic E \<Longrightarrow> distinct (a # bs)"
proof (induction bs arbitrary: a)
  case (Cons b bs)
  have "a \<notin> set (b # bs)" using seq_chain_reach [OF Cons.prems(1), of a] Cons.prems(2) by (auto simp: acyclic_def)
  then show ?case using Cons by auto
qed simp

lemma single_list: "distinct xs \<Longrightarrow> length xs = 1 \<Longrightarrow> x \<in> set xs \<Longrightarrow> set xs = {x} \<and> hd xs = x"
  by (cases xs) auto

lemma sole_neighbours:
  assumes "wf_adj s V" "a \<in> V" "length (succs s a) = 1" "length (preds s (hd (succs s a))) = 1"
  shows "hd (succs s a) \<in> V" "seq_edge (edges s V) a (hd (succs s a))" "hd (preds s (hd (succs s a))) = a"
proof -
  let ?b = "hd (succs s a)"
  have b: "?b \<in> set (succs s a)" using assms(3) by (cases "succs s a") auto
  then show V: "?b \<in> V" using wf_adjD(2) [OF assms(1,2)] by blast
  have a: "a \<in> set (preds s ?b)" using wf_adj_sym [OF assms(1,2) V] b by simp
  note p = single_list [OF wf_adjD(5) [OF assms(1) V] assms(4) a]
  then show "hd (preds s ?b) = a" by simp
  have "are_sequence s a ?b" using assms(3,4) p by (simp add: are_sequence_def)
  then show "seq_edge (edges s V) a ?b" using are_sequence_edges [OF assms(1,2) V] by simp
qed

lemma sequence_walk_ok:
  assumes adj: "wf_adj s V" "acyclic (edges s V)"
  shows "cur \<in> V \<Longrightarrow> card (ahead (edges s V) cur) < fuel \<Longrightarrow>
    \<exists>ws. sequence_walk fuel g s cur (c, n, cur) =
        Inr (set_flags s ws c, n + length (filter (is_command_node s) ws), last (cur # ws)) \<and>
      seq_chain (edges s V) cur ws \<and> set ws \<subseteq> V \<and>
      (\<forall>w\<in>set ws. is_cand g s w \<and> device_unique_id (node_at s w) = device_unique_id (node_at s cur))"
proof (induction fuel arbitrary: cur c n)
  case (Suc fuel)
  let ?w = "hd (succs s cur)"
  show ?case
  proof (cases "length (succs s cur) = 1 \<and> is_cand g s ?w \<and>
      device_unique_id (node_at s ?w) = device_unique_id (node_at s cur) \<and> length (preds s ?w) = 1")
    case True
    note w = sole_neighbours [OF adj(1) Suc.prems(1)]
    have wV: "?w \<in> V" "seq_edge (edges s V) cur ?w" using w True by simp_all
    then have "(cur, ?w) \<in> edges s V" by (simp add: seq_edge_def)
    from ahead_step [OF wf_adj_finite [OF adj(1)] wf_adj_edges_subset [OF adj(1)] adj(2) this]
    have "card (ahead (edges s V) ?w) < fuel" using Suc.prems(2) by simp
    from Suc.IH [OF wV(1) this, of "c[iterator_index (node_at s ?w) := True]"
        "if is_command_node s ?w then n + 1 else n"]
    obtain ws where ws: "sequence_walk fuel g s ?w (c[iterator_index (node_at s ?w) := True],
          if is_command_node s ?w then n + 1 else n, ?w) =
        Inr (set_flags s ws (c[iterator_index (node_at s ?w) := True]),
          (if is_command_node s ?w then n + 1 else n) + length (filter (is_command_node s) ws), last (?w # ws))"
      "seq_chain (edges s V) ?w ws" "set ws \<subseteq> V"
      "\<forall>w\<in>set ws. is_cand g s w \<and> device_unique_id (node_at s w) = device_unique_id (node_at s ?w)"
      by blast
    have "sequence_walk (Suc fuel) g s cur (c, n, cur) =
        Inr (set_flags s (?w # ws) c, n + length (filter (is_command_node s) (?w # ws)), last (cur # ?w # ws))"
      using True ws(1) by (cases "is_command_node s ?w") (simp_all add: is_command_node_def Let_def)
    then show ?thesis using ws(2-4) wV True by (intro exI [of _ "?w # ws"]) simp
  next
    case False
    then have "sequence_walk (Suc fuel) g s cur (c, n, cur) = Inr (c, n, cur)" by (auto simp: Let_def)
    then show ?thesis by (intro exI [of _ "[]"]) (simp del: sequence_walk.simps)
  qed
qed simp

subsection \<open>One iteration\<close>

text \<open>The chain found from \<open>u\<close>: candidates of one device between entry and exit.\<close>

definition found_chain :: "graph_ref \<Rightarrow> store \<Rightarrow> node_ref set \<Rightarrow> node_ref set \<Rightarrow> node_ref \<Rightarrow> node_ref \<Rightarrow> bool" where
  "found_chain g s V C u tail \<longleftrightarrow>
     C \<subseteq> V \<and> segment (edges s V) C u tail \<and> 2 \<le> card {x \<in> C. is_command_node s x} \<and>
     (\<forall>x\<in>C. is_cand g s x \<and> device_unique_id (node_at s x) = device_unique_id (node_at s u))"

lemma sequence_step_ok:
  assumes wf: "wf_graph s g V" and u: "\<not> c ! i \<Longrightarrow> vec ! i \<in> V"
  shows "\<exists>t d. sequence_step g vec i (s, c) = Inr (t, d) \<and> length d = length c \<and> (\<forall>j<length c. c ! j \<longrightarrow> d ! j) \<and>
    (t = s \<or> (\<exists>C u tail. found_chain g s V C u tail \<and> materialized s g V C u tail t \<and>
       (\<forall>x\<in>C. iterator_index (node_at s x) < length c \<longrightarrow> d ! iterator_index (node_at s x))))"
proof -
  let ?u = "vec ! i"
  let ?v = "hd (succs s ?u)"
  note adj = wf_graph_adj [OF wf] and acy = wf_graph_acyclic [OF wf]
  have stay: ?thesis if "sequence_step g vec i (s, c) = Inr (s, d)" "length d = length c" "\<forall>j<length c. c ! j \<longrightarrow> d ! j" for d
    using that by blast
  consider "c ! i \<or> \<not> is_cand g s ?u \<or> length (succs s ?u) \<noteq> 1"
    | "\<not> (c ! i \<or> \<not> is_cand g s ?u \<or> length (succs s ?u) \<noteq> 1)"
      "\<not> is_cand g s ?v \<or> device_unique_id (node_at s ?v) \<noteq> device_unique_id (node_at s ?u) \<or> length (preds s ?v) \<noteq> 1"
    | (go) "\<not> c ! i" "is_cand g s ?u" "length (succs s ?u) = 1" "is_cand g s ?v"
      "device_unique_id (node_at s ?v) = device_unique_id (node_at s ?u)" "length (preds s ?v) = 1" by blast
  then show ?thesis
  proof cases
    case 1
    then show ?thesis by (intro stay [of c]) (simp_all add: sequence_step_def Let_def)
  next
    case 2
    then show ?thesis by (intro stay [of c]) (auto simp add: sequence_step_def Let_def)
  next
    case go
    note uV = u [OF go(1)]
    note sn = sole_neighbours [OF adj uV go(3,6)]
    let ?c1 = "c[iterator_index (node_at s ?u) := True]"
    let ?n1 = "if is_command_node s ?u then 1 else 0 :: nat"
    have "card (ahead (edges s V) ?u) \<le> card {..<length (nodes s)}"
      using ahead_subset [OF wf_adj_edges_subset [OF adj], of ?u] wf_adjD(1) [OF adj]
      by (intro card_mono) auto
    then have "card (ahead (edges s V) ?u) < Suc (length (nodes s))" by simp
    from sequence_walk_ok [OF adj acy uV this, of g ?c1 ?n1]
    obtain ws where ws: "sequence_walk (Suc (length (nodes s))) g s ?u (?c1, ?n1, ?u) =
        Inr (set_flags s ws ?c1, ?n1 + length (filter (is_command_node s) ws), last (?u # ws))"
      "seq_chain (edges s V) ?u ws" "set ws \<subseteq> V"
      "\<forall>w\<in>set ws. is_cand g s w \<and> device_unique_id (node_at s w) = device_unique_id (node_at s ?u)" by blast
    let ?C = "set (?u # ws)" and ?d = "set_flags s (?u # ws) c" and ?tail = "last (?u # ws)"
    let ?n = "length (filter (is_command_node s) (?u # ws))"
    have seg: "segment (edges s V) ?C ?u ?tail" by (rule seq_chain_segment [OF ws(2)])
    have n: "?n1 + length (filter (is_command_node s) ws) = ?n" by simp
    have walked: "sequence_walk (Suc (length (nodes s))) g s ?u (?c1, ?n1, ?u) = Inr (?d, ?n, ?tail)"
      using ws(1) unfolding n by simp
    have step: "sequence_step g vec i (s, c) =
        (if ?n < 2 then Inr (s, ?d) else bind_result (sequence_materialize ?u ?tail s) (\<lambda>s'. Inr (s', ?d)))"
      using go sn(3) walked by (simp add: sequence_step_def Let_def is_command_node_def del: sequence_walk.simps)
    have mono: "\<forall>j<length c. c ! j \<longrightarrow> ?d ! j" using set_flags_nth by blast
    show ?thesis
    proof (cases "?n < 2")
      case True
      then show ?thesis using step mono by (intro stay [of ?d]) (simp_all del: fold_simps)
    next
      case False
      have CV: "?C \<subseteq> V" and ee: "node_get_entry s g \<notin> ?C" "node_get_exit s g \<notin> ?C"
        using ws(3,4) uV go(2) by (auto simp: is_cand_def)
      obtain t where t: "sequence_materialize ?u ?tail s = Inr t" "materialized s g V ?C ?u ?tail t"
        using materialize_ok [OF wf CV ee seg] by blast
      have "?n = card {x \<in> ?C. is_command_node s x}"
        using seq_chain_distinct [OF ws(2) acy] by (metis distinct_card distinct_filter set_filter)
      then have "found_chain g s V ?C ?u ?tail"
        using False CV seg ws(4) go(2) by (simp add: found_chain_def del: filter.simps last.simps)
      moreover have "\<forall>x\<in>?C. iterator_index (node_at s x) < length c \<longrightarrow> ?d ! iterator_index (node_at s x)"
        using set_flags_nth by blast
      moreover have "sequence_step g vec i (s, c) = Inr (t, ?d)" using step False t(1) by simp
      moreover have "length ?d = length c" by (rule set_flags_length)
      ultimately show ?thesis using t(2) mono by blast
    qed
  qed
qed

subsection \<open>What the pass promises\<close>

text \<open>The sub-graph of a BATCH node.\<close>

definition sub_graph_of :: "store \<Rightarrow> node_ref \<Rightarrow> graph_ref option" where
  "sub_graph_of s x =
     (if ntype (node_at s x) = COMMAND_GRAPH_NODE_TYPE_COMMAND
      then (case ncommand (node_at s x) of
              None \<Rightarrow> None
            | Some c \<Rightarrow>
                if c < length (commands s) \<and> ctype (commands s ! c) = COMMAND_TYPE_BATCH
                then (case cbody (commands s ! c) of Body_batch b \<Rightarrow> batch_cg b | _ \<Rightarrow> None)
                else None)
      else None)"

lemma batch_not_cand: "sub_graph_of s x = Some h \<Longrightarrow> \<not> is_cand g s x"
  by (auto simp: sub_graph_of_def is_cand_def node_is_seqable_def split: if_splits option.splits)

text \<open>
  \<open>s\<close> with the graph of \<open>V\<close> became \<open>t\<close> with the graph of \<open>W\<close>: old nodes that left are
  exactly the members of the new sub-graphs \<open>M h\<close>, which are disjoint; each is a well-formed
  sequence of one device with two commands or more and belongs to a new batch node of
  that device; the nodes that stay keep their labels and which of them reaches which.
\<close>

definition sub_graph_ok :: "store \<Rightarrow> store \<Rightarrow> node_ref set \<Rightarrow> node_ref set \<Rightarrow> (graph_ref \<Rightarrow> node_ref set) \<Rightarrow> graph_ref \<Rightarrow> bool" where
  "sub_graph_ok s t V W M h \<longleftrightarrow>
     wf_graph t h (M h) \<and> is_sequence (graph_at t h) \<and> 2 \<le> card {x \<in> M h. is_command_node s x} \<and>
     (\<exists>B\<in>W - V. sub_graph_of t B = Some h \<and>
        (\<forall>x\<in>M h. device_unique_id (node_at s x) = device_unique_id (node_at t B)))"

definition sequenced ::
  "store \<Rightarrow> graph_ref \<Rightarrow> node_ref set \<Rightarrow> store \<Rightarrow> node_ref set \<Rightarrow> (graph_ref \<Rightarrow> node_ref set) \<Rightarrow> bool" where
  "sequenced s g V t W M \<longleftrightarrow>
     V - W = (\<Union>h\<in>{length (graphs s)..<length (graphs t)}. M h) \<and>
     disjoint_family_on M {length (graphs s)..<length (graphs t)} \<and>
     (\<forall>h\<in>{length (graphs s)..<length (graphs t)}. sub_graph_ok s t V W M h) \<and>
     (\<forall>x\<in>W - V. length (nodes s) \<le> x \<and> sub_graph_of t x \<noteq> None) \<and>
     node_get_entry t g = node_get_entry s g \<and> node_get_exit t g = node_get_exit s g \<and>
     (\<forall>x<length (nodes s). ntype (node_at t x) = ntype (node_at s x) \<and> ncommand (node_at t x) = ncommand (node_at s x) \<and>
        device_unique_id (node_at t x) = device_unique_id (node_at s x)) \<and>
     take (length (commands s)) (commands t) = commands s \<and>
     (\<forall>a\<in>V \<inter> W. \<forall>b\<in>V \<inter> W. (a, b) \<in> (edges t W)\<^sup>* \<longleftrightarrow> (a, b) \<in> (edges s V)\<^sup>*)"

lemma sequenced_refl: "sequenced s g V s V M"
  by (simp add: sequenced_def disjoint_family_on_def)

lemma sub_graph_of_append:
  assumes "ntype (node_at t x) = ntype (node_at s x)" "ncommand (node_at t x) = ncommand (node_at s x)"
    "commands t = commands s @ cs" "sub_graph_of s x = Some h"
  shows "sub_graph_of t x = Some h"
  using assms by (auto simp: sub_graph_of_def nth_append split: if_splits option.splits)

lemma materializedD:
  assumes "materialized s g V C u tail t"
  shows "wf_graph t g (insert (length (nodes s)) (V - C))"
    "edges t (insert (length (nodes s)) (V - C)) = contracted_edges C (length (nodes s)) (edges s V)"
    "wf_graph t (length (graphs s)) C" "length (nodes t) = Suc (length (nodes s))"
    "\<And>x. x < length (nodes s) \<Longrightarrow> device_unique_id (node_at t x) = device_unique_id (node_at s x)"
    "\<And>x. x < length (nodes s) \<Longrightarrow> iterator_index (node_at t x) = iterator_index (node_at s x)"
    "\<And>x. x < length (nodes s) \<Longrightarrow> walk_id (node_at t x) = walk_id (node_at s x)"
    "\<And>x. x < length (nodes s) \<Longrightarrow> ntype (node_at t x) = ntype (node_at s x)"
    "\<And>x. x < length (nodes s) \<Longrightarrow> ncommand (node_at t x) = ncommand (node_at s x)"
    "\<And>x. x < length (nodes s) \<Longrightarrow> x \<notin> V \<Longrightarrow> succs t x = succs s x \<and> preds t x = preds s x"
    "device_unique_id (node_at t (length (nodes s))) = device_unique_id (node_at s u)"
    "walk_id (node_at t (length (nodes s))) = 0"
    "sub_graph_of t (length (nodes s)) = Some (length (graphs s))"
    "\<exists>c. commands t = commands s @ [c]"
    "graphs t = graphs s @ [\<lparr>entry = u, exit = tail, graph_walk_id = 0, is_sequence = True\<rparr>]"
  using assms by (simp_all add: materialized_def Let_def sub_graph_of_def)

lemma sequenced_step:
  assumes seq: "sequenced s g V t W M" and wf: "wf_graph s g V" "wf_graph t g W"
    and subs: "length (nodes s) \<le> length (nodes t)" "length (graphs s) \<le> length (graphs t)"
    and ch: "found_chain g t W C u tail" and mat: "materialized t g W C u tail r"
  shows "sequenced s g V r (insert (length (nodes t)) (W - C)) (M(length (graphs t) := C))"
proof -
  let ?B = "length (nodes t)" and ?G = "length (graphs t)" and ?N = "length (nodes s)"
  let ?W = "insert ?B (W - C)" and ?M = "M(?G := C)"
  note m = materializedD [OF mat]
  have q: "V - W = (\<Union>h\<in>{length (graphs s)..<?G}. M h)" "disjoint_family_on M {length (graphs s)..<?G}"
    "\<And>h. h \<in> {length (graphs s)..<?G} \<Longrightarrow> sub_graph_ok s t V W M h"
    "\<And>x. x \<in> W - V \<Longrightarrow> ?N \<le> x \<and> sub_graph_of t x \<noteq> None"
    "\<And>x. x < ?N \<Longrightarrow> ntype (node_at t x) = ntype (node_at s x) \<and> ncommand (node_at t x) = ncommand (node_at s x) \<and>
        device_unique_id (node_at t x) = device_unique_id (node_at s x)"
    "take (length (commands s)) (commands t) = commands s"
    "\<And>a b. a \<in> V \<inter> W \<Longrightarrow> b \<in> V \<inter> W \<Longrightarrow> (a, b) \<in> (edges t W)\<^sup>* \<longleftrightarrow> (a, b) \<in> (edges s V)\<^sup>*"
    "node_get_entry t g = node_get_entry s g" "node_get_exit t g = node_get_exit s g"
    using seq unfolding sequenced_def by blast+
  have c: "C \<subseteq> W" "segment (edges t W) C u tail" "2 \<le> card {x \<in> C. is_command_node t x}"
    "\<And>x. x \<in> C \<Longrightarrow> is_cand g t x \<and> device_unique_id (node_at t x) = device_unique_id (node_at t u)"
    using ch unfolding found_chain_def by blast+
  have CV: "C \<subseteq> V"
  proof
    fix x assume x: "x \<in> C"
    show "x \<in> V" using q(4) [of x] c(1,4) x batch_not_cand [of t x] by blast
  qed
  have VN: "x < ?N" if "x \<in> V" for x using wf_adjD(1) [OF wf_graph_adj [OF wf(1)] that] .
  have WB: "x < ?B" if "x \<in> W" for x using wf_adjD(1) [OF wf_graph_adj [OF wf(2)] that] .
  have BV: "?B \<notin> V" using VN subs(1) by force
  have glen: "length (graphs r) = Suc ?G" using m(15) by simp
  then have rng: "{length (graphs s)..<length (graphs r)} = insert ?G {length (graphs s)..<?G}"
    using subs(2) by (simp add: atLeastLessThanSuc)
  have Mold: "?M h = M h" if "h \<in> {length (graphs s)..<?G}" for h using that by auto
  have CW: "M h \<inter> C = {}" if "h \<in> {length (graphs s)..<?G}" for h using q(1) c(1) that by blast
  have part: "V - ?W = (\<Union>h\<in>{length (graphs s)..<length (graphs r)}. ?M h)"
  proof -
    have "V - ?W = (V - W) \<union> C" using CV BV by blast
    then show ?thesis unfolding rng q(1) using Mold by auto
  qed
  have disj: "disjoint_family_on ?M {length (graphs s)..<length (graphs r)}"
    unfolding rng disjoint_family_on_def
  proof (intro ballI impI)
    fix h h' assume hs: "h \<in> insert ?G {length (graphs s)..<?G}" "h' \<in> insert ?G {length (graphs s)..<?G}" "h \<noteq> h'"
    then show "?M h \<inter> ?M h' = {}"
      using q(2) CW unfolding disjoint_family_on_def by (cases "h = ?G"; cases "h' = ?G") auto
  qed
  have g_at: "graph_at r h = graph_at t h" if "h < ?G" for h using m(15) that by (simp add: graph_at_def nth_append)
  obtain cx where cx: "commands r = commands t @ [cx]" using m(14) by blast
  have keep: "sub_graph_of r x = Some h" if "x \<in> W" "sub_graph_of t x = Some h" for x h
    using sub_graph_of_append [OF m(8,9) [OF WB [OF that(1)]] cx that(2)] .
  have subs': "sub_graph_ok s r V ?W ?M h" if h: "h \<in> {length (graphs s)..<length (graphs r)}" for h
  proof (cases "h = ?G")
    case True
    have lab: "is_command_node s x = is_command_node t x" "device_unique_id (node_at s x) = device_unique_id (node_at t u)"
      if "x \<in> C" for x
    proof -
      have "x \<in> V" using CV that by blast
      note l = q(5) [OF VN [OF this]]
      show "is_command_node s x = is_command_node t x" using l by (simp add: is_command_node_def)
      show "device_unique_id (node_at s x) = device_unique_id (node_at t u)" using l c(4) [OF that] by metis
    qed
    have "{x \<in> C. is_command_node s x} = {x \<in> C. is_command_node t x}" using lab(1) by blast
    moreover have "is_sequence (graph_at r ?G)" by (simp add: m(15) graph_at_def)
    moreover have "?B \<in> ?W - V" using BV by blast
    ultimately show ?thesis
      using m(3,11,13) c(3) lab(2) True unfolding sub_graph_ok_def by auto
  next
    case False
    then have h': "h \<in> {length (graphs s)..<?G}" "h < ?G" using h rng by auto
    have o: "wf_graph t h (M h)" "is_sequence (graph_at t h)" "2 \<le> card {x \<in> M h. is_command_node s x}"
      using q(3) [OF h'(1)] unfolding sub_graph_ok_def by blast+
    obtain b where b: "b \<in> W - V" "sub_graph_of t b = Some h"
      "\<forall>x\<in>M h. device_unique_id (node_at s x) = device_unique_id (node_at t b)"
      using q(3) [OF h'(1)] unfolding sub_graph_ok_def by blast
    have lists: "succs r x = succs t x \<and> preds r x = preds t x" if "x \<in> M h" for x
    proof -
      have "x \<in> V" "x \<notin> W" using q(1) h'(1) that by blast+
      then show ?thesis using m(10) [of x] VN [of x] subs(1) by simp
    qed
    have "wf_graph r h (M h)"
      by (rule wf_graph_cong [OF lists _ _ _ _ o(1)]) (use m(4) glen g_at [OF h'(2)] in simp_all)
    moreover have "b \<in> ?W - V" using b(1) CV by blast
    moreover have "sub_graph_of r b = Some h" using keep b(1,2) by blast
    moreover have "device_unique_id (node_at r b) = device_unique_id (node_at t b)" using m(5) WB b(1) by blast
    ultimately show ?thesis
      using o(2,3) b(3) g_at [OF h'(2)] Mold [OF h'(1)] unfolding sub_graph_ok_def by auto
  qed
  have new: "?N \<le> x \<and> sub_graph_of r x \<noteq> None" if x: "x \<in> ?W - V" for x
  proof (cases "x = ?B")
    case True
    then show ?thesis using m(13) subs(1) by simp
  next
    case False
    then have "x \<in> W - V" using x by blast
    then show ?thesis using q(4) [of x] keep [of x] by auto
  qed
  have gT: "g < ?G" using wf(2) by (simp add: wf_graph_def)
  have ee: "node_get_entry r g = node_get_entry s g" "node_get_exit r g = node_get_exit s g"
    using q(8,9) g_at [OF gT] by (simp_all add: node_get_entry_def node_get_exit_def)
  have lab: "ntype (node_at r x) = ntype (node_at s x) \<and> ncommand (node_at r x) = ncommand (node_at s x) \<and>
        device_unique_id (node_at r x) = device_unique_id (node_at s x)" if "x < ?N" for x
    using q(5) [OF that] m(5,8,9) [of x] that subs(1) by simp
  have cmds: "take (length (commands s)) (commands r) = commands s"
  proof -
    have "length (commands s) \<le> length (commands t)" using q(6) by (metis length_take min.bounded_iff order_refl)
    then show ?thesis using q(6) cx by simp
  qed
  have reach: "(a, b) \<in> (edges r ?W)\<^sup>* \<longleftrightarrow> (a, b) \<in> (edges s V)\<^sup>*" if ab: "a \<in> V \<inter> ?W" "b \<in> V \<inter> ?W" for a b
  proof -
    have "?B \<notin> W" using WB by blast
    then have "?B \<notin> Domain (edges t W) \<union> Range (edges t W)" "?B \<notin> C"
      using wf_adj_edges_subset [OF wf_graph_adj [OF wf(2)]] c(1) by blast+
    moreover have "a \<notin> C" "b \<notin> C" "a \<noteq> ?B" "b \<noteq> ?B" "a \<in> V \<inter> W" "b \<in> V \<inter> W"
      using ab BV by blast+
    ultimately show ?thesis unfolding m(2) using contracted_reach [OF c(2)] q(7) by simp
  qed
  show ?thesis
    unfolding sequenced_def
    by (intro conjI part disj ee cmds ballI [OF subs'] ballI [OF new] allI [OF impI [OF lab]] ballI [OF ballI [OF reach]])
qed

subsection \<open>The pass\<close>

lemma sub_graph_of_same_structure:
  "same_structure s t \<Longrightarrow> x < length (nodes s) \<Longrightarrow> sub_graph_of t x = sub_graph_of s x"
  unfolding sub_graph_of_def same_structure_def by (auto split: option.split)

text \<open>Walks before and after do not matter.\<close>

lemma sequenced_same_left:
  assumes seq: "sequenced s1 g V t W M" and ss: "same_structure s s1" and wf: "wf_graph s g V"
  shows "sequenced s g V t W M"
proof -
  have lt: "x < length (nodes s)" if "x \<in> V" for x using wf_adjD(1) [OF wf_graph_adj [OF wf] that] .
  have g: "g < length (graphs s)" using wf by (simp add: wf_graph_def)
  have len: "length (graphs s1) = length (graphs s)" "length (nodes s1) = length (nodes s)" "commands s1 = commands s"
    using ss by (simp_all add: same_structure_def)
  have lab: "ntype (node_at s1 x) = ntype (node_at s x)" "device_unique_id (node_at s1 x) = device_unique_id (node_at s x)"
    "ncommand (node_at s1 x) = ncommand (node_at s x)" if "x < length (nodes s)" for x
    using ss that by (simp_all add: same_structure_def)
  have q: "V - W = (\<Union>h\<in>{length (graphs s)..<length (graphs t)}. M h)"
    "\<And>h. h \<in> {length (graphs s)..<length (graphs t)} \<Longrightarrow> sub_graph_ok s1 t V W M h"
    using seq unfolding sequenced_def len by blast+
  have sub: "sub_graph_ok s t V W M h" if h: "h \<in> {length (graphs s)..<length (graphs t)}" for h
  proof -
    have M: "x < length (nodes s)" if "x \<in> M h" for x using q(1) h that lt by blast
    then have "{x \<in> M h. is_command_node s1 x} = {x \<in> M h. is_command_node s x}"
      using lab(1) by (auto simp: is_command_node_def)
    moreover have "(\<forall>x\<in>M h. device_unique_id (node_at s1 x) = d) \<longleftrightarrow> (\<forall>x\<in>M h. device_unique_id (node_at s x) = d)" for d
      using lab(2) M by simp
    ultimately show ?thesis using q(2) [OF h] unfolding sub_graph_ok_def by simp
  qed
  have "node_get_entry s1 g = node_get_entry s g" "node_get_exit s1 g = node_get_exit s g"
    using ss g by (simp_all add: same_structure_def node_get_entry_def node_get_exit_def)
  moreover have "edges s1 V = edges s V" by (rule same_structure_edges [OF ss wf_graph_adj [OF wf]])
  ultimately show ?thesis using seq sub lab unfolding sequenced_def len by simp
qed

lemma sequenced_same_right:
  assumes seq: "sequenced s g V t W M" and ss: "same_structure t r" and wf: "wf_graph t g W"
    and le: "length (nodes s) \<le> length (nodes t)"
  shows "sequenced s g V r W M"
proof -
  have lt: "x < length (nodes t)" if "x \<in> W" for x using wf_adjD(1) [OF wf_graph_adj [OF wf] that] .
  have g: "g < length (graphs t)" using wf by (simp add: wf_graph_def)
  have len: "length (graphs r) = length (graphs t)" "length (nodes r) = length (nodes t)" "commands r = commands t"
    using ss by (simp_all add: same_structure_def)
  have lab: "ntype (node_at r x) = ntype (node_at t x)" "device_unique_id (node_at r x) = device_unique_id (node_at t x)"
    "ncommand (node_at r x) = ncommand (node_at t x)" if "x < length (nodes t)" for x
    using ss that by (simp_all add: same_structure_def)
  have sg: "sub_graph_of r x = sub_graph_of t x" if "x \<in> W" for x
    by (rule sub_graph_of_same_structure [OF ss lt [OF that]])
  have sub: "sub_graph_ok s r V W M h" if h: "h < length (graphs t)" "sub_graph_ok s t V W M h" for h
  proof -
    have "is_sequence (graph_at r h) = is_sequence (graph_at t h)" using ss h(1) by (simp add: same_structure_def)
    moreover have "wf_graph t h (M h) \<Longrightarrow> wf_graph r h (M h)" by (rule same_structure_wf_graph [OF ss])
    ultimately show ?thesis using h(2) sg lab(2) lt unfolding sub_graph_ok_def by fastforce
  qed
  have ee: "node_get_entry r g = node_get_entry t g" "node_get_exit r g = node_get_exit t g"
    using ss g by (simp_all add: same_structure_def node_get_entry_def node_get_exit_def)
  have ed: "edges r W = edges t W" by (rule same_structure_edges [OF ss wf_graph_adj [OF wf]])
  show ?thesis using seq sub lab le sg unfolding sequenced_def len ee ed by simp
qed

lemma sequence_loop:
  assumes ok: "graph_ok s g V k" and vec: "set vec = V" "\<And>i. i < length vec \<Longrightarrow> iterator_index (node_at s (vec ! i)) = i"
  shows "\<exists>t d W M. for_each (sequence_step g vec) [0..<length vec] (s, replicate (length vec) False) = Inr (t, d) \<and>
    graph_ok t g W k \<and> sequenced s g V t W M \<and> length (nodes s) \<le> length (nodes t)"
proof -
  let ?n = "length vec" and ?N = "length (nodes s)"
  have wf: "wf_graph s g V" using ok by (simp add: graph_ok_def)
  let ?Q = "\<lambda>t d W M. graph_ok t g W k \<and> sequenced s g V t W M \<and> ?N \<le> length (nodes t) \<and>
      length (graphs s) \<le> length (graphs t) \<and> length d = ?n \<and> (\<forall>j<?n. vec ! j \<notin> W \<longrightarrow> d ! j) \<and>
      (\<forall>x<?N. iterator_index (node_at t x) = iterator_index (node_at s x))"
  let ?I = "\<lambda>(i :: nat) sd. \<exists>W M. ?Q (fst sd) (snd sd) W M"
  have "\<exists>r. for_each (sequence_step g vec) [0..<?n] (s, replicate ?n False) = Inr r \<and> ?I (length [0..<?n]) r"
  proof (rule for_each_invariant)
    have "?Q s (replicate ?n False) V (\<lambda>_. {})" using ok sequenced_refl vec(1) by auto
    then show "?I 0 (s, replicate ?n False)" by auto
  next
    fix i sd assume i: "i < length [0..<?n]" and "?I i sd"
    then obtain t d W M where sd: "sd = (t, d)" and Q: "?Q t d W M" by (cases sd) auto
    then have tok: "graph_ok t g W k" "sequenced s g V t W M" "?N \<le> length (nodes t)" "length (graphs s) \<le> length (graphs t)"
      "length d = ?n" "\<And>j. j < ?n \<Longrightarrow> vec ! j \<notin> W \<Longrightarrow> d ! j"
      "\<And>x. x < ?N \<Longrightarrow> iterator_index (node_at t x) = iterator_index (node_at s x)" by blast+
    have wft: "wf_graph t g W" using tok(1) by (simp add: graph_ok_def)
    have "vec ! i \<in> W" if "\<not> d ! i" using that tok(6) i by auto
    from sequence_step_ok [OF wft this] obtain r e where r: "sequence_step g vec i (t, d) = Inr (r, e)"
      "length e = length d" "\<forall>j<length d. d ! j \<longrightarrow> e ! j"
      and cases: "r = t \<or> (\<exists>C u tail. found_chain g t W C u tail \<and> materialized t g W C u tail r \<and>
       (\<forall>x\<in>C. iterator_index (node_at t x) < length d \<longrightarrow> e ! iterator_index (node_at t x)))" by blast
    have "\<exists>U L. ?Q r e U L"
    proof (cases "r = t")
      case True
      then have "?Q r e W M" using tok r(2,3) by simp
      then show ?thesis by blast
    next
      case False
      then obtain C u tail where C: "found_chain g t W C u tail" "materialized t g W C u tail r"
        "\<And>x. x \<in> C \<Longrightarrow> iterator_index (node_at t x) < length d \<Longrightarrow> e ! iterator_index (node_at t x)"
        using cases by blast
      note m = materializedD [OF C(2)]
      let ?U = "insert (length (nodes t)) (W - C)" and ?L = "M(length (graphs t) := C)"
      have "graph_at r g = graph_at t g" using wft m(15) by (simp add: graph_at_def nth_append wf_graph_def)
      moreover have "walk_id (node_at r x) = walk_id (node_at t x)" if "x \<in> W" for x
        using m(7) wf_adjD(1) [OF wf_graph_adj [OF wft] that] by blast
      ultimately have "graph_ok r g ?U k" using tok(1) m(1,12) by (simp add: graph_ok_def walk_ok_def)
      moreover have "sequenced s g V r ?U ?L" by (rule sequenced_step [OF tok(2) wf wft tok(3,4) C(1,2)])
      moreover have "e ! j" if j: "j < ?n" "vec ! j \<notin> ?U" for j
      proof (cases "vec ! j \<in> W")
        case True
        then have "vec ! j \<in> C" using j(2) by blast
        moreover have "vec ! j < ?N" using vec(1) j(1) wf_adjD(1) [OF wf_graph_adj [OF wf]] nth_mem by blast
        ultimately show ?thesis using C(3) [of "vec ! j"] tok(5,7) vec(2) [OF j(1)] j(1) by simp
      next
        case False
        then show ?thesis using tok(5,6) r(3) j(1) by simp
      qed
      moreover have "iterator_index (node_at r x) = iterator_index (node_at s x)" if "x < ?N" for x
        using m(6) [of x] tok(3,7) that by simp
      ultimately have "?Q r e ?U ?L" using tok(3,4,5) r(2) m(4,15) by simp
      then show ?thesis by blast
    qed
    then have "?I (Suc i) (r, e)" by simp
    moreover have "sequence_step g vec ([0..<?n] ! i) sd = Inr (r, e)" using r(1) sd i by simp
    ultimately show "\<exists>r. sequence_step g vec ([0..<?n] ! i) sd = Inr r \<and> ?I (Suc i) r" by blast
  qed
  then obtain r W M where "for_each (sequence_step g vec) [0..<?n] (s, replicate ?n False) = Inr r"
    "?Q (fst r) (snd r) W M" by blast
  then show ?thesis by (intro exI [of _ "fst r"] exI [of _ "snd r"] exI [of _ W] exI [of _ M]) simp
qed

lemma pass_sequence_ok:
  assumes ok: "graph_ok s g V (2 + k)"
  shows "\<exists>t W M. pass_sequence g s = Inr t \<and> graph_ok t g W k \<and> sequenced s g V t W M \<and> length (nodes s) \<le> length (nodes t)"
proof -
  obtain s1 vec where it: "create_node_iterators True COMMAND_GRAPH_WALK_SEARCH_DFS
      COMMAND_GRAPH_WALK_ORDER_PRE g s = (s1, vec)" by force
  have ok': "graph_ok s g V (Suc (Suc k))" using ok by simp
  note c = graph_ok_iterators [OF ok' it]
  have wf: "wf_graph s g V" using ok by (simp add: graph_ok_def)
  show ?thesis
  proof (cases "length vec \<le> 2")
    case True
    then have "pass_sequence g s = Inr s1" using it by (simp add: pass_sequence_def)
    moreover have "graph_ok s1 g V k" by (rule graph_ok_less [OF c(1)]) simp
    moreover have "sequenced s g V s1 V (\<lambda>_. {})" by (rule sequenced_same_left [OF sequenced_refl c(2) wf])
    moreover have "length (nodes s) \<le> length (nodes s1)" using c(2) by (simp add: same_structure_def)
    ultimately show ?thesis by blast
  next
    case False
    have vec: "set vec = V" using c(5) by (simp add: iterated_def)
    obtain t d W M where t: "for_each (sequence_step g vec) [0..<length vec] (s1, replicate (length vec) False) = Inr (t, d)"
      "graph_ok t g W (Suc k)" "sequenced s1 g V t W M" "length (nodes s1) \<le> length (nodes t)"
      using sequence_loop [OF c(1) vec c(6)] by blast
    note w = graph_ok_walk [OF t(2)]
    obtain r where r: "coherence_checks g t = Inr r" "same_structure t r" "wf_graph r g W" "walk_ok r g W"
      "graph_walk_id (graph_at r g) = graph_walk_id (graph_at t g) + 1" using coherence_checks_ok [OF w] by blast
    have "graph_ok r g W k"
      using r(3-5) t(2) unat_walk_succ [of "graph_walk_id (graph_at t g)" k] by (simp add: graph_ok_def)
    moreover have "pass_sequence g s = Inr r" using t(1) r(1) it False by (simp add: pass_sequence_def)
    moreover have "sequenced s g V r W M"
      by (rule sequenced_same_left [OF sequenced_same_right [OF t(3) r(2) w(1) t(4)] c(2) wf])
    moreover have "length (nodes s) \<le> length (nodes r)" using c(2) r(2) t(4) by (simp add: same_structure_def)
    ultimately show ?thesis by blast
  qed
qed

text \<open>
  C6. The sequence pass ends and fails no assertion on a well-formed graph. The nodes that leave it
  are exactly the members of the new sub-graphs, which are disjoint; each sub-graph is a
  well-formed sequence of one device with at least two commands, owned by a new BATCH node of that
  device; the graph stays well formed, and which of the nodes that stay reaches which is unchanged.
\<close>

theorem sequence_pass_sound:
  assumes "graph_ok s g V (2 + k)"
  shows "\<exists>t W M. pass_sequence g s = Inr t \<and> graph_ok t g W k \<and> sequenced s g V t W M"
  using pass_sequence_ok [OF assms] by blast

end
