(* ===== verification/Batch_Rewire.thy ===== *)
theory Batch_Rewire
  imports Batch_Islands Sequence_Props
begin

text \<open>
  The second half of \<^verbatim>\<open>pass_batch\<close>: the islands become BATCH nodes with empty sub-graphs, the edges
  of the graph are moved to them, and the sub-graphs are connected to their members. Each step is
  described by what it does to the set of edges.
\<close>

subsection \<open>Materialising\<close>

text \<open>One island more: the entry and the exit of its sub-graph, the BATCH node, the command.\<close>

definition add_island :: "device_id \<Rightarrow> store \<Rightarrow> store" where
  "add_island d s =
     s\<lparr>nodes := nodes s @
         [new_node CGIR_UNSPECIFIED_DEVICE_UNIQUE_ID COMMAND_GRAPH_NODE_TYPE_EMPTY,
          new_node CGIR_UNSPECIFIED_DEVICE_UNIQUE_ID COMMAND_GRAPH_NODE_TYPE_EMPTY,
          (new_node d COMMAND_GRAPH_NODE_TYPE_COMMAND)\<lparr>ncommand := Some (length (commands s))\<rparr>],
       commands := commands s @
         [\<lparr>ctype = COMMAND_TYPE_BATCH, cbody = Body_batch \<lparr>batch_cg = Some (length (graphs s)), driver_handle = 0\<rparr>\<rparr>],
       graphs := graphs s @
         [\<lparr>entry = length (nodes s), exit = Suc (length (nodes s)), graph_walk_id = 0, is_sequence = False\<rparr>]\<rparr>"

definition big_island :: "store \<Rightarrow> node_ref list \<Rightarrow> bool" where
  "big_island s ms \<longleftrightarrow> 2 \<le> length (island_commands s ms)"

lemma fold_island_members:
  "length (fold (\<lambda>m rep. rep[f m := B]) ms rep) = length rep"
  "i < length rep \<Longrightarrow> fold (\<lambda>m rep. rep[f m := B]) ms rep ! i = (if i \<in> f ` set ms then B else rep ! i)"
  by (induction ms arbitrary: rep) auto

lemma materialize_small: "\<not> big_island s (members_of island r) \<Longrightarrow> materialize_island vec island r (s, rep, mat) = Inr (s, rep, mat)"
  by (simp add: materialize_island_def big_island_def Let_def)

text \<open>The allocations of \<open>materialize_island\<close>, up to the BATCH node.\<close>

lemma island_allocation:
  "command_new COMMAND_TYPE_BATCH s =
     (length (commands s), s\<lparr>commands := commands s @ [\<lparr>ctype = COMMAND_TYPE_BATCH, cbody = Body_uninitialised\<rparr>]\<rparr>)"
  "upd_command (length (commands s)) (\<lambda>c. c\<lparr>cbody := b\<rparr>)
     (s\<lparr>commands := commands s @ [\<lparr>ctype = COMMAND_TYPE_BATCH, cbody = b'\<rparr>]\<rparr>) =
   s\<lparr>commands := commands s @ [\<lparr>ctype = COMMAND_TYPE_BATCH, cbody = b\<rparr>]\<rparr>"
  by (simp_all add: command_new_def new_command_def upd_command_def)

lemma sub_graph_allocation:
  "\<exists>t. command_graph_new None None s = Inr (length (graphs s), t) \<and> commands t = commands s \<and>
     node_get_entry t (length (graphs s)) = length (nodes s) \<and> node_get_exit t (length (graphs s)) = Suc (length (nodes s)) \<and>
     set_preds (Suc (length (nodes s))) [] (set_succs (length (nodes s)) [] t) =
       s\<lparr>nodes := nodes s @ [new_node CGIR_UNSPECIFIED_DEVICE_UNIQUE_ID COMMAND_GRAPH_NODE_TYPE_EMPTY,
            new_node CGIR_UNSPECIFIED_DEVICE_UNIQUE_ID COMMAND_GRAPH_NODE_TYPE_EMPTY],
          graphs := graphs s @
            [\<lparr>entry = length (nodes s), exit = Suc (length (nodes s)), graph_walk_id = 0, is_sequence = False\<rparr>]\<rparr>"
  by (simp add: command_graph_new_def init_def command_graph_node_new_def upd_graph_def upd_node_def precedes_def
      set_succs_def set_preds_def node_get_entry_def node_get_exit_def graph_at_def node_at_def nth_append
      list_update_append assert_that_def new_node_def)

lemma materialize_big:
  assumes big: "big_island s (members_of island r)" and ms: "set (members_of island r) \<subseteq> {..<length (nodes s)}"
  shows "materialize_island vec island r (s, rep, mat) =
    Inr (add_island (island_device s (vec ! r) (members_of island r)) s,
      fold (\<lambda>m rep. rep[index_of s m := Suc (Suc (length (nodes s)))]) (members_of island r) rep,
      mat @ [\<lparr>mat_root = r, mat_sub = length (graphs s), mat_entry = length (nodes s), mat_exit = Suc (length (nodes s))\<rparr>])"
proof -
  let ?ms = "members_of island r" and ?d = "island_device s (vec ! r) (members_of island r)" and ?c = "length (commands s)"
  let ?s2 = "s\<lparr>commands := commands s @ [\<lparr>ctype = COMMAND_TYPE_BATCH, cbody = Body_batch \<lparr>batch_cg = None, driver_handle = 0\<rparr>\<rparr>]\<rparr>"
  let ?f = "\<lambda>c. c\<lparr>cbody := Body_batch \<lparr>batch_cg = Some (length (graphs s)), driver_handle = 0\<rparr>\<rparr>"
  have comm: "set_preds x k (set_succs y l (upd_command c f t)) = upd_command c f (set_preds x k (set_succs y l t))"
    "node_get_entry (upd_command c f t) h = node_get_entry t h" "node_get_exit (upd_command c f t) h = node_get_exit t h"
    for x y k l c f t h
    by (simp_all add: set_preds_def set_succs_def upd_node_def upd_command_def node_get_entry_def node_get_exit_def graph_at_def)
  obtain t where t: "command_graph_new None None ?s2 = Inr (length (graphs s), t)"
    "node_get_entry t (length (graphs s)) = length (nodes s)" "node_get_exit t (length (graphs s)) = Suc (length (nodes s))"
    "set_preds (Suc (length (nodes s))) [] (set_succs (length (nodes s)) [] t) =
      ?s2\<lparr>nodes := nodes s @ [new_node CGIR_UNSPECIFIED_DEVICE_UNIQUE_ID COMMAND_GRAPH_NODE_TYPE_EMPTY,
            new_node CGIR_UNSPECIFIED_DEVICE_UNIQUE_ID COMMAND_GRAPH_NODE_TYPE_EMPTY],
          graphs := graphs s @
            [\<lparr>entry = length (nodes s), exit = Suc (length (nodes s)), graph_walk_id = 0, is_sequence = False\<rparr>]\<rparr>"
    using sub_graph_allocation [of ?s2] by auto
  let ?s5 = "upd_command ?c ?f (set_preds (Suc (length (nodes s))) [] (set_succs (length (nodes s)) [] t))"
  have new: "command_graph_node_new d ty ?s5 = (Suc (Suc (length (nodes s))), snd (command_graph_node_new d ty ?s5))" for d ty
    unfolding t(4) by (simp add: command_graph_node_new_def)
  have s7: "upd_node (Suc (Suc (length (nodes s)))) (\<lambda>n. n\<lparr>ncommand := Some ?c\<rparr>)
      (snd (command_graph_node_new ?d COMMAND_GRAPH_NODE_TYPE_COMMAND ?s5)) = add_island ?d s"
    unfolding t(4) by (simp add: command_graph_node_new_def upd_node_def upd_command_def add_island_def list_update_append nth_append)
  have idx: "fold (\<lambda>m rep. rep[index_of (add_island ?d s) m := B]) ?ms rep = fold (\<lambda>m rep. rep[index_of s m := B]) ?ms rep" for B
    using ms by (intro fold_cong) (auto simp: add_island_def node_at_def nth_append)
  have n: "\<not> length (island_commands s ?ms) < 2" using big by (simp add: big_island_def)
  have "materialize_island vec island r (s, rep, mat) = Inr (add_island ?d s,
      fold (\<lambda>m rep. rep[index_of (add_island ?d s) m := Suc (Suc (length (nodes s)))]) ?ms rep,
      mat @ [\<lparr>mat_root = r, mat_sub = length (graphs s), mat_entry = length (nodes s), mat_exit = Suc (length (nodes s))\<rparr>])"
    unfolding materialize_island_def Let_def island_allocation prod.case if_not_P [OF n] t(1) bind_result_simps comm t(2,3)
    by (subst new) (simp only: prod.case s7)
  then show ?thesis by (simp only: idx)
qed

subsection \<open>All islands\<close>

definition add_islands :: "device_id list \<Rightarrow> store \<Rightarrow> store" where
  "add_islands ds s = fold add_island ds s"

lemma add_islands_snoc: "add_islands (ds @ [d]) s = add_island d (add_islands ds s)"
  by (simp add: add_islands_def)

lemma add_islands_length:
  "length (nodes (add_islands ds s)) = length (nodes s) + 3 * length ds"
  "length (commands (add_islands ds s)) = length (commands s) + length ds"
  "length (graphs (add_islands ds s)) = length (graphs s) + length ds"
  by (induction ds rule: rev_induct) (simp_all add: add_islands_snoc add_island_def, simp_all add: add_islands_def)

lemma add_islands_old:
  "x < length (nodes s) \<Longrightarrow> node_at (add_islands ds s) x = node_at s x"
  "c < length (commands s) \<Longrightarrow> commands (add_islands ds s) ! c = commands s ! c"
  "g < length (graphs s) \<Longrightarrow> graph_at (add_islands ds s) g = graph_at s g"
proof (induction ds rule: rev_induct)
  case (snoc d ds)
  {
    case 1
    then show ?case using snoc(1) by (simp add: add_islands_snoc add_islands_length add_island_def node_at_def nth_append)
  next
    case 2
    then show ?case using snoc(2) by (simp add: add_islands_snoc add_islands_length add_island_def nth_append)
  next
    case 3
    then show ?case using snoc(3) by (simp add: add_islands_snoc add_islands_length add_island_def graph_at_def nth_append)
  }
qed (simp_all add: add_islands_def)

text \<open>The \<open>j\<close>-th island: entry, exit and BATCH node, command and sub-graph.\<close>

lemma add_islands_new:
  assumes "j < length ds"
  shows "node_at (add_islands ds s) (length (nodes s) + 3 * j) = new_node CGIR_UNSPECIFIED_DEVICE_UNIQUE_ID COMMAND_GRAPH_NODE_TYPE_EMPTY"
    "node_at (add_islands ds s) (length (nodes s) + 3 * j + 1) = new_node CGIR_UNSPECIFIED_DEVICE_UNIQUE_ID COMMAND_GRAPH_NODE_TYPE_EMPTY"
    "node_at (add_islands ds s) (length (nodes s) + 3 * j + 2) =
       (new_node (ds ! j) COMMAND_GRAPH_NODE_TYPE_COMMAND)\<lparr>ncommand := Some (length (commands s) + j)\<rparr>"
    "commands (add_islands ds s) ! (length (commands s) + j) =
       \<lparr>ctype = COMMAND_TYPE_BATCH, cbody = Body_batch \<lparr>batch_cg = Some (length (graphs s) + j), driver_handle = 0\<rparr>\<rparr>"
    "graph_at (add_islands ds s) (length (graphs s) + j) =
       \<lparr>entry = length (nodes s) + 3 * j, exit = length (nodes s) + 3 * j + 1, graph_walk_id = 0, is_sequence = False\<rparr>"
  using assms
proof (induction ds rule: rev_induct)
  case (snoc d ds)
  note l = add_islands_length [of ds s]
  {
    case 1
    then show ?case using snoc(1) l
      by (cases "j < length ds") (simp_all add: add_islands_snoc add_island_def node_at_def nth_append less_Suc_eq)
  next
    case 2
    then show ?case using snoc(2) l
      by (cases "j < length ds") (simp_all add: add_islands_snoc add_island_def node_at_def nth_append less_Suc_eq)
  next
    case 3
    then show ?case using snoc(3) l
      by (cases "j < length ds") (simp_all add: add_islands_snoc add_island_def node_at_def nth_append less_Suc_eq)
  next
    case 4
    then show ?case using snoc(4) l
      by (cases "j < length ds") (simp_all add: add_islands_snoc add_island_def nth_append less_Suc_eq)
  next
    case 5
    then show ?case using snoc(5) l
      by (cases "j < length ds") (simp_all add: add_islands_snoc add_island_def graph_at_def nth_append less_Suc_eq)
  }
qed simp_all

text \<open>The devices of the islands and what is recorded of their sub-graphs.\<close>

definition island_devices :: "store \<Rightarrow> node_ref list \<Rightarrow> (nat \<times> node_ref list) list \<Rightarrow> nat list \<Rightarrow> device_id list" where
  "island_devices s vec island bs = map (\<lambda>r. island_device s (vec ! r) (members_of island r)) bs"

definition island_mats :: "store \<Rightarrow> nat list \<Rightarrow> island_mat list" where
  "island_mats s bs =
     map (\<lambda>j. \<lparr>mat_root = bs ! j, mat_sub = length (graphs s) + j,
             mat_entry = length (nodes s) + 3 * j, mat_exit = length (nodes s) + 3 * j + 1\<rparr>) [0..<length bs]"

lemma island_mats_snoc:
  "island_mats s (bs @ [r]) = island_mats s bs @
     [\<lparr>mat_root = r, mat_sub = length (graphs s) + length bs,
       mat_entry = length (nodes s) + 3 * length bs, mat_exit = length (nodes s) + 3 * length bs + 1\<rparr>]"
  by (auto simp: island_mats_def nth_append)

lemma add_islands_same_labels:
  assumes "set ms \<subseteq> {..<length (nodes s)}"
  shows "island_commands (add_islands ds s) ms = island_commands s ms"
proof -
  have "ntype (node_at (add_islands ds s) m) = ntype (node_at s m)" if "m \<in> set ms" for m
    using assms that by (subst add_islands_old(1)) auto
  then show ?thesis unfolding island_commands_def by (intro filter_cong) simp_all
qed

lemma add_islands_same_device:
  assumes "set ms \<subseteq> {..<length (nodes s)}" "big_island s ms"
  shows "island_device (add_islands ds s) u ms = island_device s u ms"
proof -
  obtain m rest where m: "island_commands s ms = m # rest" using assms(2) by (cases "island_commands s ms") (auto simp: big_island_def)
  moreover have "set (island_commands s ms) \<subseteq> set ms" by (simp add: island_commands_def)
  ultimately have "m < length (nodes s)" using assms(1) by auto
  then show ?thesis by (simp add: island_device_def add_islands_same_labels [OF assms(1)] add_islands_old m)
qed

lemma materialize_loop:
  assumes ms: "\<And>r. r \<in> set ks \<Longrightarrow> set (members_of island r) \<subseteq> {..<length (nodes s)}"
    and disj: "\<And>r q. r \<in> set ks \<Longrightarrow> q \<in> set ks \<Longrightarrow> r \<noteq> q \<Longrightarrow>
      index_of s ` set (members_of island r) \<inter> index_of s ` set (members_of island q) = {}"
    and ks: "distinct ks" and bs: "bs = filter (\<lambda>r. big_island s (members_of island r)) ks"
  shows "\<exists>rep'. for_each (materialize_island vec island) ks (s, rep, []) =
      Inr (add_islands (island_devices s vec island bs) s, rep', island_mats s bs) \<and> length rep' = length rep \<and>
    (\<forall>i<length rep. (\<forall>j<length bs. i \<in> index_of s ` set (members_of island (bs ! j)) \<longrightarrow> rep' ! i = length (nodes s) + 3 * j + 2) \<and>
      ((\<forall>r\<in>set bs. i \<notin> index_of s ` set (members_of island r)) \<longrightarrow> rep' ! i = rep ! i))"
  using assms
proof (induction ks arbitrary: bs rule: rev_induct)
  case Nil
  then show ?case by (simp add: add_islands_def island_devices_def island_mats_def)
next
  case (snoc r ks)
  let ?bs = "filter (\<lambda>r. big_island s (members_of island r)) ks" and ?ms = "members_of island r"
  let ?ds = "island_devices s vec island ?bs"
  let ?t = "add_islands ?ds s"
  have len: "length ?ds = length ?bs" by (simp add: island_devices_def)
  have r: "set ?ms \<subseteq> {..<length (nodes s)}" using snoc.prems(1) by simp
  obtain rep' where IH: "for_each (materialize_island vec island) ks (s, rep, []) = Inr (?t, rep', island_mats s ?bs)"
    "length rep' = length rep"
    "\<And>i j. i < length rep \<Longrightarrow> j < length ?bs \<Longrightarrow> i \<in> index_of s ` set (members_of island (?bs ! j)) \<Longrightarrow>
      rep' ! i = length (nodes s) + 3 * j + 2"
    "\<And>i. i < length rep \<Longrightarrow> (\<forall>r\<in>set ?bs. i \<notin> index_of s ` set (members_of island r)) \<Longrightarrow> rep' ! i = rep ! i"
    using snoc.IH [OF snoc.prems(1,2) _ refl] snoc.prems(3) by auto
  show ?case
  proof (cases "big_island s ?ms")
    case False
    then have "\<not> big_island ?t ?ms" by (simp add: big_island_def add_islands_same_labels [OF r])
    from materialize_small [OF this] show ?thesis
      using IH False snoc.prems(4) by (intro exI [of _ rep']) (simp add: for_each_append)
  next
    case True
    have bs: "bs = ?bs @ [r]" using snoc.prems(4) True by simp
    have big: "big_island ?t ?ms" using True by (simp add: big_island_def add_islands_same_labels [OF r])
    have rt: "set ?ms \<subseteq> {..<length (nodes ?t)}" using r by (auto simp: add_islands_length)
    let ?B = "Suc (Suc (length (nodes ?t)))"
    let ?rep = "fold (\<lambda>m rep. rep[index_of s m := ?B]) ?ms rep'"
    have idx: "fold (\<lambda>m rep. rep[index_of ?t m := ?B]) ?ms rep' = ?rep"
      using r by (intro fold_cong) (auto simp: add_islands_old)
    have dev: "add_island (island_device ?t (vec ! r) ?ms) ?t = add_islands (island_devices s vec island bs) s"
      unfolding bs add_islands_same_device [OF r True] by (simp add: island_devices_def add_islands_snoc)
    have B: "?B = length (nodes s) + 3 * length ?bs + 2" by (simp add: add_islands_length len)
    have "for_each (materialize_island vec island) (ks @ [r]) (s, rep, []) =
        Inr (add_islands (island_devices s vec island bs) s, ?rep, island_mats s bs)"
      using materialize_big [OF big rt] dev idx
      by (simp add: for_each_append IH(1) bs island_mats_snoc add_islands_length len)
    moreover have "?rep ! i = length (nodes s) + 3 * j + 2"
      if i: "i < length rep" "j < length bs" "i \<in> index_of s ` set (members_of island (bs ! j))" for i j
    proof (cases "j < length ?bs")
      case True
      then have q: "bs ! j = ?bs ! j" "?bs ! j \<in> set ks" "?bs ! j \<noteq> r"
        using nth_mem [OF True] snoc.prems(3) by (auto simp: bs nth_append)
      then have "i \<notin> index_of s ` set ?ms" using snoc.prems(2) [of "?bs ! j" r] i(3) by auto
      then show ?thesis using i IH(2) IH(3) [of i j] True q(1) by (simp add: fold_island_members)
    next
      case False
      then have "j = length ?bs" using i(2) by (simp add: bs)
      then show ?thesis using i IH(2) B by (simp add: bs nth_append fold_island_members)
    qed
    moreover have "?rep ! i = rep ! i"
      if "i < length rep" "\<forall>r\<in>set bs. i \<notin> index_of s ` set (members_of island r)" for i
      using that IH(2,4) by (simp add: bs fold_island_members)
    moreover have "length ?rep = length rep" using IH(2) by (simp add: fold_island_members)
    ultimately show ?thesis by blast
  qed
qed

end
