(* ===== verification/Batch_Moves.thy ===== *)
theory Batch_Moves
  imports Batch_Rewire
begin

text \<open>
  The moves of edges in the second half of \<^verbatim>\<open>pass_batch\<close>: the loop over the original edges sends
  every edge to the representatives of its ends, and the loop over the members connects the sources
  and the sinks of each island to the entry and the exit of its sub-graph.
\<close>

subsection \<open>Rewiring\<close>

definition moved :: "(node_ref \<Rightarrow> node_ref) \<Rightarrow> node_ref \<times> node_ref \<Rightarrow> bool" where
  "moved rho e \<longleftrightarrow> rho (fst e) \<noteq> rho (snd e) \<and> \<not> (rho (fst e) = fst e \<and> rho (snd e) = snd e)"

definition move_edge :: "(node_ref \<Rightarrow> node_ref) \<Rightarrow> node_ref \<times> node_ref \<Rightarrow> node_ref \<times> node_ref" where
  "move_edge rho e = (if moved rho e then (rho (fst e), rho (snd e)) else e)"

lemma erase_edge_wf_adj:
  assumes adj: "wf_adj s V" and e: "(u, v) \<in> edges s V"
  shows "\<exists>s1 s2. erase_succ v u s = Inr s1 \<and> erase_pred u v s1 = Inr s2 \<and> adj_frame s s2 \<and> wf_adj s2 V \<and>
    edges s2 V = edges s V - {(u, v)}"
proof -
  have uv: "u \<in> V" "v \<in> V" "v \<in> set (succs s u)" "u \<in> set (preds s v)"
    using e wf_adj_edge [OF adj] wf_adj_edge_pred [OF adj] by blast+
  let ?s1 = "set_succs u (remove1 v (succs s u)) s"
  let ?s2 = "set_preds v (remove1 u (preds ?s1 v)) ?s1"
  have l: "u < length (nodes s)" "v < length (nodes s)" "length (nodes ?s1) = length (nodes s)"
    using wf_adjD(1) [OF adj] uv by (simp_all add: set_succs_def)
  have s1: "erase_succ v u s = Inr ?s1" using uv(3) by (simp add: erase_succ_def erase_find_Inr)
  have s2: "erase_pred u v ?s1 = Inr ?s2" using uv(4) l by (simp add: erase_pred_def erase_find_Inr)
  have lists: "succs ?s2 x = (if x = u then remove1 v (succs s u) else succs s x)"
    "preds ?s2 x = (if x = v then remove1 u (preds s v) else preds s x)" for x using l by simp_all
  have sub: "edges s V - {(u, v)} \<subseteq> V \<times> V" using wf_adj_edges_subset [OF adj] by blast
  have "x < length (nodes ?s2) \<and> distinct (succs ?s2 x) \<and> distinct (preds ?s2 x)"
    and "set (succs ?s2 x) = {y. (x, y) \<in> edges s V - {(u, v)}}" and "set (preds ?s2 x) = {y. (y, x) \<in> edges s V - {(u, v)}}"
    if x: "x \<in> V" for x
  proof -
    note d = wf_adjD(4,5) [OF adj x] wf_adjD(4,5) [OF adj uv(1)] wf_adjD(4,5) [OF adj uv(2)]
    show "x < length (nodes ?s2) \<and> distinct (succs ?s2 x) \<and> distinct (preds ?s2 x)"
      using lists d wf_adjD(1) [OF adj x] l(3) by (simp add: set_preds_def)
    show "set (succs ?s2 x) = {y. (x, y) \<in> edges s V - {(u, v)}}"
      using lists d wf_adj_succs_edges [OF adj x] wf_adj_succs_edges [OF adj uv(1)] by auto
    show "set (preds ?s2 x) = {y. (y, x) \<in> edges s V - {(u, v)}}"
      using lists d wf_adj_preds_edges [OF adj x] wf_adj_preds_edges [OF adj uv(2)] by auto
  qed
  note adj2 = wf_adjI_edges [OF sub this]
  have "adj_frame s ?s2" by (rule adj_frame_trans [OF adj_frame_set_succs adj_frame_set_preds])
  then show ?thesis using s1 s2 adj2 by blast
qed

lemma rewire_loop:
  assumes "wf_adj s U" "edges s U = set es \<union> D" "distinct es" "set es \<inter> D = {}" "V \<subseteq> U"
    and "\<And>e. e \<in> set es \<Longrightarrow> fst e \<in> V \<and> snd e \<in> V \<and> rho (fst e) \<in> U \<and> rho (snd e) \<in> U"
    and "\<And>u. u \<in> V \<Longrightarrow> rep ! index_of s u = rho u"
    and "\<And>e. e \<in> set es \<Longrightarrow> moved rho e \<Longrightarrow> move_edge rho e \<notin> V \<times> V"
  shows "\<exists>t. for_each (rewire_edge rep) es s = Inr t \<and> adj_frame s t \<and> wf_adj t U \<and> edges t U = D \<union> move_edge rho ` set es"
  using assms
proof (induction es arbitrary: s D)
  case (Cons e es)
  obtain u v where e: "e = (u, v)" by force
  have uv: "u \<in> V" "v \<in> V" "rho u \<in> U" "rho v \<in> U" using Cons.prems(6) [of e] e by auto
  have rep: "rep ! index_of s u = rho u" "rep ! index_of s v = rho v" using Cons.prems(7) uv by simp_all
  have "\<exists>s'. rewire_edge rep e s = Inr s' \<and> adj_frame s s' \<and> wf_adj s' U \<and> edges s' U = set es \<union> insert (move_edge rho e) D"
  proof (cases "moved rho e")
    case False
    then have "rewire_edge rep e s = Inr s" using rep by (auto simp: rewire_edge_def moved_def e Let_def)
    moreover have "edges s U = set es \<union> insert (move_edge rho e) D" using False Cons.prems(2) by (auto simp: move_edge_def)
    ultimately show ?thesis using Cons.prems(1) by auto
  next
    case True
    have "(u, v) \<in> edges s U" using Cons.prems(2) e by simp
    then obtain s1 s2 where s: "erase_succ v u s = Inr s1" "erase_pred u v s1 = Inr s2" "adj_frame s s2" "wf_adj s2 U"
      "edges s2 U = edges s U - {(u, v)}" using erase_edge_wf_adj [OF Cons.prems(1)] by blast
    have "rewire_edge rep e s = Inr (connect (rho u) (rho v) s2)"
      using True rep s(1,2) by (auto simp: rewire_edge_def moved_def e Let_def)
    moreover have "adj_frame s (connect (rho u) (rho v) s2)" by (rule adj_frame_trans [OF s(3) adj_frame_connect])
    moreover have "edges (connect (rho u) (rho v) s2) U = set es \<union> insert (move_edge rho e) D"
      using connect_wf_adj(2) [OF s(4) uv(3,4)] s(5) Cons.prems(2-4) True e by (auto simp: move_edge_def)
    ultimately show ?thesis using connect_wf_adj(1) [OF s(4) uv(3,4)] by blast
  qed
  then obtain s' where s': "rewire_edge rep e s = Inr s'" "adj_frame s s'" "wf_adj s' U"
    "edges s' U = set es \<union> insert (move_edge rho e) D" by blast
  have "move_edge rho e \<notin> set es"
  proof (cases "moved rho e")
    case True
    then have "move_edge rho e \<notin> V \<times> V" using Cons.prems(8) by simp
    then show ?thesis using Cons.prems(6) [of "move_edge rho e"] by (auto simp: mem_Times_iff)
  next
    case False
    then show ?thesis using Cons.prems(3) by (simp add: move_edge_def)
  qed
  then have "set es \<inter> insert (move_edge rho e) D = {}" using Cons.prems(4) by auto
  moreover have "\<And>u. u \<in> V \<Longrightarrow> rep ! index_of s' u = rho u" using Cons.prems(7) adj_frameD(8) [OF s'(2)] by simp
  ultimately obtain t where t: "for_each (rewire_edge rep) es s' = Inr t" "adj_frame s' t" "wf_adj t U"
    "edges t U = insert (move_edge rho e) D \<union> move_edge rho ` set es"
    using Cons.IH [OF s'(3,4)] Cons.prems(3,5,6,8) by auto
  then show ?case using s'(1) adj_frame_trans [OF s'(2) t(2)] by auto
qed auto

subsection \<open>Connecting the sub-graphs\<close>

text \<open>The members with the entry and the exit of their sub-graph.\<close>

definition entering :: "(node_ref \<times> node_ref \<times> node_ref) set \<Rightarrow> (node_ref \<times> node_ref) set \<Rightarrow> (node_ref \<times> node_ref) set" where
  "entering T R = {(en, m) |en ex m. (en, ex, m) \<in> T \<and> m \<notin> Range R} \<union> {(m, ex) |en ex m. (en, ex, m) \<in> T \<and> m \<notin> Domain R}"

lemma connect_member_effect:
  assumes adj: "wf_adj s U" and U: "en \<in> U" "ex \<in> U" "m \<in> U" "en \<noteq> m"
  shows "adj_frame s (connect_member en ex m s)" "wf_adj (connect_member en ex m s) U"
    "edges (connect_member en ex m s) U = edges s U \<union> entering {(en, ex, m)} (edges s U)"
proof -
  let ?s1 = "if preds s m = [] then precedes en m s else s"
  have l: "en < length (nodes s)" "m < length (nodes s)" using wf_adjD(1) [OF adj] U by auto
  have pr: "preds s m = [] \<longleftrightarrow> m \<notin> Range (edges s U)" using wf_adj_preds_edges [OF adj U(3)] by (auto simp flip: set_empty)
  have su: "succs s m = [] \<longleftrightarrow> m \<notin> Domain (edges s U)" using wf_adj_succs_edges [OF adj U(3)] by (auto simp flip: set_empty)
  have s1: "wf_adj ?s1 U \<and> edges ?s1 U = edges s U \<union> (if m \<notin> Range (edges s U) then {(en, m)} else {})"
  proof (cases "preds s m = []")
    case True
    then have "m \<notin> set (succs s en)" using wf_adj_sym [OF adj U(1,3)] by simp
    then show ?thesis using precedes_wf_adj [OF adj U(1,3)] True pr by simp
  qed (use adj pr in simp)
  have sm: "succs ?s1 m = succs s m" using l U(4) by simp
  show "adj_frame s (connect_member en ex m s)"
    by (auto simp: connect_member_def Let_def intro: adj_frame_trans [OF adj_frame_precedes adj_frame_precedes])
  have ne: "ex \<notin> set (succs ?s1 m)" if "succs ?s1 m = []" using that by simp
  show "wf_adj (connect_member en ex m s) U"
    "edges (connect_member en ex m s) U = edges s U \<union> entering {(en, ex, m)} (edges s U)"
    using precedes_wf_adj [OF conjunct1 [OF s1] U(3,2) ne] s1 sm su
    unfolding connect_member_def Let_def entering_def by (auto split: if_splits)
qed

lemma entering_insert:
  assumes "en \<notin> X" "ex \<notin> X" "\<And>a b c. (a, b, c) \<in> T \<Longrightarrow> c \<in> X \<and> c \<noteq> m"
  shows "entering T (R \<union> entering {(en, ex, m)} R) = entering T R"
proof -
  have "(a, b, c) \<in> T \<and> c \<notin> Range (R \<union> entering {(en, ex, m)} R) \<longleftrightarrow> (a, b, c) \<in> T \<and> c \<notin> Range R"
    "(a, b, c) \<in> T \<and> c \<notin> Domain (R \<union> entering {(en, ex, m)} R) \<longleftrightarrow> (a, b, c) \<in> T \<and> c \<notin> Domain R" for a b c
  proof -
    have "c \<in> Range (R \<union> entering {(en, ex, m)} R) \<longleftrightarrow> c \<in> Range R" "c \<in> Domain (R \<union> entering {(en, ex, m)} R) \<longleftrightarrow> c \<in> Domain R"
      if "(a, b, c) \<in> T"
    proof -
      have "c \<noteq> ex" "c \<noteq> en" "c \<noteq> m" using assms(1,2) assms(3) [OF that] by auto
      then show "c \<in> Range (R \<union> entering {(en, ex, m)} R) \<longleftrightarrow> c \<in> Range R" "c \<in> Domain (R \<union> entering {(en, ex, m)} R) \<longleftrightarrow> c \<in> Domain R"
        by (auto simp: entering_def)
    qed
    then show "(a, b, c) \<in> T \<and> c \<notin> Range (R \<union> entering {(en, ex, m)} R) \<longleftrightarrow> (a, b, c) \<in> T \<and> c \<notin> Range R"
      "(a, b, c) \<in> T \<and> c \<notin> Domain (R \<union> entering {(en, ex, m)} R) \<longleftrightarrow> (a, b, c) \<in> T \<and> c \<notin> Domain R" by blast+
  qed
  note iffs = this
  show ?thesis unfolding entering_def [of T] iffs ..
qed

lemma connect_members_effect:
  assumes "wf_adj s U" "distinct (map (\<lambda>(en, ex, m). m) ts)"
    and "\<And>en ex m. (en, ex, m) \<in> set ts \<Longrightarrow> en \<in> U \<and> ex \<in> U \<and> m \<in> U \<and> en \<notin> X \<and> ex \<notin> X \<and> m \<in> X"
  shows "let t = fold (\<lambda>(en, ex, m). connect_member en ex m) ts s in
    adj_frame s t \<and> wf_adj t U \<and> edges t U = edges s U \<union> entering (set ts) (edges s U)"
  using assms
proof (induction ts arbitrary: s)
  case Nil
  then show ?case by (simp add: entering_def)
next
  case (Cons e ts)
  obtain en ex m where e: "e = (en, ex, m)" by (cases e)
  have U: "en \<in> U" "ex \<in> U" "m \<in> U" "en \<notin> X" "ex \<notin> X" "m \<in> X" "en \<noteq> m" using Cons.prems(3) [of en ex m] e by auto
  let ?s = "connect_member en ex m s"
  note c = connect_member_effect [OF Cons.prems(1) U(1-3,7)]
  let ?t = "fold (\<lambda>(en, ex, m). connect_member en ex m) ts ?s"
  have IH: "adj_frame ?s ?t" "wf_adj ?t U" "edges ?t U = edges ?s U \<union> entering (set ts) (edges ?s U)"
    using Cons.IH [OF c(2)] Cons.prems(2,3) by (auto simp: Let_def)
  have "(a, b, d) \<in> set ts \<Longrightarrow> d \<in> X \<and> d \<noteq> m" for a b d
    using Cons.prems(2) Cons.prems(3) [of a b d] by (force simp: e)
  then have "entering (set ts) (edges ?s U) = entering (set ts) (edges s U)"
    unfolding c(3) by (rule entering_insert [OF U(4,5)])
  moreover have "entering (set (e # ts)) R = entering {(en, ex, m)} R \<union> entering (set ts) R" for R
    by (auto simp: entering_def e)
  ultimately show ?case using IH c adj_frame_trans [OF c(1) IH(1)] by (simp add: e Let_def Un_assoc)
qed

subsection \<open>Groups\<close>

text \<open>
  Groups \<open>M j\<close> of nodes of \<open>V\<close>, each with three new nodes from \<open>n\<close> on: entry, exit,
  representative; the other nodes represent themselves.
\<close>

definition grouping :: "node_ref set \<Rightarrow> nat \<Rightarrow> nat \<Rightarrow> (nat \<Rightarrow> node_ref set) \<Rightarrow> (node_ref \<Rightarrow> node_ref) \<Rightarrow> bool" where
  "grouping V n k M rho \<longleftrightarrow>
     V \<subseteq> {..<n} \<and> (\<forall>j<k. M j \<subseteq> V \<and> M j \<noteq> {}) \<and> (\<forall>j<k. \<forall>u\<in>M j. rho u = n + 3 * j + 2) \<and>
     (\<forall>u\<in>V. (\<forall>j<k. u \<notin> M j) \<longrightarrow> rho u = u)"

definition batch_edges :: "(node_ref \<Rightarrow> node_ref) \<Rightarrow> (node_ref \<times> node_ref) set \<Rightarrow> (node_ref \<times> node_ref) set" where
  "batch_edges rho E = {(rho a, rho b) |a b. (a, b) \<in> E \<and> rho a \<noteq> rho b}"

lemma batch_edgesI: "(a, b) \<in> E \<Longrightarrow> rho a \<noteq> rho b \<Longrightarrow> (rho a, rho b) \<in> batch_edges rho E"
  unfolding batch_edges_def by blast

lemma groupingD:
  assumes "grouping V n k M rho"
  shows "u \<in> V \<Longrightarrow> u < n" "j < k \<Longrightarrow> M j \<subseteq> V" "j < k \<Longrightarrow> M j \<noteq> {}" "j < k \<Longrightarrow> u \<in> M j \<Longrightarrow> rho u = n + 3 * j + 2"
    "u \<in> V \<Longrightarrow> (\<And>j. j < k \<Longrightarrow> u \<notin> M j) \<Longrightarrow> rho u = u"
  using assms by (auto simp: grouping_def)

lemma grouping_cases:
  assumes "grouping V n k M rho" "u \<in> V"
  obtains (self) "rho u = u" "\<And>j. j < k \<Longrightarrow> u \<notin> M j" | (group) j where "j < k" "u \<in> M j" "rho u = n + 3 * j + 2"
  using groupingD [OF assms(1)] assms(2) by metis

lemma grouping_member:
  assumes g: "grouping V n k M rho" and u: "u \<in> V" and j: "j < k"
  shows "u \<in> M j \<longleftrightarrow> rho u = n + 3 * j + 2"
proof
  assume r: "rho u = n + 3 * j + 2"
  from g u show "u \<in> M j"
  proof (cases rule: grouping_cases)
    case self
    then show ?thesis using r groupingD(1) [OF g u] by simp
  next
    case (group i)
    then have "i = j" using r by simp
    then show ?thesis using group by simp
  qed
qed (rule groupingD(4) [OF g j])

lemma grouping_old:
  assumes g: "grouping V n k M rho" and u: "u \<in> V"
  shows "rho u \<in> V \<longleftrightarrow> rho u = u"
  using g u by (cases rule: grouping_cases) (use groupingD(1) [OF g, of "rho u"] u in auto)

lemma grouping_same:
  assumes g: "grouping V n k M rho" and u: "u \<in> V" "v \<in> V"
  shows "rho u = rho v \<longleftrightarrow> u = v \<or> (\<exists>j<k. u \<in> M j \<and> v \<in> M j)"
  using g u(1)
proof (cases rule: grouping_cases)
  case self
  then show ?thesis using grouping_old [OF g] u by metis
next
  case (group j)
  then show ?thesis using grouping_member [OF g u(2)] grouping_member [OF g u(1)] by auto
qed

lemma grouping_image:
  assumes g: "grouping V n k M rho"
  shows "x \<in> rho ` V \<longleftrightarrow> (x \<in> V \<and> rho x = x) \<or> (\<exists>j<k. x = n + 3 * j + 2)"
proof
  assume "x \<in> rho ` V"
  then obtain u where u: "u \<in> V" "x = rho u" by blast
  from g u(1) show "(x \<in> V \<and> rho x = x) \<or> (\<exists>j<k. x = n + 3 * j + 2)"
    by (cases rule: grouping_cases) (use u in auto)
next
  assume "(x \<in> V \<and> rho x = x) \<or> (\<exists>j<k. x = n + 3 * j + 2)"
  then show "x \<in> rho ` V"
  proof
    assume "x \<in> V \<and> rho x = x"
    then show ?thesis by (metis image_eqI)
  next
    assume "\<exists>j<k. x = n + 3 * j + 2"
    then obtain j where j: "j < k" "x = n + 3 * j + 2" by blast
    obtain u where "u \<in> M j" using groupingD(3) [OF g j(1)] by blast
    then show ?thesis using groupingD(2,4) [OF g j(1)] j(2) by (metis image_eqI subsetD)
  qed
qed

lemma grouping_image_subset:
  assumes g: "grouping V n k M rho" and u: "u \<in> V"
  shows "rho u \<in> V \<union> {n..<n + 3 * k}"
  using g u by (cases rule: grouping_cases) (use u in auto)

lemma grouping_member_not_image: "grouping V n k M rho \<Longrightarrow> j < k \<Longrightarrow> u \<in> M j \<Longrightarrow> u \<notin> rho ` V"
  using grouping_image [of V n k M rho u] groupingD(1) [of V n k M rho u] groupingD(2,4) [of V n k M rho j] by fastforce

text \<open>After the loop over the edges: those inside a group stay, the others join representatives.\<close>

definition inner_edges :: "(node_ref \<Rightarrow> node_ref) \<Rightarrow> (node_ref \<times> node_ref) set \<Rightarrow> (node_ref \<times> node_ref) set" where
  "inner_edges rho E = {(a, b) \<in> E. rho a = rho b}"

lemma move_edges: "move_edge rho ` E = inner_edges rho E \<union> batch_edges rho E"
proof (intro set_eqI iffI)
  fix e assume "e \<in> move_edge rho ` E"
  then obtain a b where "(a, b) \<in> E" "e = move_edge rho (a, b)" by auto
  then have "if rho a = rho b then e = (a, b) else e = (rho a, rho b)" by (auto simp: move_edge_def moved_def)
  then show "e \<in> inner_edges rho E \<union> batch_edges rho E"
    using \<open>(a, b) \<in> E\<close> by (auto simp: inner_edges_def batch_edges_def split: if_splits)
next
  fix e assume "e \<in> inner_edges rho E \<union> batch_edges rho E"
  then obtain a b where ab: "(a, b) \<in> E" "(rho a = rho b \<and> e = (a, b)) \<or> (rho a \<noteq> rho b \<and> e = (rho a, rho b))"
    by (auto simp: inner_edges_def batch_edges_def)
  then have "move_edge rho (a, b) = e" by (auto simp: move_edge_def moved_def)
  then show "e \<in> move_edge rho ` E" using ab(1) by (metis image_eqI)
qed

lemma inner_edges_groups:
  assumes g: "grouping V n k M rho" and E: "E \<subseteq> V \<times> V" "acyclic E"
  shows "(a, b) \<in> inner_edges rho E \<longleftrightarrow> (a, b) \<in> E \<and> (\<exists>j<k. a \<in> M j \<and> b \<in> M j)"
proof -
  have "a \<noteq> b" if "(a, b) \<in> E" using E(2) that by (auto simp: acyclic_def)
  then show ?thesis using grouping_same [OF g, of a b] E(1) by (auto simp: inner_edges_def)
qed

lemma batch_edges_image: "E \<subseteq> V \<times> V \<Longrightarrow> batch_edges rho E \<subseteq> rho ` V \<times> rho ` V"
  by (auto simp: batch_edges_def)

text \<open>The members with the nodes of their sub-graphs, and all edges at the end.\<close>

definition group_triples :: "nat \<Rightarrow> nat \<Rightarrow> (nat \<Rightarrow> node_ref set) \<Rightarrow> (node_ref \<times> node_ref \<times> node_ref) set" where
  "group_triples n k M = {(n + 3 * j, n + 3 * j + 1, m) |j m. j < k \<and> m \<in> M j}"

definition final_edges :: "nat \<Rightarrow> nat \<Rightarrow> (nat \<Rightarrow> node_ref set) \<Rightarrow> (node_ref \<Rightarrow> node_ref) \<Rightarrow> (node_ref \<times> node_ref) set \<Rightarrow> (node_ref \<times> node_ref) set" where
  "final_edges n k M rho E =
     inner_edges rho E \<union> batch_edges rho E \<union> entering (group_triples n k M) (inner_edges rho E \<union> batch_edges rho E)"

definition sub_edges :: "node_ref \<Rightarrow> node_ref \<Rightarrow> node_ref set \<Rightarrow> (node_ref \<times> node_ref) set \<Rightarrow> (node_ref \<times> node_ref) set" where
  "sub_edges en ex C E =
     {(a, b) \<in> E. a \<in> C \<and> b \<in> C} \<union> {(en, m) |m. m \<in> C \<and> (\<forall>p\<in>C. (p, m) \<notin> E)} \<union> {(m, ex) |m. m \<in> C \<and> (\<forall>q\<in>C. (m, q) \<notin> E)}"

lemma member_edges:
  assumes g: "grouping V n k M rho" and E: "E \<subseteq> V \<times> V" "acyclic E" and m: "j < k" "m \<in> M j"
  shows "m \<in> Range (inner_edges rho E \<union> batch_edges rho E) \<longleftrightarrow> (\<exists>p\<in>M j. (p, m) \<in> E)"
    "m \<in> Domain (inner_edges rho E \<union> batch_edges rho E) \<longleftrightarrow> (\<exists>q\<in>M j. (m, q) \<in> E)"
proof -
  have "m \<notin> Range (batch_edges rho E)" "m \<notin> Domain (batch_edges rho E)"
    using grouping_member_not_image [OF g m] batch_edges_image [OF E(1), of rho] by blast+
  moreover have one: "i = j" if "i < k" "m \<in> M i" for i
    using groupingD(4) [OF g that] groupingD(4) [OF g m] by simp
  have "(p, m) \<in> inner_edges rho E \<longleftrightarrow> (p, m) \<in> E \<and> p \<in> M j" "(m, p) \<in> inner_edges rho E \<longleftrightarrow> (m, p) \<in> E \<and> p \<in> M j" for p
    unfolding inner_edges_groups [OF g E] using one m by blast+
  then have "m \<in> Range (inner_edges rho E) \<longleftrightarrow> (\<exists>p\<in>M j. (p, m) \<in> E)" "m \<in> Domain (inner_edges rho E) \<longleftrightarrow> (\<exists>q\<in>M j. (m, q) \<in> E)"
    unfolding Range_iff Domain_iff by blast+
  ultimately show "m \<in> Range (inner_edges rho E \<union> batch_edges rho E) \<longleftrightarrow> (\<exists>p\<in>M j. (p, m) \<in> E)"
    "m \<in> Domain (inner_edges rho E \<union> batch_edges rho E) \<longleftrightarrow> (\<exists>q\<in>M j. (m, q) \<in> E)"
    unfolding Range_Un_eq Domain_Un_eq by blast+
qed

lemma entering_groups:
  assumes g: "grouping V n k M rho" and E: "E \<subseteq> V \<times> V" "acyclic E"
  shows "(a, b) \<in> entering (group_triples n k M) (inner_edges rho E \<union> batch_edges rho E) \<longleftrightarrow>
    (\<exists>j<k. (a = n + 3 * j \<and> b \<in> M j \<and> (\<forall>p\<in>M j. (p, b) \<notin> E)) \<or> (b = n + 3 * j + 1 \<and> a \<in> M j \<and> (\<forall>q\<in>M j. (a, q) \<notin> E)))"
proof -
  note m = member_edges [OF g E]
  have "(a, b) \<in> entering (group_triples n k M) (inner_edges rho E \<union> batch_edges rho E) \<longleftrightarrow>
    (\<exists>j<k. (a = n + 3 * j \<and> b \<in> M j \<and> b \<notin> Range (inner_edges rho E \<union> batch_edges rho E)) \<or>
       (b = n + 3 * j + 1 \<and> a \<in> M j \<and> a \<notin> Domain (inner_edges rho E \<union> batch_edges rho E)))"
    by (auto simp: entering_def group_triples_def simp del: Range_Un_eq Domain_Un_eq)
  also have "\<dots> \<longleftrightarrow> (\<exists>j<k. (a = n + 3 * j \<and> b \<in> M j \<and> (\<forall>p\<in>M j. (p, b) \<notin> E)) \<or>
      (b = n + 3 * j + 1 \<and> a \<in> M j \<and> (\<forall>q\<in>M j. (a, q) \<notin> E)))"
    using m by blast
  finally show ?thesis .
qed

text \<open>The edges at the end fall apart: those of the graph of representatives and those of each sub-graph.\<close>

lemma final_edges_cases:
  assumes g: "grouping V n k M rho" and E: "E \<subseteq> V \<times> V" "acyclic E"
  shows "(a, b) \<in> final_edges n k M rho E \<longleftrightarrow> (a, b) \<in> batch_edges rho E \<or> (\<exists>j<k. (a, b) \<in> sub_edges (n + 3 * j) (n + 3 * j + 1) (M j) E)"
  unfolding final_edges_def Un_iff inner_edges_groups [OF g E] entering_groups [OF g E] sub_edges_def by auto

definition group_nodes :: "nat \<Rightarrow> (nat \<Rightarrow> node_ref set) \<Rightarrow> nat \<Rightarrow> node_ref set" where
  "group_nodes n M j = insert (n + 3 * j) (insert (n + 3 * j + 1) (M j))"

lemma sub_edges_nodes: "sub_edges (n + 3 * j) (n + 3 * j + 1) (M j) E \<subseteq> group_nodes n M j \<times> group_nodes n M j"
  by (auto simp: sub_edges_def group_nodes_def)

lemma group_nodes_apart:
  assumes g: "grouping V n k M rho" and j: "j < k"
  shows "group_nodes n M j \<inter> rho ` V = {}" "i < k \<Longrightarrow> i \<noteq> j \<Longrightarrow> group_nodes n M j \<inter> group_nodes n M i = {}"
proof -
  have lt: "u < n" if "i < k" "u \<in> M i" for u i using groupingD(1,2) [OF g] that by blast
  show "group_nodes n M j \<inter> rho ` V = {}"
  proof -
    have "n + 3 * j \<noteq> n + 3 * i + 2" "n + 3 * j + 1 \<noteq> n + 3 * i + 2" for i by presburger+
    moreover have "n + 3 * j \<notin> V" "n + 3 * j + 1 \<notin> V"
      using groupingD(1) [OF g, of "n + 3 * j"] groupingD(1) [OF g, of "n + 3 * j + 1"] by auto
    ultimately have "n + 3 * j \<notin> rho ` V" "n + 3 * j + 1 \<notin> rho ` V" using grouping_image [OF g] by blast+
    then show ?thesis using grouping_member_not_image [OF g j] by (auto simp: group_nodes_def)
  qed
  show "group_nodes n M j \<inter> group_nodes n M i = {}" if i: "i < k" "i \<noteq> j"
  proof -
    have "M j \<inter> M i = {}" using groupingD(4) [OF g j] groupingD(4) [OF g i(1)] i(2) by fastforce
    moreover have "n + 3 * j \<notin> M i" "n + 3 * j + 1 \<notin> M i" "n + 3 * i \<notin> M j" "n + 3 * i + 1 \<notin> M j"
      using lt [OF i(1), of "n + 3 * j"] lt [OF i(1), of "n + 3 * j + 1"] lt [OF j, of "n + 3 * i"] lt [OF j, of "n + 3 * i + 1"] by auto
    moreover have "n + 3 * j \<noteq> n + 3 * i + 1" "n + 3 * j + 1 \<noteq> n + 3 * i" by presburger+
    ultimately show ?thesis using i(2) by (auto simp: group_nodes_def)
  qed
qed

lemma final_edges_parts:
  assumes g: "grouping V n k M rho" and E: "E \<subseteq> V \<times> V" "acyclic E"
  shows "{(a, b) \<in> final_edges n k M rho E. a \<in> rho ` V} = batch_edges rho E"
    "{(a, b) \<in> final_edges n k M rho E. b \<in> rho ` V} = batch_edges rho E"
    "j < k \<Longrightarrow> {(a, b) \<in> final_edges n k M rho E. a \<in> group_nodes n M j} = sub_edges (n + 3 * j) (n + 3 * j + 1) (M j) E"
    "j < k \<Longrightarrow> {(a, b) \<in> final_edges n k M rho E. b \<in> group_nodes n M j} = sub_edges (n + 3 * j) (n + 3 * j + 1) (M j) E"
proof -
  note c = final_edges_cases [OF g E] and q = batch_edges_image [OF E(1), of rho]
  note ap = group_nodes_apart [OF g]
  have s: "a \<in> group_nodes n M j \<and> b \<in> group_nodes n M j" if "(a, b) \<in> sub_edges (n + 3 * j) (n + 3 * j + 1) (M j) E" for a b j
    using that sub_edges_nodes by blast
  show "{(a, b) \<in> final_edges n k M rho E. a \<in> rho ` V} = batch_edges rho E"
    "{(a, b) \<in> final_edges n k M rho E. b \<in> rho ` V} = batch_edges rho E"
    using c q s ap(1) by blast+
  assume j: "j < k"
  show "{(a, b) \<in> final_edges n k M rho E. a \<in> group_nodes n M j} = sub_edges (n + 3 * j) (n + 3 * j + 1) (M j) E"
    "{(a, b) \<in> final_edges n k M rho E. b \<in> group_nodes n M j} = sub_edges (n + 3 * j) (n + 3 * j + 1) (M j) E"
    using c q s ap(1) [OF j] ap(2) [OF j] j by blast+
qed

lemma wf_adj_part:
  assumes adj: "wf_adj s U" and W: "W \<subseteq> U" and part: "{(a, b) \<in> edges s U. a \<in> W} = Q" "{(a, b) \<in> edges s U. b \<in> W} = Q"
  shows "wf_adj s W" "edges s W = Q"
proof -
  have Q: "Q \<subseteq> W \<times> W" using part by blast
  have "x < length (nodes s) \<and> distinct (succs s x) \<and> distinct (preds s x)"
    and "set (succs s x) = {y. (x, y) \<in> Q}" and "set (preds s x) = {y. (y, x) \<in> Q}" if x: "x \<in> W" for x
  proof -
    have U: "x \<in> U" using x W by blast
    show "x < length (nodes s) \<and> distinct (succs s x) \<and> distinct (preds s x)" using wf_adjD [OF adj U] by simp
    show "set (succs s x) = {y. (x, y) \<in> Q}" using wf_adj_succs_edges [OF adj U] part(1) x by blast
    show "set (preds s x) = {y. (y, x) \<in> Q}" using wf_adj_preds_edges [OF adj U] part(2) x by blast
  qed
  note w = wf_adjI_edges [OF Q this]
  show "wf_adj s W" by (rule w(1))
  show "edges s W = Q" by (rule w(2))
qed

subsection \<open>Well-formed parts\<close>

lemma acyclic_add_sinks:
  assumes "acyclic R" "\<And>a b. (a, b) \<in> A \<Longrightarrow> b \<notin> Domain (R \<union> A)"
  shows "acyclic (R \<union> A)"
  unfolding acyclic_def
proof (intro allI notI)
  fix x assume x: "(x, x) \<in> (R \<union> A)\<^sup>+"
  have "(x, y) \<in> R\<^sup>+ \<or> y \<notin> Domain (R \<union> A)" if "(x, y) \<in> (R \<union> A)\<^sup>+" for y
    using that
  proof (induction rule: trancl_induct)
    case (base y)
    then show ?case using assms(2) by blast
  next
    case (step y z)
    then have "(x, y) \<in> R\<^sup>+" by blast
    then show ?case using step.hyps(2) assms(2) by (metis Un_iff trancl.trancl_into_trancl)
  qed
  moreover have "x \<in> Domain (R \<union> A)" using x by (meson DomainI tranclD)
  ultimately have "(x, x) \<in> R\<^sup>+" using x by blast
  then show False using assms(1) by (simp add: acyclic_def)
qed

lemma acyclic_add_sources:
  assumes "acyclic R" "\<And>a b. (a, b) \<in> A \<Longrightarrow> a \<notin> Range (R \<union> A)"
  shows "acyclic (R \<union> A)"
proof -
  have "acyclic (R\<inverse> \<union> A\<inverse>)" by (rule acyclic_add_sinks) (use assms in auto)
  then have "acyclic ((R \<union> A)\<inverse>)" by (simp add: converse_Un)
  then show ?thesis by simp
qed

lemma sub_edges_acyclic:
  assumes "acyclic E" "en \<notin> C" "ex \<notin> C" "en \<noteq> ex"
  shows "acyclic (sub_edges en ex C E)"
  unfolding sub_edges_def
proof (rule acyclic_add_sinks, rule acyclic_add_sources)
  show "acyclic {(a, b) \<in> E. a \<in> C \<and> b \<in> C}" by (rule acyclic_subset [OF assms(1)]) blast
qed (use assms(2-4) in auto)

lemma finite_acyclic_ends:
  assumes "finite C" "C \<noteq> {}" "acyclic E"
  shows "\<exists>m\<in>C. \<forall>p\<in>C. (p, m) \<notin> E" "\<exists>m\<in>C. \<forall>q\<in>C. (m, q) \<notin> E"
proof -
  let ?R = "E \<inter> C \<times> C"
  have R: "finite ?R" "acyclic ?R" using assms(1) acyclic_subset [OF assms(3)] by auto
  obtain x where x: "x \<in> C" using assms(2) by blast
  obtain m where "m \<in> C" "\<And>y. (y, m) \<in> ?R \<Longrightarrow> y \<notin> C" using wfE_min [OF finite_acyclic_wf [OF R] x] by metis
  then show "\<exists>m\<in>C. \<forall>p\<in>C. (p, m) \<notin> E" by blast
  obtain k where "k \<in> C" "\<And>y. (y, k) \<in> ?R\<inverse> \<Longrightarrow> y \<notin> C" using wfE_min [OF finite_acyclic_wf_converse [OF R] x] by metis
  then show "\<exists>m\<in>C. \<forall>q\<in>C. (m, q) \<notin> E" by blast
qed

text \<open>A sub-graph.\<close>

lemma sub_graph_wf:
  assumes h: "h < length (graphs t)" "node_get_entry t h = en" "node_get_exit t h = ex"
    and adj: "wf_adj t (insert en (insert ex C))" "edges t (insert en (insert ex C)) = sub_edges en ex C E"
    and C: "finite C" "C \<noteq> {}" "en \<notin> C" "ex \<notin> C" "en \<noteq> ex" and acy: "acyclic E"
  shows "wf_graph t h (insert en (insert ex C))"
proof (rule wf_graphI_edges)
  show "acyclic (edges t (insert en (insert ex C)))" unfolding adj(2) by (rule sub_edges_acyclic [OF acy C(3-5)])
  note ends = finite_acyclic_ends [OF C(1,2) acy]
  fix x assume x: "x \<in> insert en (insert ex C)"
  show "x \<noteq> node_get_entry t h \<longleftrightarrow> (\<exists>y. (y, x) \<in> edges t (insert en (insert ex C)))"
    unfolding adj(2) h(2) using x ends(2) C(3-5) by (auto simp: sub_edges_def)
  show "x \<noteq> node_get_exit t h \<longleftrightarrow> (\<exists>y. (x, y) \<in> edges t (insert en (insert ex C)))"
    unfolding adj(2) h(3) using x ends(1) C(3-5) by (auto simp: sub_edges_def)
qed (simp_all add: h adj(1))

text \<open>The graph of representatives: only its acyclicity is not given.\<close>

lemma batch_edges_ends:
  assumes g: "grouping V n k M rho" and wf: "wf_graph s h V" and x: "x \<in> rho ` V"
    and ee: "rho (node_get_entry s h) = node_get_entry s h" "rho (node_get_exit s h) = node_get_exit s h"
  shows "x \<noteq> node_get_entry s h \<longleftrightarrow> (\<exists>y. (y, x) \<in> batch_edges rho (edges s V))"
    "x \<noteq> node_get_exit s h \<longleftrightarrow> (\<exists>y. (x, y) \<in> batch_edges rho (edges s V))"
proof -
  let ?E = "edges s V" and ?C = "{u \<in> V. rho u = x}"
  note adj = wf_graph_adj [OF wf] and acy = wf_graph_acyclic [OF wf]
  note sub = wf_adj_edges_subset [OF adj]
  have C: "finite ?C" "?C \<noteq> {}" using wf_adj_finite [OF adj] x by auto
  have old: "u = w" if "u \<in> V" "w \<in> V" "rho u = w" for u w using grouping_old [OF g that(1)] that by simp
  show "x \<noteq> node_get_entry s h \<longleftrightarrow> (\<exists>y. (y, x) \<in> batch_edges rho ?E)"
  proof
    assume ne: "x \<noteq> node_get_entry s h"
    obtain m where m: "m \<in> ?C" "\<forall>p\<in>?C. (p, m) \<notin> ?E" using finite_acyclic_ends(1) [OF C acy] by blast
    have "m \<noteq> node_get_entry s h" using m(1) ne ee(1) by auto
    then obtain p where p: "(p, m) \<in> ?E" using wf_graph_edges_iff(1) [OF wf, of m] m(1) by blast
    then have "rho p \<noteq> x" using m(2) sub by blast
    then have "(rho p, rho m) \<in> batch_edges rho ?E" using batch_edgesI [OF p, of rho] m(1) by auto
    then show "\<exists>y. (y, x) \<in> batch_edges rho ?E" using m(1) by auto
  next
    assume "\<exists>y. (y, x) \<in> batch_edges rho ?E"
    then obtain a b where ab: "(a, b) \<in> ?E" "rho b = x" unfolding batch_edges_def by blast
    show "x \<noteq> node_get_entry s h"
    proof
      assume "x = node_get_entry s h"
      moreover have "b \<in> V" using ab(1) sub by blast
      ultimately have "b = node_get_entry s h" using old [OF _ wf_graph_entry [OF wf]] ab(2) by simp
      then show False using wf_graph_edges_iff(1) [OF wf wf_graph_entry [OF wf]] ab(1) by blast
    qed
  qed
  show "x \<noteq> node_get_exit s h \<longleftrightarrow> (\<exists>y. (x, y) \<in> batch_edges rho ?E)"
  proof
    assume ne: "x \<noteq> node_get_exit s h"
    obtain m where m: "m \<in> ?C" "\<forall>q\<in>?C. (m, q) \<notin> ?E" using finite_acyclic_ends(2) [OF C acy] by blast
    have "m \<noteq> node_get_exit s h" using m(1) ne ee(2) by auto
    then obtain q where q: "(m, q) \<in> ?E" using wf_graph_edges_iff(2) [OF wf, of m] m(1) by blast
    then have "rho q \<noteq> x" using m(2) sub by blast
    then have "(rho m, rho q) \<in> batch_edges rho ?E" using batch_edgesI [OF q, of rho] m(1) by auto
    then show "\<exists>y. (x, y) \<in> batch_edges rho ?E" using m(1) by auto
  next
    assume "\<exists>y. (x, y) \<in> batch_edges rho ?E"
    then obtain a b where ab: "(a, b) \<in> ?E" "rho a = x" unfolding batch_edges_def by blast
    show "x \<noteq> node_get_exit s h"
    proof
      assume "x = node_get_exit s h"
      moreover have "a \<in> V" using ab(1) sub by blast
      ultimately have "a = node_get_exit s h" using old [OF _ wf_graph_exit [OF wf]] ab(2) by simp
      then show False using wf_graph_edges_iff(2) [OF wf wf_graph_exit [OF wf]] ab(1) by blast
    qed
  qed
qed

end
