(* ===== verification/Batch_Props.thy ===== *)
theory Batch_Props
  imports Batch_Moves "HOL-Library.Multiset"
begin

text \<open>
  The batch pass as a whole, on every well-formed graph and for every iteration order of its two
  hash maps: which nodes leave, what the sub-graphs are, which edges the graph is left with, and
  when the result is well formed again.
\<close>

subsection \<open>The store after the allocations\<close>

lemma add_islands_fresh:
  assumes "length (nodes s) \<le> x" "x < length (nodes s) + 3 * length ds"
  shows "succs (add_islands ds s) x = [] \<and> preds (add_islands ds s) x = [] \<and> walk_id (node_at (add_islands ds s) x) = 0"
proof -
  let ?j = "(x - length (nodes s)) div 3"
  have j: "?j < length ds" using assms by (simp add: div_less_iff_less_mult mult.commute)
  have "x = length (nodes s) + 3 * ?j \<or> x = length (nodes s) + 3 * ?j + 1 \<or> x = length (nodes s) + 3 * ?j + 2"
    using assms(1) by presburger
  then show ?thesis using add_islands_new(1-3) [OF j, of s] by (auto simp: new_node_def)
qed

lemma add_islands_adj:
  assumes adj: "wf_adj s V" and V: "V \<subseteq> {..<length (nodes s)}" and k: "length ds = k"
    and U: "U = V \<union> {length (nodes s)..<length (nodes s) + 3 * k}"
  shows "wf_adj (add_islands ds s) U" "edges (add_islands ds s) U = edges s V"
proof -
  have sub: "edges s V \<subseteq> U \<times> U" using wf_adj_edges_subset [OF adj] U by blast
  have "x < length (nodes (add_islands ds s)) \<and> distinct (succs (add_islands ds s) x) \<and> distinct (preds (add_islands ds s) x)"
    and "set (succs (add_islands ds s) x) = {y. (x, y) \<in> edges s V}" and "set (preds (add_islands ds s) x) = {y. (y, x) \<in> edges s V}"
    if x: "x \<in> U" for x
  proof -
    consider (old) "x \<in> V" | (new) "x \<notin> V" "length (nodes s) \<le> x" "x < length (nodes s) + 3 * length ds" using x U V k by auto
    then have "(x < length (nodes (add_islands ds s)) \<and> distinct (succs (add_islands ds s) x) \<and> distinct (preds (add_islands ds s) x)) \<and>
      set (succs (add_islands ds s) x) = {y. (x, y) \<in> edges s V} \<and> set (preds (add_islands ds s) x) = {y. (y, x) \<in> edges s V}"
    proof cases
      case old
      then have l: "x < length (nodes s)" using V by blast
      show ?thesis
        using wf_adjD(4,5) [OF adj old] wf_adj_succs_edges [OF adj old] wf_adj_preds_edges [OF adj old] l
        by (simp add: add_islands_old(1) add_islands_length)
    next
      case new
      have "{y. (x, y) \<in> edges s V} = {}" "{y. (y, x) \<in> edges s V} = {}"
        using wf_adj_edges_subset [OF adj] new(1) by blast+
      then show ?thesis using add_islands_fresh [OF new(2,3)] new(3) by (simp add: add_islands_length)
    qed
    then show "x < length (nodes (add_islands ds s)) \<and> distinct (succs (add_islands ds s) x) \<and> distinct (preds (add_islands ds s) x)"
      "set (succs (add_islands ds s) x) = {y. (x, y) \<in> edges s V}" "set (preds (add_islands ds s) x) = {y. (y, x) \<in> edges s V}" by blast+
  qed
  note w = wf_adjI_edges [OF sub this]
  show "wf_adj (add_islands ds s) U" by (rule w(1))
  show "edges (add_islands ds s) U = edges s V" by (rule w(2))
qed

lemma all_edges_set:
  assumes "wf_adj s V" "set vec = V" "distinct vec" "\<And>x. x \<in> V \<Longrightarrow> succs t x = succs s x"
  shows "set (all_edges t vec) = edges s V" "distinct (all_edges t vec)"
proof -
  show "set (all_edges t vec) = edges s V" using assms(2,4) by (auto simp: all_edges_def edges_def)
  have "\<And>x. x \<in> set vec \<Longrightarrow> distinct (succs t x)" using assms wf_adjD(4) [OF assms(1)] by simp
  with assms(3) show "distinct (all_edges t vec)"
    unfolding all_edges_def by (induction vec) (auto simp: distinct_map inj_on_def)
qed

subsection \<open>The loop over the sub-graphs\<close>

text \<open>An iteration order: the same elements, each as often.\<close>

definition reordering :: "('a list \<Rightarrow> 'a list) \<Rightarrow> bool" where
  "reordering ord \<longleftrightarrow> (\<forall>xs. mset (ord xs) = mset xs)"

lemma reordering_set: "reordering ord \<Longrightarrow> set (ord xs) = set xs"
  unfolding reordering_def by (metis set_mset_mset)

lemma reordering_distinct: "reordering ord \<Longrightarrow> distinct (ord xs) = distinct xs"
  unfolding reordering_def by (metis mset_eq_imp_distinct_iff)

lemma reordering_concat:
  assumes "reordering ord"
  shows "distinct (concat (map f (ord xs))) = distinct (concat (map f xs))"
proof -
  have "sum_list (map (\<lambda>x. mset (f x)) ys) = sum_mset (image_mset (\<lambda>x. mset (f x)) (mset ys))" for ys
    by (metis mset_map sum_mset_sum_list)
  then have "mset (concat (map f (ord xs))) = mset (concat (map f xs))"
    using assms by (simp add: mset_concat o_def reordering_def)
  then show ?thesis by (rule mset_eq_imp_distinct_iff)
qed

definition mat_triples :: "(nat \<times> node_ref list) list \<Rightarrow> island_mat list \<Rightarrow> (node_ref \<times> node_ref \<times> node_ref) list" where
  "mat_triples island mats =
     concat (map (\<lambda>M. map (\<lambda>m. (mat_entry M, mat_exit M, m)) (members_of island (mat_root M))) mats)"

lemma connect_islands_triples:
  "fold (connect_island island) mats s = fold (\<lambda>(en, ex, m). connect_member en ex m) (mat_triples island mats) s"
  by (induction mats arbitrary: s) (simp_all add: mat_triples_def connect_island_def fold_map o_def)

lemma distinct_concat_groups:
  assumes "\<And>r. r \<in> set bs \<Longrightarrow> distinct (f r)" "\<And>r q. r \<in> set bs \<Longrightarrow> q \<in> set bs \<Longrightarrow> r \<noteq> q \<Longrightarrow> set (f r) \<inter> set (f q) = {}" "distinct bs"
  shows "distinct (concat (map f bs))"
  using assms
proof (induction bs)
  case (Cons b bs)
  have "set (f b) \<inter> set (f q) = {}" if "q \<in> set bs" for q using Cons.prems(2) [of b q] Cons.prems(3) that by auto
  then have "set (f b) \<inter> set (concat (map f bs)) = {}" by auto
  then show ?case using Cons by simp
qed simp

lemma mat_triples_ok:
  assumes ord: "reordering ord2" and bs: "distinct bs"
    and ms: "\<And>r. r \<in> set bs \<Longrightarrow> distinct (members_of island r)"
      "\<And>r q. r \<in> set bs \<Longrightarrow> q \<in> set bs \<Longrightarrow> r \<noteq> q \<Longrightarrow> set (members_of island r) \<inter> set (members_of island q) = {}"
  shows "set (mat_triples island (ord2 (island_mats s bs))) =
      group_triples (length (nodes s)) (length bs) (\<lambda>j. set (members_of island (bs ! j)))"
    "distinct (map (\<lambda>(en, ex, m). m) (mat_triples island (ord2 (island_mats s bs))))"
proof -
  show "set (mat_triples island (ord2 (island_mats s bs))) =
      group_triples (length (nodes s)) (length bs) (\<lambda>j. set (members_of island (bs ! j)))"
    by (auto simp: mat_triples_def reordering_set [OF ord] island_mats_def group_triples_def)
  have "map (\<lambda>(en, ex, m). m) (mat_triples island mats) = concat (map (\<lambda>M. members_of island (mat_root M)) mats)" for mats
    by (simp add: mat_triples_def map_concat o_def)
  moreover have "map (\<lambda>M. members_of island (mat_root M)) (island_mats s bs) = map (members_of island) bs"
    by (rule nth_equalityI) (simp_all add: island_mats_def)
  moreover have "distinct (concat (map (members_of island) bs))" by (rule distinct_concat_groups [OF ms bs])
  ultimately show "distinct (map (\<lambda>(en, ex, m). m) (mat_triples island (ord2 (island_mats s bs))))"
    using reordering_concat [OF ord, of "\<lambda>M. members_of island (mat_root M)" "island_mats s bs"] by simp
qed

subsection \<open>From the islands to the final graph\<close>

text \<open>The islands as keys with members: disjoint groups of nodes of \<open>V\<close>, each node once.\<close>

definition island_groups :: "node_ref set \<Rightarrow> (nat \<times> node_ref list) list \<Rightarrow> nat list \<Rightarrow> bool" where
  "island_groups V island ks \<longleftrightarrow>
     distinct ks \<and> (\<forall>r\<in>set ks. set (members_of island r) \<subseteq> V \<and> distinct (members_of island r)) \<and>
     (\<forall>r\<in>set ks. \<forall>q\<in>set ks. r \<noteq> q \<longrightarrow> set (members_of island r) \<inter> set (members_of island q) = {})"

lemma materialize_grouping:
  assumes adj: "wf_adj s V" and ix: "indexed s vec" and vec: "set vec = V"
    and gr: "island_groups V island ks" and bs: "bs = filter (\<lambda>r. big_island s (members_of island r)) ks"
  shows "\<exists>rep. for_each (materialize_island vec island) ks (s, vec, []) =
      Inr (add_islands (island_devices s vec island bs) s, rep, island_mats s bs) \<and>
    grouping V (length (nodes s)) (length bs) (\<lambda>j. set (members_of island (bs ! j))) (\<lambda>u. rep ! index_of s u)"
proof -
  have V: "V \<subseteq> {..<length (nodes s)}" using wf_adjD(1) [OF adj] by blast
  have ks: "distinct ks" and m: "\<And>r. r \<in> set ks \<Longrightarrow> set (members_of island r) \<subseteq> V"
    and dj: "\<And>r q. r \<in> set ks \<Longrightarrow> q \<in> set ks \<Longrightarrow> r \<noteq> q \<Longrightarrow> set (members_of island r) \<inter> set (members_of island q) = {}"
    using gr unfolding island_groups_def by blast+
  have inj: "index_of s u = index_of s v \<longleftrightarrow> u = v" if "u \<in> V" "v \<in> V" for u v
    using indexed_set(2) [OF ix] that vec by metis
  have idx: "index_of s u \<in> index_of s ` A \<longleftrightarrow> u \<in> A" if "u \<in> V" "A \<subseteq> V" for u A
    using inj that by (auto simp: image_iff)
  have disj: "index_of s ` set (members_of island r) \<inter> index_of s ` set (members_of island q) = {}"
    if "r \<in> set ks" "q \<in> set ks" "r \<noteq> q" for r q
    using dj [OF that] m [OF that(1)] m [OF that(2)] inj by blast
  have mN: "set (members_of island r) \<subseteq> {..<length (nodes s)}" if "r \<in> set ks" for r using m [OF that] V by blast
  obtain rep where rep: "for_each (materialize_island vec island) ks (s, vec, []) =
      Inr (add_islands (island_devices s vec island bs) s, rep, island_mats s bs)" "length rep = length vec"
    "\<forall>i<length vec. (\<forall>j<length bs. i \<in> index_of s ` set (members_of island (bs ! j)) \<longrightarrow> rep ! i = length (nodes s) + 3 * j + 2) \<and>
      ((\<forall>r\<in>set bs. i \<notin> index_of s ` set (members_of island r)) \<longrightarrow> rep ! i = vec ! i)"
    using materialize_loop [OF mN disj ks bs, of vec vec] by auto
  have k: "bs ! j \<in> set ks" "big_island s (members_of island (bs ! j))" if "j < length bs" for j
    using nth_mem [OF that] bs by auto
  have ne: "members_of island (bs ! j) \<noteq> []" if "j < length bs" for j
    using k(2) [OF that] by (auto simp: big_island_def island_commands_def)
  have "grouping V (length (nodes s)) (length bs) (\<lambda>j. set (members_of island (bs ! j))) (\<lambda>u. rep ! index_of s u)"
    unfolding grouping_def
  proof (intro conjI allI impI ballI)
    show "V \<subseteq> {..<length (nodes s)}" by (rule V)
    fix j assume j: "j < length bs"
    show "set (members_of island (bs ! j)) \<subseteq> V" by (rule m [OF k(1) [OF j]])
    show "set (members_of island (bs ! j)) \<noteq> {}" using ne [OF j] by simp
    fix u assume u: "u \<in> set (members_of island (bs ! j))"
    then have "u \<in> V" using m [OF k(1) [OF j]] by blast
    then have "index_of s u < length vec" using indexed_set(1) [OF ix] vec by simp
    then show "rep ! index_of s u = length (nodes s) + 3 * j + 2" using rep(3) j u by blast
  next
    fix u assume u: "u \<in> V" "\<forall>j<length bs. u \<notin> set (members_of island (bs ! j))"
    have i: "index_of s u < length vec" "vec ! index_of s u = u" using indexed_set [OF ix] vec u(1) by simp_all
    have "index_of s u \<notin> index_of s ` set (members_of island r)" if r: "r \<in> set bs" for r
    proof -
      have "set (members_of island r) \<subseteq> V" using m r bs by auto
      moreover have "u \<notin> set (members_of island r)" using u(2) r by (metis in_set_conv_nth)
      ultimately show ?thesis using idx [OF u(1)] by blast
    qed
    then show "rep ! index_of s u = u" using rep(3) i by simp
  qed
  then show ?thesis using rep(1) by blast
qed

lemma batch_tail:
  assumes adj: "wf_adj s V" "acyclic (edges s V)" and ix: "indexed s vec" and vec: "set vec = V" "distinct vec"
    and gr: "island_groups V island ks" and bs: "bs = filter (\<lambda>r. big_island s (members_of island r)) ks"
    and ord: "reordering ord2"
    and n: "n = length (nodes s)" and k: "k = length bs" and M: "M = (\<lambda>j. set (members_of island (bs ! j)))"
  shows "\<exists>s2 rep s3 t rho. s2 = add_islands (island_devices s vec island bs) s \<and>
    for_each (materialize_island vec island) ks (s, vec, []) = Inr (s2, rep, island_mats s bs) \<and>
    for_each (rewire_edge rep) (all_edges s2 vec) s2 = Inr s3 \<and>
    t = fold (connect_island island) (ord2 (island_mats s bs)) s3 \<and>
    adj_frame s2 t \<and> grouping V n k M rho \<and>
    wf_adj t (V \<union> {n..<n + 3 * k}) \<and> edges t (V \<union> {n..<n + 3 * k}) = final_edges n k M rho (edges s V)"
proof -
  let ?U = "V \<union> {n..<n + 3 * k}" and ?E = "edges s V"
  let ?s2 = "add_islands (island_devices s vec island bs) s"
  have V: "V \<subseteq> {..<n}" using wf_adjD(1) [OF adj(1)] n by blast
  have E: "?E \<subseteq> V \<times> V" by (rule wf_adj_edges_subset [OF adj(1)])
  have kd: "length (island_devices s vec island bs) = k" by (simp add: island_devices_def k)
  obtain rep where rep: "for_each (materialize_island vec island) ks (s, vec, []) = Inr (?s2, rep, island_mats s bs)"
    "grouping V n k M (\<lambda>u. rep ! index_of s u)"
    using materialize_grouping [OF adj(1) ix vec(1) gr bs] unfolding n k M by blast
  let ?rho = "\<lambda>u. rep ! index_of s u"
  note g = rep(2)
  note u2 = add_islands_adj [OF adj(1) V [unfolded n] kd, of ?U, unfolded n [symmetric], OF refl]
  have old: "node_at ?s2 x = node_at s x" if "x \<in> V" for x using V n that by (auto intro: add_islands_old(1))
  note al = all_edges_set [OF adj(1) vec, of ?s2]
  have es: "set (all_edges ?s2 vec) = ?E" "distinct (all_edges ?s2 vec)" using al old by simp_all
  have img: "?rho u \<in> ?U" if u: "u \<in> V" for u
    by (rule grouping_image_subset [OF g u])
  have "move_edge ?rho e \<notin> V \<times> V" if e: "e \<in> ?E" "moved ?rho e" for e
  proof -
    have "fst e \<in> V" "snd e \<in> V" using e(1) E by auto
    then show ?thesis using e(2) grouping_old [OF g] by (auto simp: move_edge_def moved_def)
  qed
  then have mv: "\<And>e. e \<in> set (all_edges ?s2 vec) \<Longrightarrow> moved ?rho e \<Longrightarrow> move_edge ?rho e \<notin> V \<times> V" unfolding es(1) .
  have ends: "\<And>e. e \<in> set (all_edges ?s2 vec) \<Longrightarrow> fst e \<in> V \<and> snd e \<in> V \<and> ?rho (fst e) \<in> ?U \<and> ?rho (snd e) \<in> ?U"
    unfolding es(1) using E img by force
  have rx: "\<And>u. u \<in> V \<Longrightarrow> rep ! index_of ?s2 u = ?rho u" using old by simp
  obtain s3 where s3: "for_each (rewire_edge rep) (all_edges ?s2 vec) ?s2 = Inr s3" "adj_frame ?s2 s3" "wf_adj s3 ?U"
    "edges s3 ?U = inner_edges ?rho ?E \<union> batch_edges ?rho ?E"
    using rewire_loop [OF u2(1) _ es(2) Int_empty_right _ ends rx mv] es(1) u2(2) move_edges [of ?rho ?E] by auto
  have bd: "distinct bs" "set bs \<subseteq> set ks" using gr bs by (auto simp: island_groups_def)
  have ms: "distinct (members_of island r)" "set (members_of island r) \<subseteq> V" if "r \<in> set bs" for r
    using gr bd(2) that unfolding island_groups_def by blast+
  have dj: "set (members_of island r) \<inter> set (members_of island q) = {}" if "r \<in> set bs" "q \<in> set bs" "r \<noteq> q" for r q
    using gr bd(2) that unfolding island_groups_def by blast
  let ?ts = "mat_triples island (ord2 (island_mats s bs))"
  have tr: "set ?ts = group_triples n k M" "distinct (map (\<lambda>(en, ex, m). m) ?ts)"
    unfolding n k M by (rule mat_triples_ok [OF ord bd(1)]; use ms(1) dj in blast)+
  have "en \<in> ?U \<and> ex \<in> ?U \<and> m \<in> ?U \<and> en \<notin> V \<and> ex \<notin> V \<and> m \<in> V" if e: "(en, ex, m) \<in> set ?ts" for en ex m
  proof -
    obtain j where j: "j < k" "m \<in> M j" "en = n + 3 * j" "ex = n + 3 * j + 1"
      using e unfolding tr(1) group_triples_def by blast
    then show ?thesis using groupingD(2) [OF g j(1)] V by auto
  qed
  from connect_members_effect [OF s3(3) tr(2) this]
  have "adj_frame s3 (fold (connect_island island) (ord2 (island_mats s bs)) s3) \<and>
      wf_adj (fold (connect_island island) (ord2 (island_mats s bs)) s3) ?U \<and>
      edges (fold (connect_island island) (ord2 (island_mats s bs)) s3) ?U = final_edges n k M ?rho ?E"
    unfolding connect_islands_triples tr(1) s3(4) final_edges_def Let_def .
  then show ?thesis using rep s3(1,2) adj_frame_trans by blast
qed

subsection \<open>The last walk\<close>

text \<open>\<^verbatim>\<open>coherence_checks\<close> needs no acyclicity: consistent lists, one source and one sink are enough.\<close>

lemma iterator_callback_fold_set: "set (snd (fold (iterator_callback inc g) xs sv)) \<subseteq> set (snd sv) \<union> set xs"
proof (induction xs arbitrary: sv)
  case (Cons x xs)
  have "set (snd (iterator_callback inc g x sv)) \<subseteq> insert x (set (snd sv))"
    by (auto simp: iterator_callback_def split: if_splits prod.splits)
  then show ?case using Cons.IH [of "iterator_callback inc g x sv"] by auto
qed simp

lemma coherence_checks_adj:
  assumes adj: "wf_adj s V" and g: "g < length (graphs s)" and en: "node_get_entry s g \<in> V" and ex: "node_get_exit s g \<in> V"
    and ok: "walk_ok s g V" "graph_walk_id (graph_at s g) \<noteq> - 1"
    and ends: "\<And>x. x \<in> V \<Longrightarrow> preds s x = [] \<longleftrightarrow> x = node_get_entry s g" "\<And>x. x \<in> V \<Longrightarrow> succs s x = [] \<longleftrightarrow> x = node_get_exit s g"
  shows "\<exists>t. coherence_checks g s = Inr t \<and> same_structure s t \<and> walk_ok t g V \<and>
    graph_walk_id (graph_at t g) = graph_walk_id (graph_at s g) + 1"
proof -
  let ?u = "node_get_entry s g"
  obtain t vec where it: "create_node_iterators True COMMAND_GRAPH_WALK_SEARCH_DFS COMMAND_GRAPH_WALK_ORDER_PRE g s = (t, vec)" by force
  have eff: "t = fst (walk COMMAND_GRAPH_WALK_SEARCH_DFS COMMAND_GRAPH_WALK_ORDER_PRE g ?u (iterator_callback True g) (s, []))"
    using it by (simp add: create_node_iterators_def walk_from_entry_def)
  have ss: "same_structure s t" "graph_walk_id (graph_at t g) = graph_walk_id (graph_at s g) + 1"
    unfolding eff by (rule walk_effect [OF structural_iterator_callback g wf_adjD(1) [OF adj en]])+
  have w: "walk_ok t g V" unfolding eff by (rule walk_ok_after [OF structural_iterator_callback g en adj ok])
  have "set (visited COMMAND_GRAPH_WALK_SEARCH_DFS COMMAND_GRAPH_WALK_ORDER_PRE g ?u s) \<subseteq> V"
    using visited_exact(1) [OF adj en ok] edges_rtrancl_in [OF adj en] by blast
  moreover have "set vec \<subseteq> set (visited COMMAND_GRAPH_WALK_SEARCH_DFS COMMAND_GRAPH_WALK_ORDER_PRE g ?u s)"
  proof -
    have "vec = snd (walk COMMAND_GRAPH_WALK_SEARCH_DFS COMMAND_GRAPH_WALK_ORDER_PRE g ?u (iterator_callback True g) (s, []))"
      using it by (simp add: create_node_iterators_def walk_from_entry_def)
    then show ?thesis
      unfolding walk_eq_fold Let_def using iterator_callback_fold_set by fastforce
  qed
  ultimately have vec: "set vec \<subseteq> V" by blast
  let ?f = "\<lambda>u s. assert_that (u = node_get_entry s g \<or> preds s u \<noteq> [])
                  (assert_that (u = node_get_exit s g \<or> succs s u \<noteq> []) (Inr s))"
  have e: "node_get_entry t g = node_get_entry s g" "node_get_exit t g = node_get_exit s g"
    using ss(1) g by (simp_all add: same_structure_def node_get_entry_def node_get_exit_def)
  have "?f u t = Inr t" if u: "u \<in> V" for u
  proof -
    have "preds t u = preds s u" "succs t u = succs s u"
      using ss(1) wf_adjD(1) [OF adj u] by (simp_all add: same_structure_def)
    then show ?thesis using ends [OF u] e by (simp add: assert_that_def)
  qed
  then have "for_each ?f vec t = Inr (fold (\<lambda>_ s. s) vec t) \<and> fold (\<lambda>_ s. s) vec t = t"
    using for_each_eq_fold [of vec "\<lambda>r. r = t" ?f "\<lambda>_ s. s" t] vec by auto
  then have "for_each ?f vec t = Inr t" by simp
  then have "coherence_checks g s = Inr t"
    using it ends(1) [OF en] ends(2) [OF ex] by (simp add: coherence_checks_def assert_that_def)
  then show ?thesis using ss w by blast
qed

subsection \<open>What the pass promises\<close>

text \<open>The nodes that leave: members of an island with at least two commands.\<close>

definition in_big_island :: "graph_ref \<Rightarrow> store \<Rightarrow> node_ref set \<Rightarrow> (node_ref \<Rightarrow> nat) \<Rightarrow> node_ref \<Rightarrow> bool" where
  "in_big_island g s V lab u \<longleftrightarrow>
     \<not> batch_boundary g s u \<and> 2 \<le> card {x \<in> V. \<not> batch_boundary g s x \<and> lab x = lab u \<and> is_command_node s x}"

text \<open>
  The BATCH node of \<open>u\<close> is new, has the device of its members, and its sub-graph, between a new
  entry and a new exit, is well formed with exactly the edges between members, plus those from the
  entry to the sources and from the sinks to the exit.
\<close>

definition island_batched :: "store \<Rightarrow> node_ref set \<Rightarrow> store \<Rightarrow> (node_ref \<Rightarrow> node_ref) \<Rightarrow> node_ref \<Rightarrow> bool" where
  "island_batched s V t rho u \<longleftrightarrow>
     length (nodes s) \<le> rho u \<and> device_unique_id (node_at t (rho u)) = device_unique_id (node_at s u) \<and>
     (\<exists>h. length (graphs s) \<le> h \<and> sub_graph_of t (rho u) = Some h \<and>
        (let en = node_get_entry t h; ex = node_get_exit t h; C = {x \<in> V. rho x = rho u} in
           length (nodes s) \<le> en \<and> length (nodes s) \<le> ex \<and> wf_graph t h (insert en (insert ex C)) \<and>
           edges t (insert en (insert ex C)) = sub_edges en ex C (edges s V)))"

definition batched ::
  "store \<Rightarrow> graph_ref \<Rightarrow> node_ref set \<Rightarrow> (node_ref \<Rightarrow> nat) \<Rightarrow> store \<Rightarrow> (node_ref \<Rightarrow> node_ref) \<Rightarrow> bool" where
  "batched s g V lab t rho \<longleftrightarrow>
     (\<forall>u\<in>V. \<forall>v\<in>V. u \<noteq> v \<longrightarrow> (rho u = rho v \<longleftrightarrow> in_big_island g s V lab u \<and> lab u = lab v)) \<and>
     (\<forall>u\<in>V. if in_big_island g s V lab u then island_batched s V t rho u else rho u = u) \<and>
     wf_adj t (rho ` V) \<and> edges t (rho ` V) = batch_edges rho (edges s V) \<and>
     node_get_entry t g = node_get_entry s g \<and> node_get_exit t g = node_get_exit s g \<and>
     (\<forall>x<length (nodes s). ntype (node_at t x) = ntype (node_at s x) \<and> ncommand (node_at t x) = ncommand (node_at s x) \<and>
        device_unique_id (node_at t x) = device_unique_id (node_at s x)) \<and>
     take (length (commands s)) (commands t) = commands s"

lemma batched_reach:
  assumes "batched s g V lab t rho" "(a, b) \<in> (edges s V)\<^sup>*"
  shows "(rho a, rho b) \<in> (edges t (rho ` V))\<^sup>*"
  using assms(2)
proof (induction rule: rtrancl_induct)
  case (step y z)
  have e: "edges t (rho ` V) = batch_edges rho (edges s V)" using assms(1) by (simp add: batched_def)
  show ?case
  proof (cases "rho y = rho z")
    case False
    then have "(rho y, rho z) \<in> edges t (rho ` V)" unfolding e by (rule batch_edgesI [OF step.hyps(2)])
    then show ?thesis using step.IH by (rule rtrancl_into_rtrancl [rotated])
  qed (use step.IH in simp)
qed simp

text \<open>Stores that differ in marks only.\<close>

lemma same_structure_node:
  assumes "same_structure s t" "u < length (nodes s)"
  shows "is_command_node t u = is_command_node s u" "device_unique_id (node_at t u) = device_unique_id (node_at s u)"
    "g < length (graphs s) \<Longrightarrow> batch_boundary g t u = batch_boundary g s u"
  using assms by (auto simp: same_structure_def is_command_node_def batch_boundary_def node_get_entry_def node_get_exit_def
      split: option.splits)

lemma island_labelling_same:
  assumes ss: "same_structure s t" and wf: "wf_graph s g V"
  shows "island_labelling g t V lab = island_labelling g s V lab"
proof -
  note adj = wf_graph_adj [OF wf]
  have g: "g < length (graphs s)" using wf by (simp add: wf_graph_def)
  have eq: "batch_boundary g t u = batch_boundary g s u" "device_unique_id (node_at t u) = device_unique_id (node_at s u)"
    if "u \<in> V" for u using same_structure_node [OF ss wf_adjD(1) [OF adj that]] g by simp_all
  have e: "edges t V = edges s V" by (rule same_structure_edges [OF ss adj])
  have sub: "u \<in> V \<and> v \<in> V" if "(u, v) \<in> edges s V" for u v using wf_adj_edges_subset [OF adj] that by blast
  have p: "(\<forall>(u, v)\<in>edges s V. \<not> batch_boundary g t u \<longrightarrow> \<not> batch_boundary g t v \<longrightarrow>
        device_unique_id (node_at t u) = device_unique_id (node_at t v) \<longrightarrow> lab u = lab v) \<longleftrightarrow>
      (\<forall>(u, v)\<in>edges s V. \<not> batch_boundary g s u \<longrightarrow> \<not> batch_boundary g s v \<longrightarrow>
        device_unique_id (node_at s u) = device_unique_id (node_at s v) \<longrightarrow> lab u = lab v)"
    by (rule ball_cong) (auto simp: eq dest: sub)
  show ?thesis unfolding island_labelling_def label_edges_def e p using eq by simp
qed

lemma in_big_island_same:
  assumes ss: "same_structure s t" and wf: "wf_graph s g V" and u: "u \<in> V"
  shows "in_big_island g t V lab u = in_big_island g s V lab u"
proof -
  have g: "g < length (graphs s)" using wf by (simp add: wf_graph_def)
  have eq: "batch_boundary g t x = batch_boundary g s x" "is_command_node t x = is_command_node s x" if "x \<in> V" for x
    using same_structure_node [OF ss wf_adjD(1) [OF wf_graph_adj [OF wf] that]] g by simp_all
  have "{x \<in> V. \<not> batch_boundary g t x \<and> lab x = lab u \<and> is_command_node t x} =
      {x \<in> V. \<not> batch_boundary g s x \<and> lab x = lab u \<and> is_command_node s x}" using eq by blast
  then show ?thesis using eq(1) [OF u] by (simp add: in_big_island_def)
qed

text \<open>The islands that are materialised.\<close>

lemma big_island_members:
  assumes island: "distinct (map fst island)"
      "\<forall>(r, ms)\<in>set island. ms \<noteq> [] \<and> distinct ms \<and> set ms = {u \<in> V. \<not> batch_boundary g s u \<and> lab u = r}"
      "\<forall>u\<in>V. \<not> batch_boundary g s u \<longrightarrow> lab u \<in> fst ` set island"
    and ks: "set ks = fst ` set island" "distinct ks" and bs: "bs = filter (\<lambda>r. big_island s (members_of island r)) ks"
  shows "island_groups V island ks"
    "j < length bs \<Longrightarrow> set (members_of island (bs ! j)) = {u \<in> V. \<not> batch_boundary g s u \<and> lab u = bs ! j}"
    "u \<in> V \<Longrightarrow> in_big_island g s V lab u \<longleftrightarrow> (\<exists>j<length bs. u \<in> set (members_of island (bs ! j)))"
proof -
  have mem: "set (members_of island r) = {u \<in> V. \<not> batch_boundary g s u \<and> lab u = r}" "distinct (members_of island r)"
    if r: "r \<in> set ks" for r
  proof -
    obtain ms where ms: "(r, ms) \<in> set island" using r ks(1) by auto
    then have "members_of island r = ms" using island(1) by (simp add: members_of_def)
    then show "set (members_of island r) = {u \<in> V. \<not> batch_boundary g s u \<and> lab u = r}" "distinct (members_of island r)"
      using island(2) ms by auto
  qed
  have big: "big_island s (members_of island r) \<longleftrightarrow> 2 \<le> card {x \<in> V. \<not> batch_boundary g s x \<and> lab x = r \<and> is_command_node s x}"
    if r: "r \<in> set ks" for r
  proof -
    have "length (island_commands s (members_of island r)) = card (set (island_commands s (members_of island r)))"
      unfolding island_commands_def by (rule distinct_card [symmetric, OF distinct_filter [OF mem(2) [OF r]]])
    moreover have "set (island_commands s (members_of island r)) = {x \<in> V. \<not> batch_boundary g s x \<and> lab x = r \<and> is_command_node s x}"
      using mem(1) [OF r] by (auto simp: island_commands_def is_command_node_def)
    ultimately show ?thesis by (simp add: big_island_def)
  qed
  show "island_groups V island ks" unfolding island_groups_def using ks(2) mem by auto
  have bk: "bs ! j \<in> set ks" "big_island s (members_of island (bs ! j))" if "j < length bs" for j
    using nth_mem [OF that] bs by auto
  show "set (members_of island (bs ! j)) = {u \<in> V. \<not> batch_boundary g s u \<and> lab u = bs ! j}" if "j < length bs"
    by (rule mem(1) [OF bk(1) [OF that]])
  show "in_big_island g s V lab u \<longleftrightarrow> (\<exists>j<length bs. u \<in> set (members_of island (bs ! j)))" if u: "u \<in> V"
  proof
    assume i: "in_big_island g s V lab u"
    then have r: "lab u \<in> set ks" using island(3) u ks(1) by (simp add: in_big_island_def)
    then have "big_island s (members_of island (lab u))" using big i by (simp add: in_big_island_def)
    then have "lab u \<in> set bs" using r bs by simp
    then obtain j where j: "j < length bs" "bs ! j = lab u" by (metis in_set_conv_nth)
    moreover have "u \<in> set (members_of island (lab u))" using mem(1) [OF r] u i by (simp add: in_big_island_def)
    ultimately show "\<exists>j<length bs. u \<in> set (members_of island (bs ! j))" by metis
  next
    assume "\<exists>j<length bs. u \<in> set (members_of island (bs ! j))"
    then obtain j where j: "j < length bs" "u \<in> set (members_of island (bs ! j))" by blast
    then show "in_big_island g s V lab u" using mem(1) [OF bk(1) [OF j(1)]] big [OF bk(1) [OF j(1)]] bk(2) [OF j(1)]
      by (simp add: in_big_island_def)
  qed
qed

text \<open>The sub-graph of one island.\<close>

lemma island_batched_ok:
  assumes adj: "wf_adj s V" "acyclic (edges s V)" and g: "grouping V n k M rho"
    and n: "n = length (nodes s)" and ds: "length ds = k" and fr: "adj_frame (add_islands ds s) t"
    and t: "wf_adj t (V \<union> {n..<n + 3 * k})" "edges t (V \<union> {n..<n + 3 * k}) = final_edges n k M rho (edges s V)"
    and j: "j < k" "u \<in> M j" and dev: "ds ! j = device_unique_id (node_at s u)"
  shows "island_batched s V t rho u"
proof -
  let ?s2 = "add_islands ds s" and ?h = "length (graphs s) + j" and ?E = "edges s V"
  have jd: "j < length ds" using j(1) ds by simp
  note nw = add_islands_new [OF jd, of s, folded n]
  have r: "rho u = n + 3 * j + 2" by (rule groupingD(4) [OF g j])
  have MV: "M j \<subseteq> V" by (rule groupingD(2) [OF g j(1)])
  have C: "{x \<in> V. rho x = rho u} = M j" using grouping_member [OF g _ j(1)] MV r by auto
  have Mn: "x < n" if "x \<in> M j" for x using groupingD(1) [OF g] MV that by blast
  have en: "node_get_entry t ?h = n + 3 * j" "node_get_exit t ?h = n + 3 * j + 1"
    using nw(5) by (simp_all add: node_get_entry_def node_get_exit_def adj_frameD(4) [OF fr])
  have h: "?h < length (graphs t)" using jd by (simp add: adj_frameD(3) [OF fr] add_islands_length)
  have sub: "sub_graph_of t (rho u) = Some ?h"
    using nw(3,4) jd by (simp add: r sub_graph_of_def adj_frameD [OF fr] add_islands_length new_node_def)
  have gn: "group_nodes n M j \<subseteq> V \<union> {n..<n + 3 * k}" using MV j(1) by (auto simp: group_nodes_def)
  note fp = final_edges_parts(3,4) [OF g wf_adj_edges_subset [OF adj(1)] adj(2) j(1)]
  note part = wf_adj_part [OF t(1) gn fp [folded t(2)], unfolded group_nodes_def]
  have "finite (M j)" by (rule finite_subset [OF MV wf_adj_finite [OF adj(1)]])
  moreover have "M j \<noteq> {}" using j(2) by blast
  moreover have "n + 3 * j \<notin> M j" "n + 3 * j + 1 \<notin> M j" using Mn by force+
  ultimately have "wf_graph t ?h (insert (n + 3 * j) (insert (n + 3 * j + 1) (M j)))"
    by (intro sub_graph_wf [OF h en part _ _ _ _ _ adj(2)]) simp_all
  moreover have "device_unique_id (node_at t (rho u)) = device_unique_id (node_at s u)"
    using nw(3) dev by (simp add: r adj_frameD [OF fr] new_node_def)
  ultimately show ?thesis
    unfolding island_batched_def C Let_def using sub en part(2) r n by (intro conjI exI [of _ ?h]) simp_all
qed

lemma island_device_member:
  assumes lab: "island_labelling g s V lab" and ms: "set ms = {u \<in> V. \<not> batch_boundary g s u \<and> lab u = r}"
    and big: "big_island s ms" and u: "u \<in> set ms"
  shows "island_device s w ms = device_unique_id (node_at s u)"
proof -
  obtain m rest where m: "island_commands s ms = m # rest" using big by (cases "island_commands s ms") (auto simp: big_island_def)
  moreover have "set (island_commands s ms) \<subseteq> set ms" by (simp add: island_commands_def)
  ultimately have "m \<in> set ms" by auto
  then have "u \<in> V" "m \<in> V" "lab u = lab m" using u ms by auto
  then have "u \<noteq> m \<longrightarrow> device_unique_id (node_at s u) = device_unique_id (node_at s m)" using lab unfolding island_labelling_def by blast
  then show ?thesis using m by (auto simp: island_device_def)
qed

lemma island_batched_same:
  assumes ss: "same_structure s0 s" "same_structure t r" and wf: "wf_graph s0 g V" and u: "u \<in> V"
    and h: "\<And>x. x \<in> rho ` V \<Longrightarrow> x < length (nodes t)" and b: "island_batched s V t rho u"
  shows "island_batched s0 V r rho u"
proof -
  note adj = wf_graph_adj [OF wf]
  have len: "length (nodes s) = length (nodes s0)" "length (graphs s) = length (graphs s0)" "edges s V = edges s0 V"
    "device_unique_id (node_at s u) = device_unique_id (node_at s0 u)"
    using ss(1) same_structure_edges [OF ss(1) adj] wf_adjD(1) [OF adj u] by (simp_all add: same_structure_def)
  have ru: "rho u < length (nodes t)" using h u by blast
  have dev: "device_unique_id (node_at r (rho u)) = device_unique_id (node_at t (rho u))"
    using ss(2) ru by (simp add: same_structure_def)
  have sg: "sub_graph_of r (rho u) = sub_graph_of t (rho u)" by (rule sub_graph_of_same_structure [OF ss(2) ru])
  obtain k where k: "length (graphs s) \<le> k" "sub_graph_of t (rho u) = Some k" "length (nodes s) \<le> node_get_entry t k" "length (nodes s) \<le> node_get_exit t k"
    and w: "wf_graph t k (insert (node_get_entry t k) (insert (node_get_exit t k) {x \<in> V. rho x = rho u}))"
    and e: "edges t (insert (node_get_entry t k) (insert (node_get_exit t k) {x \<in> V. rho x = rho u})) =
      sub_edges (node_get_entry t k) (node_get_exit t k) {x \<in> V. rho x = rho u} (edges s V)"
    using b unfolding island_batched_def Let_def by blast
  have "k < length (graphs t)" using w by (simp add: wf_graph_def)
  then have ee: "node_get_entry r k = node_get_entry t k" "node_get_exit r k = node_get_exit t k"
    using ss(2) by (simp_all add: same_structure_def node_get_entry_def node_get_exit_def)
  show ?thesis
    using b k same_structure_wf_graph [OF ss(2) w] same_structure_edges [OF ss(2) wf_graph_adj [OF w]] e
    unfolding island_batched_def dev sg len Let_def by (intro conjI exI [of _ k]) (simp_all add: ee)
qed

lemma few_nodes_boundary:
  assumes wf: "wf_graph s g V" and vec: "set vec = V" "length vec \<le> 2" and u: "u \<in> V"
  shows "batch_boundary g s u"
proof (rule ccontr)
  let ?en = "node_get_entry s g" and ?ex = "node_get_exit s g"
  assume "\<not> batch_boundary g s u"
  then have ne: "u \<noteq> ?en" "u \<noteq> ?ex" by (auto simp: batch_boundary_def)
  have "?en \<noteq> ?ex"
  proof
    assume "?en = ?ex"
    then have "succs s ?en = []" using wf by (simp add: wf_graph_def)
    then have "u = ?en" using wf_graph_from_entry [OF wf u] by (auto simp: edges_def elim: converse_rtranclE)
    then show False using ne by simp
  qed
  then have "card {u, ?en, ?ex} = 3" using ne by simp
  moreover have "card {u, ?en, ?ex} \<le> card (set vec)"
    using u wf_graph_entry [OF wf] wf_graph_exit [OF wf] vec(1) by (intro card_mono) auto
  ultimately show False using vec(2) card_length [of vec] by simp
qed

lemma batched_nothing:
  assumes ss: "same_structure s t" and wf: "wf_graph s g V" and b: "\<And>u. u \<in> V \<Longrightarrow> batch_boundary g s u"
  shows "batched s g V lab t (\<lambda>u. u)" "batch_edges (\<lambda>u. u) (edges s V) = edges s V"
proof -
  note adj = wf_graph_adj [OF wf] and acy = wf_graph_acyclic [OF wf]
  have g: "g < length (graphs s)" using wf by (simp add: wf_graph_def)
  have "(a, a) \<notin> edges s V" for a using acy by (auto simp: acyclic_def)
  then show e: "batch_edges (\<lambda>u. u) (edges s V) = edges s V" by (auto simp: batch_edges_def)
  have "\<not> in_big_island g s V lab u" if "u \<in> V" for u using b [OF that] by (simp add: in_big_island_def)
  moreover have "node_get_entry t g = node_get_entry s g" "node_get_exit t g = node_get_exit s g" "commands t = commands s"
    "\<forall>x<length (nodes s). ntype (node_at t x) = ntype (node_at s x) \<and> ncommand (node_at t x) = ncommand (node_at s x) \<and>
        device_unique_id (node_at t x) = device_unique_id (node_at s x)"
    using ss g by (simp_all add: same_structure_def node_get_entry_def node_get_exit_def)
  ultimately show "batched s g V lab t (\<lambda>u. u)"
    unfolding batched_def e using same_structure_wf_adj [OF ss adj] same_structure_edges [OF ss adj] by simp
qed

subsection \<open>The pass\<close>

text \<open>The store before the last walk, on the store \<open>s\<close> with the iterators.\<close>

lemma batch_before_checks:
  assumes ok: "graph_ok s g V (Suc k)" and ix: "indexed s vec" "set vec = V" "distinct vec"
    and lab: "island_labelling g s V lab" and island: "distinct (map fst island)"
      "\<forall>(r, ms)\<in>set island. ms \<noteq> [] \<and> distinct ms \<and> set ms = {u \<in> V. \<not> batch_boundary g s u \<and> lab u = r}"
      "\<forall>u\<in>V. \<not> batch_boundary g s u \<longrightarrow> lab u \<in> fst ` set island"
    and ord: "reordering ord" "reordering ord2"
  shows "\<exists>s2 rep mat s3 t rho.
    for_each (materialize_island vec island) (ord (map fst island)) (s, vec, []) = Inr (s2, rep, mat) \<and>
    for_each (rewire_edge rep) (all_edges s2 vec) s2 = Inr s3 \<and> t = fold (connect_island island) (ord2 mat) s3 \<and>
    batched s g V lab t rho \<and> walk_ok t g (rho ` V) \<and> graph_at t g = graph_at s g \<and> g < length (graphs t) \<and>
    rho (node_get_entry s g) = node_get_entry s g \<and> rho (node_get_exit s g) = node_get_exit s g \<and>
    length (nodes s) \<le> length (nodes t) \<and>
    (\<forall>x\<in>rho ` V. (x \<noteq> node_get_entry s g \<longleftrightarrow> (\<exists>y. (y, x) \<in> batch_edges rho (edges s V))) \<and>
       (x \<noteq> node_get_exit s g \<longleftrightarrow> (\<exists>y. (x, y) \<in> batch_edges rho (edges s V))))"
proof -
  let ?ks = "ord (map fst island)"
  let ?bs = "filter (\<lambda>r. big_island s (members_of island r)) ?ks"
  let ?M = "\<lambda>j. set (members_of island (?bs ! j))" and ?n = "length (nodes s)" and ?k = "length ?bs"
  have wf: "wf_graph s g V" using ok by (simp add: graph_ok_def)
  note adj = wf_graph_adj [OF wf] and acy = wf_graph_acyclic [OF wf]
  have gs: "g < length (graphs s)" using wf by (simp add: wf_graph_def)
  have ks: "set ?ks = fst ` set island" "distinct ?ks"
    using reordering_set [OF ord(1), of "map fst island"] reordering_distinct [OF ord(1), of "map fst island"] island(1) by simp_all
  note bm = big_island_members [OF island ks refl]
  obtain rep s3 t rho where r: "for_each (materialize_island vec island) ?ks (s, vec, []) =
      Inr (add_islands (island_devices s vec island ?bs) s, rep, island_mats s ?bs)"
    "for_each (rewire_edge rep) (all_edges (add_islands (island_devices s vec island ?bs) s) vec)
      (add_islands (island_devices s vec island ?bs) s) = Inr s3"
    "t = fold (connect_island island) (ord2 (island_mats s ?bs)) s3"
    "adj_frame (add_islands (island_devices s vec island ?bs) s) t" "grouping V ?n ?k ?M rho"
    "wf_adj t (V \<union> {?n..<?n + 3 * ?k})" "edges t (V \<union> {?n..<?n + 3 * ?k}) = final_edges ?n ?k ?M rho (edges s V)"
    using batch_tail [OF adj acy ix bm(1) refl ord(2) refl refl refl] by blast
  note fr = r(4) and g = r(5)
  let ?ds = "island_devices s vec island ?bs"
  have ds: "length ?ds = ?k" by (simp add: island_devices_def)
  have self: "rho u = u" if u: "u \<in> V" "batch_boundary g s u" for u
  proof -
    have "u \<notin> ?M j" if "j < ?k" for j using bm(2) [OF that] u(2) by simp
    then show ?thesis using groupingD(5) [OF g u(1)] by blast
  qed
  have ee: "rho (node_get_entry s g) = node_get_entry s g" "rho (node_get_exit s g) = node_get_exit s g"
    using self wf_graph_entry [OF wf] wf_graph_exit [OF wf] by (simp_all add: batch_boundary_def)
  have W: "rho ` V \<subseteq> V \<union> {?n..<?n + 3 * ?k}" using grouping_image_subset [OF g] by blast
  note fp = final_edges_parts(1,2) [OF g wf_adj_edges_subset [OF adj] acy]
  note top = wf_adj_part [OF r(6) W fp [folded r(7)]]
  have old: "node_at (add_islands ?ds s) x = node_at s x" if "x < ?n" for x using that by (rule add_islands_old(1))
  have same: "rho u = rho v \<longleftrightarrow> in_big_island g s V lab u \<and> lab u = lab v" if uv: "u \<in> V" "v \<in> V" "u \<noteq> v" for u v
  proof -
    have "\<not> batch_boundary g s v" if "lab u = lab v" using lab uv that unfolding island_labelling_def by blast
    then have "(\<exists>j<?k. u \<in> ?M j \<and> v \<in> ?M j) \<longleftrightarrow> (\<exists>j<?k. u \<in> ?M j) \<and> lab u = lab v"
      using bm(2) uv(1,2) by auto
    then show ?thesis using grouping_same [OF g uv(1,2)] bm(3) [OF uv(1)] uv(3) by simp
  qed
  have each: "if in_big_island g s V lab u then island_batched s V t rho u else rho u = u" if u: "u \<in> V" for u
  proof (cases "in_big_island g s V lab u")
    case True
    then obtain j where j: "j < ?k" "u \<in> ?M j" using bm(3) [OF u] by blast
    have "?bs ! j \<in> set ?bs" using j(1) by (rule nth_mem)
    then have "big_island s (members_of island (?bs ! j))" by simp
    from island_device_member [OF lab bm(2) [OF j(1)] this j(2)]
    have "?ds ! j = device_unique_id (node_at s u)" using j(1) by (simp add: island_devices_def)
    then show ?thesis using True island_batched_ok [OF adj acy g refl ds fr r(6,7) j] by simp
  next
    case False
    then show ?thesis using bm(3) [OF u] groupingD(5) [OF g u] by auto
  qed
  have "batched s g V lab t rho"
    unfolding batched_def
  proof (intro conjI ballI allI impI)
    show "wf_adj t (rho ` V)" "edges t (rho ` V) = batch_edges rho (edges s V)" by (fact top)+
    show "node_get_entry t g = node_get_entry s g" "node_get_exit t g = node_get_exit s g"
      using add_islands_old(3) [OF gs, of ?ds] by (simp_all add: adj_frameD [OF fr] node_get_entry_def node_get_exit_def)
    show "take (length (commands s)) (commands t) = commands s"
      by (rule nth_equalityI) (simp_all add: adj_frameD [OF fr] add_islands_length add_islands_old)
  qed (simp_all add: same each adj_frameD [OF fr] old)
  moreover have "walk_ok t g (rho ` V)"
    unfolding walk_ok_def
  proof
    fix x assume "x \<in> rho ` V"
    then have "x \<in> V \<or> (?n \<le> x \<and> x < ?n + 3 * length ?ds)" using W ds by auto
    moreover have "walk_ok s g V" using ok by (simp add: graph_ok_def)
    ultimately show "walk_id (node_at t x) \<le> graph_walk_id (graph_at t g)"
      using add_islands_fresh [of s x ?ds] old [of x] wf_adjD(1) [OF adj, of x] add_islands_old(3) [OF gs, of ?ds]
      by (auto simp: adj_frameD [OF fr] walk_ok_def)
  qed
  moreover have "graph_at t g = graph_at s g" "g < length (graphs t)" "length (nodes s) \<le> length (nodes t)"
    using add_islands_old(3) [OF gs, of ?ds] gs by (simp_all add: adj_frameD [OF fr] add_islands_length)
  ultimately show ?thesis
    using r(1-3) ee batch_edges_ends [OF g wf _ ee] by blast
qed

text \<open>Walks before and after do not matter.\<close>

lemma batched_same:
  assumes b: "batched s g V lab t rho" and ss: "same_structure s0 s" "same_structure t r" and wf: "wf_graph s0 g V" and g: "g < length (graphs t)"
    and len: "length (nodes s) \<le> length (nodes t)"
  shows "batched s0 g V lab r rho"
proof -
  note adj0 = wf_graph_adj [OF wf]
  have adj: "wf_adj t (rho ` V)" and e: "edges t (rho ` V) = batch_edges rho (edges s V)" using b by (simp_all add: batched_def)
  have g0: "g < length (graphs s0)" using wf by (simp add: wf_graph_def)
  have same: "edges s V = edges s0 V" "length (nodes s) = length (nodes s0)" "commands s = commands s0"
    "node_get_entry s g = node_get_entry s0 g" "node_get_exit s g = node_get_exit s0 g"
    using ss(1) same_structure_edges [OF ss(1) adj0] g0 by (simp_all add: same_structure_def node_get_entry_def node_get_exit_def)
  have same': "commands r = commands t" "node_get_entry r g = node_get_entry t g" "node_get_exit r g = node_get_exit t g"
    using ss(2) g by (simp_all add: same_structure_def node_get_entry_def node_get_exit_def)
  have big: "in_big_island g s V lab u = in_big_island g s0 V lab u" if "u \<in> V" for u by (rule in_big_island_same [OF ss(1) wf that])
  have lt: "x < length (nodes t)" if "x \<in> rho ` V" for x using wf_adjD(1) [OF adj that] .
  have sep: "rho u = rho v \<longleftrightarrow> in_big_island g s V lab u \<and> lab u = lab v" if "u \<in> V" "v \<in> V" "u \<noteq> v" for u v
    using b that unfolding batched_def by blast
  have each: "if in_big_island g s V lab u then island_batched s V t rho u else rho u = u" if "u \<in> V" for u
    using b that unfolding batched_def by blast
  show ?thesis
    unfolding batched_def
  proof (intro conjI ballI allI impI)
    fix u assume u: "u \<in> V"
    show "if in_big_island g s0 V lab u then island_batched s0 V r rho u else rho u = u"
      using each [OF u] island_batched_same [OF ss wf u lt] big [OF u] by (auto split: if_splits)
    fix v assume "v \<in> V" "u \<noteq> v"
    then show "rho u = rho v \<longleftrightarrow> in_big_island g s0 V lab u \<and> lab u = lab v" using sep u big by blast
  next
    show "wf_adj r (rho ` V)" by (rule same_structure_wf_adj [OF ss(2) adj])
    show "edges r (rho ` V) = batch_edges rho (edges s0 V)" using same_structure_edges [OF ss(2) adj] e same(1) by simp
    show "node_get_entry r g = node_get_entry s0 g" "node_get_exit r g = node_get_exit s0 g" "take (length (commands s0)) (commands r) = commands s0"
      using b same same' by (simp_all add: batched_def)
    fix x assume x: "x < length (nodes s0)"
    then have "x < length (nodes s)" "x < length (nodes t)" using same(2) len by simp_all
    moreover from this have "ntype (node_at t x) = ntype (node_at s x)" "ncommand (node_at t x) = ncommand (node_at s x)"
      "device_unique_id (node_at t x) = device_unique_id (node_at s x)" using b by (simp_all add: batched_def)
    ultimately show "ntype (node_at r x) = ntype (node_at s0 x)" "ncommand (node_at r x) = ncommand (node_at s0 x)"
      "device_unique_id (node_at r x) = device_unique_id (node_at s0 x)"
      using ss x by (simp_all add: same_structure_def)
  qed
qed

text \<open>The last walk, and when the result is well formed.\<close>

lemma batch_after_checks:
  assumes ok: "graph_ok s g V (Suc k)" and b: "batched s g V lab t rho" and w: "walk_ok t g (rho ` V)" "graph_at t g = graph_at s g"
    and g: "g < length (graphs t)"
    and self: "rho (node_get_entry s g) = node_get_entry s g" "rho (node_get_exit s g) = node_get_exit s g"
    and ends: "\<forall>x\<in>rho ` V. (x \<noteq> node_get_entry s g \<longleftrightarrow> (\<exists>y. (y, x) \<in> batch_edges rho (edges s V))) \<and>
         (x \<noteq> node_get_exit s g \<longleftrightarrow> (\<exists>y. (x, y) \<in> batch_edges rho (edges s V)))"
  shows "\<exists>r. coherence_checks g t = Inr r \<and> same_structure t r \<and> (graph_ok r g (rho ` V) k \<longleftrightarrow> acyclic (batch_edges rho (edges s V)))"
proof -
  let ?W = "rho ` V"
  have wf: "wf_graph s g V" using ok by (simp add: graph_ok_def)
  have adj: "wf_adj t ?W" and e: "edges t ?W = batch_edges rho (edges s V)"
    and ee: "node_get_entry t g = node_get_entry s g" "node_get_exit t g = node_get_exit s g"
    using b by (simp_all add: batched_def)
  have mem: "node_get_entry t g \<in> ?W" "node_get_exit t g \<in> ?W"
    unfolding ee using imageI [OF wf_graph_entry [OF wf], of rho] imageI [OF wf_graph_exit [OF wf], of rho] self by simp_all
  have ends': "x \<noteq> node_get_entry t g \<longleftrightarrow> (\<exists>y. (y, x) \<in> edges t ?W)" "x \<noteq> node_get_exit t g \<longleftrightarrow> (\<exists>y. (x, y) \<in> edges t ?W)"
    if "x \<in> ?W" for x using bspec [OF ends that] unfolding ee e by blast+
  have lists: "preds t x = [] \<longleftrightarrow> x = node_get_entry t g" "succs t x = [] \<longleftrightarrow> x = node_get_exit t g" if "x \<in> ?W" for x
    using ends' [OF that] wf_adj_preds_edges [OF adj that] wf_adj_succs_edges [OF adj that] by (auto simp flip: set_empty)
  have "graph_walk_id (graph_at t g) \<noteq> - 1" using graph_ok_walk(3) [OF ok] w(2) by simp
  then obtain r where r: "coherence_checks g t = Inr r" "same_structure t r" "walk_ok r g ?W"
    "graph_walk_id (graph_at r g) = graph_walk_id (graph_at t g) + 1"
    using coherence_checks_adj [OF adj g mem w(1)] lists by blast
  have "graph_ok r g ?W k \<longleftrightarrow> acyclic (batch_edges rho (edges s V))"
  proof
    assume "graph_ok r g ?W k"
    then have "acyclic (edges r ?W)" unfolding graph_ok_def by (blast intro: wf_graph_acyclic)
    then show "acyclic (batch_edges rho (edges s V))" using same_structure_edges [OF r(2) adj] e by simp
  next
    assume "acyclic (batch_edges rho (edges s V))"
    then have "wf_graph t g ?W" by (intro wf_graphI_edges [OF g adj _ mem ends']) (simp_all add: e)
    then have "wf_graph r g ?W" by (rule same_structure_wf_graph [OF r(2)])
    moreover have "unat (graph_walk_id (graph_at s g)) + Suc k < 256" using ok by (simp add: graph_ok_def)
    ultimately show "graph_ok r g ?W k"
      using r(3,4) w(2) unat_walk_succ [of "graph_walk_id (graph_at s g)" k] by (simp add: graph_ok_def)
  qed
  then show ?thesis using r(1,2) by blast
qed

lemma pass_batch_ok:
  assumes ok: "graph_ok s g V (2 + k)" and ord: "reordering ord" "reordering ord2"
  shows "\<exists>t lab rho. pass_batch ord ord2 g s = Inr t \<and> island_labelling g s V lab \<and> batched s g V lab t rho \<and>
    (graph_ok t g (rho ` V) k \<longleftrightarrow> acyclic (batch_edges rho (edges s V))) \<and> g < length (graphs t) \<and> length (nodes s) \<le> length (nodes t)"
proof -
  obtain s1 vec where it: "create_node_iterators True COMMAND_GRAPH_WALK_SEARCH_DFS COMMAND_GRAPH_WALK_ORDER_PRE g s = (s1, vec)"
    by force
  have ok': "graph_ok s g V (Suc (Suc k))" using ok by simp
  note c = graph_ok_iterators [OF ok' it] and ix = iterators_indexed [OF ok' it]
  have wf: "wf_graph s g V" using ok by (simp add: graph_ok_def)
  obtain island lab where bi: "batch_islands g s1 vec = Inr island" "island_labelling g s1 V lab" "distinct (map fst island)"
    "\<forall>(r, ms)\<in>set island. ms \<noteq> [] \<and> distinct ms \<and> set ms = {u \<in> V. \<not> batch_boundary g s1 u \<and> lab u = r}"
    "\<forall>u\<in>V. \<not> batch_boundary g s1 u \<longrightarrow> lab u \<in> fst ` set island"
    using batch_islands_ok [OF ok' it] by blast
  have lab: "island_labelling g s V lab" using bi(2) island_labelling_same [OF c(2) wf] by simp
  show ?thesis
  proof (cases "length vec \<le> 2")
    case True
    then have "pass_batch ord ord2 g s = Inr s1" using it by (simp add: pass_batch_def)
    moreover note n = batched_nothing [OF c(2) wf few_nodes_boundary [OF wf ix(2) True]]
    moreover have "graph_ok s1 g V k" by (rule graph_ok_less [OF c(1)]) simp
    moreover have "g < length (graphs s1)" "length (nodes s) \<le> length (nodes s1)"
      using ix(4) c(2) by (simp_all add: wf_graph_def same_structure_def)
    ultimately show ?thesis using lab wf_graph_acyclic [OF wf]
      by (intro exI [of _ s1] exI [of _ lab] exI [of _ "\<lambda>u. u"]) (simp add: n)
  next
    case False
    obtain s2 rep mat s3 t rho where r:
      "for_each (materialize_island vec island) (ord (map fst island)) (s1, vec, []) = Inr (s2, rep, mat)"
      "for_each (rewire_edge rep) (all_edges s2 vec) s2 = Inr s3" "t = fold (connect_island island) (ord2 mat) s3"
      "batched s1 g V lab t rho" "walk_ok t g (rho ` V)" "graph_at t g = graph_at s1 g" "g < length (graphs t)"
      "rho (node_get_entry s1 g) = node_get_entry s1 g" "rho (node_get_exit s1 g) = node_get_exit s1 g"
      "length (nodes s1) \<le> length (nodes t)"
      "\<forall>x\<in>rho ` V. (x \<noteq> node_get_entry s1 g \<longleftrightarrow> (\<exists>y. (y, x) \<in> batch_edges rho (edges s1 V))) \<and>
         (x \<noteq> node_get_exit s1 g \<longleftrightarrow> (\<exists>y. (x, y) \<in> batch_edges rho (edges s1 V)))"
      using batch_before_checks [OF c(1) ix(1-3) bi(2-5) ord] by (elim exE conjE) (rule that)
    obtain t' where t': "coherence_checks g t = Inr t'" "same_structure t t'"
      "graph_ok t' g (rho ` V) k \<longleftrightarrow> acyclic (batch_edges rho (edges s1 V))"
      using batch_after_checks [OF c(1) r(4-9,11)] by blast
    have "pass_batch ord ord2 g s = Inr t'" using it False bi(1) r(1-3) t'(1) by (simp add: pass_batch_def)
    moreover have "batched s g V lab t' rho" by (rule batched_same [OF r(4) c(2) t'(2) wf r(7,10)])
    moreover have "g < length (graphs t')" "length (nodes s) \<le> length (nodes t')"
      using r(7,10) c(2) t'(2) by (simp_all add: same_structure_def)
    ultimately show ?thesis using lab t'(3) same_structure_edges [OF c(2) wf_graph_adj [OF wf]] by auto
  qed
qed

text \<open>
  C7. The batch pass, on every well-formed graph and for every order in which its hash maps are
  iterated. It ends and fails no assertion. The nodes that leave the graph are the members of the
  islands with two commands or more; each such island has one new BATCH node of its device, with a
  well-formed sub-graph of exactly the members and the edges between them; the graph is left with
  the edges between different islands, each once, so that what came before another node still does.
  The graph is well formed again exactly when the contraction of the islands closes no cycle.
\<close>

theorem batch_pass_sound:
  assumes "graph_ok s g V (2 + k)" "reordering ord" "reordering ord2"
  shows "\<exists>t lab rho. pass_batch ord ord2 g s = Inr t \<and> island_labelling g s V lab \<and> batched s g V lab t rho \<and>
    (\<forall>a b. (a, b) \<in> (edges s V)\<^sup>* \<longrightarrow> (rho a, rho b) \<in> (edges t (rho ` V))\<^sup>*) \<and>
    (graph_ok t g (rho ` V) k \<longleftrightarrow> acyclic (batch_edges rho (edges s V)))"
  using pass_batch_ok [OF assms] batched_reach by fast

end
