(* ===== verification/Pipeline_Props.thy ===== *)
theory Pipeline_Props
  imports Dispatch_Props Batch_Props
begin

text \<open>
  \<^verbatim>\<open>command_graph_t::optimize\<close> with the passes that build sub-graphs: sequence and batch come last in
  the canonical order, so that they run on what the passes before them leave.
\<close>

subsection \<open>One pass through the dispatcher\<close>

text \<open>The walk of the statistics, on any graph whose entry is a node.\<close>

lemma stats_same_structure:
  assumes "g < length (graphs s)" "node_get_entry s g < length (nodes s)"
  shows "same_structure s (fst (stats_compute_metrics g s))"
  unfolding stats_compute_metrics_def walk_from_entry_def Let_def fst_conv
  using walk_effect(1) [OF structural_count_node assms] by simp

lemma graph_ok_entry: "graph_ok s g V k \<Longrightarrow> g < length (graphs s) \<and> node_get_entry s g < length (nodes s)"
  using wf_adjD(1) [OF wf_graph_adj wf_graph_entry] by (auto simp: graph_ok_def wf_graph_def)

lemma stats_walk_graph_ok:
  assumes "graph_ok s g V (Suc k)"
  shows "graph_ok (fst (stats_compute_metrics g s)) g V k"
proof -
  have wf: "wf_graph s g V" using assms by (simp add: graph_ok_def)
  show ?thesis
    using graph_ok_walk_effect(1) [OF assms structural_count_node wf_graph_entry [OF wf],
        where search = COMMAND_GRAPH_WALK_SEARCH_DFS and ord = COMMAND_GRAPH_WALK_ORDER_PRE and a = zero_metrics]
    by (simp add: stats_compute_metrics_def walk_from_entry_def)
qed

text \<open>Around a pass, the dispatcher only walks.\<close>

lemma dispatcher_around_pass:
  assumes off: "dumps_off env p" and ok: "graph_ok s g V (Suc (Suc k))"
    and run: "\<And>s1. same_structure s s1 \<Longrightarrow> graph_ok s1 g V (Suc k) \<Longrightarrow> \<exists>t. optimize_legacy x pass g s1 = Inr t \<and> Q s1 t"
    and entry: "\<And>s1 t. Q s1 t \<Longrightarrow> g < length (graphs t) \<and> node_get_entry t g < length (nodes t)"
  shows "\<exists>p' s1 t t'. command_graph_optimize x False env depth g pass (p, s) = Inr (p', t') \<and> dumps_off env p' \<and>
    same_structure s s1 \<and> graph_ok s1 g V (Suc k) \<and> Q s1 t \<and> (t' = t \<or> t' = fst (stats_compute_metrics g t)) \<and> same_structure t t'"
proof -
  define stats where "stats \<longleftrightarrow> fst (stats_csv_path env (snd (optimize_dump_enabled env p))) \<noteq> None"
  let ?s = "if stats then fst (stats_compute_metrics g s) else s"
  have s1: "same_structure s ?s" "graph_ok ?s g V (Suc k)"
    using stats_same_structure graph_ok_entry [OF ok] stats_walk_graph_ok [OF ok] graph_ok_less [OF ok, of "Suc k"] by simp_all
  obtain t where t: "optimize_legacy x pass g ?s = Inr t" "Q ?s t" using run [OF s1] by blast
  let ?t = "if stats then fst (stats_compute_metrics g t) else t"
  have "same_structure t ?t" using stats_same_structure entry [OF t(2)] by simp
  moreover obtain p' where "command_graph_optimize x False env depth g pass (p, s) = Inr (p', ?t)" "dumps_off env p'"
    using dispatcher_runs_pass [OF off t(1)] stats_def by blast
  ultimately show ?thesis using s1 t(2) by (metis (full_types))
qed

lemma dispatch_sequence:
  assumes off: "dumps_off env p" and ok: "graph_ok s g V (4 + k)"
  shows "\<exists>p' t W M. command_graph_optimize x False env depth g COMMAND_GRAPH_PASS_SEQUENCE (p, s) = Inr (p', t) \<and> dumps_off env p' \<and>
    graph_ok t g W k \<and> sequenced s g V t W M"
proof -
  have wf: "wf_graph s g V" using ok by (simp add: graph_ok_def)
  have ok4: "graph_ok s g V (Suc (Suc (2 + k)))" by (rule graph_ok_less [OF ok]) simp
  let ?Q = "\<lambda>s1 t. \<exists>W M. graph_ok t g W (Suc k) \<and> sequenced s1 g V t W M \<and> length (nodes s1) \<le> length (nodes t)"
  have "\<exists>t. optimize_legacy x COMMAND_GRAPH_PASS_SEQUENCE g s1 = Inr t \<and> ?Q s1 t" if "graph_ok s1 g V (Suc (2 + k))" for s1
    using pass_sequence_ok [of s1 g V "Suc k"] that by simp
  moreover have "g < length (graphs t) \<and> node_get_entry t g < length (nodes t)" if "?Q s1 t" for s1 t
    using that graph_ok_entry by blast
  ultimately obtain p' s1 t t' where r: "command_graph_optimize x False env depth g COMMAND_GRAPH_PASS_SEQUENCE (p, s) = Inr (p', t')"
    "dumps_off env p'" "same_structure s s1" "?Q s1 t" "t' = t \<or> t' = fst (stats_compute_metrics g t)" "same_structure t t'"
    using dispatcher_around_pass [OF off ok4, of x COMMAND_GRAPH_PASS_SEQUENCE ?Q depth] by blast
  obtain W M where q: "graph_ok t g W (Suc k)" "sequenced s1 g V t W M" "length (nodes s1) \<le> length (nodes t)" using r(4) by blast
  have "graph_ok t' g W k" using r(5) graph_ok_less [OF q(1), of k] stats_walk_graph_ok [OF q(1)] by auto
  moreover have wt: "wf_graph t g W" using q(1) by (simp add: graph_ok_def)
  then have "sequenced s g V t' W M"
    using sequenced_same_left [OF sequenced_same_right [OF q(2) r(6) wt q(3)] r(3) wf] by simp
  ultimately show ?thesis using r(1,2) by blast
qed

definition batch_outcome :: "graph_ref \<Rightarrow> store \<Rightarrow> node_ref set \<Rightarrow> store \<Rightarrow> nat \<Rightarrow> bool" where
  "batch_outcome g s V t k \<longleftrightarrow>
     (\<exists>lab rho. island_labelling g s V lab \<and> batched s g V lab t rho \<and>
        (graph_ok t g (rho ` V) k \<longleftrightarrow> acyclic (batch_edges rho (edges s V))))"

lemma dispatch_batch:
  assumes off: "dumps_off env p" and ok: "graph_ok s g V (4 + k)" and ord: "reordering (ext_order x)" "reordering (ext_mat_order x)"
  shows "\<exists>p' t. command_graph_optimize x False env depth g COMMAND_GRAPH_PASS_BATCH (p, s) = Inr (p', t) \<and> batch_outcome g s V t k"
proof -
  have wf: "wf_graph s g V" using ok by (simp add: graph_ok_def)
  have ok4: "graph_ok s g V (Suc (Suc (2 + k)))" by (rule graph_ok_less [OF ok]) simp
  let ?Q = "\<lambda>s1 t. \<exists>lab rho. island_labelling g s1 V lab \<and> batched s1 g V lab t rho \<and>
      (graph_ok t g (rho ` V) (Suc k) \<longleftrightarrow> acyclic (batch_edges rho (edges s1 V))) \<and> g < length (graphs t) \<and>
      length (nodes s1) \<le> length (nodes t) \<and> node_get_entry s1 g < length (nodes s1)"
  have "\<exists>t. optimize_legacy x COMMAND_GRAPH_PASS_BATCH g s1 = Inr t \<and> ?Q s1 t" if "graph_ok s1 g V (Suc (2 + k))" for s1
    using pass_batch_ok [of s1 g V "Suc k", OF _ ord] that graph_ok_entry [OF that] by simp
  moreover have "g < length (graphs t) \<and> node_get_entry t g < length (nodes t)" if "?Q s1 t" for s1 t
    using that by (auto simp: batched_def)
  ultimately obtain p' s1 t t' where r: "command_graph_optimize x False env depth g COMMAND_GRAPH_PASS_BATCH (p, s) = Inr (p', t')"
    "same_structure s s1" "?Q s1 t" "t' = t \<or> t' = fst (stats_compute_metrics g t)" "same_structure t t'"
    using dispatcher_around_pass [OF off ok4, of x COMMAND_GRAPH_PASS_BATCH ?Q depth] by blast
  obtain lab rho where q: "island_labelling g s1 V lab" "batched s1 g V lab t rho"
    "graph_ok t g (rho ` V) (Suc k) \<longleftrightarrow> acyclic (batch_edges rho (edges s1 V))" "g < length (graphs t)" "length (nodes s1) \<le> length (nodes t)"
    using r(3) by blast
  have e: "edges s1 V = edges s V" by (rule same_structure_edges [OF r(2) wf_graph_adj [OF wf]])
  have b: "batched s g V lab t' rho" by (rule batched_same [OF q(2) r(2,5) wf q(4,5)])
  have "graph_ok t' g (rho ` V) k \<longleftrightarrow> acyclic (batch_edges rho (edges s V))"
  proof
    assume "graph_ok t' g (rho ` V) k"
    then have "acyclic (edges t' (rho ` V))" unfolding graph_ok_def by (blast intro: wf_graph_acyclic)
    then show "acyclic (batch_edges rho (edges s V))" using b by (simp add: batched_def)
  next
    assume "acyclic (batch_edges rho (edges s V))"
    then have "graph_ok t g (rho ` V) (Suc k)" using q(3) e by simp
    then show "graph_ok t' g (rho ` V) k" using r(4) graph_ok_less [of t g "rho ` V" "Suc k" k] stats_walk_graph_ok by auto
  qed
  moreover have "island_labelling g s V lab" using q(1) island_labelling_same [OF r(2) wf] by simp
  ultimately show ?thesis using r(1) b unfolding batch_outcome_def by blast
qed

subsection \<open>The whole\<close>


end
