(* ===== verification/Batch_Example.thy ===== *)
theory Batch_Example
  imports Batch_Islands
begin

text \<open>
  A concrete run of the batch pass, step by step: on a diamond whose two branches run on
  different devices, the island of the first device is not convex, and contracting it closes a
  cycle in the top-level graph.
\<close>

subsection \<open>The diamond\<close>

text \<open>
  Entry 0, then node 1 on device 0, then the branches 2 (device 0) and 3 (device 1), which meet
  in node 4 on device 0, then exit 5. No edge is redundant.
\<close>

definition diamond_node :: "device_id \<Rightarrow> cmd_ref option \<Rightarrow> node_ref list \<Rightarrow> node_ref list \<Rightarrow> nat \<Rightarrow> 8 word \<Rightarrow> node" where
  "diamond_node d c ps ss i w =
     \<lparr>device_unique_id = d, predecessors = ps, successors = ss, iterator_index = i, walk_id = w,
      ntype = (if c = None then COMMAND_GRAPH_NODE_TYPE_EMPTY else COMMAND_GRAPH_NODE_TYPE_COMMAND), ncommand = c\<rparr>"

definition diamond_prog :: command where
  "diamond_prog =
     \<lparr>ctype = COMMAND_TYPE_PROG,
      cbody = Body_prog (new_prog 1 16 CGIR_COMMAND_PROG_SOURCE_TYPE_LLVMIR 0 0)\<rparr>"

definition diamond_graph :: "8 word \<Rightarrow> graph" where
  "diamond_graph i = \<lparr>entry = 0, exit = 5, graph_walk_id = i, is_sequence = False\<rparr>"

definition diamond_store :: store where
  "diamond_store =
     \<lparr>nodes =
        [diamond_node 255 None [] [1] 0 0, diamond_node 0 (Some 0) [0] [2, 3] 0 0,
         diamond_node 0 (Some 1) [1] [4] 0 0, diamond_node 1 (Some 2) [1] [4] 0 0,
         diamond_node 0 (Some 3) [2, 3] [5] 0 0, diamond_node 255 None [4] [] 0 0],
      commands = [diamond_prog, diamond_prog, diamond_prog, diamond_prog],
      graphs = [diamond_graph 0]\<rparr>"

lemma diamond_ok: "graph_ok diamond_store 0 {0, 1, 2, 3, 4, 5} 200"
proof -
  have "graph_check diamond_store 0 [0, 1, 2, 3, 4, 5] 200" by code_simp
  from graph_check_ok [OF this] show ?thesis by simp
qed

subsection \<open>The islands\<close>

definition numbered :: "(node_ref list \<times> node_ref list) list \<Rightarrow> node list" where
  "numbered adj =
     map2 (\<lambda>(d, c, i) (ps, ss). diamond_node d c ps ss i 1)
       [(255, None, 0), (0, Some 0, 1), (0, Some 1, 2), (1, Some 2, 5), (0, Some 3, 3), (255, None, 4)] adj"

definition diamond_adj :: "(node_ref list \<times> node_ref list) list" where
  "diamond_adj = [([], [1]), ([0], [2, 3]), ([1], [4]), ([1], [4]), ([2, 3], [5]), ([4], [])]"

definition diamond_vec :: "node_ref list" where
  "diamond_vec = [0, 1, 2, 4, 5, 3]"

definition diamond_islands :: "(nat \<times> node_ref list) list" where
  "diamond_islands = [(3, [1, 2, 4]), (5, [3])]"

definition numbered_store :: store where
  "numbered_store =
     \<lparr>nodes = numbered diamond_adj,
      commands = [diamond_prog, diamond_prog, diamond_prog, diamond_prog],
      graphs = [diamond_graph 1]\<rparr>"

lemma diamond_iterators:
  "create_node_iterators True COMMAND_GRAPH_WALK_SEARCH_DFS COMMAND_GRAPH_WALK_ORDER_PRE 0 diamond_store =
     (numbered_store, diamond_vec)"
  by code_simp

lemma diamond_batch_islands: "batch_islands 0 numbered_store diamond_vec = Inr diamond_islands"
  by code_simp

subsection \<open>Materialisation\<close>

text \<open>The store with the fresh nodes, the body of the BATCH command and the sub-graphs.\<close>

definition stage :: "(node_ref list \<times> node_ref list) list \<Rightarrow> node list \<Rightarrow> command_body \<Rightarrow> graph list \<Rightarrow> store" where
  "stage adj ns b gs =
     \<lparr>nodes = numbered adj @ ns,
      commands = [diamond_prog, diamond_prog, diamond_prog, diamond_prog,
                  \<lparr>ctype = COMMAND_TYPE_BATCH, cbody = b\<rparr>],
      graphs = diamond_graph 1 # gs\<rparr>"

definition control :: "node_ref list \<Rightarrow> node_ref list \<Rightarrow> node" where
  "control ps ss = diamond_node CGIR_UNSPECIFIED_DEVICE_UNIQUE_ID None ps ss 0 0"

definition batch_node :: "cmd_ref option \<Rightarrow> node_ref list \<Rightarrow> node_ref list \<Rightarrow> node" where
  "batch_node c ps ss = (new_node 0 COMMAND_GRAPH_NODE_TYPE_COMMAND)\<lparr>predecessors := ps, successors := ss, ncommand := c\<rparr>"

definition sub_graph :: graph where
  "sub_graph = \<lparr>entry = 6, exit = 7, graph_walk_id = 0, is_sequence = False\<rparr>"

abbreviation batch_body :: "graph_ref option \<Rightarrow> command_body" where
  "batch_body c \<equiv> Body_batch \<lparr>batch_cg = c, driver_handle = 0\<rparr>"

definition island_store :: store where
  "island_store = stage diamond_adj [control [] [], control [] [], batch_node (Some 4) [] []] (batch_body (Some 1)) [sub_graph]"

lemma stage_command:
  "upd_command 4 (\<lambda>c. c\<lparr>cbody := b'\<rparr>) (stage adj ns b gs) = stage adj ns b' gs"
  by (simp add: upd_command_def stage_def numeral_eq_Suc)

lemma stage_alloc:
  "command_new COMMAND_TYPE_BATCH numbered_store = (4, stage diamond_adj [] Body_uninitialised [])"
  "command_graph_new None None (stage diamond_adj [] (batch_body None) []) =
     Inr (1, stage diamond_adj [control [] [7], control [6] []] (batch_body None) [sub_graph])"
  by code_simp+

lemma stage_sub:
  "node_get_entry (stage diamond_adj [control [] [7], control [6] []] (batch_body (Some 1)) [sub_graph]) 1 = 6"
  "node_get_exit (stage diamond_adj [control [] [7], control [6] []] (batch_body (Some 1)) [sub_graph]) 1 = 7"
  "set_preds 7 [] (set_succs 6 []
     (stage diamond_adj [control [] [7], control [6] []] (batch_body (Some 1)) [sub_graph])) =
   stage diamond_adj [control [] [], control [] []] (batch_body (Some 1)) [sub_graph]"
  by code_simp+

lemma stage_batch:
  "command_graph_node_new 0 COMMAND_GRAPH_NODE_TYPE_COMMAND
     (stage diamond_adj [control [] [], control [] []] (batch_body (Some 1)) [sub_graph]) =
   (8, stage diamond_adj [control [] [], control [] [], batch_node None [] []] (batch_body (Some 1)) [sub_graph])"
  "upd_node 8 (\<lambda>n. n\<lparr>ncommand := Some 4\<rparr>)
     (stage diamond_adj [control [] [], control [] [], batch_node None [] []] (batch_body (Some 1)) [sub_graph]) =
   island_store"
  "index_of island_store 1 = 1" "index_of island_store 2 = 2" "index_of island_store 4 = 3"
  by code_simp+

lemma diamond_members:
  "members_of diamond_islands 3 = [1, 2, 4]" "members_of diamond_islands 5 = [3]" "diamond_vec ! 3 = 4"
  "island_commands numbered_store [1, 2, 4] = [1, 2, 4]" "island_device numbered_store 4 [1, 2, 4] = 0"
  by code_simp+

lemma diamond_single: "length (island_commands s [3]) < 2"
  by (simp add: island_commands_def)

definition diamond_mat :: island_mat where
  "diamond_mat = \<lparr>mat_root = 3, mat_sub = 1, mat_entry = 6, mat_exit = 7\<rparr>"

lemma diamond_materialize:
  "for_each (materialize_island diamond_vec diamond_islands) [3, 5] (numbered_store, diamond_vec, []) =
     Inr (island_store, [0, 8, 8, 8, 5, 3], [diamond_mat])"
proof -
  have "materialize_island diamond_vec diamond_islands 3 (numbered_store, diamond_vec, []) =
      Inr (island_store, [0, 8, 8, 8, 5, 3], [diamond_mat])"
    by (simp add: materialize_island_def Let_def diamond_members stage_alloc stage_command stage_sub stage_batch
        diamond_mat_def del: One_nat_def) (simp add: diamond_vec_def)
  moreover have "materialize_island diamond_vec diamond_islands 5 (island_store, r, m) = Inr (island_store, r, m)" for r m
    using diamond_single [of island_store] by (simp add: materialize_island_def Let_def diamond_members(2))
  ultimately show ?thesis by simp
qed

subsection \<open>Rewiring\<close>

definition rewired :: "node_ref list \<Rightarrow> node_ref list \<Rightarrow> node list \<Rightarrow> store" where
  "rewired p1 s4 ns =
     stage [([], [8]), (p1, [2]), ([1], [4]), ([8], [8]), ([2], s4), ([8], [])]
       (ns @ [batch_node (Some 4) [0, 3] [3, 5]]) (batch_body (Some 1)) [sub_graph]"

lemma diamond_rewire:
  "all_edges island_store diamond_vec = [(0, 1), (1, 2), (1, 3), (2, 4), (4, 5), (3, 4)]"
  "for_each (rewire_edge [0, 8, 8, 8, 5, 3]) [(0, 1), (1, 2), (1, 3), (2, 4), (4, 5), (3, 4)] island_store =
     Inr (rewired [] [] [control [] [], control [] []])"
  "connect_island diamond_islands diamond_mat (rewired [] [] [control [] [], control [] []]) =
     rewired [6] [7] [control [] [1], control [4] []]"
  by code_simp+

lemma diamond_coherent:
  "case coherence_checks 0 (rewired [6] [7] [control [] [1], control [4] []]) of
     Inl _ \<Rightarrow> False
   | Inr t \<Rightarrow> succs t 8 = [3, 5] \<and> succs t 3 = [8] \<and> get_command t 8 = Inr \<lparr>ctype = COMMAND_TYPE_BATCH, cbody = batch_body (Some 1)\<rparr> \<and>
       node_get_entry t 1 = 6 \<and> succs t 6 = [1] \<and> succs t 1 = [2] \<and> succs t 2 = [4] \<and> succs t 4 = [7] \<and>
       snd (create_node_iterators True COMMAND_GRAPH_WALK_SEARCH_DFS COMMAND_GRAPH_WALK_ORDER_PRE 1 t) = [6]"
  by code_simp

lemma diamond_pass:
  "\<exists>t. pass_batch id id 0 diamond_store = Inr t \<and>
     coherence_checks 0 (rewired [6] [7] [control [] [1], control [4] []]) = Inr t"
proof -
  obtain t where t: "coherence_checks 0 (rewired [6] [7] [control [] [1], control [4] []]) = Inr t"
    using diamond_coherent by (auto split: sum.splits)
  have "map fst diamond_islands = [3, 5]" "\<not> length diamond_vec \<le> 2" by code_simp+
  then have "pass_batch id id 0 diamond_store = Inr t"
    using t(1) by (simp add: pass_batch_def diamond_iterators diamond_batch_islands diamond_materialize diamond_rewire
        del: for_each.simps One_nat_def)
  then show ?thesis using t by blast
qed


text \<open>
  The members of an island keep the walk marks of the parent graph, while the counter of
  the fresh sub-graph starts at 0. On the diamond the members carry mark 1, which is the first
  identifier of the sub-graph: its first walk visits the entry node alone although its edges
  lead through all three members to the exit.
\<close>

theorem sub_graph_walk_misses_members:
  "\<exists>t. pass_batch id id 0 diamond_store = Inr t \<and>
     get_command t 8 = Inr \<lparr>ctype = COMMAND_TYPE_BATCH, cbody = Body_batch \<lparr>batch_cg = Some 1, driver_handle = 0\<rparr>\<rparr> \<and>
     node_get_entry t 1 = 6 \<and> succs t 6 = [1] \<and> succs t 1 = [2] \<and> succs t 2 = [4] \<and> succs t 4 = [7] \<and>
     snd (create_node_iterators True COMMAND_GRAPH_WALK_SEARCH_DFS COMMAND_GRAPH_WALK_ORDER_PRE 1 t) = [6]"
  using diamond_pass diamond_coherent by auto

end
