(* ===== verification/Mlir_Roundtrip.thy ===== *)
theory Mlir_Roundtrip
  imports Mlir_Graph Copy_Normalize
begin

text \<open>
  The two translations between command graphs and the \<^verbatim>\<open>cg\<close> dialect. A module backs a store
  when every operation of its block stands for a node of its own; exporting such a module
  rebuilds the adjacency of those nodes from the operands. Importing a graph gives a module
  that backs it, so that the two translations compose to the identity on the graph.
\<close>

subsection \<open>Modules over a store\<close>

definition src :: "cg_graph \<Rightarrow> op_ref \<Rightarrow> node_ref" where
  "src m o' = the (src_node (op_at m o'))"

text \<open>What export writes into the node of an operation is what the node holds.\<close>

definition in_sync :: "cg_graph \<Rightarrow> store \<Rightarrow> op_ref \<Rightarrow> bool" where
  "in_sync m s o' \<longleftrightarrow>
     get_duid m o' = device_unique_id (node_at s (src m o')) \<and>
     (\<forall>c. ncommand (node_at s (src m o')) = Some c \<longrightarrow>
        (case payload (op_at m o') of
           Copy_1D_op a \<Rightarrow> commands s ! c = export_copy_1D a
         | Copy_2D_op a \<Rightarrow> commands s ! c = export_copy_2D a
         | _ \<Rightarrow> True))"

definition backs :: "cg_graph \<Rightarrow> store \<Rightarrow> bool" where
  "backs m s \<longleftrightarrow>
     distinct (body m) \<and> inj_on (src m) (set (body m)) \<and>
     (\<forall>o'\<in>set (body m). src_node (op_at m o') = Some (src m o') \<and> src m o' < length (nodes s) \<and>
        in_sync m s o' \<and> set (operands (op_at m o')) \<subseteq> set (body m))"

lemma backsD:
  assumes "backs m s" "o' \<in> set (body m)"
  shows "src_node (op_at m o') = Some (src m o')" "src m o' < length (nodes s)" "in_sync m s o'"
    "set (operands (op_at m o')) \<subseteq> set (body m)"
  using assms by (auto simp: backs_def)

lemma backs_distinct: "backs m s \<Longrightarrow> distinct (body m)" "backs m s \<Longrightarrow> inj_on (src m) (set (body m))"
  by (simp_all add: backs_def)

lemma in_sync_frame:
  assumes "adj_frame s t"
  shows "in_sync m t o' \<longleftrightarrow> in_sync m s o'"
  unfolding in_sync_def adj_frameD(2,7,11) [OF assms] ..

lemma update_node_in_sync:
  assumes "in_sync m s o'"
  shows "update_node_from_op m (src m o') o' s = s"
proof -
  let ?u = "src m o'"
  have d: "get_duid m o' = device_unique_id (nodes s ! ?u)" using assms unfolding in_sync_def node_at_def by blast
  have node: "upd_node ?u (\<lambda>n. n\<lparr>device_unique_id := get_duid m o'\<rparr>) s = s"
    unfolding upd_node_def d by simp
  have cmd: "upd_command c (\<lambda>_. d) s = s" if "commands s ! c = d" for c d
    using list_update_id [of "commands s" c] that by (simp add: upd_command_def)
  show ?thesis
  proof (cases "ncommand (node_at s ?u)")
    case None
    then show ?thesis by (simp add: update_node_from_op_def update_command_def node split: cg_payload.split)
  next
    case (Some c)
    then have "case payload (op_at m o') of Copy_1D_op a \<Rightarrow> commands s ! c = export_copy_1D a
         | Copy_2D_op a \<Rightarrow> commands s ! c = export_copy_2D a | _ \<Rightarrow> True"
      using assms unfolding in_sync_def by blast
    then show ?thesis
      by (cases "payload (op_at m o')") (simp_all add: update_node_from_op_def update_command_def node Some cmd)
  qed
qed

subsection \<open>The two loops of export\<close>

definition at :: "cg_graph \<Rightarrow> op_ref list \<Rightarrow> op_ref \<Rightarrow> node_ref option" where
  "at m os = (\<lambda>o'. if o' \<in> set os then Some (src m o') else None)"

text \<open>The last operation of a list with a property, as the variables \<^verbatim>\<open>entry\<close> and \<^verbatim>\<open>exit\<close> hold it.\<close>

definition last_such :: "(op_ref \<Rightarrow> bool) \<Rightarrow> cg_graph \<Rightarrow> op_ref list \<Rightarrow> node_ref option" where
  "last_such P m os = fold (\<lambda>o' r. if P o' then Some (src m o') else r) os None"

lemma last_such_append: "last_such P m (os @ [o']) = (if P o' then Some (src m o') else last_such P m os)"
  by (simp add: last_such_def)

lemma last_such_unique:
  assumes "en \<in> set os" "\<And>o'. o' \<in> set os \<Longrightarrow> P o' \<longleftrightarrow> o' = en"
  shows "last_such P m os = Some (src m en)"
  using assms
proof (induction os rule: rev_induct)
  case (snoc x xs)
  show ?case
  proof (cases "x = en")
    case True
    then show ?thesis using snoc.prems by (simp add: last_such_append)
  next
    case False
    then have "last_such P m xs = Some (src m en)" using snoc.prems by (intro snoc.IH) auto
    moreover have "\<not> P x" using snoc.prems(2) [of x] False by simp
    ultimately show ?thesis by (simp add: last_such_append)
  qed
qed simp

lemma adj_frame_clear [simp]: "adj_frame s (clear_adjacency u s)"
  unfolding clear_adjacency_def by (rule adj_frame_trans [OF adj_frame_set_preds adj_frame_set_succs])

lemma clear_adjacency_lists:
  assumes "u < length (nodes s)"
  shows "succs (clear_adjacency u s) x = (if x = u then [] else succs s x)"
    "preds (clear_adjacency u s) x = (if x = u then [] else preds s x)"
  using assms by (simp_all add: clear_adjacency_def set_succs_def set_preds_def)

lemma export_nodes:
  assumes b: "backs m s" and "set os \<subseteq> set (body m)"
  shows "\<exists>t. for_each (export_op m) os \<lparr>out = (\<lambda>_. None), entry_node = None, exit_node = None, exported = s\<rparr> =
      Inr \<lparr>out = at m os, entry_node = last_such (op_is_entry m) m os,
           exit_node = last_such (op_is_exit m) m os, exported = t\<rparr> \<and>
    adj_frame s t \<and> (\<forall>x. succs t x = (if x \<in> src m ` set os then [] else succs s x) \<and>
      preds t x = (if x \<in> src m ` set os then [] else preds s x))"
  using assms(2)
proof (induction os rule: rev_induct)
  case Nil
  show ?case by (simp add: at_def last_such_def)
next
  case (snoc o' os)
  let ?z = "\<lparr>out = (\<lambda>_. None), entry_node = None, exit_node = None, exported = s\<rparr>"
  obtain t where t: "for_each (export_op m) os ?z = Inr \<lparr>out = at m os, entry_node = last_such (op_is_entry m) m os,
           exit_node = last_such (op_is_exit m) m os, exported = t\<rparr>" "adj_frame s t"
    "\<And>x. succs t x = (if x \<in> src m ` set os then [] else succs s x)"
    "\<And>x. preds t x = (if x \<in> src m ` set os then [] else preds s x)"
    using snoc by auto
  have o': "o' \<in> set (body m)" using snoc.prems by simp
  have sync: "in_sync m t o'" using backsD(3) [OF b o'] in_sync_frame [OF t(2)] by simp
  have len: "src m o' < length (nodes t)" using backsD(2) [OF b o'] adj_frameD(1) [OF t(2)] by simp
  have step: "for_each (export_op m) (os @ [o']) ?z =
      Inr \<lparr>out = at m (os @ [o']), entry_node = last_such (op_is_entry m) m (os @ [o']),
           exit_node = last_such (op_is_exit m) m (os @ [o']), exported = clear_adjacency (src m o') t\<rparr>"
    using update_node_in_sync [OF sync]
    by (auto simp: for_each_append t(1) export_op_def get_src_node_def backsD(1) [OF b o'] last_such_append at_def)
  have "adj_frame s (clear_adjacency (src m o') t)" by (rule adj_frame_trans [OF t(2)]) simp
  then show ?case using step clear_adjacency_lists [OF len] t(3,4) by auto
qed

lemma precedes_all:
  assumes "v < length (nodes s)" "\<And>p. p \<in> set ps \<Longrightarrow> p < length (nodes s)"
  shows "adj_frame s (fold (\<lambda>p. precedes p v) ps s)"
    "preds (fold (\<lambda>p. precedes p v) ps s) x = (if x = v then preds s v @ ps else preds s x)"
    "succs (fold (\<lambda>p. precedes p v) ps s) x = succs s x @ replicate (count_list ps x) v"
proof -
  show "adj_frame s (fold (\<lambda>p. precedes p v) ps s)" by (rule adj_frame_fold) simp
  show "preds (fold (\<lambda>p. precedes p v) ps s) x = (if x = v then preds s v @ ps else preds s x)"
    "succs (fold (\<lambda>p. precedes p v) ps s) x = succs s x @ replicate (count_list ps x) v"
    using assms by (induction ps arbitrary: s) (auto simp: replicate_append_same)
qed

lemma export_operands_eq:
  assumes "f o' = Some v" "\<And>t. t \<in> set (operands (op_at m o')) \<Longrightarrow> f t = Some (src m t)"
  shows "export_operands m f o' s = Inr (fold (\<lambda>p. precedes p v) (map (src m) (operands (op_at m o'))) s)"
proof -
  have "for_each (export_operand f v) ts s = Inr (fold (\<lambda>p. precedes p v) (map (src m) ts) s)"
    if "\<forall>t\<in>set ts. f t = Some (src m t)" for ts
    using that by (induction ts arbitrary: s) (simp_all add: export_operand_def)
  then show ?thesis using assms by (simp add: export_operands_def)
qed

lemma export_edges:
  assumes b: "backs m s" and t0: "length (nodes t0) = length (nodes s)" and "set os \<subseteq> set (body m)" "distinct os"
  shows "\<exists>t. for_each (export_operands m (at m (body m))) os t0 = Inr t \<and> adj_frame t0 t \<and>
    (\<forall>o'\<in>set (body m). preds t (src m o') =
       preds t0 (src m o') @ (if o' \<in> set os then map (src m) (operands (op_at m o')) else [])) \<and>
    (\<forall>x. succs t x = succs t0 x @
       concat (map (\<lambda>o'. replicate (count_list (map (src m) (operands (op_at m o'))) x) (src m o')) os)) \<and>
    (\<forall>x. x \<notin> src m ` set (body m) \<longrightarrow> preds t x = preds t0 x)"
  using assms(3,4)
proof (induction os rule: rev_induct)
  case Nil
  show ?case by simp
next
  case (snoc o' os)
  then have o': "o' \<in> set (body m)" "o' \<notin> set os" by auto
  obtain t where t: "for_each (export_operands m (at m (body m))) os t0 = Inr t" "adj_frame t0 t"
    "\<And>q. q \<in> set (body m) \<Longrightarrow> preds t (src m q) =
       preds t0 (src m q) @ (if q \<in> set os then map (src m) (operands (op_at m q)) else [])"
    "\<And>x. succs t x = succs t0 x @
       concat (map (\<lambda>o'. replicate (count_list (map (src m) (operands (op_at m o'))) x) (src m o')) os)"
    "\<And>x. x \<notin> src m ` set (body m) \<Longrightarrow> preds t x = preds t0 x"
    using snoc by auto
  let ?ps = "map (src m) (operands (op_at m o'))" and ?v = "src m o'"
  note ops = backsD(4) [OF b o'(1)]
  have r: "?v < length (nodes t)" "\<And>p. p \<in> set ?ps \<Longrightarrow> p < length (nodes t)"
    using backsD(2) [OF b] o'(1) ops adj_frameD(1) [OF t(2)] t0 by auto
  obtain r where r: "r = fold (\<lambda>p. precedes p ?v) ?ps t" "adj_frame t r"
    "\<And>x. preds r x = (if x = ?v then preds t ?v @ ?ps else preds t x)"
    "\<And>x. succs r x = succs t x @ replicate (count_list ?ps x) ?v"
    using precedes_all [OF r] by blast
  have "export_operands m (at m (body m)) o' t = Inr r"
    unfolding r(1) using o'(1) ops by (intro export_operands_eq) (auto simp: at_def)
  then have "for_each (export_operands m (at m (body m))) (os @ [o']) t0 = Inr r"
    by (simp add: for_each_append t(1))
  moreover have "adj_frame t0 r" by (rule adj_frame_trans [OF t(2) r(2)])
  moreover have "src m q = ?v \<longleftrightarrow> q = o'" if "q \<in> set (body m)" for q
    using backs_distinct(2) [OF b] o'(1) that by (auto dest: inj_onD)
  ultimately show ?case using t(3-5) o' r(3,4) by auto
qed

lemma count_list_pos: "0 < count_list xs x \<longleftrightarrow> x \<in> set xs"
  using count_list_0_iff [of xs x] by auto

text \<open>The users of a token within the block.\<close>

definition body_users :: "cg_graph \<Rightarrow> op_ref \<Rightarrow> op_ref list" where
  "body_users m t = concat (map (\<lambda>o'. replicate (count_list (operands (op_at m o')) t) o') (body m))"

lemma set_body_users: "set (body_users m t) = {o' \<in> set (body m). t \<in> set (operands (op_at m o'))}"
  by (auto simp: body_users_def count_list_pos)

lemma count_list_map_inj:
  "inj_on f A \<Longrightarrow> set xs \<subseteq> A \<Longrightarrow> x \<in> A \<Longrightarrow> count_list (map f xs) (f x) = count_list xs x"
  by (induction xs) (auto dest: inj_onD)

text \<open>
  Exporting a module that backs the store: the nodes of the block get the adjacency the operands
  describe, the graph gets the nodes of the entry and exit operations, nothing else changes.
\<close>

lemma export_backs:
  assumes b: "backs m s" and ends: "en \<in> set (body m)" "ex \<in> set (body m)"
    and en: "\<And>o'. o' \<in> set (body m) \<Longrightarrow> op_is_entry m o' \<longleftrightarrow> o' = en" "operands (op_at m en) = []"
    and ex: "\<And>o'. o' \<in> set (body m) \<Longrightarrow> op_is_exit m o' \<longleftrightarrow> o' = ex" "body_users m ex = []"
  shows "\<exists>t. export_command_graph m g s =
      Inr (upd_graph g (\<lambda>gr. gr\<lparr>entry := src m en, exit := src m ex\<rparr>) t) \<and> adj_frame s t \<and>
    (\<forall>o'\<in>set (body m). preds t (src m o') = map (src m) (operands (op_at m o')) \<and>
       succs t (src m o') = map (src m) (body_users m o'))"
proof -
  obtain t1 where t1: "for_each (export_op m) (body m)
      \<lparr>out = (\<lambda>_. None), entry_node = None, exit_node = None, exported = s\<rparr> =
      Inr \<lparr>out = at m (body m), entry_node = last_such (op_is_entry m) m (body m),
           exit_node = last_such (op_is_exit m) m (body m), exported = t1\<rparr>" "adj_frame s t1"
    "\<And>o'. o' \<in> set (body m) \<Longrightarrow> succs t1 (src m o') = [] \<and> preds t1 (src m o') = []"
    using export_nodes [OF b order.refl] by auto
  obtain t where t: "for_each (export_operands m (at m (body m))) (body m) t1 = Inr t" "adj_frame t1 t"
    "\<And>o'. o' \<in> set (body m) \<Longrightarrow> preds t (src m o') = map (src m) (operands (op_at m o'))"
    "\<And>o'. o' \<in> set (body m) \<Longrightarrow> succs t (src m o') =
       concat (map (\<lambda>q. replicate (count_list (map (src m) (operands (op_at m q))) (src m o')) (src m q)) (body m))"
    using export_edges [OF b adj_frameD(1) [OF t1(2)] order.refl backs_distinct(1) [OF b]] t1(3) by auto
  have su: "succs t (src m o') = map (src m) (body_users m o')" if o': "o' \<in> set (body m)" for o'
  proof -
    have "count_list (map (src m) (operands (op_at m q))) (src m o') = count_list (operands (op_at m q)) o'"
      if "q \<in> set (body m)" for q
      using count_list_map_inj [OF backs_distinct(2) [OF b] backsD(4) [OF b that] o'] .
    then show ?thesis by (simp add: t(4) [OF o'] body_users_def map_concat comp_def cong: map_cong)
  qed
  have "export_command_graph m g s = Inr (upd_graph g (\<lambda>gr. gr\<lparr>entry := src m en, exit := src m ex\<rparr>) t)"
    using last_such_unique [of en "body m" "op_is_entry m", OF ends(1) en(1)]
      last_such_unique [of ex "body m" "op_is_exit m", OF ends(2) ex(1)]
    by (simp add: export_command_graph_def t1(1) t(1) t(3) [OF ends(1)] su [OF ends(2)] en(2) ex(2))
  moreover have "adj_frame s t" by (rule adj_frame_trans [OF t1(2) t(2)])
  ultimately show ?thesis using t(3) su by blast
qed

subsection \<open>Import\<close>

definition payload_of :: "store \<Rightarrow> graph_ref \<Rightarrow> node_ref \<Rightarrow> cg_payload" where
  "payload_of s g u =
     (if ntype (node_at s u) = COMMAND_GRAPH_NODE_TYPE_EMPTY
      then Empty_op (u = node_get_entry s g) (u = node_get_exit s g)
      else projr (import_command (commands s ! the (ncommand (node_at s u)))))"

text \<open>A node the import accepts.\<close>

definition importable :: "store \<Rightarrow> node_ref \<Rightarrow> bool" where
  "importable s u \<longleftrightarrow>
     ntype (node_at s u) = COMMAND_GRAPH_NODE_TYPE_EMPTY \<or>
     ntype (node_at s u) = COMMAND_GRAPH_NODE_TYPE_COMMAND \<and>
     (\<exists>c p. ncommand (node_at s u) = Some c \<and> import_command (commands s ! c) = Inr p)"

definition bare_op :: "store \<Rightarrow> graph_ref \<Rightarrow> node_ref \<Rightarrow> cg_op" where
  "bare_op s g u =
     \<lparr>duid = ucast (device_unique_id (node_at s u)), payload = payload_of s g u, operands = [], src_node = Some u\<rparr>"

definition index_preds :: "store \<Rightarrow> node_ref \<Rightarrow> op_ref list" where
  "index_preds s u = map (\<lambda>p. iterator_index (node_at s p)) (preds s u)"

definition imported :: "store \<Rightarrow> graph_ref \<Rightarrow> node_ref list \<Rightarrow> cg_graph" where
  "imported s g vec =
     \<lparr>ops = map (\<lambda>u. (bare_op s g u)\<lparr>operands := index_preds s u\<rparr>) vec, body = [0..<length vec]\<rparr>"

lemma create_node_op_ok:
  assumes "importable s u"
  shows "create_node_op s u (u = node_get_entry s g) (u = node_get_exit s g) m =
    Inr (create_op (ucast (device_unique_id (node_at s u))) (payload_of s g u) [] m)"
  using assms by (auto simp: importable_def create_node_op_def payload_of_def)

lemma import_node_ok:
  assumes "importable s u" "iterator_index (node_at s u) = i" "i < n" "length (ops m) = i"
  shows "import_node s g n u (v, m) =
    Inr (v[i := Some i], \<lparr>ops = ops m @ [bare_op s g u], body = body m @ [i]\<rparr>)"
  using assms(1-3) assms(4) [symmetric]
  by (cases m) (simp add: import_node_def create_node_op_ok create_op_def set_src_node_def upd_op_def bare_op_def)

lemma import_nodes:
  assumes "\<And>i. i < length vec \<Longrightarrow> importable s (vec ! i) \<and> iterator_index (node_at s (vec ! i)) = i"
  shows "for_each (import_node s g (length vec)) vec (replicate (length vec) None, \<lparr>ops = [], body = []\<rparr>) =
    Inr (map Some [0..<length vec], \<lparr>ops = map (bare_op s g) vec, body = [0..<length vec]\<rparr>)"
proof -
  let ?n = "length vec"
  let ?I = "\<lambda>k vm. vm = (map Some [0..<k] @ replicate (?n - k) None,
    \<lparr>ops = map (bare_op s g) (take k vec), body = [0..<k]\<rparr>)"
  have "\<exists>r. for_each (import_node s g ?n) vec (replicate ?n None, \<lparr>ops = [], body = []\<rparr>) = Inr r \<and> ?I ?n r"
  proof (rule for_each_invariant [where I = ?I])
    fix k vm assume k: "k < ?n" and I: "?I k vm"
    have "(map Some [0..<k] @ replicate (?n - k) None)[k := Some k] = map Some [0..<Suc k] @ replicate (?n - Suc k) None"
      using k by (simp add: list_update_append Suc_diff_Suc [symmetric])
    then show "\<exists>r. import_node s g ?n (vec ! k) vm = Inr r \<and> ?I (Suc k) r"
      using I assms [OF k] k by (simp add: import_node_ok take_Suc_conv_app_nth)
  qed simp
  then show ?thesis by simp
qed

lemma import_preds_ok:
  assumes "\<And>p. p \<in> set ps \<Longrightarrow> iterator_index (node_at s p) < n"
  shows "import_preds s (map Some [0..<n]) ps = Inr (map (\<lambda>p. iterator_index (node_at s p)) ps)"
  using assms by (induction ps) (auto simp: Let_def)

lemma import_all_edges:
  assumes "\<And>i. i < length vec \<Longrightarrow> iterator_index (node_at s (vec ! i)) = i"
    and "\<And>i p. i < length vec \<Longrightarrow> p \<in> set (preds s (vec ! i)) \<Longrightarrow> iterator_index (node_at s p) < length vec"
  shows "for_each (import_edges s (map Some [0..<length vec])) vec
      \<lparr>ops = map (bare_op s g) vec, body = [0..<length vec]\<rparr> = Inr (imported s g vec)"
proof -
  let ?n = "length vec"
  let ?op = "\<lambda>u. (bare_op s g u)\<lparr>operands := index_preds s u\<rparr>"
  let ?I = "\<lambda>k m. m = \<lparr>ops = map ?op (take k vec) @ map (bare_op s g) (drop k vec), body = [0..<?n]\<rparr>"
  have "\<exists>m. for_each (import_edges s (map Some [0..<?n])) vec \<lparr>ops = map (bare_op s g) vec, body = [0..<?n]\<rparr> = Inr m \<and> ?I ?n m"
  proof (rule for_each_invariant [where I = ?I])
    fix k m assume k: "k < ?n" and I: "?I k m"
    have "import_edges s (map Some [0..<?n]) (vec ! k) m = Inr (set_operands k (index_preds s (vec ! k)) m)"
      using assms k by (simp add: import_edges_def import_preds_ok index_preds_def)
    moreover have "set_operands k (index_preds s (vec ! k)) m =
        \<lparr>ops = map ?op (take (Suc k) vec) @ map (bare_op s g) (drop (Suc k) vec), body = [0..<?n]\<rparr>"
      using k by (simp add: I set_operands_def upd_op_def take_Suc_conv_app_nth Cons_nth_drop_Suc [symmetric] list_update_append nth_append)
    ultimately show "\<exists>r. import_edges s (map Some [0..<?n]) (vec ! k) m = Inr r \<and> ?I (Suc k) r" by simp
  qed simp
  then show ?thesis by (simp add: imported_def)
qed

text \<open>Reading an imported module.\<close>

lemma imported_body [simp]: "body (imported s g vec) = [0..<length vec]"
  by (simp add: imported_def)

lemma imported_op:
  assumes "i < length vec"
  shows "src_node (op_at (imported s g vec) i) = Some (vec ! i)" "src (imported s g vec) i = vec ! i"
    "payload (op_at (imported s g vec) i) = payload_of s g (vec ! i)"
    "operands (op_at (imported s g vec) i) = index_preds s (vec ! i)"
    "duid (op_at (imported s g vec) i) = ucast (device_unique_id (node_at s (vec ! i)))"
  using assms by (simp_all add: imported_def op_at_def src_def bare_op_def)

subsection \<open>One command there and back\<close>

lemma ucast_device: "ucast (ucast (d :: device_id) :: 32 word) = d"
  by (rule bit_word_eqI) (simp add: bit_ucast_iff)

lemma export_import_copy:
  "import_command c = Inr (Copy_1D_op a) \<Longrightarrow> export_copy_1D a = c"
  "import_command c = Inr (Copy_2D_op b) \<Longrightarrow> export_copy_2D b = c"
  by (cases c; auto simp: import_command_def bind_result_eq_Inr 
      import_copy_1D_def import_copy_2D_def export_copy_1D_def export_copy_2D_def ucast_device
      split: if_splits command_body.splits)+

lemma wf_command_imports: "wf_command c \<Longrightarrow> \<exists>p. import_command c = Inr p"
  by (cases "ctype c") (auto simp: wf_command_def import_command_def split: command_body.splits)

lemma payload_sync:
  assumes "importable s u" "ncommand (node_at s u) = Some c"
  shows "case payload_of s g u of Copy_1D_op a \<Rightarrow> commands s ! c = export_copy_1D a
    | Copy_2D_op a \<Rightarrow> commands s ! c = export_copy_2D a | _ \<Rightarrow> True"
proof (cases "ntype (node_at s u) = COMMAND_GRAPH_NODE_TYPE_EMPTY")
  case False
  then obtain p where "import_command (commands s ! c) = Inr p" using assms by (auto simp: importable_def)
  then show ?thesis
    using export_import_copy [of "commands s ! c"] False assms(2)
    by (cases p) (simp_all add: payload_of_def)
qed (simp add: payload_of_def)

subsection \<open>One graph there and back\<close>

lemma body_users_filter:
  assumes "\<And>o'. o' \<in> set (body m) \<Longrightarrow> distinct (operands (op_at m o'))"
  shows "body_users m t = filter (\<lambda>o'. t \<in> set (operands (op_at m o'))) (body m)"
proof -
  have "concat (map (\<lambda>o'. replicate (count_list (operands (op_at m o')) t) o') os) =
      filter (\<lambda>o'. t \<in> set (operands (op_at m o'))) os" if "set os \<subseteq> set (body m)" for os
    using that
  proof (induction os)
    case (Cons q os)
    then have "count_list (operands (op_at m q)) t = (if t \<in> set (operands (op_at m q)) then 1 else 0)"
      using count_list_distinct [OF assms, of q t] by (auto simp: count_list_0_iff)
    then show ?case using Cons by simp
  qed simp
  then show ?thesis by (simp add: body_users_def)
qed

text \<open>A graph whose edges are those of a well-formed one is well formed.\<close>

lemma wf_graph_same_edges:
  assumes "wf_graph s g V" "wf_adj t V" "edges t V = edges s V" "g < length (graphs t)"
    and "node_get_entry t g = node_get_entry s g" "node_get_exit t g = node_get_exit s g"
  shows "wf_graph t g V"
proof -
  have adj: "wf_adj s V" by (rule wf_graph_adj [OF assms(1)])
  have "set (preds t u) = set (preds s u)" "set (succs t u) = set (succs s u)" if u: "u \<in> V" for u
    using wf_adjD(2,3) [OF adj u] wf_adjD(2,3) [OF assms(2) u] u
      wf_adj_edge_pred [OF adj, of _ u] wf_adj_edge_pred [OF assms(2), of _ u]
      wf_adj_edge [OF adj, of u] wf_adj_edge [OF assms(2), of u] unfolding assms(3) by blast+
  then have "preds t u = [] \<longleftrightarrow> preds s u = []" "succs t u = [] \<longleftrightarrow> succs s u = []" if "u \<in> V" for u
    using that by (metis set_empty)+
  moreover note assms(1) [unfolded wf_graph_def]
  ultimately show ?thesis
    unfolding wf_graph_def assms(3,5,6) using assms(2,4) by blast
qed

lemma succs_determined:
  assumes "wf_adj t V" "wf_adj s V" "\<And>v. v \<in> V \<Longrightarrow> set (preds t v) = set (preds s v)" "u \<in> V"
  shows "set (succs t u) = set (succs s u)"
proof (rule set_eqI)
  fix v show "v \<in> set (succs t u) \<longleftrightarrow> v \<in> set (succs s u)"
  proof (cases "v \<in> V")
    case True
    then show ?thesis
      using wf_adj_sym [OF assms(1,4) True] wf_adj_sym [OF assms(2,4) True] assms(3) [OF True] by simp
  next
    case False
    then show ?thesis using wf_adjD(2) [OF assms(1,4)] wf_adjD(2) [OF assms(2,4)] by blast
  qed
qed

lemma export_wf_adj:
  assumes b: "backs m s" and d: "\<And>o'. o' \<in> set (body m) \<Longrightarrow> distinct (operands (op_at m o'))"
    and len: "length (nodes t) = length (nodes s)"
    and t: "\<And>o'. o' \<in> set (body m) \<Longrightarrow> preds t (src m o') = map (src m) (operands (op_at m o')) \<and>
       succs t (src m o') = map (src m) (body_users m o')"
  shows "wf_adj t (src m ` set (body m))"
    "edges t (src m ` set (body m)) = {(src m a, src m b') | a b'. b' \<in> set (body m) \<and> a \<in> set (operands (op_at m b'))}"
proof -
  note inj = backs_distinct(2) [OF b] and ops = backsD(4) [OF b]
  note u = body_users_filter [OF d]
  show "wf_adj t (src m ` set (body m))"
    unfolding wf_adj_def
  proof (intro conjI ballI; elim imageE; hypsubst)
    fix o' assume o': "o' \<in> set (body m)"
    show "src m o' < length (nodes t)" using backsD(2) [OF b o'] len by simp
    show "set (succs t (src m o')) \<subseteq> src m ` set (body m)" "set (preds t (src m o')) \<subseteq> src m ` set (body m)"
      using ops [OF o'] by (auto simp: t [OF o'] set_body_users)
    have "distinct (body_users m o')" using backs_distinct(1) [OF b] by (simp add: u)
    moreover have "set (body_users m o') \<subseteq> set (body m)" by (auto simp: set_body_users)
    ultimately show "distinct (succs t (src m o'))" "distinct (preds t (src m o'))"
      using d [OF o'] inj_on_subset [OF inj] ops [OF o'] by (simp_all add: t [OF o'] distinct_map)
    fix q assume q: "q \<in> set (body m)"
    have "src m q \<in> set (succs t (src m o')) \<longleftrightarrow> o' \<in> set (operands (op_at m q))"
      using inj_on_image_mem_iff [OF inj q, of "set (body_users m o')"] q
      by (auto simp: t [OF o'] set_body_users)
    moreover have "src m o' \<in> set (preds t (src m q)) \<longleftrightarrow> o' \<in> set (operands (op_at m q))"
      using inj_on_image_mem_iff [OF inj o' ops [OF q]] by (simp add: t [OF q])
    ultimately show "src m q \<in> set (succs t (src m o')) \<longleftrightarrow> src m o' \<in> set (preds t (src m q))" by simp
  qed
  show "edges t (src m ` set (body m)) = {(src m a, src m b') | a b'. b' \<in> set (body m) \<and> a \<in> set (operands (op_at m b'))}"
    using ops by (fastforce simp: edges_def t set_body_users)
qed

text \<open>What the import needs: nodes it knows, and control nodes at both ends.\<close>

definition import_ok :: "store \<Rightarrow> graph_ref \<Rightarrow> node_ref set \<Rightarrow> bool" where
  "import_ok s g V \<longleftrightarrow> (\<forall>u\<in>V. importable s u) \<and>
     ntype (node_at s (node_get_entry s g)) = COMMAND_GRAPH_NODE_TYPE_EMPTY \<and>
     ntype (node_at s (node_get_exit s g)) = COMMAND_GRAPH_NODE_TYPE_EMPTY"

lemma import_okI:
  assumes "copies_ok s V"
    and "\<And>u. u \<in> V \<Longrightarrow> ntype (node_at s u) = COMMAND_GRAPH_NODE_TYPE_EMPTY \<or> ntype (node_at s u) = COMMAND_GRAPH_NODE_TYPE_COMMAND"
    and "ntype (node_at s (node_get_entry s g)) = COMMAND_GRAPH_NODE_TYPE_EMPTY"
    and "ntype (node_at s (node_get_exit s g)) = COMMAND_GRAPH_NODE_TYPE_EMPTY"
  shows "import_ok s g V"
proof -
  have "importable s u" if u: "u \<in> V" for u
  proof (cases "ntype (node_at s u) = COMMAND_GRAPH_NODE_TYPE_COMMAND")
    case True
    then obtain c where "ncommand (node_at s u) = Some c" "c < length (commands s)"
      using assms(1) u by (auto simp: copies_ok_def commands_ok_def)
    moreover from this have "wf_command (commands s ! c)" using assms(1) by (simp add: copies_ok_def all_commands_def)
    ultimately show ?thesis using True wf_command_imports by (auto simp: importable_def)
  next
    case False
    then show ?thesis using assms(2) [OF u] by (simp add: importable_def)
  qed
  then show ?thesis using assms(3,4) by (simp add: import_ok_def)
qed

text \<open>The numbering of the nodes that the import relies on.\<close>

definition numbered :: "store \<Rightarrow> node_ref set \<Rightarrow> node_ref list \<Rightarrow> bool" where
  "numbered s V vec \<longleftrightarrow> distinct vec \<and> set vec = V \<and> (\<forall>i<length vec. iterator_index (node_at s (vec ! i)) = i)"

lemma numbered_index:
  assumes "numbered s V vec" "u \<in> V"
  shows "iterator_index (node_at s u) < length vec" "vec ! iterator_index (node_at s u) = u"
  using assms by (auto simp: numbered_def in_set_conv_nth)

lemma import_command_graph_ok:
  assumes "graph_ok s g V (Suc k)" "import_ok s g V"
  shows "\<exists>s1 vec. import_command_graph g s = Inr (s1, imported s1 g vec) \<and> graph_ok s1 g V k \<and>
    same_structure s s1 \<and> numbered s1 V vec \<and> import_ok s1 g V"
proof -
  obtain s1 vec where it: "create_node_iterators True COMMAND_GRAPH_WALK_SEARCH_DFS
      COMMAND_GRAPH_WALK_ORDER_PRE g s = (s1, vec)" by force
  note c = graph_ok_iterators [OF assms(1) it]
  have wf: "wf_graph s g V" "wf_graph s1 g V" using assms(1) c(1) by (simp_all add: graph_ok_def)
  have num: "numbered s1 V vec" using c(4-6) by (simp add: numbered_def iterated_def)
  note ss = c(2) [unfolded same_structure_def]
  have ends: "node_get_entry s1 g = node_get_entry s g" "node_get_exit s1 g = node_get_exit s g"
    using ss wf(1) by (simp_all add: wf_graph_def node_get_entry_def node_get_exit_def)
  have "importable s1 u \<longleftrightarrow> importable s u" if "u \<in> V" for u
    using ss wf_adjD(1) [OF wf_graph_adj [OF wf(1)] that] by (simp add: importable_def)
  moreover have "ntype (node_at s1 u) = ntype (node_at s u)" if "u \<in> V" for u
    using ss wf_adjD(1) [OF wf_graph_adj [OF wf(1)] that] by simp
  moreover have "node_get_entry s g \<in> V" "node_get_exit s g \<in> V" using wf(1) by (simp_all add: wf_graph_def)
  ultimately have imp: "import_ok s1 g V" using assms(2) by (simp add: import_ok_def ends)
  have nodes: "importable s1 (vec ! i) \<and> iterator_index (node_at s1 (vec ! i)) = i" if "i < length vec" for i
    using imp num nth_mem [OF that] that by (auto simp: import_ok_def numbered_def)
  have "iterator_index (node_at s1 p) < length vec" if "i < length vec" "p \<in> set (preds s1 (vec ! i))" for i p
  proof -
    have "vec ! i \<in> V" using num nth_mem [OF that(1)] by (simp add: numbered_def)
    then have "p \<in> V" using wf_adjD(3) [OF wf_graph_adj [OF wf(2)]] that(2) by blast
    then show ?thesis by (rule numbered_index [OF num])
  qed
  then have "import_command_graph g s = Inr (s1, imported s1 g vec)"
    using import_nodes [OF nodes, where g = g] import_all_edges [of vec s1 g] nodes
    by (simp add: import_command_graph_def it)
  then show ?thesis using c(1,2) num imp by blast
qed

text \<open>The imported module describes the graph it comes from.\<close>

lemma imported_operands:
  assumes "wf_graph s g V" "numbered s V vec" "i < length vec"
  shows "set (index_preds s (vec ! i)) \<subseteq> {0..<length vec}" "distinct (index_preds s (vec ! i))"
    "map ((!) vec) (index_preds s (vec ! i)) = preds s (vec ! i)"
proof -
  have "vec ! i \<in> V" using assms(2,3) nth_mem by (auto simp: numbered_def)
  then have p: "set (preds s (vec ! i)) \<subseteq> V" "distinct (preds s (vec ! i))"
    using wf_adjD(3,5) [OF wf_graph_adj [OF assms(1)]] by blast+
  note ix = numbered_index [OF assms(2)]
  show "set (index_preds s (vec ! i)) \<subseteq> {0..<length vec}" using p(1) ix(1) by (auto simp: index_preds_def)
  show "map ((!) vec) (index_preds s (vec ! i)) = preds s (vec ! i)"
    using p(1) ix(2) by (auto simp: index_preds_def intro!: map_idI)
  then show "distinct (index_preds s (vec ! i))" using p(2) by (metis distinct_map)
qed

lemma imported_pred:
  assumes "wf_graph s g V" "numbered s V vec" "i < length vec" "p < length vec"
  shows "vec ! p \<in> set (preds s (vec ! i)) \<longleftrightarrow> p \<in> set (index_preds s (vec ! i))"
proof -
  note o' = imported_operands [OF assms(1-3)]
  have "inj_on ((!) vec) {0..<length vec}"
    using assms(2) by (auto simp: inj_on_def numbered_def nth_eq_iff_index_eq)
  then have "vec ! p \<in> (!) vec ` set (index_preds s (vec ! i)) \<longleftrightarrow> p \<in> set (index_preds s (vec ! i))"
    using inj_on_image_mem_iff [OF _ _ o'(1)] assms(4) by simp
  moreover have "set (preds s (vec ! i)) = (!) vec ` set (index_preds s (vec ! i))"
    by (subst o'(3) [symmetric]) simp
  ultimately show ?thesis by simp
qed

lemma imported_backs:
  assumes wf: "wf_graph s g V" and num: "numbered s V vec" and imp: "import_ok s g V"
  shows "backs (imported s g vec) s" "src (imported s g vec) ` set (body (imported s g vec)) = V"
    "\<And>i. i < length vec \<Longrightarrow> op_is_entry (imported s g vec) i \<longleftrightarrow> vec ! i = node_get_entry s g"
    "\<And>i. i < length vec \<Longrightarrow> op_is_exit (imported s g vec) i \<longleftrightarrow> vec ! i = node_get_exit s g"
proof -
  let ?m = "imported s g vec"
  note ops = imported_op [of _ vec s g]
  have V: "vec ! i \<in> V" if "i < length vec" for i using num nth_mem [OF that] by (simp add: numbered_def)
  have imps: "importable s (vec ! i)" if "i < length vec" for i using imp V [OF that] by (simp add: import_ok_def)
  have inj: "inj_on (src ?m) {0..<length vec}"
    using num by (auto simp: inj_on_def ops numbered_def nth_eq_iff_index_eq)
  have sync: "in_sync ?m s i" if i: "i < length vec" for i
    using payload_sync [OF imps [OF i]] by (simp add: in_sync_def get_duid_def ops [OF i] ucast_device)
  show "backs ?m s"
    using inj sync wf_adjD(1) [OF wf_graph_adj [OF wf] V] imported_operands(1) [OF wf num]
    by (simp add: backs_def ops)
  show "src ?m ` set (body ?m) = V"
    using num by (auto simp: ops numbered_def in_set_conv_nth image_iff intro!: bexI)
  fix i assume i: "i < length vec"
  show "op_is_entry ?m i \<longleftrightarrow> vec ! i = node_get_entry s g" "op_is_exit ?m i \<longleftrightarrow> vec ! i = node_get_exit s g"
    using imp imps [OF i] by (auto simp: op_is_entry_def op_is_exit_def ops [OF i] payload_of_def import_ok_def
        importable_def import_command_def bind_result_eq_Inr split: if_splits)
qed

text \<open>The operations of entry and exit in an imported module.\<close>

lemma imported_ends:
  assumes wf: "wf_graph s g V" and num: "numbered s V vec" and imp: "import_ok s g V"
  obtains en ex where "en < length vec" "ex < length vec" "vec ! en = node_get_entry s g" "vec ! ex = node_get_exit s g"
    "\<And>i. i < length vec \<Longrightarrow> op_is_entry (imported s g vec) i \<longleftrightarrow> i = en"
    "\<And>i. i < length vec \<Longrightarrow> op_is_exit (imported s g vec) i \<longleftrightarrow> i = ex"
    "operands (op_at (imported s g vec) en) = []" "body_users (imported s g vec) ex = []"
proof
  let ?m = "imported s g vec"
  let ?en = "iterator_index (node_at s (node_get_entry s g))" and ?ex = "iterator_index (node_at s (node_get_exit s g))"
  have ends: "node_get_entry s g \<in> V" "node_get_exit s g \<in> V" using wf by (simp_all add: wf_graph_def)
  note ops = imported_op [of _ vec s g] and b = imported_backs [OF wf num imp]
  show en: "?en < length vec" "vec ! ?en = node_get_entry s g"
    and ex: "?ex < length vec" "vec ! ?ex = node_get_exit s g"
    using numbered_index [OF num ends(1)] numbered_index [OF num ends(2)] by simp_all
  have uniq: "vec ! i = vec ! j \<longleftrightarrow> i = j" if "i < length vec" "j < length vec" for i j
    using num that by (simp add: numbered_def nth_eq_iff_index_eq)
  show "op_is_entry ?m i \<longleftrightarrow> i = ?en" "op_is_exit ?m i \<longleftrightarrow> i = ?ex" if "i < length vec" for i
    using that b(3,4) uniq en ex by metis+
  show "operands (op_at ?m ?en) = []" using wf en by (simp add: ops index_preds_def wf_graph_def)
  have "?ex \<notin> set (operands (op_at ?m i))" if i: "i < length vec" for i
  proof
    assume "?ex \<in> set (operands (op_at ?m i))"
    then have "node_get_exit s g \<in> set (preds s (vec ! i))" using imported_pred [OF wf num i ex(1)] ex(2) i by (simp add: ops)
    moreover have "vec ! i \<in> V" using num nth_mem [OF i] by (simp add: numbered_def)
    ultimately have "vec ! i \<in> set (succs s (node_get_exit s g))"
      using wf_adj_sym [OF wf_graph_adj [OF wf] ends(2)] by blast
    then show False using wf by (simp add: wf_graph_def)
  qed
  then show "body_users ?m ?ex = []" by (simp add: body_users_def count_list_0_iff)
qed

lemma imported_exports:
  assumes wf: "wf_graph s g V" and num: "numbered s V vec" and imp: "import_ok s g V"
  shows "\<exists>t. export_command_graph (imported s g vec) g s = Inr t \<and> adj_frame s t \<and> wf_graph t g V \<and>
    edges t V = edges s V \<and> (\<forall>u\<in>V. preds t u = preds s u \<and> set (succs t u) = set (succs s u))"
proof -
  let ?m = "imported s g vec"
  note b = imported_backs [OF wf num imp] and ops = imported_op [of _ vec s g] and pre = imported_operands [OF wf num]
  obtain en ex where e: "en < length vec" "ex < length vec" "vec ! en = node_get_entry s g" "vec ! ex = node_get_exit s g"
    "\<And>i. i < length vec \<Longrightarrow> op_is_entry ?m i \<longleftrightarrow> i = en" "\<And>i. i < length vec \<Longrightarrow> op_is_exit ?m i \<longleftrightarrow> i = ex"
    "operands (op_at ?m en) = []" "body_users ?m ex = []" by (rule imported_ends [OF assms]) (rule that)
  obtain t where t: "export_command_graph ?m g s = Inr (upd_graph g (\<lambda>gr. gr\<lparr>entry := src ?m en, exit := src ?m ex\<rparr>) t)"
    "adj_frame s t" "\<And>i. i \<in> set (body ?m) \<Longrightarrow> preds t (src ?m i) = map (src ?m) (operands (op_at ?m i)) \<and>
       succs t (src ?m i) = map (src ?m) (body_users ?m i)"
    using export_backs [OF b(1), of en ex g] e by auto
  have t_eq: "upd_graph g (\<lambda>gr. gr\<lparr>entry := src ?m en, exit := src ?m ex\<rparr>) t = t"
    using adj_frameD(3) [OF t(2)] e(1-4)
    by (simp add: upd_graph_def node_get_entry_def node_get_exit_def graph_at_def ops)
  have prd: "preds t u = preds s u" if "u \<in> V" for u
  proof -
    note i = numbered_index [OF num that]
    have "map (src ?m) (index_preds s u) = map ((!) vec) (index_preds s u)"
      using pre(1) [OF i(1)] i(2) by (auto simp: ops)
    also have "\<dots> = preds s u" using pre(3) [OF i(1)] i(2) by simp
    finally show ?thesis using t(3) [of "iterator_index (node_at s u)"] i by (simp add: ops)
  qed
  have "distinct (operands (op_at ?m i))" if "i \<in> set (body ?m)" for i using that pre(2) by (simp add: ops)
  then have adj: "wf_adj t V" using export_wf_adj(1) [OF b(1) _ adj_frameD(1) [OF t(2)] t(3)] b(2) by simp
  have suc: "set (succs t u) = set (succs s u)" if "u \<in> V" for u
    using succs_determined [OF adj wf_graph_adj [OF wf] _ that] prd by simp
  then have ed: "edges t V = edges s V" by (auto simp: edges_def)
  have "wf_graph t g V"
    using wf_graph_same_edges [OF wf adj ed] wf adj_frameD(3,5,6) [OF t(2)] by (simp add: wf_graph_def)
  then show ?thesis using t(1,2) prd suc ed unfolding t_eq by blast
qed

text \<open>
  C15. Import and export are inverse on command graphs: a well-formed graph whose nodes are
  EMPTY nodes or COMMAND nodes with a command, and whose entry and exit are EMPTY, is accepted
  by \<^verbatim>\<open>import_command_graph\<close>; exporting the module it yields fails no assertion and gives the same
  graph back: same commands, same entry and exit, every node with its attributes and its
  predecessor list, and the same edges (the successor lists may be reordered).
\<close>

theorem mlir_roundtrip:
  assumes ok: "graph_ok s g V (Suc k)" and imp: "import_ok s g V"
  shows "\<exists>s1 m t. import_command_graph g s = Inr (s1, m) \<and> export_command_graph m g s1 = Inr t \<and>
    graph_ok t g V k \<and> commands t = commands s \<and> edges t V = edges s V \<and>
    node_get_entry t g = node_get_entry s g \<and> node_get_exit t g = node_get_exit s g \<and>
    (\<forall>u\<in>V. preds t u = preds s u \<and> set (succs t u) = set (succs s u) \<and>
       device_unique_id (node_at t u) = device_unique_id (node_at s u) \<and>
       ntype (node_at t u) = ntype (node_at s u) \<and> ncommand (node_at t u) = ncommand (node_at s u))"
proof -
  obtain s1 vec where im: "import_command_graph g s = Inr (s1, imported s1 g vec)" "graph_ok s1 g V k"
    "same_structure s s1" "numbered s1 V vec" "import_ok s1 g V"
    using import_command_graph_ok [OF ok imp] by blast
  have wf: "wf_graph s g V" "wf_graph s1 g V" using ok im(2) by (simp_all add: graph_ok_def)
  obtain t where t: "export_command_graph (imported s1 g vec) g s1 = Inr t" "adj_frame s1 t" "wf_graph t g V"
    "edges t V = edges s1 V" "\<forall>u\<in>V. preds t u = preds s1 u \<and> set (succs t u) = set (succs s1 u)"
    using imported_exports [OF wf(2) im(4,5)] by blast
  have "graph_ok t g V k" by (rule graph_ok_adj_frame [OF im(2) t(2,3)]) simp
  moreover note im(3) [unfolded same_structure_def] same_structure_edges [OF im(3) wf_graph_adj [OF wf(1)]]
  moreover have "u < length (nodes s)" if "u \<in> V" for u using wf_adjD(1) [OF wf_graph_adj [OF wf(1)] that] .
  moreover have "g < length (graphs s)" using wf(1) by (simp add: wf_graph_def)
  ultimately have "graph_ok t g V k \<and> commands t = commands s \<and> edges t V = edges s V \<and>
    node_get_entry t g = node_get_entry s g \<and> node_get_exit t g = node_get_exit s g \<and>
    (\<forall>u\<in>V. preds t u = preds s u \<and> set (succs t u) = set (succs s u) \<and>
       device_unique_id (node_at t u) = device_unique_id (node_at s u) \<and>
       ntype (node_at t u) = ntype (node_at s u) \<and> ncommand (node_at t u) = ncommand (node_at s u))"
    using t(4,5) by (simp add: adj_frameD [OF t(2)] node_get_entry_def node_get_exit_def)
  then show ?thesis using im(1) t(1) by blast
qed

end
