(* ===== verification/Mlir_Reduce_Edge.thy ===== *)
theory Mlir_Reduce_Edge
  imports Mlir_Roundtrip Mlir_Passes Reduce_Edge
begin

text \<open>
  The two implementations of reduce-edge. The \<^verbatim>\<open>cg-reduce-edge\<close> pass sorts the operations
  topologically, computes reachability in that order and erases the operands that name a
  redundant edge; the legacy pass walks the graph. Both leave the transitive reduction, which an
  acyclic graph has only one of, so that they delete the same edges.
\<close>

subsection \<open>The topological sort\<close>

definition dag :: "nat \<Rightarrow> (nat \<Rightarrow> nat list) \<Rightarrow> bool" where
  "dag n succ \<longleftrightarrow> (\<forall>i<n. distinct (succ i) \<and> set (succ i) \<subseteq> {..<n}) \<and>
     acyclic {(i, j). i < n \<and> j \<in> set (succ i)}"

text \<open>The predecessors of \<open>j\<close> that are not sorted yet.\<close>

definition pending :: "nat \<Rightarrow> (nat \<Rightarrow> nat list) \<Rightarrow> nat list \<Rightarrow> nat \<Rightarrow> nat set" where
  "pending n succ topo j = {i. i < n \<and> j \<in> set (succ i) \<and> i \<notin> set topo}"

definition kahn_inv :: "nat \<Rightarrow> (nat \<Rightarrow> nat list) \<Rightarrow> int list \<Rightarrow> nat list \<Rightarrow> nat list \<Rightarrow> bool" where
  "kahn_inv n succ deg queue topo \<longleftrightarrow>
     distinct (topo @ queue) \<and> length deg = n \<and>
     (\<forall>j<n. deg ! j = int (card (pending n succ topo j))) \<and>
     set (topo @ queue) = {j. j < n \<and> deg ! j = 0} \<and>
     (\<forall>as x bs i. topo = as @ x # bs \<longrightarrow> i < n \<longrightarrow> x \<in> set (succ i) \<longrightarrow> i \<in> set as)"

lemma dec_degree_fold:
  assumes "distinct ws" "set ws \<subseteq> {..<length deg}"
  shows "length (fst (fold dec_degree ws (deg, q))) = length deg"
    "j < length deg \<Longrightarrow> fst (fold dec_degree ws (deg, q)) ! j = (if j \<in> set ws then deg ! j - 1 else deg ! j)"
    "snd (fold dec_degree ws (deg, q)) = q @ filter (\<lambda>w. deg ! w = 1) ws"
proof -
  have "length (fst (fold dec_degree ws (deg, q))) = length deg \<and>
    (\<forall>j<length deg. fst (fold dec_degree ws (deg, q)) ! j = (if j \<in> set ws then deg ! j - 1 else deg ! j)) \<and>
    snd (fold dec_degree ws (deg, q)) = q @ filter (\<lambda>w. deg ! w = 1) ws"
    using assms
  proof (induction ws arbitrary: deg q)
    case (Cons w ws)
    let ?deg = "deg[w := deg ! w - 1]" and ?q = "if deg ! w = 1 then q @ [w] else q"
    have "fold dec_degree (w # ws) (deg, q) = fold dec_degree ws (?deg, ?q)"
      by (simp add: dec_degree_def Let_def)
    moreover have "filter (\<lambda>x. ?deg ! x = 1) ws = filter (\<lambda>x. deg ! x = 1) ws"
      using Cons.prems by (intro filter_cong) (auto simp: nth_list_update)
    ultimately show ?case using Cons.IH [of ?deg ?q] Cons.prems by (auto simp: nth_list_update)
  qed simp
  then show "length (fst (fold dec_degree ws (deg, q))) = length deg"
    "j < length deg \<Longrightarrow> fst (fold dec_degree ws (deg, q)) ! j = (if j \<in> set ws then deg ! j - 1 else deg ! j)"
    "snd (fold dec_degree ws (deg, q)) = q @ filter (\<lambda>w. deg ! w = 1) ws" by blast+
qed

lemma pending_snoc:
  "pending n succ (topo @ [u]) j = pending n succ topo j - {u}"
  by (auto simp: pending_def)

lemma finite_pending [simp]: "finite (pending n succ topo j)"
  by (simp add: pending_def)

lemma kahn_step:
  assumes dag: "dag n succ" and inv: "kahn_inv n succ deg (q @ [u]) topo"
  shows "kahn_inv n succ (fst (fold dec_degree (succ u) (deg, q))) (snd (fold dec_degree (succ u) (deg, q))) (topo @ [u])"
proof -
  have I: "distinct (topo @ q @ [u])" "\<And>j. j < n \<Longrightarrow> deg ! j = int (card (pending n succ topo j))"
    "set (topo @ q @ [u]) = {j. j < n \<and> deg ! j = 0}"
    "\<And>as x bs i. topo = as @ x # bs \<Longrightarrow> i < n \<Longrightarrow> x \<in> set (succ i) \<Longrightarrow> i \<in> set as"
    and len: "length deg = n"
    using inv unfolding kahn_inv_def by blast+
  have u: "u < n" "deg ! u = 0" "u \<notin> set topo" using I(1,3) by auto
  have su: "distinct (succ u)" "set (succ u) \<subseteq> {..<n}" using dag u(1) by (simp_all add: dag_def)
  let ?d = "fst (fold dec_degree (succ u) (deg, q))"
  have d: "length ?d = n" "\<And>j. j < n \<Longrightarrow> ?d ! j = (if j \<in> set (succ u) then deg ! j - 1 else deg ! j)"
    and q: "snd (fold dec_degree (succ u) (deg, q)) = q @ filter (\<lambda>w. deg ! w = 1) (succ u)"
    using dec_degree_fold [of "succ u" deg] su len by simp_all
  have pos: "deg ! j > 0" if "j \<in> set (succ u)" for j
  proof -
    have "j < n" using that su(2) by auto
    moreover have "u \<in> pending n succ topo j" using that u by (simp add: pending_def)
    ultimately show ?thesis using I(2) by (auto simp: card_gt_0_iff)
  qed
  have "distinct (topo @ [u] @ q @ filter (\<lambda>w. deg ! w = 1) (succ u))"
    using I(1,3) su(1) by (auto dest: pos)
  moreover have "?d ! j = int (card (pending n succ (topo @ [u]) j))" if j: "j < n" for j
  proof (cases "j \<in> set (succ u)")
    case True
    then have "u \<in> pending n succ topo j" using u by (simp add: pending_def)
    then have "card (pending n succ topo j) = Suc (card (pending n succ topo j - {u}))"
      by (rule card.remove [OF finite_pending])
    then show ?thesis using d(2) [OF j] True I(2) [OF j] by (simp add: pending_snoc)
  next
    case False
    then have "pending n succ topo j - {u} = pending n succ topo j" by (auto simp: pending_def)
    then show ?thesis using d(2) [OF j] False I(2) [OF j] by (simp add: pending_snoc)
  qed
  moreover have "set (topo @ [u] @ q @ filter (\<lambda>w. deg ! w = 1) (succ u)) = {j. j < n \<and> ?d ! j = 0}"
  proof -
    have "{j. j < n \<and> ?d ! j = 0} = {j. j < n \<and> deg ! j = 0} \<union> {j \<in> set (succ u). deg ! j = 1}"
    proof (rule set_eqI)
      fix j
      show "j \<in> {j. j < n \<and> ?d ! j = 0} \<longleftrightarrow> j \<in> {j. j < n \<and> deg ! j = 0} \<union> {j \<in> set (succ u). deg ! j = 1}"
        using d(2) [of j] pos [of j] su(2) by (cases "j \<in> set (succ u)") auto
    qed
    then show ?thesis using I(3) by auto
  qed
  moreover have "i \<in> set as" if s: "topo @ [u] = as @ x # bs" "i < n" "x \<in> set (succ i)" for as x bs i
  proof (cases bs rule: rev_cases)
    case Nil
    then have "x = u" "as = topo" using s(1) by simp_all
    moreover have "pending n succ topo u = {}" using I(2) [OF u(1)] u(2) by simp
    ultimately show ?thesis using s(2,3) by (auto simp: pending_def)
  next
    case (snoc bs' b)
    then have "topo = as @ x # bs'" using s(1) by simp
    then show ?thesis using I(4) s(2,3) by blast
  qed
  ultimately show ?thesis unfolding kahn_inv_def q using d(1) by simp
qed

lemma kahn_correct:
  assumes "dag n succ" "kahn_inv n succ deg queue topo" "n < fuel + length topo"
  shows "\<exists>deg' r. kahn fuel succ deg queue topo = Inr r \<and> kahn_inv n succ deg' [] r"
  using assms(2,3)
proof (induction fuel arbitrary: deg queue topo)
  case 0
  have "set topo \<subseteq> {..<n}" "distinct topo" using 0(1) by (auto simp: kahn_inv_def)
  then have "length topo \<le> n" by (metis card_lessThan card_mono distinct_card finite_lessThan)
  then show ?case using 0(2) by simp
next
  case (Suc fuel)
  show ?case
  proof (cases queue rule: rev_cases)
    case Nil
    then show ?thesis using Suc.prems(1) by auto
  next
    case (snoc q u)
    let ?r = "fold dec_degree (succ u) (deg, q)"
    have "kahn_inv n succ (fst ?r) (snd ?r) (topo @ [u])" using kahn_step [OF assms(1)] Suc.prems(1) snoc by simp
    from Suc.IH [OF this] Suc.prems(2) show ?thesis by (simp add: snoc split_beta)
  qed
qed

text \<open>When the queue is empty every index is sorted: a minimal one left would have degree 0.\<close>

lemma kahn_complete:
  assumes dag: "dag n succ" and inv: "kahn_inv n succ deg [] topo"
  shows "set topo = {..<n}"
proof (rule ccontr)
  assume a: "set topo \<noteq> {..<n}"
  let ?R = "{(i, j). i < n \<and> j \<in> set (succ i)}" and ?Q = "{..<n} - set topo"
  have sub: "set topo \<subseteq> {..<n}" using inv by (auto simp: kahn_inv_def)
  have "?R \<subseteq> {..<n} \<times> {..<n}" using dag by (auto simp: dag_def)
  then have "finite ?R" by (rule finite_subset) simp
  moreover have "acyclic ?R" using dag by (simp add: dag_def)
  ultimately have wf: "wf ?R" by (rule finite_acyclic_wf)
  obtain z where "z \<in> ?Q" using a sub by auto
  then obtain j where j: "j \<in> ?Q" "\<And>i. (i, j) \<in> ?R \<Longrightarrow> i \<notin> ?Q" by (rule wfE_min [OF wf]) blast
  then have "pending n succ topo j = {}" by (auto simp: pending_def)
  then have "deg ! j = 0" using inv j(1) by (simp add: kahn_inv_def)
  then show False using inv j(1) by (auto simp: kahn_inv_def)
qed

text \<open>The sort on the degrees the pass starts from.\<close>

lemma kahn_sorts:
  assumes dag: "dag n succ" and "length deg = n" "\<And>j. j < n \<Longrightarrow> deg ! j = int (card {i. i < n \<and> j \<in> set (succ i)})"
  shows "\<exists>topo. kahn (Suc n) succ deg (filter (\<lambda>i. deg ! i = 0) [0..<n]) [] = Inr topo \<and>
    distinct topo \<and> set topo = {..<n} \<and> (\<forall>as x bs. rev topo = as @ x # bs \<longrightarrow> set (succ x) \<subseteq> set as)"
proof -
  have "kahn_inv n succ deg (filter (\<lambda>i. deg ! i = 0) [0..<n]) []"
    using assms by (auto simp: kahn_inv_def pending_def)
  from kahn_correct [OF dag this, of "Suc n"] obtain deg' topo where t: "kahn (Suc n) succ deg (filter (\<lambda>i. deg ! i = 0) [0..<n]) [] = Inr topo"
    "kahn_inv n succ deg' [] topo" by auto
  have s: "distinct topo" "set topo = {..<n}" using t(2) kahn_complete [OF dag t(2)] by (auto simp: kahn_inv_def)
  have "set (succ x) \<subseteq> set as" if r: "rev topo = as @ x # bs" for as x bs
  proof
    fix y assume y: "y \<in> set (succ x)"
    have topo: "topo = rev bs @ x # rev as" using r by (metis append.assoc append_Cons append_Nil rev.simps(2) rev_append rev_rev_ident)
    then have x: "x < n" using s(2) by auto
    then have "y \<in> set topo" using dag y s(2) by (auto simp: dag_def)
    then obtain cs ds where c: "topo = cs @ y # ds" by (meson split_list)
    then have "x \<in> set cs" using t(2) x y unfolding kahn_inv_def by blast
    show "y \<in> set as"
    proof (rule ccontr)
      assume "y \<notin> set as"
      moreover have "y \<noteq> x" using c \<open>x \<in> set cs\<close> s(1) by auto
      ultimately have "y \<in> set bs" using \<open>y \<in> set topo\<close> topo by auto
      then obtain es fs where "rev bs = es @ y # fs" by (metis set_rev split_list)
      then have "topo = es @ y # (fs @ x # rev as)" using topo by simp
      then have "x \<in> set es" using t(2) x y unfolding kahn_inv_def by blast
      then show False using \<open>rev bs = es @ y # fs\<close> topo s(1) by auto
    qed
  qed
  then show ?thesis using t(1) s by blast
qed

subsection \<open>The transitive reduction of an acyclic relation\<close>

definition reduced :: "('a \<times> 'a) set \<Rightarrow> ('a \<times> 'a) set" where
  "reduced E = {(u, v) \<in> E. \<not> (\<exists>w. (u, w) \<in> E \<and> w \<noteq> v \<and> (w, v) \<in> E\<^sup>*)}"

lemma acyclic_antisym: "acyclic E \<Longrightarrow> (a, b) \<in> E\<^sup>* \<Longrightarrow> (b, a) \<in> E\<^sup>* \<Longrightarrow> a = b"
  using acyclic_impl_antisym_rtrancl by (auto simp: antisym_def)

lemma reduced_unique:
  assumes ac: "acyclic E" and sub: "F \<subseteq> E" and star: "F\<^sup>* = E\<^sup>*"
    and irr: "\<And>u v w. (u, v) \<in> F \<Longrightarrow> (u, w) \<in> F \<Longrightarrow> w \<noteq> v \<Longrightarrow> (w, v) \<notin> F\<^sup>*"
  shows "F = reduced E"
proof -
  have step: "\<exists>w. (u, w) \<in> F \<and> (w, v) \<in> F\<^sup>*" if "(u, v) \<in> E" for u v
  proof -
    have "(u, v) \<in> F\<^sup>*" using that star by auto
    moreover have "u \<noteq> v" using that ac by (auto simp: acyclic_def)
    ultimately show ?thesis by (metis converse_rtranclE)
  qed
  have "(u, v) \<in> reduced E" if uv: "(u, v) \<in> F" for u v
  proof -
    have "False" if w: "(u, w) \<in> E" "w \<noteq> v" "(w, v) \<in> F\<^sup>*" for w
    proof -
      obtain w' where w': "(u, w') \<in> F" "(w', w) \<in> F\<^sup>*" using step [OF w(1)] by blast
      have "(w', v) \<in> F\<^sup>*" using w'(2) w(3) by (rule rtrancl_trans)
      then have "w' = v" using irr [OF uv w'(1)] by blast
      then show False using acyclic_antisym [OF ac] w'(2) w(2,3) star by blast
    qed
    then show ?thesis using uv sub star by (auto simp: reduced_def)
  qed
  moreover have "(u, v) \<in> F" if uv: "(u, v) \<in> reduced E" for u v
  proof -
    have "(u, v) \<in> E" using uv by (simp add: reduced_def)
    then obtain w where w: "(u, w) \<in> F" "(w, v) \<in> F\<^sup>*" using step by blast
    then have "w = v" using uv sub star by (auto simp: reduced_def)
    then show ?thesis using w by simp
  qed
  ultimately show ?thesis by auto
qed

lemma legacy_edges:
  assumes "graph_ok s g V (2 + k)"
  shows "\<exists>t. pass_reduce_edge g s = Inr t \<and> edges t V = reduced (edges s V) \<and> (edges t V)\<^sup>* = (edges s V)\<^sup>*"
proof -
  obtain t where t: "pass_reduce_edge g s = Inr t" "graph_ok t g V k" "edges t V \<subseteq> edges s V"
    "(edges t V)\<^sup>* = (edges s V)\<^sup>*" "\<forall>u\<in>V. irredundant t V u"
    using pass_reduce_edge_ok [OF assms] by blast
  have "acyclic (edges s V)" using assms wf_graph_acyclic [of s g V] by (simp add: graph_ok_def)
  moreover have "(w, v) \<notin> (edges t V)\<^sup>*" if "(u, v) \<in> edges t V" "(u, w) \<in> edges t V" "w \<noteq> v" for u v w
    using t(5) that by (auto simp: irredundant_def edges_def)
  ultimately have "edges t V = reduced (edges s V)" using reduced_unique t(3,4) by blast
  then show ?thesis using t(1,4) by blast
qed

subsection \<open>Erasing operands\<close>

lemma op_at_erase:
  assumes "v < length (ops m)"
  shows "op_at (erase_first_operand i v m) w =
    (if w = v then (op_at m v)\<lparr>operands := remove1 i (operands (op_at m v))\<rparr> else op_at m w)"
  using assms by (simp add: erase_first_operand_def set_operands_def upd_op_def op_at_def)

lemma erase_frame [simp]:
  "body (erase_first_operand i v m) = body m" "length (ops (erase_first_operand i v m)) = length (ops m)"
  by (simp_all add: erase_first_operand_def set_operands_def upd_op_def)

lemma erase_pairs:
  assumes "\<And>i v. (i, v) \<in> set ps \<Longrightarrow> v < length (ops m)" "\<And>v. v < length (ops m) \<Longrightarrow> distinct (operands (op_at m v))"
  shows "body (fold (\<lambda>(i, v). erase_first_operand i v) ps m) = body m \<and>
    (\<forall>v<length (ops m). op_at (fold (\<lambda>(i, v). erase_first_operand i v) ps m) v =
       (op_at m v)\<lparr>operands := filter (\<lambda>i. (i, v) \<notin> set ps) (operands (op_at m v))\<rparr>)"
  using assms
proof (induction ps arbitrary: m)
  case (Cons p ps)
  obtain i v where p: "p = (i, v)" by force
  let ?m = "erase_first_operand i v m"
  have v: "v < length (ops m)" using Cons.prems(1) [of i v] p by simp
  have d: "distinct (operands (op_at ?m w))" if "w < length (ops ?m)" for w
    using Cons.prems(2) [of w] Cons.prems(2) [OF v] that by (simp add: op_at_erase [OF v])
  have len: "b < length (ops ?m)" if "(a, b) \<in> set ps" for a b using Cons.prems(1) that by auto
  have e: "remove1 i (operands (op_at m v)) = filter (\<lambda>x. x \<noteq> i) (operands (op_at m v))"
    using Cons.prems(2) [OF v] by (simp add: distinct_remove1_removeAll removeAll_filter_not_eq eq_commute)
  note IH = Cons.IH [OF len d]
  have "op_at (fold (\<lambda>(i, v). erase_first_operand i v) ps ?m) w =
      (op_at m w)\<lparr>operands := filter (\<lambda>i. (i, w) \<notin> set (p # ps)) (operands (op_at m w))\<rparr>"
    if w: "w < length (ops m)" for w
  proof -
    have "op_at (fold (\<lambda>(i, v). erase_first_operand i v) ps ?m) w =
        (op_at ?m w)\<lparr>operands := filter (\<lambda>i. (i, w) \<notin> set ps) (operands (op_at ?m w))\<rparr>"
      using IH w by simp
    then show ?thesis
      by (cases "w = v") (auto simp: op_at_erase [OF v] e p conj_commute intro!: filter_cong)
  qed
  then show ?case using IH p by simp
qed simp

subsection \<open>The pass on an imported module\<close>

lemma payload_not_batch: "importable s u \<Longrightarrow> payload_of s g u \<noteq> Batch_op ms"
  by (auto simp: importable_def payload_of_def import_command_def bind_result_eq_Inr split: if_splits)

lemma users_without_regions:
  assumes "\<And>o'. o' \<in> set (body m) \<Longrightarrow> region m o' = []"
  shows "users m t = body_users m t"
proof -
  have "live m = body m"
    using assms by (simp add: live_def cong: map_cong)
  then show ?thesis by (simp add: users_def body_users_def)
qed

lemma position_upt: "position j [a..<b] = (if a \<le> j \<and> j < b then Some (j - a) else None)"
proof (induction "b - a" arbitrary: a)
  case (Suc d)
  then have "[a..<b] = a # [Suc a..<b]" by (simp add: upt_conv_Cons)
  moreover have "position j [Suc a..<b] = (if Suc a \<le> j \<and> j < b then Some (j - Suc a) else None)"
    using Suc by simp
  ultimately show ?case using Suc.hyps(2) by (auto simp: not_le le_less)
qed simp

lemma set_vector_distinct: "distinct xs \<Longrightarrow> set_vector xs = xs"
proof -
  have "fold (\<lambda>x acc. if x \<in> set acc then acc else acc @ [x]) xs acc = acc @ xs"
    if "distinct (acc @ xs)" for acc
    using that by (induction xs arbitrary: acc) auto
  from this [of "[]"] show "distinct xs \<Longrightarrow> set_vector xs = xs" by (simp add: set_vector_def)
qed

lemma concat_singletons: "concat (map (\<lambda>x. [x]) xs) = xs"
  by (induction xs) simp_all

lemma imported_succ:
  assumes wf: "wf_graph s g V" and num: "numbered s V vec" and imp: "import_ok s g V"
    and ord: "is_permuting ord" and i: "i < length vec"
  shows "distinct (mlir_succ ord (imported s g vec) i)"
    "set (mlir_succ ord (imported s g vec) i) = {j. j < length vec \<and> (vec ! i, vec ! j) \<in> edges s V}"
proof -
  let ?m = "imported s g vec" and ?n = "length vec"
  note ops = imported_op [of _ vec s g]
  have V: "vec ! j \<in> V" if "j < ?n" for j using num nth_mem [OF that] by (simp add: numbered_def)
  have "region ?m j = []" if "j < ?n" for j
    using payload_not_batch imp V [OF that] by (auto simp: region_def ops [OF that] import_ok_def split: cg_payload.split)
  moreover have "distinct (operands (op_at ?m j))" if "j < ?n" for j
    using imported_operands(2) [OF wf num that] by (simp add: ops that)
  ultimately have us: "users ?m i = filter (\<lambda>j. i \<in> set (operands (op_at ?m j))) [0..<?n]"
    using users_without_regions [of ?m i] body_users_filter [of ?m i] by simp
  have p: "mset (ord (users ?m i)) = mset (users ?m i)" using ord by (simp add: is_permuting_def)
  have d: "distinct (ord (users ?m i))" using us mset_eq_imp_distinct_iff [OF p] by simp
  have st: "set (ord (users ?m i)) = set (users ?m i)" by (rule mset_eq_setD [OF p])
  have rng: "x < ?n" if "x \<in> set (ord (users ?m i))" for x
    using that unfolding st by (simp add: us)
  have "mlir_succ ord ?m i =
      concat (map (\<lambda>v. case position v [0..<?n] of None \<Rightarrow> [] | Some j \<Rightarrow> [j]) (ord (users ?m i)))"
    using i by (simp add: mlir_succ_def set_vector_distinct [OF d])
  also have "map (\<lambda>v. case position v [0..<?n] of None \<Rightarrow> [] | Some j \<Rightarrow> [j]) (ord (users ?m i)) =
      map (\<lambda>v. [v]) (ord (users ?m i))"
    using rng by (simp add: position_upt)
  finally have eq: "mlir_succ ord ?m i = ord (users ?m i)" by (simp add: concat_singletons)
  have "i \<in> set (operands (op_at ?m j)) \<longleftrightarrow> (vec ! i, vec ! j) \<in> edges s V" if "j < ?n" for j
    using imported_pred [OF wf num that i] wf_adj_edge_pred [OF wf_graph_adj [OF wf]] V [OF i] V [OF that]
    by (simp add: ops that)
  then show "distinct (mlir_succ ord ?m i)" "set (mlir_succ ord ?m i) = {j. j < ?n \<and> (vec ! i, vec ! j) \<in> edges s V}"
    unfolding eq st using d by (auto simp: us)
qed

lemma imported_indeg:
  assumes wf: "wf_graph s g V" and num: "numbered s V vec" and imp: "import_ok s g V"
    and ord: "is_permuting ord" and j: "j < length vec"
  shows "mlir_indeg (imported s g vec) j = int (card {i. i < length vec \<and> j \<in> set (mlir_succ ord (imported s g vec) i)})"
proof -
  let ?m = "imported s g vec" and ?n = "length vec"
  note pre = imported_operands [OF wf num j]
  have V: "vec ! i \<in> V" if "i < ?n" for i using num nth_mem [OF that] by (simp add: numbered_def)
  have "position d [0..<?n] \<noteq> None" if "d \<in> set (index_preds s (vec ! j))" for d
    using pre(1) that by (auto simp: position_upt)
  then have "mlir_indeg ?m j = int (length (index_preds s (vec ! j)))"
    using pre(2) j by (simp add: mlir_indeg_def imported_op set_vector_distinct)
  also have "length (index_preds s (vec ! j)) = card (set (index_preds s (vec ! j)))"
    by (rule distinct_card [OF pre(2), symmetric])
  also have "set (index_preds s (vec ! j)) = {i. i < ?n \<and> j \<in> set (mlir_succ ord ?m i)}"
  proof -
    have "i \<in> set (index_preds s (vec ! j)) \<longleftrightarrow> (vec ! i, vec ! j) \<in> edges s V" if "i < ?n" for i
      using imported_pred [OF wf num j that] wf_adj_edge_pred [OF wf_graph_adj [OF wf]] V [OF j] V [OF that] by simp
    then show ?thesis using imported_succ(2) [OF wf num imp ord] pre(1) j by auto
  qed
  finally show ?thesis .
qed

lemma imported_dag:
  assumes wf: "wf_graph s g V" and num: "numbered s V vec" and imp: "import_ok s g V" and ord: "is_permuting ord"
  shows "dag (length vec) (mlir_succ ord (imported s g vec))"
proof -
  let ?R = "{(i, j). i < length vec \<and> j \<in> set (mlir_succ ord (imported s g vec) i)}"
  note succ = imported_succ [OF wf num imp ord]
  have "(vec ! i, vec ! j) \<in> (edges s V)\<^sup>+" if "(i, j) \<in> ?R\<^sup>+" for i j
    using that
  proof (induction rule: trancl_induct)
    case (base y)
    then show ?case using succ(2) by auto
  next
    case (step y z)
    then have "(vec ! y, vec ! z) \<in> edges s V" using succ(2) by auto
    with step.IH show ?case by (rule trancl_into_trancl)
  qed
  then have "acyclic ?R" using wf_graph_acyclic [OF wf] by (auto simp: acyclic_def)
  then show ?thesis using succ by (auto simp: dag_def)
qed

lemma rtrancl_closed:
  assumes "\<And>x y. (x, y) \<in> R \<Longrightarrow> x \<in> A \<Longrightarrow> y \<in> A" "a \<in> A"
  shows "(a, b) \<in> R\<^sup>* \<longleftrightarrow> (a, b) \<in> (R \<inter> A \<times> A)\<^sup>*"
proof
  show "(a, b) \<in> R\<^sup>*" if "(a, b) \<in> (R \<inter> A \<times> A)\<^sup>*"
    using that rtrancl_mono [of "R \<inter> A \<times> A" R] by blast
  assume "(a, b) \<in> R\<^sup>*"
  then have "(a, b) \<in> (R \<inter> A \<times> A)\<^sup>* \<and> b \<in> A"
  proof (induction rule: rtrancl_induct)
    case (step y z)
    then have "(y, z) \<in> R \<inter> A \<times> A" using assms(1) by blast
    then show ?case using step.IH by (auto intro: rtrancl.rtrancl_into_rtrancl)
  qed (use assms(2) in simp)
  then show "(a, b) \<in> (R \<inter> A \<times> A)\<^sup>*" ..
qed

lemma imported_reachability:
  assumes wf: "wf_graph s g V" and num: "numbered s V vec" and imp: "import_ok s g V" and ord: "is_permuting ord"
    and topo: "distinct topo" "set topo = {..<length vec}"
      "\<forall>as x bs. rev topo = as @ x # bs \<longrightarrow> set (mlir_succ ord (imported s g vec) x) \<subseteq> set as"
    and ab: "a < length vec" "b < length vec"
  shows "bs_test (mlir_reachability (mlir_succ ord (imported s g vec)) (length vec) topo) a b \<longleftrightarrow>
    (vec ! a, vec ! b) \<in> (edges s V)\<^sup>*"
proof -
  let ?n = "length vec" and ?succ = "mlir_succ ord (imported s g vec)" and ?idx = "\<lambda>u. iterator_index (node_at s u)"
  let ?A = "{(x, y). y \<in> set (?succ x)}" and ?B = "{(x, y). x < ?n \<and> y < ?n \<and> (vec ! x, vec ! y) \<in> edges s V}"
  note succ = imported_succ [OF wf num imp ord]
  have V: "vec ! i \<in> V \<and> ?idx (vec ! i) = i" if "i < ?n" for i
    using num nth_mem [OF that] that by (auto simp: numbered_def)
  have sub: "set (?succ x) \<subseteq> {..<?n}" if "x < ?n" for x using succ(2) [OF that] by auto
  have "bs_test (mlir_reachability ?succ ?n topo) a b \<longleftrightarrow> a \<in> set (rev topo) \<and> (a, b) \<in> ?A\<^sup>*"
    unfolding mlir_reachability_def
  proof (rule packed.closure_sweep [THEN conjunct2, rule_format])
    show "distinct (rev topo)" "set (rev topo) \<subseteq> {..<?n}" "a < ?n" "b < ?n" using topo ab by simp_all
    show "set (?succ x) \<subseteq> set (rev topo)" if "x \<in> set (rev topo)" for x using that sub topo(2) by simp
    show "set (?succ x) \<subseteq> set as" if "rev topo = as @ x # bs" for as x bs using topo(3) that by blast
  qed
  also have "\<dots> \<longleftrightarrow> (a, b) \<in> ?A\<^sup>*" using ab topo(2) by simp
  also have "\<dots> \<longleftrightarrow> (a, b) \<in> (?A \<inter> {..<?n} \<times> {..<?n})\<^sup>*"
    by (rule rtrancl_closed) (use sub ab in auto)
  also have "?A \<inter> {..<?n} \<times> {..<?n} = ?B" using succ(2) by auto
  also have "(a, b) \<in> ?B\<^sup>* \<longleftrightarrow> (?idx (vec ! a), ?idx (vec ! b)) \<in> ?B\<^sup>*" using V ab by simp
  also have "\<dots> \<longleftrightarrow> (vec ! a, vec ! b) \<in> (edges s V)\<^sup>*"
    by (rule rtrancl_relabel [of ?n vec V ?idx "edges s V"])
      (use V ab numbered_index [OF num] wf_adj_edge [OF wf_graph_adj [OF wf]] in auto)
  finally show ?thesis .
qed

lemma imported_redundant:
  assumes wf: "wf_graph s g V" and num: "numbered s V vec" and imp: "import_ok s g V" and ord: "is_permuting ord"
    and iv: "i < length vec" "v < length vec"
    and r: "\<And>w. w < length vec \<Longrightarrow> bs_test r w v \<longleftrightarrow> (vec ! w, vec ! v) \<in> (edges s V)\<^sup>*"
  shows "mlir_redundant r (mlir_succ ord (imported s g vec) i) v \<and> (vec ! i, vec ! v) \<in> edges s V \<longleftrightarrow>
    (vec ! i, vec ! v) \<in> edges s V - reduced (edges s V)"
proof -
  let ?n = "length vec" and ?E = "edges s V"
  have uniq: "vec ! i = vec ! j \<longleftrightarrow> i = j" if "i < ?n" "j < ?n" for i j
    using num that by (simp add: numbered_def nth_eq_iff_index_eq)
  have "mlir_redundant r (mlir_succ ord (imported s g vec) i) v \<longleftrightarrow>
      (\<exists>w<?n. (vec ! i, vec ! w) \<in> ?E \<and> w \<noteq> v \<and> (vec ! w, vec ! v) \<in> ?E\<^sup>*)"
    using imported_succ(2) [OF wf num imp ord iv(1)] r by (auto simp: mlir_redundant_def list_ex_iff)
  also have "\<dots> \<longleftrightarrow> (\<exists>w. (vec ! i, w) \<in> ?E \<and> w \<noteq> vec ! v \<and> (w, vec ! v) \<in> ?E\<^sup>*)"
  proof -
    have "\<exists>k<?n. w = vec ! k" if "(vec ! i, w) \<in> ?E" for w
      using that wf_adj_edge [OF wf_graph_adj [OF wf]] numbered_index [OF num, of w] by metis
    then show ?thesis using uniq iv(2) by metis
  qed
  finally show ?thesis by (auto simp: reduced_def)
qed

lemma fold_filter_if: "fold (\<lambda>v g. if P v then f v g else g) xs a = fold f (filter P xs) a"
  by (induction xs arbitrary: a) simp_all

lemma fold_pairs: "fold (\<lambda>i. fold (f i) (h i)) xs a = fold (\<lambda>(i, v). f i v) (concat (map (\<lambda>i. map (Pair i) (h i)) xs)) a"
proof (induction xs arbitrary: a)
  case (Cons x xs)
  have "fold (\<lambda>(i, v). f i v) (map (Pair x) ys) a = fold (f x) ys a" for ys a
    by (induction ys arbitrary: a) simp_all
  then show ?case using Cons by simp
qed simp

lemma imported_reduce_edge:
  assumes wf: "wf_graph s g V" and num: "numbered s V vec" and imp: "import_ok s g V" and ord: "is_permuting ord"
  shows "\<exists>m. mlir_reduce_edge ord (imported s g vec) = Inr m \<and> body m = [0..<length vec] \<and>
    (\<forall>v<length vec. op_at m v = (op_at (imported s g vec) v)
       \<lparr>operands := filter (\<lambda>i. (vec ! i, vec ! v) \<in> reduced (edges s V)) (index_preds s (vec ! v))\<rparr>)"
proof -
  let ?m = "imported s g vec" and ?n = "length vec" and ?E = "edges s V"
  let ?succ = "mlir_succ ord ?m" and ?deg = "map (mlir_indeg ?m) [0..<?n]"
  note succ = imported_succ [OF wf num imp ord] and ops = imported_op [of _ vec s g]
  have uniq: "vec ! i = vec ! j \<longleftrightarrow> i = j" if "i < ?n" "j < ?n" for i j
    using num that by (simp add: numbered_def nth_eq_iff_index_eq)
  have deg: "length ?deg = ?n" "\<And>j. j < ?n \<Longrightarrow> ?deg ! j = int (card {i. i < ?n \<and> j \<in> set (?succ i)})"
    using imported_indeg [OF wf num imp ord] by simp_all
  obtain topo where topo: "kahn (Suc ?n) ?succ ?deg (filter (\<lambda>i. ?deg ! i = 0) [0..<?n]) [] = Inr topo"
    "distinct topo" "set topo = {..<?n}" "\<forall>as x bs. rev topo = as @ x # bs \<longrightarrow> set (?succ x) \<subseteq> set as"
    using kahn_sorts [OF imported_dag [OF wf num imp ord] deg] by blast
  let ?r = "mlir_reachability ?succ ?n topo"
  note r = imported_reachability [OF wf num imp ord topo(2-4)]
  let ?ps = "concat (map (\<lambda>i. map (Pair i) (filter (mlir_redundant ?r (?succ i)) (?succ i))) [0..<?n])"
  have red: "(i, v) \<in> set ?ps \<longleftrightarrow> (vec ! i, vec ! v) \<in> ?E - reduced ?E" if iv: "i < ?n" "v < ?n" for i v
  proof -
    have "(i, v) \<in> set ?ps \<longleftrightarrow> mlir_redundant ?r (?succ i) v \<and> (vec ! i, vec ! v) \<in> ?E"
      using succ(2) [OF iv(1)] iv by (auto simp: image_iff)
    then show ?thesis using imported_redundant [OF wf num imp ord iv r [OF _ iv(2)]] by simp
  qed
  have len: "v < length (ops ?m)" if "(i, v) \<in> set ?ps" for i v
    using that succ(2) by (auto simp: imported_def)
  have n: "length (ops ?m) = ?n" by (simp add: imported_def)
  have dist: "distinct (operands (op_at ?m v))" if "v < length (ops ?m)" for v
    using imported_operands(2) [OF wf num] that by (simp add: ops n)
  let ?m' = "fold (\<lambda>(i, v). erase_first_operand i v) ?ps ?m"
  have e: "body ?m' = body ?m" "\<And>v. v < ?n \<Longrightarrow> op_at ?m' v =
      (op_at ?m v)\<lparr>operands := filter (\<lambda>i. (i, v) \<notin> set ?ps) (operands (op_at ?m v))\<rparr>"
    using erase_pairs [of ?ps ?m] len dist unfolding n by blast+
  have "?n \<noteq> 0" using wf num by (auto simp: wf_graph_def numbered_def)
  moreover have "fold (\<lambda>i. fold (\<lambda>v g'. if mlir_redundant ?r (?succ i) v
      then erase_first_operand (body ?m ! i) (body ?m ! v) g' else g') (?succ i)) [0..<?n] ?m = ?m'"
  proof -
    have "fold (\<lambda>v g'. if mlir_redundant ?r (?succ i) v then erase_first_operand (body ?m ! i) (body ?m ! v) g' else g')
        (?succ i) a = fold (erase_first_operand i) (filter (mlir_redundant ?r (?succ i)) (?succ i)) a" if "i < ?n" for i a
      unfolding fold_filter_if by (rule fold_cong) (use that succ(2) in auto)
    then have "fold (\<lambda>i. fold (\<lambda>v g'. if mlir_redundant ?r (?succ i) v
        then erase_first_operand (body ?m ! i) (body ?m ! v) g' else g') (?succ i)) [0..<?n] ?m =
        fold (\<lambda>i. fold (erase_first_operand i) (filter (mlir_redundant ?r (?succ i)) (?succ i))) [0..<?n] ?m"
      by (intro fold_cong) (auto intro!: ext)
    then show ?thesis unfolding fold_pairs .
  qed
  ultimately have "mlir_reduce_edge ord ?m = Inr ?m'"
    unfolding mlir_reduce_edge_def Let_def using topo(1) by simp
  moreover have "op_at ?m' v = (op_at ?m v)\<lparr>operands := filter (\<lambda>i. (vec ! i, vec ! v) \<in> reduced ?E) (index_preds s (vec ! v))\<rparr>"
    if v: "v < ?n" for v
  proof -
    have "(i, v) \<notin> set ?ps \<longleftrightarrow> (vec ! i, vec ! v) \<in> reduced ?E" if i: "i \<in> set (index_preds s (vec ! v))" for i
    proof -
      have "i < ?n" using imported_operands(1) [OF wf num v] i by auto
      moreover from this have "(vec ! i, vec ! v) \<in> ?E"
        using imported_pred [OF wf num v] wf_adj_edge_pred [OF wf_graph_adj [OF wf]] i num v by (auto simp: numbered_def)
      ultimately show ?thesis using red [OF _ v] by blast
    qed
    then have "filter (\<lambda>i. (i, v) \<notin> set ?ps) (index_preds s (vec ! v)) =
        filter (\<lambda>i. (vec ! i, vec ! v) \<in> reduced ?E) (index_preds s (vec ! v))" by (rule filter_cong [OF refl])
    moreover have "op_at ?m' v = (op_at ?m v)\<lparr>operands := filter (\<lambda>i. (i, v) \<notin> set ?ps) (index_preds s (vec ! v))\<rparr>"
      using e(2) [OF v] unfolding ops(4) [OF v] .
    ultimately show ?thesis by simp
  qed
  ultimately show ?thesis using e(1) by auto
qed

subsection \<open>Exporting with fewer operands\<close>

definition restricts :: "cg_graph \<Rightarrow> store \<Rightarrow> graph_ref \<Rightarrow> node_ref list \<Rightarrow> (node_ref \<times> node_ref) set \<Rightarrow> bool" where
  "restricts m s g vec F \<longleftrightarrow> body m = [0..<length vec] \<and>
     (\<forall>v<length vec. op_at m v = (op_at (imported s g vec) v)
        \<lparr>operands := filter (\<lambda>i. (vec ! i, vec ! v) \<in> F) (index_preds s (vec ! v))\<rparr>)"

lemma restricts_op:
  assumes "restricts m s g vec F" "v < length vec"
  shows "src m v = vec ! v" "src_node (op_at m v) = Some (vec ! v)" "in_sync m s v \<longleftrightarrow> in_sync (imported s g vec) s v"
    "op_is_entry m v \<longleftrightarrow> op_is_entry (imported s g vec) v" "op_is_exit m v \<longleftrightarrow> op_is_exit (imported s g vec) v"
    "operands (op_at m v) = filter (\<lambda>i. (vec ! i, vec ! v) \<in> F) (index_preds s (vec ! v))"
proof -
  have o': "op_at m v = (op_at (imported s g vec) v)\<lparr>operands := filter (\<lambda>i. (vec ! i, vec ! v) \<in> F) (index_preds s (vec ! v))\<rparr>"
    using assms by (simp add: restricts_def)
  show "src m v = vec ! v" "src_node (op_at m v) = Some (vec ! v)"
    "operands (op_at m v) = filter (\<lambda>i. (vec ! i, vec ! v) \<in> F) (index_preds s (vec ! v))"
    "op_is_entry m v \<longleftrightarrow> op_is_entry (imported s g vec) v" "op_is_exit m v \<longleftrightarrow> op_is_exit (imported s g vec) v"
    using imported_op(1,2) [OF assms(2)] by (simp_all add: o' src_def op_is_entry_def op_is_exit_def)
  then show "in_sync m s v \<longleftrightarrow> in_sync (imported s g vec) s v"
    using imported_op(2) [OF assms(2), of s g] unfolding in_sync_def get_duid_def by (simp add: o')
qed

lemma export_restricted:
  assumes wf: "wf_graph s g V" and num: "numbered s V vec" and imp: "import_ok s g V" and m: "restricts m s g vec F"
  shows "\<exists>t. export_command_graph m g s = Inr t \<and> adj_frame s t \<and> wf_adj t V \<and> edges t V = edges s V \<inter> F"
proof -
  let ?m = "imported s g vec" and ?n = "length vec"
  note b = imported_backs [OF wf num imp] and ops = restricts_op [OF m] and pre = imported_operands [OF wf num]
  have body: "body m = [0..<?n]" using m by (simp add: restricts_def)
  obtain en ex where e: "en < ?n" "ex < ?n" "vec ! en = node_get_entry s g" "vec ! ex = node_get_exit s g"
    "\<And>i. i < ?n \<Longrightarrow> op_is_entry ?m i \<longleftrightarrow> i = en" "\<And>i. i < ?n \<Longrightarrow> op_is_exit ?m i \<longleftrightarrow> i = ex"
    "operands (op_at ?m en) = []" "body_users ?m ex = []" by (rule imported_ends [OF wf num imp]) (rule that)
  have same: "src m v = src ?m v" if "v \<in> {0..<?n}" for v using that by (simp add: ops imported_op)
  have "src m ` {0..<?n} = src ?m ` {0..<?n}" by (rule image_cong [OF refl same])
  then have V: "src m ` set (body m) = V" using b(2) by (simp add: body)
  have sub: "set (operands (op_at m v)) \<subseteq> set (index_preds s (vec ! v))" if "v < ?n" for v by (auto simp: ops that)
  have bm: "backs m s"
    unfolding backs_def
  proof (intro conjI ballI)
    show "distinct (body m)" by (simp add: body)
    show "inj_on (src m) (set (body m))"
      using backs_distinct(2) [OF b(1)] inj_on_cong [of "{0..<?n}" "src m" "src ?m", OF same] by (simp add: body)
    fix v assume "v \<in> set (body m)"
    then have v: "v < ?n" by (simp add: body)
    then show "src_node (op_at m v) = Some (src m v)" "src m v < length (nodes s)" "in_sync m s v"
      "set (operands (op_at m v)) \<subseteq> set (body m)"
      using backsD(2,3) [OF b(1), of v] sub [OF v] pre(1) [OF v] by (auto simp: ops body imported_op)
  qed
  have d: "distinct (operands (op_at m v))" if "v \<in> set (body m)" for v using that pre(2) by (simp add: ops body)
  have "operands (op_at m en) = []" using e(1,7) by (simp add: ops imported_op)
  moreover have "body_users m ex = []"
  proof -
    have "set (body_users m ex) \<subseteq> set (body_users ?m ex)"
      by (auto simp: set_body_users body imported_op ops)
    then show ?thesis using e(8) by simp
  qed
  ultimately obtain t where t: "export_command_graph m g s =
      Inr (upd_graph g (\<lambda>gr. gr\<lparr>entry := src m en, exit := src m ex\<rparr>) t)" "adj_frame s t"
    "\<And>v. v \<in> set (body m) \<Longrightarrow> preds t (src m v) = map (src m) (operands (op_at m v)) \<and>
       succs t (src m v) = map (src m) (body_users m v)"
    using export_backs [OF bm, of en ex g] e by (auto simp: body ops)
  have t_eq: "upd_graph g (\<lambda>gr. gr\<lparr>entry := src m en, exit := src m ex\<rparr>) t = t"
    using adj_frameD(3) [OF t(2)] e(1-4)
    by (simp add: upd_graph_def node_get_entry_def node_get_exit_def graph_at_def ops)
  have w: "wf_adj t V" "edges t V = {(src m a, src m c) | a c. c \<in> set (body m) \<and> a \<in> set (operands (op_at m c))}"
    using export_wf_adj [OF bm d adj_frameD(1) [OF t(2)] t(3)] unfolding V by blast+
  have "edges t V = edges s V \<inter> F"
  proof -
    have E: "(vec ! a, vec ! c) \<in> edges s V \<longleftrightarrow> a \<in> set (index_preds s (vec ! c))" if "a < ?n" "c < ?n" for a c
      using imported_pred [OF wf num that(2,1)] wf_adj_edge_pred [OF wf_graph_adj [OF wf]] num that by (auto simp: numbered_def)
    have lt: "a < ?n" if "c < ?n" "a \<in> set (index_preds s (vec ! c))" for a c using pre(1) [OF that(1)] that(2) by auto
    have "(x, y) \<in> edges s V \<inter> F" if xy: "(x, y) \<in> edges t V" for x y
    proof -
      obtain a c where ac: "c < ?n" "a \<in> set (operands (op_at m c))" "x = src m a" "y = src m c"
        using xy unfolding w(2) body by auto
      then have "a \<in> set (index_preds s (vec ! c))" "(vec ! a, vec ! c) \<in> F" by (simp_all add: ops)
      then show ?thesis using E [OF lt [OF ac(1)] ac(1)] ac lt [OF ac(1)] by (simp add: ops)
    qed
    moreover have "(x, y) \<in> edges t V" if xy: "(x, y) \<in> edges s V \<inter> F" for x y
    proof -
      have "x \<in> V" "y \<in> V" using xy wf_adj_edge [OF wf_graph_adj [OF wf]] by auto
      then obtain a c where ac: "a < ?n" "c < ?n" "x = vec ! a" "y = vec ! c" using numbered_index [OF num] by metis
      then have "a \<in> set (operands (op_at m c))" using xy E [OF ac(1,2)] by (simp add: ops)
      moreover have "x = src m a" "y = src m c" using ac by (simp_all add: ops)
      ultimately show ?thesis unfolding w(2) body using ac(2) by auto
    qed
    ultimately show ?thesis by auto
  qed
  then show ?thesis using t(1,2) w(1) unfolding t_eq by blast
qed

subsection \<open>The two passes\<close>

lemma mlir_reduce_edge_ok:
  assumes ok: "graph_ok s g V (2 + k)" and imp: "import_ok s g V" and ord: "is_permuting ord"
  shows "\<exists>s1 m m' t. import_command_graph g s = Inr (s1, m) \<and> mlir_reduce_edge ord m = Inr m' \<and>
    export_command_graph m' g s1 = Inr t \<and> graph_ok t g V (Suc k) \<and> edges t V = reduced (edges s V) \<and>
    commands t = commands s"
proof -
  have ok1: "graph_ok s g V (Suc (Suc k))" using ok by simp
  obtain s1 vec where im: "import_command_graph g s = Inr (s1, imported s1 g vec)" "graph_ok s1 g V (Suc k)"
    "same_structure s s1" "numbered s1 V vec" "import_ok s1 g V"
    using import_command_graph_ok [OF ok1 imp] by blast
  have wf: "wf_graph s g V" "wf_graph s1 g V" using ok im(2) by (simp_all add: graph_ok_def)
  have E: "edges s1 V = edges s V" by (rule same_structure_edges [OF im(3) wf_graph_adj [OF wf(1)]])
  obtain m where m: "mlir_reduce_edge ord (imported s1 g vec) = Inr m" "restricts m s1 g vec (reduced (edges s V))"
    using imported_reduce_edge [OF wf(2) im(4,5) ord] by (auto simp: restricts_def E)
  obtain t where t: "export_command_graph m g s1 = Inr t" "adj_frame s1 t" "wf_adj t V"
    "edges t V = edges s1 V \<inter> reduced (edges s V)"
    using export_restricted [OF wf(2) im(4,5) m(2)] by blast
  have red: "edges t V = reduced (edges s V)" using t(4) by (auto simp: E reduced_def)
  have "(edges t V)\<^sup>* = (edges s1 V)\<^sup>*" using legacy_edges [OF ok] by (auto simp: red E)
  moreover have "edges t V \<subseteq> edges s1 V" using t(4) by simp
  ultimately have "wf_graph t g V" by (intro wf_graph_fewer_edges [OF wf(2) t(2,3)])
  then have "graph_ok t g V (Suc k)" by (rule graph_ok_adj_frame [OF im(2) t(2)]) simp
  moreover have "commands t = commands s" using im(3) by (simp add: same_structure_def adj_frameD [OF t(2)])
  ultimately show ?thesis using im(1) m(1) t(1) red by blast
qed

end
