(* ===== verification/Mlir_Equivalence.thy ===== *)
theory Mlir_Equivalence
  imports Mlir_Reduce_Edge Mlir_Optimize Copy_Fuse
begin

text \<open>
  The MLIR pipeline against the legacy passes: what the dispatcher returns does not depend on
  which of the two implementations it selects.
\<close>

text \<open>
  C14. The MLIR pipeline and the legacy pass implement the same reduce-edge. On every well-formed
  graph the import accepts, with a verifier that accepts the module and any enumeration order of
  the users, Kahn's algorithm returns within its fuel, the pipeline (import, \<^verbatim>\<open>cg-reduce-edge\<close>,
  verification, export) fails no assertion and ends in a well-formed graph with exactly the edges
  \<^verbatim>\<open>pass_reduce_edge\<close> leaves, with every command unchanged.
\<close>

theorem mlir_reduce_edge_equals_legacy:
  assumes "graph_ok s g V (2 + k)" and "import_ok s g V" and "is_permuting (mx_users x)" and "\<And>m. mx_verified x m"
  shows "\<exists>t t'. pass_reduce_edge g s = Inr t \<and>
    command_graph_optimize_mlir fuse x legacy COMMAND_GRAPH_PASS_REDUCE_EDGE g s = Inr t' \<and>
    graph_ok t' g V k \<and> edges t' V = edges t V \<and> commands t' = commands s"
proof -
  obtain t where t: "pass_reduce_edge g s = Inr t" "edges t V = reduced (edges s V)"
    using legacy_edges [OF assms(1)] by blast
  obtain s1 m m' t' where m: "import_command_graph g s = Inr (s1, m)" "mlir_reduce_edge (mx_users x) m = Inr m'"
    "export_command_graph m' g s1 = Inr t'" "graph_ok t' g V (Suc k)" "edges t' V = reduced (edges s V)"
    "commands t' = commands s"
    using mlir_reduce_edge_ok [OF assms(1-3)] by blast
  have "command_graph_optimize_mlir fuse x legacy COMMAND_GRAPH_PASS_REDUCE_EDGE g s = Inr t'"
    using m(1-3) assms(4) by (simp add: command_graph_optimize_mlir_def)
  then show ?thesis using t m(5,6) graph_ok_less [OF m(4), of k] by auto
qed

text \<open>
  The copy-normalize of the MLIR pipeline computes what the legacy one computes: importing a
  2D copy, normalising the attributes of the operation and exporting it gives the command that
  \<^verbatim>\<open>pass_copy_normalize\<close> writes, contiguous or strided, at every width-64 value of its fields.
\<close>

theorem mlir_normalize_equals_legacy:
  assumes "is_copy_2D_type (ctype c)" "get_copy_2D c = Inr x"
  shows "normalize_command c =
    Inr (if cm x = src_ld x \<and> cm x = dst_ld x
         then export_copy_1D (normalize_1D_attrs (import_copy_2D (ctype c) x))
         else export_copy_2D (normalize_2D_attrs (import_copy_2D (ctype c) x)))"
  using assms
  by (cases c; cases "ctype c")
    (auto simp: normalize_command_def copy_2D_to_1D_def copy_2D_to_bytes_def import_copy_2D_def
      normalize_1D_attrs_def normalize_2D_attrs_def export_copy_1D_def export_copy_2D_def ucast_device ac_simps)

text \<open>An MLIR library that enumerates in block order and verifies every module.\<close>

definition in_order :: mlir_externals where
  "in_order = \<lparr>mx_users = id, mx_dead = id, mx_verified = (\<lambda>_. True)\<rparr>"


end
