(* ===== verification/Witnesses.thy ===== *)
theory Witnesses
  imports Pipeline_Props Sequence_Props Batch_Example Mlir_Equivalence
begin

text \<open>
  A concrete graph on which the properties with hypotheses are applied, and those
  applications: entry 0, a 2D copy and a program side by side, an EMPTY join with a redundant
  edge from the entry, and exit 4.
\<close>

definition sample_copy_2D :: copy_2D where
  "sample_copy_2D = \<lparr>src_device_unique_id2 = 0, dst_device_unique_id2 = 1, src_addr = 4096, src_ld = 8,
     dst_addr = 8192, dst_ld = 8, cm = 4, cn = 2, sizeof_type = 8\<rparr>"

definition sample_copy :: command where
  "sample_copy = \<lparr>ctype = COMMAND_TYPE_COPY_H2D_2D, cbody = Body_copy_2D sample_copy_2D\<rparr>"

definition sample_prog :: prog where
  "sample_prog = (new_prog 1 16 CGIR_COMMAND_PROG_SOURCE_TYPE_LLVMIR 0 0)
     \<lparr>prog_launch_mode := CGIR_COMMAND_PROG_LAUNCH_MODE_TASK_SPAWN\<rparr>"

definition sample_program :: command where
  "sample_program = \<lparr>ctype = COMMAND_TYPE_PROG, cbody = Body_prog sample_prog\<rparr>"

definition sample_node :: "node_type \<Rightarrow> cmd_ref option \<Rightarrow> node_ref list \<Rightarrow> node_ref list \<Rightarrow> node" where
  "sample_node t c ps ss = \<lparr>device_unique_id = 0, predecessors = ps, successors = ss,
     iterator_index = 0, walk_id = 0, ntype = t, ncommand = c\<rparr>"

definition sample_store :: store where
  "sample_store =
     \<lparr>nodes =
        [sample_node COMMAND_GRAPH_NODE_TYPE_EMPTY None [] [1, 2, 3],
         sample_node COMMAND_GRAPH_NODE_TYPE_COMMAND (Some 0) [0] [3],
         sample_node COMMAND_GRAPH_NODE_TYPE_COMMAND (Some 1) [0] [3],
         sample_node COMMAND_GRAPH_NODE_TYPE_EMPTY None [1, 2, 0] [4],
         sample_node COMMAND_GRAPH_NODE_TYPE_EMPTY None [3] []],
      commands = [sample_copy, sample_program],
      graphs = [\<lparr>entry = 0, exit = 4, graph_walk_id = 0, is_sequence = False\<rparr>]\<rparr>"

abbreviation sample_nodes :: "node_ref set" where
  "sample_nodes \<equiv> {0, 1, 2, 3, 4}"

lemma sample_budget: "graph_ok sample_store 0 sample_nodes 220"
proof -
  have "graph_check sample_store 0 [0, 1, 2, 3, 4] 220" by code_simp
  from graph_check_ok [OF this] show ?thesis by simp
qed

lemma sample_ok: "graph_ok sample_store 0 sample_nodes (Suc 200)"
  and sample_ok2: "graph_ok sample_store 0 sample_nodes (2 + 200)"
  by (rule graph_ok_less [OF sample_budget], simp)+

lemmas sample_walk = graph_ok_walk [OF sample_ok]

lemma sample_entry: "node_get_entry sample_store 0 = 0" and sample_exit: "node_get_exit sample_store 0 = 4"
  by code_simp+

lemma sample_commands: "commands sample_store = [sample_copy, sample_program]"
  by (simp add: sample_store_def)

lemma ex_Some_case: "(\<exists>c. x = Some c \<and> P c) \<longleftrightarrow> (case x of None \<Rightarrow> False | Some c \<Rightarrow> P c)"
  by (cases x) simp_all

lemma all_commands_list: "all_commands P s \<longleftrightarrow> list_all P (commands s)"
  by (simp add: all_commands_def list_all_length)

lemma sample_commands_wf:
  "wf_command sample_copy" "wf_command sample_program"
  "extent_fits sample_copy" "extent_fits sample_program"
proof -
  show "wf_command sample_copy" "wf_command sample_program" by code_simp+
  show "extent_fits sample_copy" "extent_fits sample_program"
    by (simp_all add: extent_fits_def sample_copy_def sample_copy_2D_def sample_program_def)
qed

lemma sample_copies_ok: "copies_ok sample_store sample_nodes"
proof -
  have "commands_ok sample_store sample_nodes"
    unfolding commands_ok_def ex_Some_case by code_simp
  moreover have "all_commands (\<lambda>c. wf_command c \<and> extent_fits c) sample_store"
    using sample_commands_wf by (simp add: all_commands_list sample_commands)
  ultimately show ?thesis by (simp add: copies_ok_def)
qed

subsection \<open>Walks\<close>

theorem walk_visits_exactly_reachable_witness:
  "set (snd (walk COMMAND_GRAPH_WALK_SEARCH_BFS COMMAND_GRAPH_WALK_ORDER_PRE 0 1 record_visit (sample_store, []))) =
     {y. (1, y) \<in> (edges sample_store sample_nodes)\<^sup>*}"
  using walk_visits_exactly_reachable [OF sample_walk(1) _ sample_walk(2,3) prod.collapse [symmetric],
      of 1 COMMAND_GRAPH_WALK_SEARCH_BFS COMMAND_GRAPH_WALK_ORDER_PRE]
  by simp

theorem iterators_enumerate_nodes_witness:
  "set (snd (create_node_iterators False COMMAND_GRAPH_WALK_SEARCH_DFS COMMAND_GRAPH_WALK_ORDER_PRE 0 sample_store)) = {1, 2, 3}"
  using iterators_enumerate_nodes [OF sample_walk prod.collapse [symmetric],
      of False COMMAND_GRAPH_WALK_SEARCH_DFS COMMAND_GRAPH_WALK_ORDER_PRE]
  by (auto simp: sample_entry sample_exit)

theorem post_order_topological_witness:
  "\<exists>as bs. snd (create_node_iterators True COMMAND_GRAPH_WALK_SEARCH_DFS COMMAND_GRAPH_WALK_ORDER_POST 0
       sample_store) = as @ 1 # bs \<and> 3 \<in> set as"
proof -
  have it: "create_node_iterators True COMMAND_GRAPH_WALK_SEARCH_DFS COMMAND_GRAPH_WALK_ORDER_POST 0 sample_store =
      (fst (create_node_iterators True COMMAND_GRAPH_WALK_SEARCH_DFS COMMAND_GRAPH_WALK_ORDER_POST 0 sample_store),
       [4, 3] @ 1 # [2, 0])"
    by (simp add: prod_eq_iff) code_simp
  moreover have "3 \<in> set (succs sample_store 1)" by code_simp
  ultimately have "3 \<in> set [4 :: node_ref, 3]" by (rule post_order_topological [OF sample_walk _ refl])
  then show ?thesis using it by (metis snd_conv)
qed

theorem coherence_checks_pass_witness:
  "\<exists>s'. coherence_checks 0 sample_store = Inr s' \<and> same_structure sample_store s' \<and> wf_graph s' 0 sample_nodes"
  by (rule coherence_checks_pass [OF sample_walk])

text \<open>A node that already carries the next identifier.\<close>

definition stale_store :: store where
  "stale_store = upd_node 1 (\<lambda>n. n\<lparr>walk_id := 1\<rparr>) sample_store"

theorem walk_skips_colliding_node_witness:
  "1 \<notin> set (snd (walk COMMAND_GRAPH_WALK_SEARCH_DFS COMMAND_GRAPH_WALK_ORDER_PRE 0 0 record_visit (stale_store, [])))"
  by (rule walk_skips_colliding_node [OF _ _ _ _ prod.collapse [symmetric]]) code_simp+

subsection \<open>Rewrites\<close>

theorem remove_preserves_reachability_witness:
  "\<exists>t. remove 3 sample_store = Inr t \<and> wf_graph t 0 (sample_nodes - {3})"
  using remove_preserves_reachability [OF sample_walk(1), of 3] by (simp add: sample_entry sample_exit) blast

theorem contract_inplace_preserves_reachability_witness:
  "\<exists>t. contract fuse_hints 1 2 sample_store = Inr (1, t) \<and> wf_graph t 0 (sample_nodes - {2})"
proof -
  have "inplace_hint_holds fuse_hints sample_store 1 2" by code_simp
  from contract_inplace_preserves_reachability [OF sample_walk(1) _ _ _ _ _ this]
  show ?thesis by (simp add: sample_entry sample_exit) blast
qed

theorem contract_without_hint_aborts_witness:
  "contract (fuse_hints\<lparr>hint_false_twins := False\<rparr>) 1 2 sample_store = Inl Aborted"
  by (rule contract_without_hint_aborts) (simp_all add: fuse_hints_def)

subsection \<open>Passes\<close>

theorem bitset2d_is_a_matrix_witness:
  "bs_test (bs_or_rows 1 2 (bs_set 2 69 (bitset2d_new 70))) 1 69"
proof -
  have wf: "bs_wf 70 (bitset2d_new 70)" by code_simp
  note m = bitset2d_is_a_matrix
  have "bs_wf 70 (bs_set 2 69 (bitset2d_new 70))" "bs_test (bs_set 2 69 (bitset2d_new 70)) 2 69"
    using m [OF wf, of 2 69 2 69] by simp_all
  then show ?thesis using m [of 70 "bs_set 2 69 (bitset2d_new 70)" 1 2 1 69] by simp
qed

theorem reduce_node_sound_witness:
  "\<exists>t W. pass_reduce_node 0 sample_store = Inr t \<and> graph_ok t 0 W 200 \<and> reduces sample_store 0 sample_nodes t W"
  using reduce_node_sound [OF sample_ok] by blast

theorem reduce_edge_transitive_reduction_witness:
  "\<exists>t. pass_reduce_edge 0 sample_store = Inr t \<and>
     (edges t sample_nodes)\<^sup>* = (edges sample_store sample_nodes)\<^sup>*"
  using reduce_edge_transitive_reduction [OF sample_ok2] by blast

theorem normalize_keeps_bytes_witness:
  "\<exists>d. normalize_command sample_copy = Inr d \<and> transfer d = transfer sample_copy"
proof -
  from normalize_keeps_bytes [OF sample_commands_wf(1,3)] show ?thesis by blast
qed

theorem copy_normalize_sound_witness:
  "\<exists>t. pass_copy_normalize 0 sample_store = Inr t \<and> edges t sample_nodes = edges sample_store sample_nodes"
  using copy_normalize_sound [OF sample_ok sample_copies_ok] by blast

theorem normalize_idempotent_witness:
  "normalize_command (sample_copy\<lparr>cbody := Body_copy_2D (copy_2D_to_bytes sample_copy_2D)\<rparr>) =
     Inr (sample_copy\<lparr>cbody := Body_copy_2D (copy_2D_to_bytes sample_copy_2D)\<rparr>)"
proof (rule normalize_idempotent [of sample_copy])
  show "wf_command sample_copy" by (rule sample_commands_wf)
  have "is_copy_2D_type (ctype sample_copy)" "cm sample_copy_2D \<noteq> src_ld sample_copy_2D" by code_simp+
  moreover have "get_copy_2D sample_copy = Inr sample_copy_2D"
    by (simp add: sample_copy_def)
  ultimately show "normalize_command sample_copy =
      Inr (sample_copy\<lparr>cbody := Body_copy_2D (copy_2D_to_bytes sample_copy_2D)\<rparr>)"
    by (simp add: normalize_command_def)
  fix x assume "cbody sample_copy = Body_copy_2D x"
  then have "x = sample_copy_2D" by (simp add: sample_copy_def)
  then show "sizeof_type x \<noteq> 0 \<and> unat (cm x) * unat (sizeof_type x) < 2 ^ 64 \<and>
      unat (src_ld x) * unat (sizeof_type x) < 2 ^ 64 \<and> unat (dst_ld x) * unat (sizeof_type x) < 2 ^ 64"
    by (simp add: sample_copy_2D_def)
qed

theorem try_fuse_copy_sound_witness:
  "\<exists>t. try_fuse_copy 1 2 twin_store = Inr (True, t) \<and> wf_graph t 0 {0, 1, 3}"
proof -
  have "graph_check twin_store 0 [0, 1, 2, 3] 100" by code_simp
  from graph_check_ok [OF this] have wf: "wf_graph twin_store 0 {0, 1, 2, 3}" by (simp add: graph_ok_def)
  have "case try_fuse_copy 1 2 twin_store of Inl _ \<Rightarrow> False | Inr r \<Rightarrow> fst r" by code_simp
  then obtain t where t: "try_fuse_copy 1 2 twin_store = Inr (True, t)"
    by (auto split: sum.splits)
  have c: "ncommand (node_at twin_store 1) = Some 0" "ncommand (node_at twin_store 2) = Some 1"
    "0 < length (commands twin_store)" by code_simp+
  let ?x = "\<lambda>a. \<lparr>src_device_unique_id = 0, dst_device_unique_id = 1,
       src_device_addr = a, dst_device_addr = a, csize = 16\<rparr>"
  have b: "cbody (commands twin_store ! 0) = Body_copy_1D (?x 4096)"
    "cbody (commands twin_store ! 1) = Body_copy_1D (?x 4112)"
    "segment_fits (?x 4096)" "segment_fits (?x 4112)"
    by (simp_all add: twin_store_def twin_copy_def segment_fits_def)
  have "{0, 1, 2, 3} - {2} = {0, 1, 3 :: node_ref}" by auto
  then have "wf_graph t 0 {0, 1, 3}"
    using try_fuse_copy_sound [OF wf _ _ t c b] by simp
  then show ?thesis using t by blast
qed

theorem batch_islands_partition_witness:
  "\<exists>island. batch_islands 0
       (fst (create_node_iterators True COMMAND_GRAPH_WALK_SEARCH_DFS COMMAND_GRAPH_WALK_ORDER_PRE 0 sample_store))
       (snd (create_node_iterators True COMMAND_GRAPH_WALK_SEARCH_DFS COMMAND_GRAPH_WALK_ORDER_PRE 0 sample_store)) =
     Inr island \<and> distinct (map fst island)"
  using batch_islands_partition [OF sample_ok prod.collapse [symmetric]] by blast

subsection \<open>Fusion, compilation, the dispatcher\<close>

text \<open>Two LLVM-IR programs one after the other, between entry 0 and exit 3.\<close>

definition chain_prog :: "uintptr \<Rightarrow> command" where
  "chain_prog a = \<lparr>ctype = COMMAND_TYPE_PROG,
     cbody = Body_prog (new_prog a 16 CGIR_COMMAND_PROG_SOURCE_TYPE_LLVMIR 0 0)\<rparr>"

definition chain_store :: store where
  "chain_store =
     \<lparr>nodes =
        [sample_node COMMAND_GRAPH_NODE_TYPE_EMPTY None [] [1],
         sample_node COMMAND_GRAPH_NODE_TYPE_COMMAND (Some 0) [0] [2],
         sample_node COMMAND_GRAPH_NODE_TYPE_COMMAND (Some 1) [1] [3],
         sample_node COMMAND_GRAPH_NODE_TYPE_EMPTY None [2] []],
      commands = [chain_prog 4096, chain_prog 8192],
      graphs = [\<lparr>entry = 0, exit = 3, graph_walk_id = 0, is_sequence = False\<rparr>]\<rparr>"

abbreviation chain_nodes :: "node_ref set" where
  "chain_nodes \<equiv> {0, 1, 2, 3}"

lemma chain_ok: "graph_ok chain_store 0 chain_nodes (Suc 200)"
proof -
  have "graph_check chain_store 0 [0, 1, 2, 3] (Suc 200)" by code_simp
  from graph_check_ok [OF this] show ?thesis by simp
qed

lemma chain_copies_ok: "copies_ok chain_store chain_nodes"
proof -
  have "commands_ok chain_store chain_nodes"
    unfolding commands_ok_def ex_Some_case by code_simp
  moreover have "all_commands (\<lambda>c. wf_command c \<and> extent_fits c) chain_store"
    by (simp add: all_commands_list chain_store_def chain_prog_def wf_command_def extent_fits_def)
  ultimately show ?thesis by (simp add: copies_ok_def)
qed

text \<open>A fusion core that answers the first program.\<close>

definition first_program :: "prog list \<Rightarrow> prog \<Rightarrow> prog result" where
  "first_program ps p = Inr (hd (ps @ [p]))"

lemma first_program_succeeds: "core_succeeds first_program"
  by (simp add: core_succeeds_def first_program_def)


lemma jit_Inr_succeeds: "jit_succeeds Inr"
  by (simp add: jit_succeeds_def)

theorem jit_compiles_each_program_once_witness:
  "\<exists>t. pass_jit Inr 0 chain_store = Inr t \<and> edges t chain_nodes = edges chain_store chain_nodes"
proof -
  have "own_commands chain_store chain_nodes"
    by (auto simp: own_commands_def inj_on_def chain_store_def node_at_def sample_node_def)
  from jit_compiles_each_program_once [OF chain_ok chain_copies_ok this jit_Inr_succeeds]
  show ?thesis by blast
qed

definition sample_externals :: externals where
  "sample_externals = \<lparr>ext_fuse = first_program, ext_jit = Inr, ext_order = (\<lambda>xs. xs),
     ext_mat_order = (\<lambda>ms. ms), ext_mlir = in_order\<rparr>"

definition sample_environment :: environment where
  "sample_environment = \<lparr>getenv = (\<lambda>v. if v = ''CGIR_STATS_CSV'' then Some ''stats.csv'' else None),
     mkdir_ok = (\<lambda>_. True), fopen_ok = (\<lambda>_. True)\<rparr>"

definition first_process :: process where
  "first_process = \<lparr>mlir_cache = None, dump_cache = None, base_cache = None, stats_cache = None,
     seq_counter = 0, csv_started = False, outputs = []\<rparr>"

lemma sample_pipeline:
  "externals_succeed sample_externals" "dumps_off sample_environment first_process"
  "graph_ok sample_store 0 sample_nodes (32 + 188)" "passes_ok sample_store sample_nodes"
  "reordering (ext_order sample_externals)" "reordering (ext_mat_order sample_externals)"
proof -
  show "externals_succeed sample_externals"
    using first_program_succeeds jit_Inr_succeeds by (simp add: externals_succeed_def sample_externals_def)
  show "dumps_off sample_environment first_process"
    by (simp add: dumps_off_def optimize_dump_enabled_def first_process_def switch_value_def sample_environment_def)
  show "graph_ok sample_store 0 sample_nodes (32 + 188)" using sample_budget by simp
  show "passes_ok sample_store sample_nodes"
    using sample_copies_ok by (auto simp: passes_ok_def sample_store_def node_at_def sample_node_def)
  show "reordering (ext_order sample_externals)" "reordering (ext_mat_order sample_externals)"
    by (simp_all add: sample_externals_def reordering_def)
qed



theorem metrics_count_graph_witness:
  "m_nodes (snd (stats_compute_metrics 0 sample_store)) = 5 \<and>
   m_edges (snd (stats_compute_metrics 0 sample_store)) = card (edges sample_store sample_nodes)"
  using metrics_count_graph [OF sample_ok prod.collapse [symmetric]] by simp

text \<open>The chain of programs again, now recorded tasks: it becomes a sequence.\<close>

definition task_command :: "uintptr \<Rightarrow> command" where
  "task_command a = \<lparr>ctype = COMMAND_TYPE_PROG,
     cbody = Body_prog ((new_prog a 16 CGIR_COMMAND_PROG_SOURCE_TYPE_LLVMIR 0 0)
       \<lparr>prog_launch_mode := CGIR_COMMAND_PROG_LAUNCH_MODE_TASK_SPAWN\<rparr>)\<rparr>"

definition task_store :: store where
  "task_store = chain_store\<lparr>commands := [task_command 4096, task_command 8192]\<rparr>"

theorem sequence_pass_sound_witness:
  "\<exists>t W M. pass_sequence 0 task_store = Inr t \<and> graph_ok t 0 W 199 \<and>
     sequenced task_store 0 chain_nodes t W M \<and> length (graphs t) = 2"
proof -
  have "graph_check task_store 0 [0, 1, 2, 3] (2 + 199)" by code_simp
  from graph_check_ok [OF this] have "graph_ok task_store 0 chain_nodes (2 + 199)" by simp
  then obtain t W M where t: "pass_sequence 0 task_store = Inr t" "graph_ok t 0 W 199"
    "sequenced task_store 0 chain_nodes t W M" using sequence_pass_sound [of task_store 0 chain_nodes 199] by blast
  have "case pass_sequence 0 task_store of Inl _ \<Rightarrow> False | Inr t \<Rightarrow> length (graphs t) = 2" by code_simp
  then have "length (graphs t) = 2" by (simp add: t(1))
  then show ?thesis using t by blast
qed

subsection \<open>The MLIR pipeline\<close>

lemma sample_import: "import_ok sample_store 0 sample_nodes"
proof (rule import_okI [OF sample_copies_ok])
  fix u assume "u \<in> sample_nodes"
  then show "ntype (node_at sample_store u) = COMMAND_GRAPH_NODE_TYPE_EMPTY \<or>
      ntype (node_at sample_store u) = COMMAND_GRAPH_NODE_TYPE_COMMAND"
    by (auto simp: node_at_def sample_store_def sample_node_def)
qed (simp_all add: sample_entry sample_exit, code_simp+)

theorem mlir_roundtrip_witness:
  "\<exists>s1 m t. import_command_graph 0 sample_store = Inr (s1, m) \<and> export_command_graph m 0 s1 = Inr t \<and>
     edges t sample_nodes = edges sample_store sample_nodes"
  using mlir_roundtrip [OF sample_ok sample_import] by blast

theorem mlir_reduce_edge_equals_legacy_witness:
  "\<exists>t t'. pass_reduce_edge 0 sample_store = Inr t \<and>
     command_graph_optimize_mlir (\<lambda>_. Inr) in_order (\<lambda>_ _. Inr) COMMAND_GRAPH_PASS_REDUCE_EDGE 0 sample_store = Inr t' \<and>
     edges t' sample_nodes = edges t sample_nodes"
proof -
  have "is_permuting (mx_users in_order)" by (simp add: is_permuting_def in_order_def)
  moreover have "mx_verified in_order m" for m by (simp add: in_order_def)
  ultimately show ?thesis using mlir_reduce_edge_equals_legacy [OF sample_ok2 sample_import, of in_order] by blast
qed

theorem mlir_normalize_equals_legacy_witness:
  "normalize_command sample_copy =
     Inr (export_copy_2D (normalize_2D_attrs (import_copy_2D COMMAND_TYPE_COPY_H2D_2D sample_copy_2D)))"
  using mlir_normalize_equals_legacy [of sample_copy sample_copy_2D]
  by (simp add: sample_copy_def sample_copy_2D_def)

end
