(* ===== verification/Llvm_Module.thy ===== *)
theory Llvm_Module
  imports Commands
begin

text \<open>
  What \<^verbatim>\<open>src/prog-fuse-llvmir.cc\<close> reads of a parsed LLVM module, and the memory its argument
  slots point into. Parsing, linking, inlining, optimising and code generation are LLVM: the
  parser is a parameter, a function body is opaque. A module is the list of its functions in
  the order of its iterator.
\<close>

subsection \<open>Memory\<close>

type_synonym byte = "8 word"
type_synonym memory = "uintptr \<Rightarrow> byte"

definition read_bytes :: "memory \<Rightarrow> uintptr \<Rightarrow> nat \<Rightarrow> byte list" where
  "read_bytes mem a n = map (\<lambda>i. mem (a + word_of_nat i)) [0..<n]"

text \<open>A 64-bit object in memory, least significant byte first.\<close>

definition le_bytes :: "64 word \<Rightarrow> byte list" where
  "le_bytes w = map (\<lambda>i. ucast (drop_bit (8 * i) w)) [0..<8]"

definition read_word :: "memory \<Rightarrow> uintptr \<Rightarrow> 64 word" where
  "read_word mem a = fold (\<lambda>i w. w OR push_bit (8 * i) (ucast (mem (a + word_of_nat i)))) [0..<8] 0"

definition write_bytes :: "uintptr \<Rightarrow> byte list \<Rightarrow> memory \<Rightarrow> memory" where
  "write_bytes a bs mem = fold (\<lambda>i m. m(a + word_of_nat i := bs ! i)) [0..<length bs] mem"

subsection \<open>Types and functions\<close>

text \<open>Types are uniqued: the ones the code does not inspect are known by their identity.\<close>

datatype ir_type = Void_type | Pointer_type | Integer_type nat | Other_type nat

record fun_type =
  return_type :: ir_type
  param_types :: "ir_type list"

datatype linkage = External_linkage | Local_linkage | Other_linkage

record ir_function =
  fname :: string
  is_declaration :: bool
  flinkage :: linkage
  ftype :: fun_type
  fbody :: nat

type_synonym ir_module = "ir_function list"

text \<open>The data layout of a module, and the addresses of the uniqued types.\<close>

record data_layout =
  type_store_size :: "ir_type \<Rightarrow> nat"
  abi_type_align :: "ir_type \<Rightarrow> nat"
  type_address :: "ir_type \<Rightarrow> 64 word"

definition getFunction :: "ir_module \<Rightarrow> string \<Rightarrow> ir_function option" where
  "getFunction m name = find (\<lambda>f. fname f = name) m"

definition find_kernel :: "ir_module \<Rightarrow> ir_function option" where
  "find_kernel m = find (\<lambda>f. \<not> is_declaration f \<and> return_type (ftype f) = Void_type) m"

definition is_void_voidptr :: "fun_type \<Rightarrow> bool" where
  "is_void_voidptr t \<longleftrightarrow> return_type t = Void_type \<and> param_types t = [Pointer_type]"

definition is_void_ptr_size :: "fun_type \<Rightarrow> bool" where
  "is_void_ptr_size t \<longleftrightarrow> return_type t = Void_type \<and>
     (case param_types t of [Pointer_type, Integer_type _] \<Rightarrow> True | _ \<Rightarrow> False)"

definition find_packed_wrapper :: "ir_module \<Rightarrow> ir_function option" where
  "find_packed_wrapper m =
     find (\<lambda>f. \<not> (is_declaration f \<or> flinkage f \<noteq> External_linkage) \<and> is_void_voidptr (ftype f)) m"

definition find_external_def :: "ir_module \<Rightarrow> ir_function option" where
  "find_external_def m = find (\<lambda>f. \<not> is_declaration f \<and> flinkage f = External_linkage) m"

text \<open>\<^verbatim>\<open>prefix_functions\<close> renames the definitions, not the declarations.\<close>

definition prefix_functions :: "string \<Rightarrow> ir_module \<Rightarrow> ir_module" where
  "prefix_functions prefix m = map (\<lambda>f. if is_declaration f then f else f\<lparr>fname := prefix @ fname f\<rparr>) m"

subsection \<open>Parsing\<close>

text \<open>
  \<^verbatim>\<open>parse_llvmir\<close>: bitcode is recognised by its magic number and kept whole, textual IR loses one
  trailing NUL. \<open>parse\<close> is \<^verbatim>\<open>llvm::parseIR\<close>.
\<close>

definition is_bitcode :: "byte list \<Rightarrow> bool" where
  "is_bitcode b \<longleftrightarrow> 4 \<le> length b \<and>
     (b ! 0 = 0x42 \<and> b ! 1 = 0x43 \<and> b ! 2 = 0xC0 \<and> b ! 3 = 0xDE \<or>
      b ! 0 = 0xDE \<and> b ! 1 = 0xC0 \<and> b ! 2 = 0x17 \<and> b ! 3 = 0x0B)"

definition parse_input :: "byte list \<Rightarrow> byte list" where
  "parse_input b = (if \<not> is_bitcode b \<and> b \<noteq> [] \<and> last b = 0 then butlast b else b)"

definition parse_llvmir ::
  "(byte list \<Rightarrow> ir_module option) \<Rightarrow> memory \<Rightarrow> uintptr \<Rightarrow> size_t \<Rightarrow> ir_module option" where
  "parse_llvmir parse mem ir n = parse (parse_input (read_bytes mem ir (unat n)))"

subsection \<open>Facts about memory\<close>

lemma length_read_bytes [simp]: "length (read_bytes mem a n) = n"
  by (simp add: read_bytes_def)

lemma read_bytes_nth: "i < n \<Longrightarrow> read_bytes mem a n ! i = mem (a + word_of_nat i)"
  by (simp add: read_bytes_def)

lemma read_bytes_take: "m \<le> n \<Longrightarrow> read_bytes mem a m = take m (read_bytes mem a n)"
  by (simp add: read_bytes_def take_map)

lemma length_le_bytes [simp]: "length (le_bytes w) = 8"
  by (simp add: le_bytes_def)

lemma le_bytes_inj: "le_bytes v = le_bytes w \<Longrightarrow> v = w"
proof -
  assume e: "le_bytes v = le_bytes w"
  have "bit v k = bit w k" if "k < 64" for k
  proof -
    have "le_bytes v ! (k div 8) = le_bytes w ! (k div 8)" using e by simp
    then have "(ucast (drop_bit (8 * (k div 8)) v) :: byte) = ucast (drop_bit (8 * (k div 8)) w)"
      using less_mult_imp_div_less [of k 8 8] that by (simp add: le_bytes_def)
    then have "bit (ucast (drop_bit (8 * (k div 8)) v) :: byte) (k mod 8) =
        bit (ucast (drop_bit (8 * (k div 8)) w) :: byte) (k mod 8)" by simp
    then show ?thesis by (simp add: bit_ucast_iff bit_drop_bit_eq)
  qed
  then show "v = w" by (intro bit_word_eqI) simp
qed

lemma le_bytes_eq [simp]: "le_bytes v = le_bytes w \<longleftrightarrow> v = w"
  using le_bytes_inj by auto

lemma write_bytes_get:
  assumes "length bs \<le> 2 ^ 64"
  shows "write_bytes a bs mem x = (if unat (x - a) < length bs then bs ! unat (x - a) else mem x)"
proof -
  have "fold (\<lambda>i m. m(a + word_of_nat i := bs ! i)) [0..<n] mem x =
      (if unat (x - a) < n then bs ! unat (x - a) else mem x)" if "n \<le> length bs" for n
    using that
  proof (induction n)
    case (Suc n)
    have "x = a + word_of_nat n \<longleftrightarrow> unat (x - a) = n"
    proof
      assume "x = a + word_of_nat n"
      then have "x - a = word_of_nat n" by simp
      then show "unat (x - a) = n" using Suc.prems assms by (simp add: unsigned_of_nat take_bit_nat_eq_self_iff)
    next
      assume "unat (x - a) = n"
      moreover have "word_of_nat (unat (x - a)) = x - a" by simp
      ultimately have "x - a = word_of_nat n" by simp
      then show "x = a + word_of_nat n" by (simp add: algebra_simps)
    qed
    then show ?case using Suc by auto
  qed simp
  then show ?thesis by (simp add: write_bytes_def)
qed

end
