(* ===== verification/Prog_Args.thy ===== *)
theory Prog_Args
  imports Llvm_Module
begin

text \<open>
  The argument side of program fusion (\<^verbatim>\<open>command_graph_prog_fuse_llvmir\<close>, steps 2 to 3b): the
  entry function of every input and its argument slots, and the compaction of the slots of all
  inputs into one buffer, by address or by value.
\<close>

subsection \<open>The inputs\<close>

record fuse_input =
  fused_name :: string
  is_wrapper :: bool
  is_packed_leaf :: bool
  buf_size :: size_t
  arity :: nat
  slots :: "uintptr list"
  value_dedup :: bool
  ptypes :: "ir_type list"
  in_params :: "prog_param list option"
  in_param_count :: nat
  in_layout :: data_layout

record entry_info =
  en_fun :: ir_function
  en_wrapper :: bool
  en_packed :: bool
  en_buf :: size_t
  en_arity :: nat
  en_value :: bool

text \<open>The size of a packed buffer: the largest end of a parameter, at least 1.\<close>

definition packed_buf_size :: "prog_param list \<Rightarrow> nat \<Rightarrow> size_t" where
  "packed_buf_size ps n =
     (let b = fold (\<lambda>k b. let e = poffset (ps ! k) + psize (ps ! k) in if e > b then e else b) [0..<n] 0
      in if b = 0 then 1 else b)"

definition leaf_entry :: "ir_function \<Rightarrow> bool \<Rightarrow> entry_info" where
  "leaf_entry f v =
     \<lparr>en_fun = f, en_wrapper = False, en_packed = False, en_buf = 0,
      en_arity = length (param_types (ftype f)), en_value = v\<rparr>"

text \<open>\<^verbatim>\<open>(unsigned) n\<close>.\<close>

definition to_unsigned :: "size_t \<Rightarrow> nat" where
  "to_unsigned n = unat (ucast n :: 32 word)"

definition wrapper_entry :: "ir_function \<Rightarrow> prog \<Rightarrow> entry_info" where
  "wrapper_entry f p =
     \<lparr>en_fun = f, en_wrapper = True, en_packed = False, en_buf = 0,
      en_arity = to_unsigned (n_args p), en_value = False\<rparr>"

text \<open>The entry of a task-spawn program: by symbol, then by name, then by shape.\<close>

definition task_spawn_function :: "prog \<Rightarrow> ir_module \<Rightarrow> ir_function option" where
  "task_spawn_function p m =
     (case Option.bind (symbol (llvmir (source p))) (getFunction m) of
        Some f \<Rightarrow> Some f
      | None \<Rightarrow>
          (case getFunction m ''__fused_wrapper'' of
             Some f \<Rightarrow> Some f
           | None \<Rightarrow>
               (case find_packed_wrapper m of
                  Some f \<Rightarrow> Some f
                | None \<Rightarrow> find_external_def m)))"

definition task_spawn_entry :: "prog \<Rightarrow> ir_module \<Rightarrow> entry_info result" where
  "task_spawn_entry p m =
     (case task_spawn_function p m of
        None \<Rightarrow> Inl Aborted
      | Some f \<Rightarrow>
          if is_declaration f then Inl Aborted
          else if is_void_voidptr (ftype f) then Inr (wrapper_entry f p)
          else if is_void_ptr_size (ftype f)
          then (case params (llvmir (source p)) of
                  None \<Rightarrow> Inl Aborted
                | Some ps \<Rightarrow>
                    (let n = to_unsigned (word_of_nat (param_count (llvmir (source p))))
                     in Inr \<lparr>en_fun = f, en_wrapper = False, en_packed = True,
                             en_buf = packed_buf_size ps n, en_arity = n, en_value = False\<rparr>))
          else Inr (leaf_entry f True))"

text \<open>The entry of a directly launched program.\<close>

definition direct_entry :: "prog \<Rightarrow> ir_module \<Rightarrow> entry_info result" where
  "direct_entry p m =
     (case symbol (llvmir (source p)) of
        Some y \<Rightarrow>
          (case getFunction m y of
             None \<Rightarrow> Inl Aborted
           | Some f \<Rightarrow> if is_declaration f then Inl Aborted
                       else Inr (leaf_entry f (triple (llvmir (source p)) \<noteq> None)))
      | None \<Rightarrow>
          (case (case getFunction m ''__fused_wrapper'' of
                   Some w \<Rightarrow> if \<not> is_declaration w \<and> is_void_voidptr (ftype w) then Some w else None
                 | None \<Rightarrow> None) of
             Some w \<Rightarrow> Inr (wrapper_entry w p)
           | None \<Rightarrow>
               (case find_kernel m of
                  None \<Rightarrow> Inl Aborted
                | Some f \<Rightarrow> Inr (leaf_entry f False))))"

definition fuse_entry :: "prog \<Rightarrow> ir_module \<Rightarrow> entry_info result" where
  "fuse_entry p m =
     (if prog_launch_mode p = CGIR_COMMAND_PROG_LAUNCH_MODE_TASK_SPAWN
      then task_spawn_entry p m else direct_entry p m)"

text \<open>The slots of a program are \<^verbatim>\<open>args[0 .. arity - 1]\<close>.\<close>

definition snapshot_slots :: "memory \<Rightarrow> uintptr \<Rightarrow> nat \<Rightarrow> uintptr list" where
  "snapshot_slots mem av n =
     map (\<lambda>k. if av \<noteq> 0 then read_word mem (av + 8 * word_of_nat k) else 0) [0..<n]"

text \<open>\<open>prefix\<close> is \<^verbatim>\<open>__fz<i>_\<close>.\<close>

definition fuse_input_of ::
  "memory \<Rightarrow> string \<Rightarrow> data_layout \<Rightarrow> prog \<Rightarrow> ir_module \<Rightarrow> (fuse_input \<times> ir_module) result" where
  "fuse_input_of mem prefix dl p m =
     bind_result (fuse_entry p m) (\<lambda>e.
       if pargs p = 0 \<and> 0 < en_arity e then Inl Aborted
       else Inr
         (\<lparr>fused_name = prefix @ fname (en_fun e), is_wrapper = en_wrapper e, is_packed_leaf = en_packed e,
           buf_size = en_buf e, arity = en_arity e, slots = snapshot_slots mem (pargs p) (en_arity e),
           value_dedup = en_value e,
           ptypes = (if en_value e \<and> \<not> en_wrapper e then param_types (ftype (en_fun e)) else []),
           in_params = params (llvmir (source p)), in_param_count = param_count (llvmir (source p)),
           in_layout = dl\<rparr>, prefix_functions prefix m))"

subsection \<open>Identity of a slot\<close>

definition param_of :: "fuse_input \<Rightarrow> nat \<Rightarrow> prog_param option" where
  "param_of inp j =
     (case in_params inp of
        None \<Rightarrow> None
      | Some ps \<Rightarrow> if j < in_param_count inp then Some (ps ! j) else None)"

definition param_width :: "prog_param \<Rightarrow> size_t" where
  "param_width p = (if pkind p = CGIR_COMMAND_PROG_PARAM_COPY then psize p else 8)"

definition slot_size :: "fuse_input \<Rightarrow> nat \<Rightarrow> size_t" where
  "slot_size inp j = (case param_of inp j of None \<Rightarrow> 0 | Some p \<Rightarrow> param_width p)"

definition slot_is_ref :: "fuse_input \<Rightarrow> nat \<Rightarrow> bool" where
  "slot_is_ref inp j =
     (case param_of inp j of None \<Rightarrow> False | Some p \<Rightarrow> pkind p = CGIR_COMMAND_PROG_PARAM_REFERENCE)"

text \<open>
  The key strings: a tag (\<^verbatim>\<open>C\<close>, \<^verbatim>\<open>R\<close>, \<^verbatim>\<open>V\<close>, \<^verbatim>\<open>A\<close>), eight bytes of size, type address or slot
  address, then the bytes of the value. \<open>value_key\<close> is the fall-back on the IR type.
\<close>

definition param_key :: "memory \<Rightarrow> prog_param \<Rightarrow> uintptr \<Rightarrow> byte list" where
  "param_key mem p s =
     (if pkind p = CGIR_COMMAND_PROG_PARAM_COPY then 0x43 else 0x52)
       # le_bytes (param_width p) @ read_bytes mem s (unat (param_width p))"

definition address_key :: "uintptr \<Rightarrow> byte list" where
  "address_key s = 0x41 # le_bytes s"

definition value_key :: "memory \<Rightarrow> fuse_input \<Rightarrow> nat \<Rightarrow> byte list" where
  "value_key mem inp j =
     (let s = slots inp ! j in
      if value_dedup inp \<and> s \<noteq> 0 \<and> j < length (ptypes inp)
      then let t = ptypes inp ! j; w = type_store_size (in_layout inp) t
           in if 0 < w \<and> w \<le> 64
              then 0x56 # le_bytes (type_address (in_layout inp) t) @ read_bytes mem s w
              else address_key s
      else address_key s)"

definition slot_key :: "memory \<Rightarrow> fuse_input \<Rightarrow> nat \<Rightarrow> byte list" where
  "slot_key mem inp j =
     (let s = slots inp ! j in
      case (if s \<noteq> 0 then param_of inp j else None) of
        Some p \<Rightarrow> if 0 < param_width p then param_key mem p s else value_key mem inp j
      | None \<Rightarrow> value_key mem inp j)"

subsection \<open>Compaction\<close>

record dedup =
  unique_slots :: "uintptr list"
  unique_slot_size :: "size_t list"
  unique_slot_is_ref :: "bool list"
  slot_to_index :: "byte list \<rightharpoonup> nat"
  index_map :: "nat list list"
  wrapper_block_start :: "nat list"

definition empty_dedup :: dedup where
  "empty_dedup = \<lparr>unique_slots = [], unique_slot_size = [], unique_slot_is_ref = [],
     slot_to_index = (\<lambda>_. None), index_map = [], wrapper_block_start = []\<rparr>"

definition push_slot :: "uintptr \<Rightarrow> size_t \<Rightarrow> bool \<Rightarrow> dedup \<Rightarrow> dedup" where
  "push_slot s n r d =
     d\<lparr>unique_slots := unique_slots d @ [s], unique_slot_size := unique_slot_size d @ [n],
       unique_slot_is_ref := unique_slot_is_ref d @ [r]\<rparr>"

definition dedup_slot :: "memory \<Rightarrow> fuse_input \<Rightarrow> nat \<Rightarrow> dedup \<times> nat list \<Rightarrow> dedup \<times> nat list" where
  "dedup_slot mem inp j dr =
     (let d = fst dr; key = slot_key mem inp j in
      case slot_to_index d key of
        None \<Rightarrow>
          (let idx = length (unique_slots d)
           in ((push_slot (slots inp ! j) (slot_size inp j) (slot_is_ref inp j) d)
                 \<lparr>slot_to_index := (slot_to_index d)(key \<mapsto> idx)\<rparr>, snd dr @ [idx]))
      | Some idx \<Rightarrow> (d, snd dr @ [idx]))"

definition dedup_input :: "memory \<Rightarrow> fuse_input \<Rightarrow> dedup \<Rightarrow> dedup" where
  "dedup_input mem inp d =
     (if is_wrapper inp
      then (fold (\<lambda>k. push_slot (slots inp ! k) 8 True) [0..<arity inp] d)
             \<lparr>index_map := index_map d @ [[]],
              wrapper_block_start := wrapper_block_start d @ [length (unique_slots d)]\<rparr>
      else let (d1, row) = fold (dedup_slot mem inp) [0..<arity inp] (d, [])
           in d1\<lparr>index_map := index_map d @ [row], wrapper_block_start := wrapper_block_start d @ [0]\<rparr>)"

definition dedup_all :: "memory \<Rightarrow> fuse_input list \<Rightarrow> dedup" where
  "dedup_all mem inputs = fold (dedup_input mem) inputs empty_dedup"

text \<open>
  The shapes that cannot be mixed in one chain: packed and other task bodies, device and host
  programs.
\<close>

definition shapes_agree :: "fuse_input list \<Rightarrow> prog list \<Rightarrow> bool" where
  "shapes_agree inputs ps \<longleftrightarrow>
     (list_ex is_packed_leaf inputs \<longrightarrow> list_all is_packed_leaf inputs) \<and>
     (triple (llvmir (source (hd ps))) \<noteq> None \<longrightarrow> list_all (\<lambda>p. triple (llvmir (source p)) \<noteq> None) ps)"

subsection \<open>The compaction loop\<close>

text \<open>\<open>L\<close> holds the inputs whose slots may stand in the buffer.\<close>

definition slots_inv :: "memory \<Rightarrow> fuse_input set \<Rightarrow> dedup \<Rightarrow> bool" where
  "slots_inv mem L d \<longleftrightarrow>
     length (unique_slot_size d) = length (unique_slots d) \<and> length (unique_slot_is_ref d) = length (unique_slots d) \<and>
     (\<forall>k idx. slot_to_index d k = Some idx \<longrightarrow> idx < length (unique_slots d) \<and>
        (\<exists>inp\<in>L. \<exists>j<arity inp. slot_key mem inp j = k \<and> unique_slots d ! idx = slots inp ! j \<and>
           unique_slot_size d ! idx = slot_size inp j \<and> unique_slot_is_ref d ! idx = slot_is_ref inp j)) \<and>
     (\<forall>k l idx. slot_to_index d k = Some idx \<longrightarrow> slot_to_index d l = Some idx \<longrightarrow> k = l)"

text \<open>Later states only add slots and keys.\<close>

definition extends :: "dedup \<Rightarrow> dedup \<Rightarrow> bool" where
  "extends d d' \<longleftrightarrow> slot_to_index d \<subseteq>\<^sub>m slot_to_index d' \<and> (\<exists>xs. unique_slots d' = unique_slots d @ xs)"

lemma extends_refl [simp]: "extends d d"
  by (simp add: extends_def)

lemma extends_trans: "extends a b \<Longrightarrow> extends b c \<Longrightarrow> extends a c"
  by (auto simp: extends_def intro: map_le_trans)

lemma extendsD:
  assumes "extends d d'"
  shows "slot_to_index d k = Some i \<Longrightarrow> slot_to_index d' k = Some i"
    "i < length (unique_slots d) \<Longrightarrow> unique_slots d' ! i = unique_slots d ! i"
    "length (unique_slots d) \<le> length (unique_slots d')"
  using assms by (auto simp: extends_def nth_append map_le_def dom_def)

lemma dedup_slot_step:
  assumes inv: "slots_inv mem L d" and inp: "inp \<in> L" "j < arity inp"
  obtains d' idx where "dedup_slot mem inp j (d, row) = (d', row @ [idx])" "slots_inv mem L d'" "extends d d'"
    "slot_to_index d' (slot_key mem inp j) = Some idx" "index_map d' = index_map d"
    "wrapper_block_start d' = wrapper_block_start d"
proof (cases "slot_to_index d (slot_key mem inp j)")
  case (Some idx)
  then have "dedup_slot mem inp j (d, row) = (d, row @ [idx])" by (simp add: dedup_slot_def)
  then show thesis using that inv Some by simp
next
  case None
  let ?n = "length (unique_slots d)" and ?k = "slot_key mem inp j"
  let ?d = "(push_slot (slots inp ! j) (slot_size inp j) (slot_is_ref inp j) d)\<lparr>slot_to_index := (slot_to_index d)(?k \<mapsto> ?n)\<rparr>"
  have e: "dedup_slot mem inp j (d, row) = (?d, row @ [?n])" using None by (simp add: dedup_slot_def Let_def)
  have ext: "extends d ?d" using None by (auto simp: extends_def push_slot_def map_le_def dom_def)
  have len: "length (unique_slot_size d) = ?n" "length (unique_slot_is_ref d) = ?n" using inv by (simp_all add: slots_inv_def)
  have old: "idx < ?n" "\<exists>inp\<in>L. \<exists>j<arity inp. slot_key mem inp j = k \<and> unique_slots d ! idx = slots inp ! j \<and>
      unique_slot_size d ! idx = slot_size inp j \<and> unique_slot_is_ref d ! idx = slot_is_ref inp j"
    if "slot_to_index d k = Some idx" for k idx using inv that unfolding slots_inv_def by blast+
  have "slots_inv mem L ?d"
    unfolding slots_inv_def
  proof (intro conjI allI impI)
    fix k idx assume k: "slot_to_index ?d k = Some idx"
    show "idx < length (unique_slots ?d)" using k old(1) by (auto simp: push_slot_def split: if_splits intro: less_SucI)
    show "\<exists>inp\<in>L. \<exists>j<arity inp. slot_key mem inp j = k \<and> unique_slots ?d ! idx = slots inp ! j \<and>
        unique_slot_size ?d ! idx = slot_size inp j \<and> unique_slot_is_ref ?d ! idx = slot_is_ref inp j"
    proof (cases "k = ?k")
      case True
      then have "idx = ?n" using k by simp
      then show ?thesis using inp True len by (auto simp: push_slot_def nth_append)
    next
      case False
      then have "slot_to_index d k = Some idx" using k by simp
      then show ?thesis using old [of k idx] len by (auto simp: push_slot_def nth_append)
    qed
    fix l assume "slot_to_index ?d l = Some idx"
    then show "k = l" using k old(1) inv by (auto simp: slots_inv_def split: if_splits)
  qed (simp_all add: push_slot_def len)
  then show thesis using that [OF e _ ext] by (simp add: push_slot_def)
qed

lemma dedup_row:
  assumes inv: "slots_inv mem L d" and inp: "inp \<in> L" and "n \<le> arity inp"
  shows "\<exists>d' row. fold (dedup_slot mem inp) [0..<n] (d, []) = (d', row) \<and> slots_inv mem L d' \<and> extends d d' \<and>
    index_map d' = index_map d \<and> wrapper_block_start d' = wrapper_block_start d \<and> length row = n \<and>
    (\<forall>j<n. slot_to_index d' (slot_key mem inp j) = Some (row ! j))"
  using assms(3)
proof (induction n)
  case 0
  then show ?case using inv by simp
next
  case (Suc n)
  then obtain d' row where IH: "fold (dedup_slot mem inp) [0..<n] (d, []) = (d', row)" "slots_inv mem L d'" "extends d d'"
    "index_map d' = index_map d" "wrapper_block_start d' = wrapper_block_start d" "length row = n"
    "\<forall>j<n. slot_to_index d' (slot_key mem inp j) = Some (row ! j)" by auto
  have n: "n < arity inp" using Suc.prems by simp
  obtain e idx where e: "dedup_slot mem inp n (d', row) = (e, row @ [idx])" "slots_inv mem L e" "extends d' e"
    "slot_to_index e (slot_key mem inp n) = Some idx" "index_map e = index_map d'"
    "wrapper_block_start e = wrapper_block_start d'"
    by (rule dedup_slot_step [OF IH(2) inp n])
  have "slot_to_index e (slot_key mem inp j) = Some ((row @ [idx]) ! j)" if "j < Suc n" for j
    using that IH(6,7) e(4) extendsD(1) [OF e(3)] by (cases "j = n") (simp_all add: nth_append)
  then show ?case using IH e extends_trans [OF IH(3) e(3)] by simp
qed

lemma push_slots:
  "unique_slots (fold (\<lambda>k. push_slot (f k) 8 True) ks d) = unique_slots d @ map f ks"
  "length (unique_slot_size (fold (\<lambda>k. push_slot (f k) 8 True) ks d)) = length (unique_slot_size d) + length ks"
  "length (unique_slot_is_ref (fold (\<lambda>k. push_slot (f k) 8 True) ks d)) = length (unique_slot_is_ref d) + length ks"
  "slot_to_index (fold (\<lambda>k. push_slot (f k) 8 True) ks d) = slot_to_index d"
  "index_map (fold (\<lambda>k. push_slot (f k) 8 True) ks d) = index_map d"
  "wrapper_block_start (fold (\<lambda>k. push_slot (f k) 8 True) ks d) = wrapper_block_start d"
  by (induction ks arbitrary: d) (simp_all add: push_slot_def)

lemma push_slots_nth:
  assumes "i < length (unique_slot_size d)" "i < length (unique_slot_is_ref d)"
  shows "unique_slot_size (fold (\<lambda>k. push_slot (f k) 8 True) ks d) ! i = unique_slot_size d ! i"
    "unique_slot_is_ref (fold (\<lambda>k. push_slot (f k) 8 True) ks d) ! i = unique_slot_is_ref d ! i"
  using assms by (induction ks arbitrary: d) (simp_all add: push_slot_def nth_append)

text \<open>The row of an input in the maps the loop fills.\<close>

definition row_ok :: "memory \<Rightarrow> dedup \<Rightarrow> fuse_input \<Rightarrow> nat list \<Rightarrow> nat \<Rightarrow> bool" where
  "row_ok mem d inp row start \<longleftrightarrow>
     (if is_wrapper inp
      then start + arity inp \<le> length (unique_slots d) \<and> (\<forall>k<arity inp. unique_slots d ! (start + k) = slots inp ! k)
      else length row = arity inp \<and> (\<forall>j<arity inp. slot_to_index d (slot_key mem inp j) = Some (row ! j)))"

definition dedup_inv :: "memory \<Rightarrow> fuse_input list \<Rightarrow> dedup \<Rightarrow> bool" where
  "dedup_inv mem ins d \<longleftrightarrow>
     slots_inv mem {inp \<in> set ins. \<not> is_wrapper inp} d \<and>
     length (index_map d) = length ins \<and> length (wrapper_block_start d) = length ins \<and>
     (\<forall>i<length ins. row_ok mem d (ins ! i) (index_map d ! i) (wrapper_block_start d ! i))"

lemma row_ok_extends:
  assumes "extends d d'" "row_ok mem d inp row start"
  shows "row_ok mem d' inp row start"
  using assms(2) extendsD [OF assms(1)] by (auto simp: row_ok_def)

lemma slots_inv_mono: "slots_inv mem L d \<Longrightarrow> L \<subseteq> M \<Longrightarrow> slots_inv mem M d"
  unfolding slots_inv_def by (meson subsetD)

lemma dedup_inv_step:
  assumes inv: "dedup_inv mem ins d"
  shows "dedup_inv mem (ins @ [inp]) (dedup_input mem inp d)"
proof -
  let ?L = "{x \<in> set (ins @ [inp]). \<not> is_wrapper x}"
  have L: "slots_inv mem ?L d" using inv by (auto simp: dedup_inv_def intro: slots_inv_mono)
  have len: "length (index_map d) = length ins" "length (wrapper_block_start d) = length ins"
    using inv by (simp_all add: dedup_inv_def)
  have rows: "row_ok mem d (ins ! i) (index_map d ! i) (wrapper_block_start d ! i)" if "i < length ins" for i
    using inv that by (simp add: dedup_inv_def)
  have finish: "dedup_inv mem (ins @ [inp]) d'" if "slots_inv mem ?L d'" "extends d d'"
    "index_map d' = index_map d @ [row]" "wrapper_block_start d' = wrapper_block_start d @ [start]"
    "row_ok mem d' inp row start" for d' row start
    unfolding dedup_inv_def
  proof (intro conjI allI impI)
    fix i assume "i < length (ins @ [inp])"
    then show "row_ok mem d' ((ins @ [inp]) ! i) (index_map d' ! i) (wrapper_block_start d' ! i)"
      using that len rows [of i] row_ok_extends [OF that(2)] by (cases "i = length ins") (auto simp: nth_append)
  qed (use that len in simp_all)
  show ?thesis
  proof (cases "is_wrapper inp")
    case True
    let ?e = "fold (\<lambda>k. push_slot (slots inp ! k) 8 True) [0..<arity inp] d"
    let ?d = "?e\<lparr>index_map := index_map d @ [[]], wrapper_block_start := wrapper_block_start d @ [length (unique_slots d)]\<rparr>"
    have e: "dedup_input mem inp d = ?d" using True by (simp add: dedup_input_def)
    have ext: "extends d ?d" by (simp add: extends_def push_slots)
    have "slots_inv mem ?L ?d"
    proof -
      have n: "length (unique_slot_size d) = length (unique_slots d)" "length (unique_slot_is_ref d) = length (unique_slots d)"
        using L by (simp_all add: slots_inv_def)
      have "idx < length (unique_slots d)" if "slot_to_index d k = Some idx" for k idx
        using L that unfolding slots_inv_def by blast
      then show ?thesis
        using L n unfolding slots_inv_def by (auto simp: push_slots push_slots_nth nth_append intro: trans_less_add1)
    qed
    moreover have "row_ok mem ?d inp [] (length (unique_slots d))"
      using True by (simp add: row_ok_def push_slots nth_append)
    ultimately show ?thesis unfolding e by (intro finish [OF _ ext]) (simp_all add: push_slots)
  next
    case False
    have inp: "inp \<in> ?L" using False by simp
    obtain d' row where r: "fold (dedup_slot mem inp) [0..<arity inp] (d, []) = (d', row)" "slots_inv mem ?L d'" "extends d d'"
      "index_map d' = index_map d" "wrapper_block_start d' = wrapper_block_start d" "length row = arity inp"
      "\<forall>j<arity inp. slot_to_index d' (slot_key mem inp j) = Some (row ! j)"
      using dedup_row [OF L inp order.refl] by blast
    let ?d = "d'\<lparr>index_map := index_map d' @ [row], wrapper_block_start := wrapper_block_start d' @ [0]\<rparr>"
    have e: "dedup_input mem inp d = ?d" using False r(1) by (simp add: dedup_input_def r(4,5))
    have "slots_inv mem ?L ?d" using r(2) by (simp add: slots_inv_def)
    moreover have "extends d ?d" using r(3) by (simp add: extends_def)
    moreover have "row_ok mem ?d inp row 0" using False r(6,7) by (simp add: row_ok_def)
    ultimately show ?thesis unfolding e by (intro finish) (simp_all add: r(4,5))
  qed
qed

lemma dedup_all_inv: "dedup_inv mem ins (dedup_all mem ins)"
proof (induction ins rule: rev_induct)
  case Nil
  show ?case by (simp add: dedup_all_def dedup_inv_def slots_inv_def empty_dedup_def)
next
  case (snoc inp ins)
  then show ?case using dedup_inv_step [of mem ins] by (simp add: dedup_all_def)
qed

text \<open>Every leaf slot has an index; equal indices are equal keys; the buffer holds a slot with that key.\<close>

lemma dedup_leaf:
  fixes mem :: memory
  assumes "i < length ins" "\<not> is_wrapper (ins ! i)" "j < arity (ins ! i)"
  defines "d \<equiv> dedup_all mem ins"
  shows "index_map d ! i ! j < length (unique_slots d)"
    "\<exists>inp\<in>set ins. \<exists>l<arity inp. \<not> is_wrapper inp \<and> slot_key mem inp l = slot_key mem (ins ! i) j \<and>
       unique_slots d ! (index_map d ! i ! j) = slots inp ! l \<and>
       unique_slot_size d ! (index_map d ! i ! j) = slot_size inp l \<and>
       unique_slot_is_ref d ! (index_map d ! i ! j) = slot_is_ref inp l"
    "slot_to_index d (slot_key mem (ins ! i) j) = Some (index_map d ! i ! j)"
proof -
  note inv = dedup_all_inv [of mem ins, folded d_def, unfolded dedup_inv_def]
  show k: "slot_to_index d (slot_key mem (ins ! i) j) = Some (index_map d ! i ! j)"
    using inv assms(1-3) by (auto simp: row_ok_def)
  have "slots_inv mem {inp \<in> set ins. \<not> is_wrapper inp} d" using inv by blast
  then show "index_map d ! i ! j < length (unique_slots d)"
    "\<exists>inp\<in>set ins. \<exists>l<arity inp. \<not> is_wrapper inp \<and> slot_key mem inp l = slot_key mem (ins ! i) j \<and>
       unique_slots d ! (index_map d ! i ! j) = slots inp ! l \<and>
       unique_slot_size d ! (index_map d ! i ! j) = slot_size inp l \<and>
       unique_slot_is_ref d ! (index_map d ! i ! j) = slot_is_ref inp l"
    using k unfolding slots_inv_def by blast+
qed

lemma dedup_index_eq:
  assumes "i < length ins" "\<not> is_wrapper (ins ! i)" "j < arity (ins ! i)"
    and "k < length ins" "\<not> is_wrapper (ins ! k)" "l < arity (ins ! k)"
  shows "index_map (dedup_all mem ins) ! i ! j = index_map (dedup_all mem ins) ! k ! l \<longleftrightarrow>
    slot_key mem (ins ! i) j = slot_key mem (ins ! k) l"
proof -
  have "slots_inv mem {inp \<in> set ins. \<not> is_wrapper inp} (dedup_all mem ins)"
    using dedup_all_inv [of mem ins] by (simp add: dedup_inv_def)
  then show ?thesis
    using dedup_leaf(3) [OF assms(1-3), of mem] dedup_leaf(3) [OF assms(4-6), of mem]
    unfolding slots_inv_def by (metis option.inject)
qed

subsection \<open>Equal keys, equal values\<close>

text \<open>How many bytes of a slot its key compares; None for a comparison by address.\<close>

definition identity_width :: "fuse_input \<Rightarrow> nat \<Rightarrow> nat option" where
  "identity_width inp j =
     (if slots inp ! j = 0 then None
      else case (case param_of inp j of None \<Rightarrow> 0 | Some p \<Rightarrow> unat (param_width p)) of
             0 \<Rightarrow> (if value_dedup inp \<and> j < length (ptypes inp) \<and>
                      0 < type_store_size (in_layout inp) (ptypes inp ! j) \<and>
                      type_store_size (in_layout inp) (ptypes inp ! j) \<le> 64
                   then Some (type_store_size (in_layout inp) (ptypes inp ! j)) else None)
           | Suc n \<Rightarrow> Some (Suc n))"

lemma slot_key_cases:
  obtains (Param) p where "slots inp ! j \<noteq> 0" "param_of inp j = Some p" "0 < param_width p"
      "slot_key mem inp j = param_key mem p (slots inp ! j)" "identity_width inp j = Some (unat (param_width p))"
  | (Value) t where "slots inp ! j \<noteq> 0" "t \<in> set (ptypes inp)"
      "slot_key mem inp j = 0x56 # le_bytes (type_address (in_layout inp) t) @
         read_bytes mem (slots inp ! j) (type_store_size (in_layout inp) t)"
      "identity_width inp j = Some (type_store_size (in_layout inp) t)"
  | (Address) "slot_key mem inp j = address_key (slots inp ! j)" "identity_width inp j = None"
proof (cases "slots inp ! j \<noteq> 0 \<and> (\<exists>p. param_of inp j = Some p \<and> 0 < param_width p)")
  case True
  then obtain p where p: "slots inp ! j \<noteq> 0" "param_of inp j = Some p" "0 < param_width p" by blast
  then have "unat (param_width p) \<noteq> 0" by (simp add: unat_eq_0 word_gt_0)
  then have "identity_width inp j = Some (unat (param_width p))"
    using p by (auto simp: identity_width_def split: nat.split)
  then show ?thesis using Param p by (simp add: slot_key_def)
next
  case False
  then have key: "slot_key mem inp j = value_key mem inp j"
    by (cases "param_of inp j") (auto simp: slot_key_def Let_def)
  let ?t = "ptypes inp ! j" and ?w = "type_store_size (in_layout inp) (ptypes inp ! j)"
  have z: "(case param_of inp j of None \<Rightarrow> 0 | Some p \<Rightarrow> unat (param_width p)) = 0" if "slots inp ! j \<noteq> 0"
    using False that by (auto split: option.splits simp: word_gt_0)
  show ?thesis
  proof (cases "slots inp ! j \<noteq> 0 \<and> value_dedup inp \<and> j < length (ptypes inp) \<and> 0 < ?w \<and> ?w \<le> 64")
    case True
    then show ?thesis using Value [of ?t] z by (simp add: key value_key_def identity_width_def Let_def)
  next
    case False
    then have "slot_key mem inp j = address_key (slots inp ! j)" by (auto simp: key value_key_def Let_def)
    moreover have "identity_width inp j = None" using False z by (auto simp: identity_width_def)
    ultimately show ?thesis by (rule Address)
  qed
qed

text \<open>Types are uniqued within the common context, and a type has one size in every module.\<close>

definition layouts_agree :: "fuse_input list \<Rightarrow> bool" where
  "layouts_agree ins \<longleftrightarrow>
     (\<forall>a\<in>set ins. \<forall>b\<in>set ins. \<forall>t\<in>set (ptypes a). \<forall>u\<in>set (ptypes b).
        type_address (in_layout a) t = type_address (in_layout b) u \<longrightarrow>
        t = u \<and> type_store_size (in_layout a) t = type_store_size (in_layout b) t)"

lemma key_eq: "t # le_bytes x @ bs = u # le_bytes y @ cs \<longleftrightarrow> t = u \<and> x = y \<and> bs = cs"
  using le_bytes_inj [of x y] by auto

lemma param_key_eq:
  "param_key mem p s = param_key mem q r \<Longrightarrow>
     param_width p = param_width q \<and> read_bytes mem s (unat (param_width q)) = read_bytes mem r (unat (param_width q))"
  "param_key mem p s \<noteq> 0x56 # le_bytes x @ bs" "param_key mem p s \<noteq> address_key r"
  "0x56 # le_bytes x @ bs \<noteq> address_key r"
  unfolding param_key_def address_key_def by (auto simp: key_eq)

lemma same_key_same_value:
  assumes layouts: "layouts_agree ins" "a \<in> set ins" "b \<in> set ins" and key: "slot_key mem a j = slot_key mem b l"
  shows "case identity_width b l of
      None \<Rightarrow> slots a ! j = slots b ! l
    | Some w \<Rightarrow> read_bytes mem (slots a ! j) w = read_bytes mem (slots b ! l) w"
proof (cases rule: slot_key_cases [of b l mem])
  case (Param q)
  show ?thesis
  proof (cases rule: slot_key_cases [of a j mem])
    case (Param p)
    then show ?thesis using key \<open>identity_width b l = _\<close> \<open>slot_key mem b l = _\<close> param_key_eq(1) [of mem p _ q] by simp
  next
    case Value
    then show ?thesis using key \<open>slot_key mem b l = _\<close> param_key_eq(2) by metis
  next
    case Address
    then show ?thesis using key \<open>slot_key mem b l = _\<close> param_key_eq(3) by metis
  qed
next
  case (Value u)
  show ?thesis
  proof (cases rule: slot_key_cases [of a j mem])
    case (Param p)
    then show ?thesis using key \<open>slot_key mem b l = _\<close> param_key_eq(2) by metis
  next
    case (Value t)
    have e: "type_address (in_layout a) t = type_address (in_layout b) u"
      "read_bytes mem (slots a ! j) (type_store_size (in_layout a) t) = read_bytes mem (slots b ! l) (type_store_size (in_layout b) u)"
      using key unfolding Value(3) \<open>slot_key mem b l = _\<close> key_eq by simp_all
    have "t = u" "type_store_size (in_layout a) t = type_store_size (in_layout b) u"
      using layouts e(1) \<open>t \<in> set (ptypes a)\<close> \<open>u \<in> set (ptypes b)\<close> unfolding layouts_agree_def by blast+
    then show ?thesis using e(2) \<open>identity_width b l = _\<close> by simp
  next
    case Address
    then show ?thesis using key \<open>slot_key mem b l = _\<close> param_key_eq(4) by metis
  qed
next
  case b: Address
  show ?thesis
  proof (cases rule: slot_key_cases [of a j mem])
    case (Param p)
    then show ?thesis using key b(1) param_key_eq(3) by metis
  next
    case Value
    then show ?thesis using key b(1) param_key_eq(4) by metis
  next
    case Address
    then have "le_bytes (slots a ! j) = le_bytes (slots b ! l)" using key b(1) by (simp add: address_key_def)
    then show ?thesis using b(2) le_bytes_inj by auto
  qed
qed

text \<open>
  C13. The compaction of the arguments hands every kernel its own values. For every chain of
  inputs, the slot of the fused buffer that parameter \<open>j\<close> of leaf kernel \<open>i\<close> is routed to exists
  and holds the address of the parameter's slot itself, or of a slot with the same bytes over
  the width its key compares (the size of a copy, a pointer for a reference, the store size of
  its IR type otherwise). Two parameters share a slot exactly when their identity keys agree,
  and a fused sub-wrapper finds its slots in one contiguous block, unmerged.
\<close>

theorem dedup_routes_values:
  assumes "layouts_agree ins" "i < length ins"
  shows "if is_wrapper (ins ! i)
    then wrapper_block_start (dedup_all mem ins) ! i + arity (ins ! i) \<le> length (unique_slots (dedup_all mem ins)) \<and>
      (\<forall>k<arity (ins ! i). unique_slots (dedup_all mem ins) ! (wrapper_block_start (dedup_all mem ins) ! i + k) = slots (ins ! i) ! k)
    else \<forall>j<arity (ins ! i). index_map (dedup_all mem ins) ! i ! j < length (unique_slots (dedup_all mem ins)) \<and>
      (case identity_width (ins ! i) j of
         None \<Rightarrow> unique_slots (dedup_all mem ins) ! (index_map (dedup_all mem ins) ! i ! j) = slots (ins ! i) ! j
       | Some w \<Rightarrow> read_bytes mem (unique_slots (dedup_all mem ins) ! (index_map (dedup_all mem ins) ! i ! j)) w =
                   read_bytes mem (slots (ins ! i) ! j) w) \<and>
      (\<forall>k<length ins. \<not> is_wrapper (ins ! k) \<longrightarrow> (\<forall>l<arity (ins ! k).
         index_map (dedup_all mem ins) ! i ! j = index_map (dedup_all mem ins) ! k ! l \<longleftrightarrow>
         slot_key mem (ins ! i) j = slot_key mem (ins ! k) l))"
proof (cases "is_wrapper (ins ! i)")
  case True
  then show ?thesis
    using dedup_all_inv [of mem ins] assms(2) unfolding dedup_inv_def row_ok_def by auto
next
  case False
  have "case identity_width (ins ! i) j of
         None \<Rightarrow> unique_slots (dedup_all mem ins) ! (index_map (dedup_all mem ins) ! i ! j) = slots (ins ! i) ! j
       | Some w \<Rightarrow> read_bytes mem (unique_slots (dedup_all mem ins) ! (index_map (dedup_all mem ins) ! i ! j)) w =
                   read_bytes mem (slots (ins ! i) ! j) w" if j: "j < arity (ins ! i)" for j
  proof -
    obtain inp l where r: "inp \<in> set ins" "slot_key mem inp l = slot_key mem (ins ! i) j"
      "unique_slots (dedup_all mem ins) ! (index_map (dedup_all mem ins) ! i ! j) = slots inp ! l"
      using dedup_leaf(2) [OF assms(2) False j, of mem] by blast
    have "ins ! i \<in> set ins" using assms(2) by simp
    from same_key_same_value [OF assms(1) r(1) this r(2)] show ?thesis unfolding r(3) .
  qed
  then show ?thesis
    using False dedup_leaf(1) [OF assms(2) False] dedup_index_eq [OF assms(2) False] by simp
qed

end
