(* ===== verification/Prog_Core.thy ===== *)
theory Prog_Core
  imports Prog_Args
begin

text \<open>
  The rest of \<^verbatim>\<open>command_graph_prog_fuse_llvmir\<close> (\<^verbatim>\<open>src/prog-fuse-llvmir.cc\<close>, steps 1 and 4 to
  12): the layout of the fused argument buffer, the calls of the wrapper, the buffer the fused
  program owns, the merged table of externs, and which heap buffers are released. LLVM itself
  (parsing, linking, building and optimising the body, bitcode) is a parameter.
\<close>

subsection \<open>Types of the shared slots\<close>

definition slot_type_step :: "ir_type \<Rightarrow> nat \<Rightarrow> ir_type option list \<Rightarrow> ir_type option list result" where
  "slot_type_step t idx ts =
     (case ts ! idx of
        None \<Rightarrow> Inr (ts[idx := Some t])
      | Some u \<Rightarrow> assert_that (u = t) (Inr ts))"

definition slot_types_input ::
  "(string \<Rightarrow> fun_type) \<Rightarrow> fuse_input \<times> nat list \<Rightarrow> ir_type option list \<Rightarrow> ir_type option list result" where
  "slot_types_input fty ir ts =
     (let inp = fst ir; row = snd ir in
      if is_wrapper inp \<or> is_packed_leaf inp then Inr ts
      else for_each (\<lambda>j. slot_type_step (param_types (fty (fused_name inp)) ! j) (row ! j)) [0..<arity inp] ts)"

definition slot_types :: "(string \<Rightarrow> fun_type) \<Rightarrow> fuse_input list \<Rightarrow> dedup \<Rightarrow> ir_type option list result" where
  "slot_types fty ins d =
     for_each (slot_types_input fty) (zip ins (index_map d)) (replicate (length (unique_slots d)) None)"

subsection \<open>Layout of a packed buffer\<close>

text \<open>\<open>force\<close> is the environment variable \<^verbatim>\<open>CGIR_PROG_FUSE_PACKED\<close>.\<close>

definition wants_packed :: "bool \<Rightarrow> bool \<Rightarrow> prog list \<Rightarrow> fuse_input list \<Rightarrow> bool" where
  "wants_packed force device ps ins \<longleftrightarrow>
     (force \<or> list_ex (\<lambda>p. proto (llvmir (source p)) = CGIR_COMMAND_PROG_SOURCE_PROTO_PACKED_BUFFER) ps \<or>
      list_ex is_packed_leaf ins) \<and> \<not> list_ex is_wrapper ins \<and> \<not> device"

definition align_up :: "size_t \<Rightarrow> size_t \<Rightarrow> size_t" where
  "align_up n al = and (n + al - 1) (not (al - 1))"

text \<open>Size and alignment of slot \<open>k\<close>, from the parameter tables or from the type.\<close>

definition slot_extent :: "bool \<Rightarrow> data_layout \<Rightarrow> dedup \<Rightarrow> ir_type option list \<Rightarrow> nat \<Rightarrow> size_t \<times> size_t" where
  "slot_extent packed_leaf dl d ts k =
     (if packed_leaf
      then (if unique_slot_size d ! k \<noteq> 0 then unique_slot_size d ! k else 1,
            if unique_slot_is_ref d ! k then 8 else 1)
      else let t = (case ts ! k of None \<Rightarrow> Pointer_type | Some t \<Rightarrow> t)
           in (word_of_nat (type_store_size dl t), word_of_nat (abi_type_align dl t)))"

definition place_slot :: "size_t \<times> size_t \<Rightarrow> size_t list \<times> size_t \<Rightarrow> size_t list \<times> size_t" where
  "place_slot e op = (let q = align_up (snd op) (snd e) in (fst op @ [q], q + fst e))"

definition packed_layout :: "(size_t \<times> size_t) list \<Rightarrow> size_t list \<times> size_t" where
  "packed_layout es =
     (let (offs, n) = fold place_slot es ([], 0) in (offs, if n = 0 then 1 else n))"

subsection \<open>The calls of the wrapper\<close>

text \<open>
  What the wrapper does for one input: pass a slice of the buffer, pass slot values, or rebuild
  the input's own packed buffer. A copy of the rebuilding is a typed store of \<open>rc_bytes\<close> bytes
  when the slot was hoisted (a pointer, or a scalar of 1, 2, 4 or 8 bytes), a \<^verbatim>\<open>memcpy\<close> otherwise.
\<close>

record recon_copy =
  rc_dst :: size_t
  rc_slot :: nat
  rc_bytes :: size_t

datatype kernel_call =
    Call_slice nat
  | Call_values "nat list"
  | Call_packed "recon_copy list" size_t

definition slot_hoisted :: "dedup \<Rightarrow> nat \<Rightarrow> bool" where
  "slot_hoisted d k \<longleftrightarrow> unique_slot_is_ref d ! k \<or> unique_slot_size d ! k \<in> {1, 2, 4, 8}"

definition recon_copy_of :: "dedup \<Rightarrow> prog_param \<Rightarrow> nat \<Rightarrow> recon_copy" where
  "recon_copy_of d p k =
     \<lparr>rc_dst = poffset p, rc_slot = k,
      rc_bytes = (if slot_hoisted d k then (if unique_slot_is_ref d ! k then 8 else unique_slot_size d ! k)
                  else psize p)\<rparr>"

definition kernel_call_of :: "dedup \<Rightarrow> fuse_input \<times> nat list \<times> nat \<Rightarrow> kernel_call result" where
  "kernel_call_of d irs =
     (case irs of (inp, row, start) \<Rightarrow>
        if is_wrapper inp then Inr (Call_slice start)
        else if is_packed_leaf inp
        then (case in_params inp of
                None \<Rightarrow> Inl Undefined_behaviour
              | Some ps \<Rightarrow> Inr (Call_packed (map (\<lambda>j. recon_copy_of d (ps ! j) (row ! j)) [0..<arity inp]) (buf_size inp)))
        else Inr (Call_values row))"

text \<open>A device wrapper has one parameter per slot.\<close>

definition device_call_of :: "fuse_input \<times> nat list \<Rightarrow> kernel_call result" where
  "device_call_of ir =
     (if arity (fst ir) \<le> length (snd ir) then Inr (Call_values (snd ir)) else Inl Undefined_behaviour)"

record fused_wrapper =
  w_device :: bool
  w_packed :: bool
  w_offsets :: "size_t list"
  w_types :: "ir_type option list"
  w_calls :: "(string \<times> kernel_call) list"

fun collect :: "('a \<Rightarrow> 'b result) \<Rightarrow> 'a list \<Rightarrow> 'b list result" where
  "collect f [] = Inr []"
| "collect f (x # xs) = bind_result (f x) (\<lambda>y. bind_result (collect f xs) (\<lambda>ys. Inr (y # ys)))"

lemma collect_Inr:
  "collect f xs = Inr ys \<Longrightarrow> length ys = length xs \<and> (\<forall>i<length xs. f (xs ! i) = Inr (ys ! i))"
proof (induction xs arbitrary: ys)
  case (Cons x xs)
  then obtain y zs where y: "f x = Inr y" "collect f xs = Inr zs" "ys = y # zs" by (auto simp: bind_result_eq_Inr)
  then show ?case using Cons.IH [OF y(2)] by (auto simp: nth_Cons split: nat.split)
qed simp

definition build_wrapper ::
  "bool \<Rightarrow> bool \<Rightarrow> size_t list \<Rightarrow> ir_type option list \<Rightarrow> fuse_input list \<Rightarrow> dedup \<Rightarrow> fused_wrapper result" where
  "build_wrapper device packed offs ts ins d =
     bind_result
       (if device then collect device_call_of (zip ins (index_map d))
        else collect (kernel_call_of d) (zip ins (zip (index_map d) (wrapper_block_start d)))) (\<lambda>cs.
     Inr \<lparr>w_device = device, w_packed = packed, w_offsets = offs, w_types = ts,
          w_calls = zip (map fused_name ins) cs\<rparr>)"

subsection \<open>Buffers\<close>

text \<open>\<^verbatim>\<open>memcpy(buf + off, bs)\<close>: writing past the end is undefined.\<close>

definition store_at :: "nat \<Rightarrow> byte list \<Rightarrow> byte list \<Rightarrow> byte list result" where
  "store_at off bs buf =
     (if off + length bs \<le> length buf
      then Inr (take off buf @ bs @ drop (off + length bs) buf) else Inl Undefined_behaviour)"

definition load_at :: "nat \<Rightarrow> nat \<Rightarrow> byte list \<Rightarrow> byte list result" where
  "load_at off n buf = (if off + n \<le> length buf then Inr (take n (drop off buf)) else Inl Undefined_behaviour)"

text \<open>Step 10, the packed form: the value of every slot at its offset in a zeroed buffer.\<close>

definition fill_size :: "bool \<Rightarrow> data_layout \<Rightarrow> dedup \<Rightarrow> ir_type option list \<Rightarrow> nat \<Rightarrow> nat" where
  "fill_size packed_leaf dl d ts k =
     (if packed_leaf then unat (unique_slot_size d ! k)
      else case ts ! k of None \<Rightarrow> 0 | Some t \<Rightarrow> type_store_size dl t)"

definition fill_slot ::
  "memory \<Rightarrow> (nat \<Rightarrow> nat) \<Rightarrow> size_t list \<Rightarrow> dedup \<Rightarrow> nat \<Rightarrow> byte list \<Rightarrow> byte list result" where
  "fill_slot mem sz offs d k buf =
     (if unique_slots d ! k = 0 \<or> sz k = 0 then Inr buf
      else store_at (unat (offs ! k)) (read_bytes mem (unique_slots d ! k) (sz k)) buf)"

definition fill_packed ::
  "memory \<Rightarrow> (nat \<Rightarrow> nat) \<Rightarrow> size_t list \<Rightarrow> size_t \<Rightarrow> dedup \<Rightarrow> byte list result" where
  "fill_packed mem sz offs n d =
     for_each (fill_slot mem sz offs d) [0..<length (unique_slots d)] (replicate (unat n) 0)"

text \<open>What the wrapper of packed inputs runs: \<open>buf\<close> is the fused buffer, the result the input's own.\<close>

definition recon_step :: "byte list \<Rightarrow> size_t list \<Rightarrow> recon_copy \<Rightarrow> byte list \<Rightarrow> byte list result" where
  "recon_step buf offs c r =
     bind_result (load_at (unat (offs ! rc_slot c)) (unat (rc_bytes c)) buf) (\<lambda>bs.
     store_at (unat (rc_dst c)) bs r)"

definition run_recon :: "byte list \<Rightarrow> size_t list \<Rightarrow> recon_copy list \<Rightarrow> byte list \<Rightarrow> byte list result" where
  "run_recon buf offs cs r = for_each (recon_step buf offs) cs r"

end
