(* ===== verification/Prog_Packed.thy ===== *)
theory Prog_Packed
  imports Prog_Core
begin

text \<open>
  Fusion of packed bodies: the fused buffer is laid out without overlap, filled once per
  distinct value, and every body gets its own packed buffer back from it.
\<close>

subsection \<open>Alignment and layout\<close>

lemma align_up_bounds:
  assumes al: "al = 2 ^ b" "b < 64" and fits: "unat n + unat al < 2 ^ 64"
  shows "unat n \<le> unat (align_up n al)" "unat (align_up n al) < unat n + unat al"
    "unat al dvd unat (align_up n al)"
proof -
  let ?x = "n + al - 1"
  have "(2 :: nat) ^ b < 2 ^ 64" using al(2) by (rule power_strict_increasing) simp
  moreover have "al = word_of_nat (2 ^ b)" using al(1) by simp
  ultimately have ua: "unat al = 2 ^ b" using al(2) by (simp only: unsigned_of_nat) (simp add: take_bit_nat_eq_self_iff)
  then have "0 < unat al" by simp
  have ux: "unat ?x = unat n + 2 ^ b - 1"
  proof -
    have "unat (n + al) = unat n + unat al" using fits by (simp add: unat_word_ariths)
    moreover from this have "unat ?x = unat (n + al) - 1"
      using \<open>0 < unat al\<close> by (intro unat_minus_one) (auto simp: unat_eq_0 [symmetric])
    ultimately show ?thesis using ua by simp
  qed
  have "and ?x (not (al - 1)) = push_bit b (drop_bit b ?x)"
    unfolding al(1) mask_eq_exp_minus_1 [symmetric]
    by (rule bit_word_eqI) (auto simp: bit_and_iff bit_not_iff bit_mask_iff bit_push_bit_iff bit_drop_bit_eq)
  also have "\<dots> = ?x - take_bit b ?x" using bits_ident [of b ?x] by (simp add: eq_diff_eq)
  finally have e: "align_up n al = ?x - take_bit b ?x" by (simp add: align_up_def)
  have t: "unat (take_bit b ?x) = unat ?x mod 2 ^ b" by (simp only: unsigned_take_bit_eq) (simp only: take_bit_eq_mod)
  have "unat (?x - take_bit b ?x) = unat ?x - unat ?x mod 2 ^ b"
    using t by (subst unat_sub) (simp_all add: word_le_nat_alt)
  then have u: "unat (align_up n al) = unat ?x - unat ?x mod 2 ^ b" using e by simp
  have m: "unat ?x mod 2 ^ b < 2 ^ b" "unat ?x mod 2 ^ b \<le> unat ?x" by simp_all
  show "unat n \<le> unat (align_up n al)" "unat (align_up n al) < unat n + unat al" using u m ux ua by linarith+
  show "unat al dvd unat (align_up n al)" unfolding u ua by (simp add: minus_mod_eq_mult_div)
qed

text \<open>The extents fit in the address space with their padding, and alignments are powers of two.\<close>

definition extents_ok :: "(size_t \<times> size_t) list \<Rightarrow> bool" where
  "extents_ok es \<longleftrightarrow> (\<Sum>e\<leftarrow>es. unat (fst e) + unat (snd e)) < 2 ^ 64 \<and> (\<forall>e\<in>set es. \<exists>b<64. snd e = 2 ^ b)"

text \<open>Offsets that leave every slot its own bytes, aligned, below the end \<open>p\<close>.\<close>

definition layout_ok :: "(size_t \<times> size_t) list \<Rightarrow> size_t list \<Rightarrow> size_t \<Rightarrow> bool" where
  "layout_ok es offs p \<longleftrightarrow> length offs = length es \<and>
     (\<forall>k<length es. unat (offs ! k) + unat (fst (es ! k)) \<le> unat p \<and> unat (snd (es ! k)) dvd unat (offs ! k)) \<and>
     (\<forall>l<length es. \<forall>k<l. unat (offs ! k) + unat (fst (es ! k)) \<le> unat (offs ! l))"

lemma place_slots:
  assumes "extents_ok es" "fold place_slot es ([], 0) = (offs, p)"
  shows "layout_ok es offs p \<and> unat p \<le> (\<Sum>e\<leftarrow>es. unat (fst e) + unat (snd e))"
  using assms
proof (induction es arbitrary: offs p rule: rev_induct)
  case Nil
  then show ?case by (simp add: layout_ok_def)
next
  case (snoc e es)
  obtain offs0 p0 where f: "fold place_slot es ([], 0) = (offs0, p0)" by force
  let ?q = "align_up p0 (snd e)" and ?S = "\<Sum>e\<leftarrow>es. unat (fst e) + unat (snd e)"
  have "place_slot e (offs0, p0) = (offs, p)" using snoc.prems(2) by (simp add: f)
  then have r: "offs = offs0 @ [?q]" "p = ?q + fst e" by (auto simp: place_slot_def Let_def)
  have S: "?S + (unat (fst e) + unat (snd e)) < 2 ^ 64" using snoc.prems(1) by (simp add: extents_ok_def)
  have "extents_ok es" using snoc.prems(1) by (simp add: extents_ok_def)
  from snoc.IH [OF this f] have IH: "layout_ok es offs0 p0" "unat p0 \<le> ?S" by simp_all
  obtain b where b: "snd e = 2 ^ b" "b < 64" using snoc.prems(1) by (auto simp: extents_ok_def)
  have q: "unat p0 \<le> unat ?q" "unat ?q < unat p0 + unat (snd e)" "unat (snd e) dvd unat ?q"
    using align_up_bounds [OF b, of p0] IH(2) S by linarith+
  have p: "unat p = unat ?q + unat (fst e)"
    unfolding r(2) using q(2) IH(2) S by (simp add: unat_word_ariths)
  have old: "unat (offs0 ! k) + unat (fst (es ! k)) \<le> unat p0" if "k < length es" for k
    using IH(1) that by (simp add: layout_ok_def)
  have "layout_ok (es @ [e]) offs p"
    unfolding layout_ok_def
  proof (intro conjI allI impI)
    have len: "length offs0 = length es" using IH(1) by (simp add: layout_ok_def)
    show "length offs = length (es @ [e])" by (simp add: r(1) len)
    fix l assume l: "l < length (es @ [e])"
    show "unat (offs ! l) + unat (fst ((es @ [e]) ! l)) \<le> unat p" "unat (snd ((es @ [e]) ! l)) dvd unat (offs ! l)"
      using l old [of l] q p IH(1) by (auto simp: r(1) len nth_append layout_ok_def less_Suc_eq)
    fix k assume k: "k < l"
    show "unat (offs ! k) + unat (fst ((es @ [e]) ! k)) \<le> unat (offs ! l)"
    proof (cases "l = length es")
      case True
      then show ?thesis using old [of k] k q(1) by (simp add: r(1) len nth_append)
    next
      case False
      then show ?thesis using k l IH(1) by (simp add: r(1) len nth_append layout_ok_def)
    qed
  qed
  moreover have "unat p \<le> ?S + (unat (fst e) + unat (snd e))" using p q(2) IH(2) by linarith
  ultimately show ?case by simp
qed

lemma packed_layout_ok:
  assumes "extents_ok es" "packed_layout es = (offs, n)"
  shows "layout_ok es offs n" "0 < unat n"
proof -
  obtain p where f: "fold place_slot es ([], 0) = (offs, p)" "n = (if p = 0 then 1 else p)"
    using assms(2) by (auto simp: packed_layout_def split_beta prod_eq_iff)
  have l: "layout_ok es offs p" using place_slots [OF assms(1) f(1)] by simp
  then show "layout_ok es offs n" "0 < unat n"
    using f(2) by (fastforce simp: layout_ok_def unat_gt_0)+
qed

subsection \<open>Buffers as lists\<close>

lemma store_at_nth:
  assumes "store_at off bs buf = Inr buf'" "i < length buf"
  shows "length buf' = length buf" "buf' ! i = (if off \<le> i \<and> i < off + length bs then bs ! (i - off) else buf ! i)"
  using assms by (auto simp: store_at_def nth_append min_def split: if_splits)

text \<open>\<open>holds off bs buf\<close>: the bytes \<open>bs\<close> are at offset \<open>off\<close>.\<close>

definition holds :: "nat \<Rightarrow> byte list \<Rightarrow> byte list \<Rightarrow> bool" where
  "holds off bs buf \<longleftrightarrow> off + length bs \<le> length buf \<and> (\<forall>i<length bs. buf ! (off + i) = bs ! i)"

lemma store_at_holds:
  assumes "off + length bs \<le> length buf"
  obtains buf' where "store_at off bs buf = Inr buf'" "length buf' = length buf" "holds off bs buf'"
    "\<And>o' cs. holds o' cs buf \<Longrightarrow> o' + length cs \<le> off \<or> off + length bs \<le> o' \<Longrightarrow> holds o' cs buf'"
proof -
  obtain buf' where b: "store_at off bs buf = Inr buf'" using assms by (simp add: store_at_def)
  have len: "length buf' = length buf" using b assms by (auto simp: store_at_def)
  note n = store_at_nth(2) [OF b]
  have "holds off bs buf'" using assms by (simp add: holds_def len n)
  moreover have "holds o' cs buf'" if "holds o' cs buf" "o' + length cs \<le> off \<or> off + length bs \<le> o'" for o' cs
    using that by (auto simp: holds_def len n)
  ultimately show thesis using that b len by blast
qed

lemma holds_load: "holds off bs buf \<Longrightarrow> load_at off (length bs) buf = Inr bs"
  by (auto simp: holds_def load_at_def intro!: nth_equalityI)

subsection \<open>Filling and rebuilding\<close>

lemma fill_packed_ok:
  assumes l: "layout_ok es offs n" and len: "length (unique_slots d) = length es"
    and sz: "\<And>k. k < length es \<Longrightarrow> sz k \<le> unat (fst (es ! k))"
  shows "\<exists>buf. fill_packed mem sz offs n d = Inr buf \<and> length buf = unat n \<and>
    (\<forall>k<length es. unique_slots d ! k \<noteq> 0 \<longrightarrow> sz k \<noteq> 0 \<longrightarrow>
       holds (unat (offs ! k)) (read_bytes mem (unique_slots d ! k) (sz k)) buf)"
proof -
  let ?I = "\<lambda>m buf. length buf = unat n \<and> (\<forall>k<m. unique_slots d ! k \<noteq> 0 \<longrightarrow> sz k \<noteq> 0 \<longrightarrow>
       holds (unat (offs ! k)) (read_bytes mem (unique_slots d ! k) (sz k)) buf)"
  have "\<exists>buf. for_each (fill_slot mem sz offs d) [0..<length es] (replicate (unat n) 0) = Inr buf \<and> ?I (length [0..<length es]) buf"
  proof (rule for_each_invariant [where I = ?I])
    fix m buf assume "m < length [0..<length es]" and I: "?I m buf"
    then have m: "m < length es" by simp
    show "\<exists>buf'. fill_slot mem sz offs d ([0..<length es] ! m) buf = Inr buf' \<and> ?I (Suc m) buf'"
    proof (cases "unique_slots d ! m = 0 \<or> sz m = 0")
      case True
      then show ?thesis using I m by (auto simp: fill_slot_def less_Suc_eq)
    next
      case False
      let ?bs = "read_bytes mem (unique_slots d ! m) (sz m)"
      have "unat (offs ! m) + length ?bs \<le> length buf"
        using l m sz [OF m] I by (fastforce simp: layout_ok_def)
      then obtain buf' where b: "store_at (unat (offs ! m)) ?bs buf = Inr buf'" "length buf' = length buf"
        "holds (unat (offs ! m)) ?bs buf'"
        "\<And>o' cs. holds o' cs buf \<Longrightarrow> o' + length cs \<le> unat (offs ! m) \<or> unat (offs ! m) + length ?bs \<le> o' \<Longrightarrow> holds o' cs buf'"
        by (rule store_at_holds) blast
      have "unat (offs ! k) + sz k \<le> unat (offs ! m)" if "k < m" for k
      proof -
        have "unat (offs ! k) + unat (fst (es ! k)) \<le> unat (offs ! m)" using l m that by (simp add: layout_ok_def)
        then show ?thesis using sz [of k] that m by simp
      qed
      then have "?I (Suc m) buf'" using I b(2-4) by (auto simp: less_Suc_eq)
      then show ?thesis using b(1) False m by (simp add: fill_slot_def)
    qed
  qed simp
  then show ?thesis by (simp add: fill_packed_def len)
qed

lemma run_recon_ok:
  assumes src: "\<And>j. j < length cs \<Longrightarrow> holds (unat (offs ! rc_slot (cs ! j))) (bs j) buf"
    and len: "\<And>j. j < length cs \<Longrightarrow> length (bs j) = unat (rc_bytes (cs ! j))"
    and dst: "\<And>j. j < length cs \<Longrightarrow> unat (rc_dst (cs ! j)) + length (bs j) \<le> length r"
    and disj: "\<And>i j. i < j \<Longrightarrow> j < length cs \<Longrightarrow> unat (rc_dst (cs ! i)) + length (bs i) \<le> unat (rc_dst (cs ! j)) \<or>
      unat (rc_dst (cs ! j)) + length (bs j) \<le> unat (rc_dst (cs ! i))"
  shows "\<exists>r'. run_recon buf offs cs r = Inr r' \<and> length r' = length r \<and>
    (\<forall>j<length cs. holds (unat (rc_dst (cs ! j))) (bs j) r')"
proof -
  let ?I = "\<lambda>m r'. length r' = length r \<and> (\<forall>j<m. holds (unat (rc_dst (cs ! j))) (bs j) r')"
  have "\<exists>r'. for_each (recon_step buf offs) cs r = Inr r' \<and> ?I (length cs) r'"
  proof (rule for_each_invariant [where I = ?I])
    fix m r1 assume m: "m < length cs" and I: "?I m r1"
    have load: "load_at (unat (offs ! rc_slot (cs ! m))) (unat (rc_bytes (cs ! m))) buf = Inr (bs m)"
      using holds_load [OF src [OF m]] len [OF m] by simp
    have "unat (rc_dst (cs ! m)) + length (bs m) \<le> length r1" using dst [OF m] I by simp
    then obtain r' where s: "store_at (unat (rc_dst (cs ! m))) (bs m) r1 = Inr r'" "length r' = length r1"
      "holds (unat (rc_dst (cs ! m))) (bs m) r'"
      "\<And>o' xs. holds o' xs r1 \<Longrightarrow> o' + length xs \<le> unat (rc_dst (cs ! m)) \<or> unat (rc_dst (cs ! m)) + length (bs m) \<le> o' \<Longrightarrow> holds o' xs r'"
      by (rule store_at_holds) blast
    have "?I (Suc m) r'" using I s(2-4) disj [OF _ m] by (auto simp: less_Suc_eq)
    then show "\<exists>r'. recon_step buf offs (cs ! m) r1 = Inr r' \<and> ?I (Suc m) r'" using s(1) load by (simp add: recon_step_def)
  qed simp
  then show ?thesis by (simp add: run_recon_def)
qed

subsection \<open>Packed bodies\<close>

text \<open>A parameter table as compilers emit it: non-empty values, pointers of eight bytes, no overlap.\<close>

definition params_ok :: "prog_param list \<Rightarrow> bool" where
  "params_ok ps \<longleftrightarrow>
     (\<forall>p\<in>set ps. 0 < psize p \<and> unat (poffset p) + unat (psize p) < 2 ^ 64 \<and>
        (pkind p = CGIR_COMMAND_PROG_PARAM_REFERENCE \<longrightarrow> psize p = 8)) \<and>
     (\<forall>j<length ps. \<forall>i<j. unat (poffset (ps ! i)) + unat (psize (ps ! i)) \<le> unat (poffset (ps ! j)) \<or>
        unat (poffset (ps ! j)) + unat (psize (ps ! j)) \<le> unat (poffset (ps ! i)))"

definition packed_input :: "fuse_input \<Rightarrow> bool" where
  "packed_input inp \<longleftrightarrow> is_packed_leaf inp \<and> \<not> is_wrapper inp \<and> length (slots inp) = arity inp \<and> 0 \<notin> set (slots inp) \<and>
     (case in_params inp of
        None \<Rightarrow> False
      | Some ps \<Rightarrow> length ps = arity inp \<and> in_param_count inp = arity inp \<and> params_ok ps \<and>
                   buf_size inp = packed_buf_size ps (arity inp))"

lemma packed_param:
  assumes "packed_input inp" "j < arity inp" "in_params inp = Some ps"
  shows "param_of inp j = Some (ps ! j)" "0 < psize (ps ! j)" "param_width (ps ! j) = psize (ps ! j)" "slots inp ! j \<noteq> 0"
    "pkind (ps ! j) = CGIR_COMMAND_PROG_PARAM_REFERENCE \<Longrightarrow> psize (ps ! j) = 8"
proof -
  have ps: "length ps = arity inp" "in_param_count inp = arity inp" "params_ok ps" using assms by (simp_all add: packed_input_def)
  have "ps ! j \<in> set ps" using ps(1) assms(2) by simp
  then show size: "0 < psize (ps ! j)" "pkind (ps ! j) = CGIR_COMMAND_PROG_PARAM_REFERENCE \<Longrightarrow> psize (ps ! j) = 8"
    using ps(3) by (simp_all add: params_ok_def)
  then show "param_width (ps ! j) = psize (ps ! j)" by (cases "pkind (ps ! j)") (simp_all add: param_width_def)
  show "slots inp ! j \<noteq> 0" using assms(1,2) by (metis nth_mem packed_input_def)
  show "param_of inp j = Some (ps ! j)" using ps(2) assms(2,3) by (simp add: param_of_def)
qed

lemma packed_buf_size_ge:
  assumes "k < n"
  shows "poffset (ps ! k) + psize (ps ! k) \<le> packed_buf_size ps n"
proof -
  have "\<forall>k<n. poffset (ps ! k) + psize (ps ! k) \<le>
      fold (\<lambda>k b. let e = poffset (ps ! k) + psize (ps ! k) in if e > b then e else b) [0..<n] 0" for n
    by (induction n) (auto simp: Let_def less_Suc_eq intro: order_trans)
  then have "poffset (ps ! k) + psize (ps ! k) \<le>
      fold (\<lambda>k b. let e = poffset (ps ! k) + psize (ps ! k) in if e > b then e else b) [0..<n] 0" (is "_ \<le> ?b")
    using assms by blast
  moreover have "?b \<le> packed_buf_size ps n"
    unfolding packed_buf_size_def by (cases "?b = 0") (simp_all only: Let_def if_True if_False word_zero_le order.refl)
  ultimately show ?thesis by (rule order_trans)
qed

text \<open>The shared slot of a parameter has its size, its kind and its bytes.\<close>

lemma packed_slot:
  fixes mem :: memory
  assumes ins: "list_all packed_input ins" and i: "i < length ins" and j: "j < arity (ins ! i)"
    and ps: "in_params (ins ! i) = Some ps"
  defines "d \<equiv> dedup_all mem ins" and "idx \<equiv> index_map (dedup_all mem ins) ! i ! j"
  shows "idx < length (unique_slots d)" "unique_slots d ! idx \<noteq> 0" "unique_slot_size d ! idx = psize (ps ! j)"
    "read_bytes mem (unique_slots d ! idx) (unat (psize (ps ! j))) = read_bytes mem (slots (ins ! i) ! j) (unat (psize (ps ! j)))"
    "rc_bytes (recon_copy_of d (ps ! j) idx) = psize (ps ! j)"
proof -
  have pk: "packed_input inp" if "inp \<in> set ins" for inp using ins that by (simp add: list_all_iff)
  have key: "slot_key mem inp l = param_key mem (qs ! l) (slots inp ! l)"
    if "packed_input inp" "l < arity inp" "in_params inp = Some qs" for inp l qs
    using packed_param [OF that] by (simp add: slot_key_def)
  have nw: "\<not> is_wrapper (ins ! i)" using pk [of "ins ! i"] i by (simp add: packed_input_def)
  note leaf = dedup_leaf [OF i nw j, of mem]
  show "idx < length (unique_slots d)" using leaf(1) unfolding idx_def d_def .
  obtain inp l where r: "inp \<in> set ins" "l < arity inp" "slot_key mem inp l = slot_key mem (ins ! i) j"
    "unique_slots d ! idx = slots inp ! l" "unique_slot_size d ! idx = slot_size inp l"
    "unique_slot_is_ref d ! idx = slot_is_ref inp l" using leaf(2) unfolding idx_def d_def by blast
  obtain qs where qs: "in_params inp = Some qs" using pk [OF r(1)] by (auto simp: packed_input_def split: option.splits)
  note q = packed_param [OF pk [OF r(1)] r(2) qs]
  have pi: "packed_input (ins ! i)" using pk i by simp
  note p = packed_param [OF pi j ps]
  have k: "param_key mem (qs ! l) (slots inp ! l) = param_key mem (ps ! j) (slots (ins ! i) ! j)"
    using r(3) key [OF pk [OF r(1)] r(2) qs] key [OF pi j ps] by simp
  have kind: "pkind (qs ! l) = pkind (ps ! j)"
    using k by (cases "pkind (qs ! l)"; cases "pkind (ps ! j)") (simp_all add: param_key_def)
  show "unique_slots d ! idx \<noteq> 0" using r(4) q(4) by simp
  show size: "unique_slot_size d ! idx = psize (ps ! j)"
    using r(5) q(1) param_key_eq(1) [OF k] p(3) by (simp add: slot_size_def)
  show "read_bytes mem (unique_slots d ! idx) (unat (psize (ps ! j))) = read_bytes mem (slots (ins ! i) ! j) (unat (psize (ps ! j)))"
    using param_key_eq(1) [OF k] p(3) r(4) by simp
  have "unique_slot_is_ref d ! idx \<longleftrightarrow> pkind (ps ! j) = CGIR_COMMAND_PROG_PARAM_REFERENCE"
    using r(6) q(1) kind by (simp add: slot_is_ref_def)
  then show "rc_bytes (recon_copy_of d (ps ! j) idx) = psize (ps ! j)"
    using p(5) size by (auto simp: recon_copy_of_def)
qed

text \<open>The whole way of the arguments: one buffer for the chain, from which every body's own buffer is rebuilt.\<close>

lemma packed_fill:
  assumes ins: "list_all packed_input ins"
    and es: "es = map (slot_extent True dl (dedup_all mem ins) ts) [0..<length (unique_slots (dedup_all mem ins))]"
    and fits: "(\<Sum>e\<leftarrow>es. unat (fst e) + unat (snd e)) < 2 ^ 64" and lay: "packed_layout es = (offs, n)"
  obtains buf where "layout_ok es offs n" "length buf = unat n"
    "fill_packed mem (fill_size True dl (dedup_all mem ins) ts) offs n (dedup_all mem ins) = Inr buf"
    "\<And>k. k < length (unique_slots (dedup_all mem ins)) \<Longrightarrow> unique_slots (dedup_all mem ins) ! k \<noteq> 0 \<Longrightarrow>
       fill_size True dl (dedup_all mem ins) ts k \<noteq> 0 \<Longrightarrow>
       holds (unat (offs ! k)) (read_bytes mem (unique_slots (dedup_all mem ins) ! k) (fill_size True dl (dedup_all mem ins) ts k)) buf"
proof -
  let ?d = "dedup_all mem ins"
  let ?m = "length (unique_slots ?d)"
  have "\<exists>b<64. snd e = 2 ^ b" if "e \<in> set es" for e
  proof -
    have "snd e = 1 \<or> snd e = 8" using that by (auto simp: es slot_extent_def)
    moreover have "(1 :: 64 word) = 2 ^ 0" "(8 :: 64 word) = 2 ^ 3" by simp_all
    ultimately show ?thesis by (metis (no_types) less_numeral_extra(1) numeral_less_iff semiring_norm(76,78,81) zero_less_numeral)
  qed
  then have "extents_ok es" using fits by (simp add: extents_ok_def)
  note l = packed_layout_ok(1) [OF this lay]
  have "fill_size True dl ?d ts k \<le> unat (fst (es ! k))" if "k < length es" for k
    using that by (simp add: es fill_size_def slot_extent_def)
  from fill_packed_ok [OF l _ this, of ?d mem] have "\<exists>buf. fill_packed mem (fill_size True dl ?d ts) offs n ?d = Inr buf \<and> length buf = unat n \<and>
      (\<forall>k<?m. unique_slots ?d ! k \<noteq> 0 \<longrightarrow> fill_size True dl ?d ts k \<noteq> 0 \<longrightarrow>
         holds (unat (offs ! k)) (read_bytes mem (unique_slots ?d ! k) (fill_size True dl ?d ts k)) buf)"
    by (simp add: es)
  then obtain buf where buf: "fill_packed mem (fill_size True dl ?d ts) offs n ?d = Inr buf" "length buf = unat n"
    "\<And>k. k < ?m \<Longrightarrow> unique_slots ?d ! k \<noteq> 0 \<Longrightarrow> fill_size True dl ?d ts k \<noteq> 0 \<Longrightarrow>
       holds (unat (offs ! k)) (read_bytes mem (unique_slots ?d ! k) (fill_size True dl ?d ts k)) buf"
    by blast
  then show thesis using that l by blast
qed

lemma packed_rebuild:
  assumes ins: "list_all packed_input ins" and i: "i < length ins" and r: "length r = unat (buf_size (ins ! i))"
    and buf: "\<And>k. k < length (unique_slots (dedup_all mem ins)) \<Longrightarrow> unique_slots (dedup_all mem ins) ! k \<noteq> 0 \<Longrightarrow>
       fill_size True dl (dedup_all mem ins) ts k \<noteq> 0 \<Longrightarrow>
       holds (unat (offs ! k)) (read_bytes mem (unique_slots (dedup_all mem ins) ! k) (fill_size True dl (dedup_all mem ins) ts k)) buf"
  shows "\<exists>cs r'. kernel_call_of (dedup_all mem ins) (ins ! i, index_map (dedup_all mem ins) ! i, wrapper_block_start (dedup_all mem ins) ! i) =
      Inr (Call_packed cs (buf_size (ins ! i))) \<and>
    run_recon buf offs cs r = Inr r' \<and>
    (\<forall>j<arity (ins ! i). \<forall>p. param_of (ins ! i) j = Some p \<longrightarrow>
       take (unat (psize p)) (drop (unat (poffset p)) r') = read_bytes mem (slots (ins ! i) ! j) (unat (psize p)))"
proof -
  let ?d = "dedup_all mem ins" and ?inp = "ins ! i"
  let ?idx = "\<lambda>j. index_map ?d ! i ! j" and ?m = "length (unique_slots ?d)"
  have pk: "packed_input ?inp" using ins i by (simp add: list_all_length)
  obtain ps where ps: "in_params ?inp = Some ps" "length ps = arity ?inp" "in_param_count ?inp = arity ?inp" "params_ok ps"
    "buf_size ?inp = packed_buf_size ps (arity ?inp)" "is_packed_leaf ?inp" "\<not> is_wrapper ?inp"
    using pk by (auto simp: packed_input_def split: option.splits)
  note slot = packed_slot [OF ins i _ ps(1), where mem = mem]
  let ?cs = "map (\<lambda>j. recon_copy_of ?d (ps ! j) (?idx j)) [0..<arity ?inp]"
  let ?bs = "\<lambda>j. read_bytes mem (slots ?inp ! j) (unat (psize (ps ! j)))"
  have call: "kernel_call_of ?d (?inp, index_map ?d ! i, wrapper_block_start ?d ! i) = Inr (Call_packed ?cs (buf_size ?inp))"
    using ps(1,6,7) by (simp add: kernel_call_of_def)
  have cs: "?cs ! j = recon_copy_of ?d (ps ! j) (?idx j)" "rc_slot (?cs ! j) = ?idx j" "rc_dst (?cs ! j) = poffset (ps ! j)"
    if "j < arity ?inp" for j using that by (simp_all add: recon_copy_of_def)
  have p: "0 < psize (ps ! j)" "unat (poffset (ps ! j)) + unat (psize (ps ! j)) < 2 ^ 64" if "j < arity ?inp" for j
    using ps(2,4) that by (auto simp: params_ok_def)
  have "\<exists>r'. run_recon buf offs ?cs r = Inr r' \<and> length r' = length r \<and> (\<forall>j<length ?cs. holds (unat (rc_dst (?cs ! j))) (?bs j) r')"
  proof (rule run_recon_ok)
    fix j assume "j < length ?cs"
    then have j: "j < arity ?inp" by simp
    have "unat (psize (ps ! j)) \<noteq> 0" using p(1) [OF j] by (simp add: unat_eq_0 word_gt_0)
    then have "holds (unat (offs ! ?idx j)) (read_bytes mem (unique_slots ?d ! ?idx j) (unat (psize (ps ! j)))) buf"
      using buf [of "?idx j"] slot(1-3) [OF j] by (simp add: fill_size_def)
    then show "holds (unat (offs ! rc_slot (?cs ! j))) (?bs j) buf" unfolding cs(2) [OF j] slot(4) [OF j] .
    show "length (?bs j) = unat (rc_bytes (?cs ! j))" using slot(5) [OF j] cs(1) [OF j] by simp
    have "poffset (ps ! j) + psize (ps ! j) \<le> buf_size ?inp" using packed_buf_size_ge [OF j, of ps] ps(5) by simp
    then have "unat (poffset (ps ! j)) + unat (psize (ps ! j)) \<le> unat (buf_size ?inp)"
      using p(2) [OF j] by (simp add: word_le_nat_alt unat_word_ariths)
    then show "unat (rc_dst (?cs ! j)) + length (?bs j) \<le> length r" using cs(3) [OF j] r by simp
  next
    fix a j assume "a < j" "j < length ?cs"
    then have "a < j" "j < arity ?inp" "a < arity ?inp" by simp_all
    then show "unat (rc_dst (?cs ! a)) + length (?bs a) \<le> unat (rc_dst (?cs ! j)) \<or>
        unat (rc_dst (?cs ! j)) + length (?bs j) \<le> unat (rc_dst (?cs ! a))"
      using ps(2,4) cs(3) by (simp add: params_ok_def)
  qed
  then obtain r' where r': "run_recon buf offs ?cs r = Inr r'"
    "\<And>j. j < arity ?inp \<Longrightarrow> holds (unat (poffset (ps ! j))) (?bs j) r'" using cs(3) by auto
  have "take (unat (psize p)) (drop (unat (poffset p)) r') = read_bytes mem (slots ?inp ! j) (unat (psize p))"
    if "j < arity ?inp" "param_of ?inp j = Some p" for j p
  proof -
    have "p = ps ! j" using that ps(1,3) by (simp add: param_of_def)
    then show ?thesis using holds_load [OF r'(2) [OF that(1)]] by (simp add: load_at_def split: if_splits)
  qed
  then show ?thesis using call r'(1) by blast
qed

text \<open>
  C11. Fusing packed task bodies loses no argument. For every chain of packed inputs with
  parameter tables a compiler emits, whatever their sizes and however their values coincide, the
  deduplicated buffer is laid out and filled without writing outside it, and the code of the
  wrapper that rebuilds the buffer of body \<open>i\<close> reads and writes within bounds and leaves, at the
  offset of every parameter, exactly the bytes of the argument slot recorded for it.
\<close>

theorem packed_fusion_keeps_arguments:
  assumes ins: "list_all packed_input ins" and i: "i < length ins"
    and es: "es = map (slot_extent True dl (dedup_all mem ins) ts) [0..<length (unique_slots (dedup_all mem ins))]"
    and fits: "(\<Sum>e\<leftarrow>es. unat (fst e) + unat (snd e)) < 2 ^ 64" and lay: "packed_layout es = (offs, n)"
    and r: "length r = unat (buf_size (ins ! i))"
  shows "\<exists>buf cs r'. fill_packed mem (fill_size True dl (dedup_all mem ins) ts) offs n (dedup_all mem ins) = Inr buf \<and>
    kernel_call_of (dedup_all mem ins) (ins ! i, index_map (dedup_all mem ins) ! i, wrapper_block_start (dedup_all mem ins) ! i) =
      Inr (Call_packed cs (buf_size (ins ! i))) \<and>
    run_recon buf offs cs r = Inr r' \<and>
    (\<forall>j<arity (ins ! i). \<forall>p. param_of (ins ! i) j = Some p \<longrightarrow>
       take (unat (psize p)) (drop (unat (poffset p)) r') = read_bytes mem (slots (ins ! i) ! j) (unat (psize p)))"
proof -
  obtain buf where buf: "fill_packed mem (fill_size True dl (dedup_all mem ins) ts) offs n (dedup_all mem ins) = Inr buf"
    "\<And>k. k < length (unique_slots (dedup_all mem ins)) \<Longrightarrow> unique_slots (dedup_all mem ins) ! k \<noteq> 0 \<Longrightarrow>
       fill_size True dl (dedup_all mem ins) ts k \<noteq> 0 \<Longrightarrow>
       holds (unat (offs ! k)) (read_bytes mem (unique_slots (dedup_all mem ins) ! k) (fill_size True dl (dedup_all mem ins) ts k)) buf"
    by (rule packed_fill [OF ins es fits lay]) blast
  show ?thesis using packed_rebuild [OF ins i r buf(2)] buf(1) by blast
qed

end
