(* ===== verification/Fuse_Witnesses.thy ===== *)
theory Fuse_Witnesses
  imports Prog_Packed
begin

text \<open>
  Two packed task bodies with a shared pointer and a captured 4-byte integer each, in a memory
  where the values of the two bodies coincide at different addresses, and the properties of the
  fusion core applied to them.
\<close>

definition sample_memory :: memory where
  "sample_memory a = ucast (a AND 15)"

definition sample_layout :: data_layout where
  "sample_layout =
     \<lparr>type_store_size = (\<lambda>t. case t of Integer_type n \<Rightarrow> n div 8 | _ \<Rightarrow> 8),
      abi_type_align = (\<lambda>_. 8),
      type_address = (\<lambda>t. case t of Void_type \<Rightarrow> 1 | Pointer_type \<Rightarrow> 2 | Integer_type _ \<Rightarrow> 3 | Other_type _ \<Rightarrow> 4)\<rparr>"

definition sample_params :: "prog_param list" where
  "sample_params =
     [\<lparr>pkind = CGIR_COMMAND_PROG_PARAM_REFERENCE, psize = 8, poffset = 0\<rparr>,
      \<lparr>pkind = CGIR_COMMAND_PROG_PARAM_COPY, psize = 4, poffset = 8\<rparr>]"

definition sample_body :: "string \<Rightarrow> uintptr \<Rightarrow> uintptr \<Rightarrow> fuse_input" where
  "sample_body name a b =
     \<lparr>fused_name = name, is_wrapper = False, is_packed_leaf = True, buf_size = 12, arity = 2,
      slots = [a, b], value_dedup = False, ptypes = [], in_params = Some sample_params,
      in_param_count = 2, in_layout = sample_layout\<rparr>"

definition sample_inputs :: "fuse_input list" where
  "sample_inputs = [sample_body ''a'' 16 32, sample_body ''b'' 48 64]"

lemma below_two: "(\<forall>j<2. P j) \<longleftrightarrow> P 0 \<and> P (1 :: nat)"
  by (auto simp: less_2_cases_iff)

lemma below_one: "(\<forall>j<1. P j) \<longleftrightarrow> P (0 :: nat)"
  by auto

lemma sample_inputs_packed: "list_all packed_input sample_inputs"
proof -
  have "params_ok sample_params"
    by (simp add: params_ok_def sample_params_def numeral_2_eq_2 [symmetric] below_two below_one)
  moreover have "packed_buf_size sample_params 2 = 12" by code_simp
  moreover have "length sample_params = 2" by (simp add: sample_params_def)
  ultimately show ?thesis by (simp add: sample_inputs_def sample_body_def packed_input_def)
qed

theorem dedup_routes_values_witness:
  "index_map (dedup_all sample_memory sample_inputs) ! 0 ! 1 = index_map (dedup_all sample_memory sample_inputs) ! 1 ! 1"
proof -
  have key: "slot_key sample_memory (sample_inputs ! 0) 1 = slot_key sample_memory (sample_inputs ! 1) 1"
    by code_simp
  have "layouts_agree sample_inputs" by (simp add: layouts_agree_def sample_inputs_def sample_body_def)
  then show ?thesis using dedup_routes_values [of sample_inputs 0 sample_memory] key
    by (simp add: sample_inputs_def sample_body_def)
qed

lemma sample_extents:
  "map (slot_extent True sample_layout (dedup_all sample_memory sample_inputs) [])
     [0..<length (unique_slots (dedup_all sample_memory sample_inputs))] = [(8, 8), (4, 1)]"
  by code_simp

theorem packed_fusion_keeps_arguments_witness:
  "\<exists>buf cs r'. fill_packed sample_memory (fill_size True sample_layout (dedup_all sample_memory sample_inputs) [])
       [0, 8] 12 (dedup_all sample_memory sample_inputs) = Inr buf \<and>
     run_recon buf [0, 8] cs (replicate 12 0) = Inr r' \<and> take 4 (drop 8 r') = read_bytes sample_memory 64 4"
proof -
  have lay: "packed_layout [(8, 8), (4, 1)] = ([0, 8], 12)" by code_simp
  have j: "1 < arity (sample_inputs ! 1)" "param_of (sample_inputs ! 1) 1 = Some (sample_params ! 1)"
    "psize (sample_params ! 1) = 4" "poffset (sample_params ! 1) = 8" "slots (sample_inputs ! 1) ! 1 = 64"
    by (simp_all add: sample_inputs_def sample_body_def param_of_def sample_params_def)
  have "1 < length sample_inputs" "replicate 12 0 = replicate 12 (0 :: byte)"
    "length (replicate 12 (0 :: byte)) = unat (buf_size (sample_inputs ! 1))"
    by (simp_all add: sample_inputs_def sample_body_def)
  from packed_fusion_keeps_arguments [OF sample_inputs_packed this(1) sample_extents [symmetric] _ lay this(3)] j
  show ?thesis by fastforce
qed

end
