(* ===== verification/Prog_Fusion.thy ===== *)
theory Prog_Fusion
  imports Prog_Core
begin

text \<open>
  \<^verbatim>\<open>command_graph_prog_fuse_llvmir\<close> as a whole: the programs of a chain, one of which is usually
  the destination, the heap buffers they own, and the fused program that replaces them.
\<close>

subsection \<open>Programs and heap\<close>

text \<open>
  \<open>fs_live\<close> lists the heap blocks in use. The tables of externs and of parameters are values of
  the model: only the code and the argument buffers are blocks.
\<close>

record fuse_state =
  fs_mem :: memory
  fs_live :: "uintptr list"
  fs_progs :: "prog list"

type_synonym allocator = "uintptr list \<Rightarrow> nat \<Rightarrow> uintptr"

text \<open>\<^verbatim>\<open>malloc\<close> (0 is failure) and the copy that fills the block; \<^verbatim>\<open>free\<close>.\<close>

definition heap_alloc :: "allocator \<Rightarrow> byte list \<Rightarrow> fuse_state \<Rightarrow> (uintptr \<times> fuse_state) result" where
  "heap_alloc al bs st =
     (let a = al (fs_live st) (length bs) in
      if a = 0 then Inl Aborted
      else Inr (a, st\<lparr>fs_mem := write_bytes a bs (fs_mem st), fs_live := a # fs_live st\<rparr>))"

definition heap_free :: "uintptr \<Rightarrow> fuse_state \<Rightarrow> fuse_state result" where
  "heap_free a st =
     (if a \<in> set (fs_live st) then Inr (st\<lparr>fs_live := remove1 a (fs_live st)\<rparr>) else Inl Undefined_behaviour)"

definition prog_at :: "fuse_state \<Rightarrow> nat \<Rightarrow> prog" where
  "prog_at st c = fs_progs st ! c"

definition upd_prog :: "nat \<Rightarrow> (prog \<Rightarrow> prog) \<Rightarrow> fuse_state \<Rightarrow> fuse_state" where
  "upd_prog c f st = st\<lparr>fs_progs := (fs_progs st)[c := f (fs_progs st ! c)]\<rparr>"

definition owns_raw :: "prog \<Rightarrow> bool" where
  "owns_raw p \<longleftrightarrow> raw_owned (llvmir (source p)) \<and> raw (llvmir (source p)) \<noteq> 0"

definition is_llvmir :: "prog \<Rightarrow> bool" where
  "is_llvmir p \<longleftrightarrow> source_type (source p) = CGIR_COMMAND_PROG_SOURCE_TYPE_LLVMIR"

definition owns_args :: "prog \<Rightarrow> bool" where
  "owns_args p \<longleftrightarrow> args_owned p \<and> pargs p \<noteq> 0"

subsection \<open>Reading the chain\<close>

text \<open>
  What the code asks of LLVM and of the environment: parsing module \<open>i\<close> and its layout, linking,
  the layout after the target is stamped, and the bitcode of the finished wrapper (no value when
  verification or inlining fails); \<open>fe_packed\<close> is \<^verbatim>\<open>CGIR_PROG_FUSE_PACKED\<close>.
\<close>

record fuse_env =
  fe_parse :: "nat \<Rightarrow> byte list \<Rightarrow> ir_module option"
  fe_layout :: "nat \<Rightarrow> ir_module \<Rightarrow> data_layout"
  fe_link :: "ir_module list \<Rightarrow> (ir_module \<times> data_layout) option"
  fe_stamp :: "data_layout \<Rightarrow> data_layout"
  fe_emit :: "fused_wrapper \<Rightarrow> ir_module \<Rightarrow> byte list option"
  fe_packed :: bool
  fe_alloc :: allocator

definition load_module :: "fuse_env \<Rightarrow> fuse_state \<Rightarrow> nat list \<Rightarrow> nat \<Rightarrow> ir_module result" where
  "load_module E st ps i =
     (let p = prog_at st (ps ! i) in
      if \<not> is_llvmir p then Inl Aborted
      else case parse_llvmir (fe_parse E i) (fs_mem st) (raw (llvmir (source p))) (rawsize (llvmir (source p))) of
             None \<Rightarrow> Inl Aborted
           | Some m \<Rightarrow> Inr m)"

definition prefix_of :: "nat \<Rightarrow> string" where
  "prefix_of i = ''__fz'' @ decimal i @ ''_''"

definition load_input ::
  "fuse_env \<Rightarrow> fuse_state \<Rightarrow> nat list \<Rightarrow> ir_module list \<Rightarrow> nat \<Rightarrow> (fuse_input \<times> ir_module) result" where
  "load_input E st ps ms i =
     fuse_input_of (fs_mem st) (prefix_of i) (fe_layout E i (ms ! i)) (prog_at st (ps ! i)) (ms ! i)"

record fused =
  fu_dedup :: dedup
  fu_device :: bool
  fu_packed_leaf :: bool
  fu_packed :: bool
  fu_types :: "ir_type option list"
  fu_offsets :: "size_t list"
  fu_size :: size_t
  fu_layout :: data_layout
  fu_code :: "byte list"

text \<open>Steps 6 to 9: the wrapper over the linked module, and its code.\<close>

definition emit_fused ::
  "fuse_env \<Rightarrow> prog list \<Rightarrow> fuse_input list \<Rightarrow> dedup \<Rightarrow> ir_module \<Rightarrow> data_layout \<Rightarrow> fused result" where
  "emit_fused E qs ins d m dl =
     bind_result (slot_types (\<lambda>nm. ftype (the (getFunction m nm))) ins d) (\<lambda>ts.
       let device = triple (llvmir (source (hd qs))) \<noteq> None;
           leaf = list_ex is_packed_leaf ins;
           packed = wants_packed (fe_packed E) device qs ins;
           N = length (unique_slots d);
           (offs, n) = (if packed then packed_layout (map (slot_extent leaf dl d ts) [0..<N]) else (replicate N 0, 0))
       in bind_result (build_wrapper device packed offs ts ins d) (\<lambda>w.
          case fe_emit E w m of
            None \<Rightarrow> Inl Aborted
          | Some bc \<Rightarrow> Inr \<lparr>fu_dedup = d, fu_device = device, fu_packed_leaf = leaf, fu_packed = packed,
              fu_types = ts, fu_offsets = offs, fu_size = n, fu_layout = fe_stamp E dl, fu_code = bc\<rparr>))"

definition build_fused :: "fuse_env \<Rightarrow> nat list \<Rightarrow> fuse_state \<Rightarrow> fused result" where
  "build_fused E ps st =
     assert_that (2 \<le> length ps)
       (bind_result (collect (load_module E st ps) [0..<length ps]) (\<lambda>ms.
        bind_result (collect (load_input E st ps ms) [0..<length ps]) (\<lambda>ims.
          let ins = map fst ims; qs = map (prog_at st) ps in
          if \<not> shapes_agree ins qs then Inl Aborted
          else case fe_link E (map snd ims) of
                 None \<Rightarrow> Inl Aborted
               | Some (m, dl) \<Rightarrow>
                   if list_ex (\<lambda>inp. getFunction m (fused_name inp) = None) ins then Inl Aborted
                   else emit_fused E qs ins (dedup_all (fs_mem st) ins) m dl)))"

subsection \<open>The fused program\<close>

text \<open>Step 9: the code, and the fields of the source.\<close>

definition fused_source :: "fused \<Rightarrow> uintptr \<Rightarrow> prog_source \<Rightarrow> prog_source" where
  "fused_source f a s =
     s\<lparr>source_type := CGIR_COMMAND_PROG_SOURCE_TYPE_LLVMIR,
       llvmir := (llvmir s)
         \<lparr>raw := a, rawsize := word_of_nat (length (fu_code f)), raw_owned := True,
          symbol := (if fu_device f then Some ''__fused_wrapper'' else None),
          proto := (if fu_packed f then CGIR_COMMAND_PROG_SOURCE_PROTO_PACKED_BUFFER
                    else CGIR_COMMAND_PROG_SOURCE_PROTO_VOID_PTRPTR),
          params := None, param_count := 0, params_owned := False\<rparr>\<rparr>"

definition install_source :: "fuse_env \<Rightarrow> fused \<Rightarrow> nat \<Rightarrow> fuse_state \<Rightarrow> fuse_state result" where
  "install_source E f dst st =
     bind_result (heap_alloc (fe_alloc E) (fu_code f) st) (\<lambda>(a, st1).
     bind_result
       (if is_llvmir (prog_at st1 dst) \<and> owns_raw (prog_at st1 dst)
        then heap_free (raw (llvmir (source (prog_at st1 dst)))) st1 else Inr st1) (\<lambda>st2.
     Inr (upd_prog dst (\<lambda>p. p\<lparr>source := fused_source f a (source p)\<rparr>) st2)))"

text \<open>Step 9b: the union of the tables of externs; the first entry of a name is kept.\<close>

definition merge_extern :: "prog_extern \<Rightarrow> prog_extern list \<Rightarrow> prog_extern list" where
  "merge_extern e ms =
     (if ename e = None \<or> list_ex (\<lambda>x. ename x = ename e) ms then ms else ms @ [e])"

definition merge_externs_of :: "prog \<Rightarrow> prog_extern list \<Rightarrow> prog_extern list result" where
  "merge_externs_of p ms =
     (if \<not> is_llvmir p then Inr ms
      else case externs (llvmir (source p)) of
             None \<Rightarrow> if externs_count (llvmir (source p)) = 0 then Inr ms else Inl Undefined_behaviour
           | Some es \<Rightarrow>
               if externs_count (llvmir (source p)) \<le> length es
               then Inr (fold merge_extern (take (externs_count (llvmir (source p))) es) ms)
               else Inl Undefined_behaviour)"

definition merge_externs :: "prog list \<Rightarrow> prog_extern list result" where
  "merge_externs qs = for_each merge_externs_of qs []"

definition install_externs :: "nat list \<Rightarrow> nat \<Rightarrow> fuse_state \<Rightarrow> fuse_state result" where
  "install_externs ps dst st =
     bind_result (merge_externs (map (prog_at st) ps)) (\<lambda>ms.
     Inr (upd_prog dst (\<lambda>p. p\<lparr>source := (source p)\<lparr>llvmir := (llvmir (source p))
       \<lparr>externs := (if ms = [] then None else Some ms), externs_count := length ms,
        externs_owned := (ms \<noteq> [])\<rparr>\<rparr>\<rparr>) st))"

text \<open>Step 10: the argument buffer, packed or an array of slot addresses.\<close>

definition args_bytes :: "fused \<Rightarrow> memory \<Rightarrow> byte list result" where
  "args_bytes f mem =
     (let d = fu_dedup f in
      if fu_packed f
      then fill_packed mem (fill_size (fu_packed_leaf f) (fu_layout f) d (fu_types f)) (fu_offsets f) (fu_size f) d
      else Inr (concat (map le_bytes (if unique_slots d = [] then [0] else unique_slots d))))"

definition fused_args :: "fused \<Rightarrow> uintptr \<Rightarrow> prog \<Rightarrow> prog" where
  "fused_args f a p =
     p\<lparr>prototype := (if fu_packed f then CGIR_COMMAND_PROG_FUNCTION_PROTOTYPE_PACKED
                     else CGIR_COMMAND_PROG_FUNCTION_PROTOTYPE_VARIADIC),
       launcher := Launcher_variadic 0, pargs := a,
       n_args := word_of_nat (length (unique_slots (fu_dedup f))),
       args_size := (if fu_packed f then fu_size f else 0), args_owned := True\<rparr>"

definition install_args :: "fuse_env \<Rightarrow> fused \<Rightarrow> nat \<Rightarrow> fuse_state \<Rightarrow> fuse_state result" where
  "install_args E f dst st =
     bind_result (args_bytes f (fs_mem st)) (\<lambda>bs.
     bind_result (heap_alloc (fe_alloc E) bs st) (\<lambda>(a, st1).
     bind_result
       (if owns_args (prog_at st1 dst) then heap_free (pargs (prog_at st1 dst)) st1 else Inr st1) (\<lambda>st2.
     Inr (upd_prog dst (fused_args f a) st2))))"

text \<open>Step 11b: the launch parameters of the first program.\<close>

definition install_launch :: "nat list \<Rightarrow> nat \<Rightarrow> fuse_state \<Rightarrow> fuse_state" where
  "install_launch ps dst st =
     (if dst \<noteq> ps ! 0
      then let q = prog_at st (ps ! 0)
           in upd_prog dst (\<lambda>p. p\<lparr>grid := grid q, block := block q, prog_launch_mode := prog_launch_mode q\<rparr>) st
      else st)"

subsection \<open>The consumed programs\<close>

text \<open>Step 12: what a consumed program owns is released, and its fields are cleared.\<close>

definition release_raw :: "nat \<Rightarrow> fuse_state \<Rightarrow> fuse_state result" where
  "release_raw c st =
     (let p = prog_at st c in
      if is_llvmir p \<and> owns_raw p
      then bind_result (heap_free (raw (llvmir (source p))) st) (\<lambda>st1.
           Inr (upd_prog c (\<lambda>p. p\<lparr>source := (source p)\<lparr>llvmir := (llvmir (source p))
             \<lparr>raw := 0, rawsize := 0, raw_owned := False\<rparr>\<rparr>\<rparr>) st1))
      else Inr st)"

definition release_args :: "nat \<Rightarrow> fuse_state \<Rightarrow> fuse_state result" where
  "release_args c st =
     (let p = prog_at st c in
      if owns_args p
      then bind_result (heap_free (pargs p) st) (\<lambda>st1.
           Inr (upd_prog c (\<lambda>p. p\<lparr>pargs := 0, n_args := 0, args_owned := False\<rparr>) st1))
      else Inr st)"

definition release_externs :: "nat \<Rightarrow> fuse_state \<Rightarrow> fuse_state" where
  "release_externs c st =
     (let p = prog_at st c in
      if is_llvmir p \<and> externs_owned (llvmir (source p)) \<and> externs (llvmir (source p)) \<noteq> None
      then upd_prog c (\<lambda>p. p\<lparr>source := (source p)\<lparr>llvmir := (llvmir (source p))
             \<lparr>externs := None, externs_count := 0, externs_owned := False\<rparr>\<rparr>\<rparr>) st
      else st)"

definition release_input :: "nat \<Rightarrow> nat \<Rightarrow> fuse_state \<Rightarrow> fuse_state result" where
  "release_input dst c st =
     (if c = dst then Inr st
      else bind_result (release_raw c st) (\<lambda>st1.
           bind_result (release_args c st1) (\<lambda>st2. Inr (release_externs c st2))))"

definition command_graph_prog_fuse_llvmir :: "fuse_env \<Rightarrow> nat list \<Rightarrow> nat \<Rightarrow> fuse_state \<Rightarrow> fuse_state result" where
  "command_graph_prog_fuse_llvmir E ps dst st =
     bind_result (build_fused E ps st) (\<lambda>f.
     bind_result (install_source E f dst st) (\<lambda>st1.
     bind_result (install_externs ps dst st1) (\<lambda>st2.
     bind_result (install_args E f dst st2) (\<lambda>st3.
     for_each (release_input dst) ps (install_launch ps dst st3)))))"

end
