(* ===== verification/Prog_Jit.thy ===== *)
theory Prog_Jit
  imports Prog_Fusion
begin

text \<open>
  \<^verbatim>\<open>command_graph_jit_llvmir\<close> (\<^verbatim>\<open>src/prog-fuse-llvmir.cc\<close>): the entry of a program is resolved,
  compiled for the host or to PTX for a device, and installed in the launcher; the argument slots
  of a packed body that was never fused are packed on the way.
\<close>

text \<open>What is compiled: a function of the module, or a wrapper that unpacks \<^verbatim>\<open>args[k]\<close> for it.\<close>

datatype jit_target = Jit_entry string | Jit_wrapper string "ir_type list"

text \<open>
  LLVM: parsing, the PTX of a module for a target and a linked run-time library (empty on
  failure), and compilation with absolute symbols. \<open>je_rtl\<close> is \<^verbatim>\<open>CGIR_DEVICE_RTL_BC\<close>.
\<close>

record jit_env =
  je_parse :: "byte list \<Rightarrow> ir_module option"
  je_ptx :: "ir_module \<Rightarrow> string \<Rightarrow> string option \<Rightarrow> string option \<Rightarrow> byte list"
  je_compile :: "ir_module \<Rightarrow> jit_target \<Rightarrow> (string \<rightharpoonup> uintptr) \<Rightarrow> uintptr option"
  je_rtl :: "string option"
  je_alloc :: allocator

definition jit_entry :: "prog \<Rightarrow> ir_module \<Rightarrow> ir_function option" where
  "jit_entry p m =
     (case symbol (llvmir (source p)) of
        Some y \<Rightarrow> getFunction m y
      | None \<Rightarrow>
          (case (case getFunction m ''__fused_wrapper'' of
                   Some w \<Rightarrow> if is_declaration w then None else Some w
                 | None \<Rightarrow> None) of
             Some w \<Rightarrow> Some w
           | None \<Rightarrow>
               (case find_external_def m of
                  Some f \<Rightarrow> Some f
                | None \<Rightarrow> find_kernel m)))"

text \<open>The run-time library linked into a device module: the environment first.\<close>

definition device_rtl :: "string option \<Rightarrow> string option \<Rightarrow> string option" where
  "device_rtl env bc =
     (let r = (case env of Some (c # cs) \<Rightarrow> env | _ \<Rightarrow> bc)
      in case r of Some (c # cs) \<Rightarrow> r | _ \<Rightarrow> None)"

definition jit_device :: "jit_env \<Rightarrow> ir_module \<Rightarrow> string \<Rightarrow> nat \<Rightarrow> fuse_state \<Rightarrow> fuse_state result" where
  "jit_device E m target c st =
     (let p = prog_at st c;
          ptx = je_ptx E m target (arch (llvmir (source p))) (device_rtl (je_rtl E) (runtime_bc (llvmir (source p))))
      in if ptx = [] then Inl Aborted
         else bind_result (if owns_raw p then heap_free (raw (llvmir (source p))) st else Inr st) (\<lambda>st1.
              bind_result (heap_alloc (je_alloc E) (ptx @ [0]) st1) (\<lambda>(a, st2).
              Inr (upd_prog c (\<lambda>p. p
                \<lparr>source := (source p)
                   \<lparr>source_type := CGIR_COMMAND_PROG_SOURCE_TYPE_PTX,
                    llvmir := (llvmir (source p))
                      \<lparr>raw := a, rawsize := word_of_nat (length ptx + 1), raw_owned := True\<rparr>\<rparr>,
                 prototype := CGIR_COMMAND_PROG_FUNCTION_PROTOTYPE_VARIADIC,
                 launcher := Launcher_variadic 0\<rparr>) st2))))"

definition jit_target_of :: "ir_function \<Rightarrow> jit_target" where
  "jit_target_of f =
     (if is_void_voidptr (ftype f) \<or> is_void_ptr_size (ftype f) then Jit_entry (fname f)
      else Jit_wrapper (fname f) (param_types (ftype f)))"

text \<open>The absolute symbols: of two entries with one name the later one counts.\<close>

definition jit_symbols :: "prog_extern list \<Rightarrow> string \<rightharpoonup> uintptr" where
  "jit_symbols es = fold (\<lambda>e m. case ename e of None \<Rightarrow> m | Some nm \<Rightarrow> m(nm \<mapsto> eaddr e)) es (\<lambda>_. None)"

definition jit_externs :: "prog \<Rightarrow> (string \<rightharpoonup> uintptr) result" where
  "jit_externs p =
     (case externs (llvmir (source p)) of
        None \<Rightarrow> Inr (\<lambda>_. None)
      | Some es \<Rightarrow>
          if externs_count (llvmir (source p)) \<le> length es
          then Inr (jit_symbols (take (externs_count (llvmir (source p))) es)) else Inl Undefined_behaviour)"

text \<open>The slots of a stand-alone packed body, copied to the offsets of its parameter table.\<close>

definition pack_slot ::
  "memory \<Rightarrow> uintptr \<Rightarrow> prog_param list \<Rightarrow> nat \<Rightarrow> byte list \<Rightarrow> byte list result" where
  "pack_slot mem av ps k buf =
     (let s = read_word mem (av + 8 * word_of_nat k) in
      if s = 0 then Inr buf
      else store_at (unat (poffset (ps ! k))) (read_bytes mem s (unat (psize (ps ! k)))) buf)"

definition pack_slots :: "memory \<Rightarrow> uintptr \<Rightarrow> prog_param list \<Rightarrow> nat \<Rightarrow> byte list result" where
  "pack_slots mem av ps n =
     for_each (pack_slot mem av ps) (if av = 0 then [] else [0..<n])
       (replicate (unat (packed_buf_size ps n)) 0)"

text \<open>The slots of a program still have to be packed.\<close>

definition needs_packing :: "prog \<Rightarrow> bool" where
  "needs_packing p \<longleftrightarrow>
     params (llvmir (source p)) \<noteq> None \<and> 0 < param_count (llvmir (source p)) \<and> args_size p = 0"

definition install_packed_args :: "jit_env \<Rightarrow> nat \<Rightarrow> fuse_state \<Rightarrow> fuse_state result" where
  "install_packed_args E c st =
     (let p = prog_at st c; ps = the (params (llvmir (source p))); n = param_count (llvmir (source p)) in
      if needs_packing p
      then bind_result (pack_slots (fs_mem st) (pargs p) ps n) (\<lambda>bs.
           bind_result (heap_alloc (je_alloc E) bs st) (\<lambda>(a, st1).
           bind_result (if owns_args p then heap_free (pargs p) st1 else Inr st1) (\<lambda>st2.
           Inr (upd_prog c (\<lambda>p. p\<lparr>pargs := a, n_args := word_of_nat n, args_size := packed_buf_size ps n,
                                 args_owned := True\<rparr>) st2))))
      else Inr st)"

definition jit_host :: "jit_env \<Rightarrow> ir_module \<Rightarrow> ir_function \<Rightarrow> nat \<Rightarrow> fuse_state \<Rightarrow> fuse_state result" where
  "jit_host E m f c st =
     bind_result (jit_externs (prog_at st c)) (\<lambda>syms.
     case je_compile E m (jit_target_of f) syms of
       None \<Rightarrow> Inl Aborted
     | Some fn \<Rightarrow>
         if is_void_ptr_size (ftype f)
         then bind_result (install_packed_args E c st) (\<lambda>st1.
              Inr (upd_prog c (\<lambda>p. p\<lparr>prototype := CGIR_COMMAND_PROG_FUNCTION_PROTOTYPE_PACKED,
                                    launcher := Launcher_packed fn\<rparr>) st1))
         else Inr (upd_prog c (\<lambda>p. p\<lparr>prototype := CGIR_COMMAND_PROG_FUNCTION_PROTOTYPE_VARIADIC,
                                    launcher := Launcher_variadic fn\<rparr>) st))"

definition command_graph_jit_llvmir :: "jit_env \<Rightarrow> nat \<Rightarrow> fuse_state \<Rightarrow> fuse_state result" where
  "command_graph_jit_llvmir E c st =
     (let p = prog_at st c in
      assert_that (is_llvmir p) (assert_that (raw (llvmir (source p)) \<noteq> 0)
        (case parse_llvmir (je_parse E) (fs_mem st) (raw (llvmir (source p))) (rawsize (llvmir (source p))) of
           None \<Rightarrow> Inl Aborted
         | Some m \<Rightarrow>
             (case jit_entry p m of
                None \<Rightarrow> Inr st
              | Some f \<Rightarrow>
                  if is_declaration f \<or> flinkage f = Local_linkage then Inr st
                  else (case triple (llvmir (source p)) of
                          Some target \<Rightarrow> jit_device E m target c st
                        | None \<Rightarrow> jit_host E m f c st)))))"

end
