(* ===== verification/Prog_Heap.thy ===== *)
theory Prog_Heap
  imports Prog_Jit
begin

text \<open>
  Ownership of the heap buffers of programs. A block in use belongs to exactly one program or to
  the caller; fusing a chain and compiling a program keep it so, whatever chain they are given:
  nothing is freed twice, nothing a program owned is lost.
\<close>

subsection \<open>Owned blocks\<close>

definition owned_of :: "prog \<Rightarrow> uintptr list" where
  "owned_of p = (if owns_raw p then [raw (llvmir (source p))] else []) @ (if owns_args p then [pargs p] else [])"

definition owned :: "fuse_state \<Rightarrow> uintptr list" where
  "owned st = concat (map owned_of (fs_progs st))"

text \<open>\<open>X\<close> are the blocks in use that no program owns.\<close>

definition heap_inv :: "uintptr multiset \<Rightarrow> fuse_state \<Rightarrow> bool" where
  "heap_inv X st \<longleftrightarrow> mset (fs_live st) = mset (owned st) + X \<and> distinct (fs_live st)"

text \<open>\<^verbatim>\<open>malloc\<close> answers a null pointer or a block that is not in use.\<close>

definition allocator_ok :: "allocator \<Rightarrow> bool" where
  "allocator_ok al \<longleftrightarrow> (\<forall>l n. al l n = 0 \<or> al l n \<notin> set l)"

text \<open>Only the programs \<open>D\<close> change.\<close>

definition frame :: "nat set \<Rightarrow> fuse_state \<Rightarrow> fuse_state \<Rightarrow> bool" where
  "frame D st st' \<longleftrightarrow> length (fs_progs st') = length (fs_progs st) \<and> (\<forall>c. c \<notin> D \<longrightarrow> prog_at st' c = prog_at st c)"

lemma frame_refl [simp]: "frame D st st"
  by (simp add: frame_def)

lemma frame_trans: "frame D a b \<Longrightarrow> frame D b c \<Longrightarrow> frame D a c"
  by (simp add: frame_def)

lemma frame_mono: "frame D a b \<Longrightarrow> D \<subseteq> D' \<Longrightarrow> frame D' a b"
  by (auto simp: frame_def)

lemma frameD:
  assumes "frame D a b"
  shows "length (fs_progs b) = length (fs_progs a)" "c \<notin> D \<Longrightarrow> prog_at b c = prog_at a c"
  using assms by (simp_all add: frame_def)

lemma mset_concat_update:
  "c < length xs \<Longrightarrow> mset (concat (map f (xs[c := y]))) + mset (f (xs ! c)) = mset (concat (map f xs)) + mset (f y)"
  by (induction xs arbitrary: c) (auto simp: add_ac split: nat.split)

lemma owned_upd:
  "c < length (fs_progs st) \<Longrightarrow>
     mset (owned (upd_prog c f st)) + mset (owned_of (prog_at st c)) = mset (owned st) + mset (owned_of (f (prog_at st c)))"
  unfolding owned_def upd_prog_def prog_at_def by (simp add: mset_concat_update)

lemma prog_at_upd:
  "prog_at (upd_prog c f st) k = (if k = c \<and> c < length (fs_progs st) then f (prog_at st c) else prog_at st k)"
  unfolding prog_at_def upd_prog_def by (cases "c < length (fs_progs st)") (auto simp: nth_list_update list_update_beyond not_less)

lemma upd_prog_simps [simp]:
  "fs_live (upd_prog c f st) = fs_live st" "fs_mem (upd_prog c f st) = fs_mem st"
  "length (fs_progs (upd_prog c f st)) = length (fs_progs st)"
  by (simp_all add: upd_prog_def)

lemma frame_upd [simp]: "frame {c} st (upd_prog c f st)"
  by (simp add: frame_def prog_at_upd)

text \<open>Replacing the program \<open>c\<close>: what its new version owns instead comes from the spare blocks.\<close>

lemma heap_inv_upd:
  assumes c: "c < length (fs_progs st)" and d: "distinct (fs_live st)"
    and e: "mset (fs_live st) + mset (owned_of (prog_at st c)) = mset (owned st) + mset (owned_of (f (prog_at st c))) + X"
  shows "heap_inv X (upd_prog c f st)"
proof -
  have "mset (fs_live st) + mset (owned_of (prog_at st c)) =
      mset (owned (upd_prog c f st)) + mset (owned_of (prog_at st c)) + X"
    unfolding owned_upd [OF c] e ..
  then have "mset (fs_live st) = mset (owned (upd_prog c f st)) + X" by simp
  then show ?thesis using d by (simp add: heap_inv_def)
qed

lemma heap_inv_same:
  assumes "heap_inv X st" "c < length (fs_progs st)" "owned_of (f (prog_at st c)) = owned_of (prog_at st c)"
  shows "heap_inv X (upd_prog c f st)"
  using assms by (intro heap_inv_upd) (simp_all add: heap_inv_def add_ac)

lemma owned_nth: "c < length (fs_progs st) \<Longrightarrow> a \<in> set (owned_of (prog_at st c)) \<Longrightarrow> a \<in> set (owned st)"
  unfolding owned_def prog_at_def by auto

text \<open>An allocation adds a spare block, freeing an owned block leaves its owner to be replaced.\<close>

lemma heap_alloc_inv:
  assumes "heap_inv X st" "allocator_ok al"
  shows "heap_alloc al bs st = Inl Aborted \<or>
    (\<exists>a st1. heap_alloc al bs st = Inr (a, st1) \<and> a \<noteq> 0 \<and> heap_inv (add_mset a X) st1 \<and> fs_progs st1 = fs_progs st)"
  using assms unfolding heap_alloc_def heap_inv_def allocator_ok_def owned_def Let_def
  by (cases "al (fs_live st) (length bs) = 0") auto

lemma heap_free_ok:
  assumes "heap_inv X st" "c < length (fs_progs st)" "a \<in> set (owned_of (prog_at st c))"
  shows "\<exists>st1. heap_free a st = Inr st1 \<and> add_mset a (mset (fs_live st1)) = mset (fs_live st) \<and>
    distinct (fs_live st1) \<and> fs_progs st1 = fs_progs st \<and> fs_mem st1 = fs_mem st"
proof -
  have "a \<in> set (fs_live st)"
    using owned_nth [OF assms(2,3)] assms(1) unfolding heap_inv_def by (metis set_mset_mset union_iff)
  moreover from this have "add_mset a (mset (remove1 a (fs_live st))) = mset (fs_live st)" by simp
  moreover have "distinct (fs_live st)" using assms(1) by (simp add: heap_inv_def)
  ultimately show ?thesis by (intro exI [of _ "st\<lparr>fs_live := remove1 a (fs_live st)\<rparr>"]) (simp add: heap_free_def)
qed

lemma heap_inv_progs:
  assumes "heap_inv X st" "fs_progs st1 = fs_progs st" "c < length (fs_progs st)" "distinct (fs_live st1)"
    and "mset (fs_live st1) + mset (owned_of (prog_at st c)) = mset (fs_live st) + mset (owned_of (f (prog_at st c)))"
  shows "heap_inv X (upd_prog c f st1)"
proof -
  have "owned st1 = owned st" "prog_at st1 c = prog_at st c" using assms(2) by (simp_all add: owned_def prog_at_def)
  then show ?thesis using assms by (intro heap_inv_upd) (simp_all add: heap_inv_def ac_simps)
qed

text \<open>The shape of both installations: a new block, the old one freed if it was owned.\<close>

lemma install_block:
  assumes inv: "heap_inv X st" and al: "allocator_ok al" and c: "c < length (fs_progs st)"
    and old: "mset (owned_of (prog_at st c)) = (if B then {#b#} else {#}) + G"
    and new: "\<And>a. a \<noteq> 0 \<Longrightarrow> mset (owned_of (f a (prog_at st c))) = add_mset a G"
    and run: "\<And>a st1. fs_progs st1 = fs_progs st \<Longrightarrow>
      k (a, st1) = bind_result (if B then heap_free b st1 else Inr st1) (\<lambda>st2. Inr (upd_prog c (f a) st2))"
  shows "bind_result (heap_alloc al bs st) k = Inl Aborted \<or>
    (\<exists>a st'. bind_result (heap_alloc al bs st) k = Inr st' \<and> heap_inv X st' \<and> frame {c} st st' \<and> a \<noteq> 0 \<and>
       prog_at st' c = f a (prog_at st c))"
  using heap_alloc_inv [OF inv al, of bs]
proof (elim disjE exE conjE)
  fix a st1
  assume a: "heap_alloc al bs st = Inr (a, st1)" "a \<noteq> 0" "heap_inv (add_mset a X) st1" "fs_progs st1 = fs_progs st"
  have at: "prog_at st1 = prog_at st" "owned st1 = owned st" using a(4) by (auto simp: prog_at_def owned_def)
  have live: "mset (fs_live st1) = add_mset a (mset (fs_live st))" "distinct (fs_live st1)"
    using a(3) inv at(2) by (simp_all add: heap_inv_def)
  show ?thesis
  proof (cases B)
    case True
    then have "b \<in># mset (owned_of (prog_at st c))" unfolding old by simp
    then have "b \<in> set (owned_of (prog_at st1 c))" by (simp add: at(1))
    then obtain st2 where st2: "heap_free b st1 = Inr st2" "add_mset b (mset (fs_live st2)) = mset (fs_live st1)"
      "distinct (fs_live st2)" "fs_progs st2 = fs_progs st1"
      using heap_free_ok [OF a(3), of c b] c a(4) by auto
    have "mset (fs_live st2) + ({#b#} + G) = add_mset b (mset (fs_live st2)) + G" by simp
    also have "\<dots> = mset (fs_live st) + add_mset a G" unfolding st2(2) live(1) by simp
    finally have "mset (fs_live st2) + mset (owned_of (prog_at st c)) = mset (fs_live st) + mset (owned_of (f a (prog_at st c)))"
      unfolding old new [OF a(2)] by (simp only: True if_True)
    then have "heap_inv X (upd_prog c (f a) st2)"
      using st2(3,4) a(4) c by (intro heap_inv_progs [OF inv]) simp_all
    moreover have "frame {c} st (upd_prog c (f a) st2)" "prog_at (upd_prog c (f a) st2) c = f a (prog_at st c)"
      using st2(4) a(4) c by (auto simp: frame_def prog_at_upd) (simp_all add: prog_at_def)
    ultimately show ?thesis using a(1,2) run [OF a(4)] st2(1) True by auto
  next
    case False
    have "heap_inv X (upd_prog c (f a) st1)"
      using a(4) c old new [OF a(2)] live False by (intro heap_inv_progs [OF inv]) simp_all
    moreover have "frame {c} st (upd_prog c (f a) st1)" "prog_at (upd_prog c (f a) st1) c = f a (prog_at st c)"
      using a(4) c by (auto simp: frame_def prog_at_upd) (simp_all add: prog_at_def)
    ultimately show ?thesis using a(1,2) run [OF a(4)] False by auto
  qed
qed simp

subsection \<open>Installing the fused program\<close>

lemma install_source_ok:
  assumes "heap_inv X st" "allocator_ok (fe_alloc E)" "dst < length (fs_progs st)" "is_llvmir (prog_at st dst)"
  shows "install_source E f dst st = Inl Aborted \<or>
    (\<exists>a st'. install_source E f dst st = Inr st' \<and> heap_inv X st' \<and> frame {dst} st st' \<and> a \<noteq> 0 \<and>
       prog_at st' dst = (prog_at st dst)\<lparr>source := fused_source f a (source (prog_at st dst))\<rparr>)"
  unfolding install_source_def
proof (rule install_block [OF assms(1-3), where f = "\<lambda>a p. p\<lparr>source := fused_source f a (source p)\<rparr>"
      and B = "owns_raw (prog_at st dst)" and b = "raw (llvmir (source (prog_at st dst)))"
      and G = "mset (if owns_args (prog_at st dst) then [pargs (prog_at st dst)] else [])"])
  show "mset (owned_of (prog_at st dst)) = (if owns_raw (prog_at st dst) then {#raw (llvmir (source (prog_at st dst)))#} else {#}) +
      mset (if owns_args (prog_at st dst) then [pargs (prog_at st dst)] else [])" by (simp add: owned_of_def)
  show "mset (owned_of ((prog_at st dst)\<lparr>source := fused_source f a (source (prog_at st dst))\<rparr>)) =
      add_mset a (mset (if owns_args (prog_at st dst) then [pargs (prog_at st dst)] else []))" if "a \<noteq> 0" for a
    using that by (simp add: owned_of_def owns_raw_def owns_args_def fused_source_def)
qed (use assms(4) in \<open>simp add: prog_at_def\<close>)

lemma install_args_ok:
  assumes "heap_inv X st" "allocator_ok (fe_alloc E)" "dst < length (fs_progs st)" "args_bytes f (fs_mem st) = Inr bs"
  shows "install_args E f dst st = Inl Aborted \<or>
    (\<exists>a st'. install_args E f dst st = Inr st' \<and> heap_inv X st' \<and> frame {dst} st st' \<and> a \<noteq> 0 \<and>
       prog_at st' dst = fused_args f a (prog_at st dst))"
  unfolding install_args_def assms(4) bind_result_simps
proof (rule install_block [OF assms(1-3), where f = "fused_args f"
      and B = "owns_args (prog_at st dst)" and b = "pargs (prog_at st dst)"
      and G = "mset (if owns_raw (prog_at st dst) then [raw (llvmir (source (prog_at st dst)))] else [])"])
  show "mset (owned_of (fused_args f a (prog_at st dst))) =
      add_mset a (mset (if owns_raw (prog_at st dst) then [raw (llvmir (source (prog_at st dst)))] else []))" if "a \<noteq> 0" for a
    using that by (simp add: owned_of_def owns_raw_def owns_args_def fused_args_def)
qed (simp_all add: owned_of_def prog_at_def)

lemma install_externs_ok:
  assumes "heap_inv X st" "dst < length (fs_progs st)" "merge_externs (map (prog_at st) ps) = Inr ms"
  shows "\<exists>st'. install_externs ps dst st = Inr st' \<and> heap_inv X st' \<and> frame {dst} st st' \<and>
    prog_at st' dst = (prog_at st dst)\<lparr>source := (source (prog_at st dst))\<lparr>llvmir := (llvmir (source (prog_at st dst)))
      \<lparr>externs := (if ms = [] then None else Some ms), externs_count := length ms, externs_owned := (ms \<noteq> [])\<rparr>\<rparr>\<rparr>"
proof -
  let ?f = "\<lambda>p. p\<lparr>source := (source p)\<lparr>llvmir := (llvmir (source p))
      \<lparr>externs := (if ms = [] then None else Some ms), externs_count := length ms, externs_owned := (ms \<noteq> [])\<rparr>\<rparr>\<rparr>"
  have "heap_inv X (upd_prog dst ?f st)"
    by (rule heap_inv_same [OF assms(1,2)]) (simp add: owned_of_def owns_raw_def owns_args_def)
  moreover have "install_externs ps dst st = Inr (upd_prog dst ?f st)" by (simp add: install_externs_def assms(3))
  ultimately show ?thesis using assms(2) by (simp add: prog_at_upd)
qed

lemma install_launch_ok:
  assumes "heap_inv X st" "dst < length (fs_progs st)"
  shows "heap_inv X (install_launch ps dst st)" "frame {dst} st (install_launch ps dst st)"
    "owned_of (prog_at (install_launch ps dst st) dst) = owned_of (prog_at st dst)"
    "source (prog_at (install_launch ps dst st) dst) = source (prog_at st dst)"
  using assms
  by (auto simp: install_launch_def Let_def owned_of_def owns_raw_def owns_args_def prog_at_upd intro!: heap_inv_same)

subsection \<open>Releasing the consumed programs\<close>

lemma release_block:
  assumes inv: "heap_inv X st" and c: "c < length (fs_progs st)"
    and old: "mset (owned_of (prog_at st c)) = add_mset b G" and new: "mset (owned_of (f (prog_at st c))) = G"
  shows "\<exists>st1. heap_free b st = Inr st1 \<and> heap_inv X (upd_prog c f st1) \<and> frame {c} st (upd_prog c f st1) \<and>
    prog_at (upd_prog c f st1) c = f (prog_at st c)"
proof -
  have "b \<in># mset (owned_of (prog_at st c))" unfolding old by simp
  then have "b \<in> set (owned_of (prog_at st c))" by simp
  from heap_free_ok [OF inv c this] obtain st1 where st1: "heap_free b st = Inr st1"
    "add_mset b (mset (fs_live st1)) = mset (fs_live st)" "distinct (fs_live st1)" "fs_progs st1 = fs_progs st" by blast
  have "mset (fs_live st1) + mset (owned_of (prog_at st c)) = mset (fs_live st) + mset (owned_of (f (prog_at st c)))"
    unfolding old new st1(2) [symmetric] by simp
  then have "heap_inv X (upd_prog c f st1)" using st1(3,4) c by (intro heap_inv_progs [OF inv])
  moreover have "frame {c} st (upd_prog c f st1)" "prog_at (upd_prog c f st1) c = f (prog_at st c)"
    using st1(4) c by (auto simp: frame_def prog_at_upd) (simp_all add: prog_at_def)
  ultimately show ?thesis using st1(1) by blast
qed

lemma release_raw_ok:
  assumes inv: "heap_inv X st" and c: "c < length (fs_progs st)" and l: "is_llvmir (prog_at st c)"
  shows "\<exists>st'. release_raw c st = Inr st' \<and> heap_inv X st' \<and> frame {c} st st' \<and>
    is_llvmir (prog_at st' c) \<and> \<not> owns_raw (prog_at st' c)"
proof (cases "owns_raw (prog_at st c)")
  case True
  let ?f = "\<lambda>p. p\<lparr>source := (source p)\<lparr>llvmir := (llvmir (source p))\<lparr>raw := 0, rawsize := 0, raw_owned := False\<rparr>\<rparr>\<rparr>"
  have "mset (owned_of (prog_at st c)) = add_mset (raw (llvmir (source (prog_at st c))))
      (mset (if owns_args (prog_at st c) then [pargs (prog_at st c)] else []))"
    using True by (simp add: owned_of_def)
  moreover have "mset (owned_of (?f (prog_at st c))) = mset (if owns_args (prog_at st c) then [pargs (prog_at st c)] else [])"
    by (simp add: owned_of_def owns_raw_def owns_args_def)
  ultimately obtain st1 where st1: "heap_free (raw (llvmir (source (prog_at st c)))) st = Inr st1"
    "heap_inv X (upd_prog c ?f st1)" "frame {c} st (upd_prog c ?f st1)" "prog_at (upd_prog c ?f st1) c = ?f (prog_at st c)"
    using release_block [OF inv c, where f = ?f] by blast
  then have "release_raw c st = Inr (upd_prog c ?f st1)" using True l by (simp add: release_raw_def)
  then show ?thesis using st1(2-4) l by (simp add: is_llvmir_def owns_raw_def)
next
  case False
  then show ?thesis using inv l by (simp add: release_raw_def)
qed

lemma release_args_ok:
  assumes inv: "heap_inv X st" and c: "c < length (fs_progs st)" and l: "is_llvmir (prog_at st c)"
    and r: "\<not> owns_raw (prog_at st c)"
  shows "\<exists>st'. release_args c st = Inr st' \<and> heap_inv X st' \<and> frame {c} st st' \<and>
    is_llvmir (prog_at st' c) \<and> owned_of (prog_at st' c) = []"
proof (cases "owns_args (prog_at st c)")
  case True
  let ?f = "\<lambda>p. p\<lparr>pargs := 0, n_args := 0, args_owned := False\<rparr>"
  have "mset (owned_of (prog_at st c)) = add_mset (pargs (prog_at st c)) {#}" using True r by (simp add: owned_of_def)
  moreover have new: "owned_of (?f (prog_at st c)) = []" using r by (simp add: owned_of_def owns_raw_def owns_args_def)
  then have "mset (owned_of (?f (prog_at st c))) = {#}" by simp
  ultimately obtain st1 where st1: "heap_free (pargs (prog_at st c)) st = Inr st1"
    "heap_inv X (upd_prog c ?f st1)" "frame {c} st (upd_prog c ?f st1)" "prog_at (upd_prog c ?f st1) c = ?f (prog_at st c)"
    using release_block [OF inv c, where f = ?f] by blast
  then have "release_args c st = Inr (upd_prog c ?f st1)" using True by (simp add: release_args_def Let_def)
  then show ?thesis using st1(2-4) l new by (simp add: is_llvmir_def)
next
  case False
  then show ?thesis using inv l r by (simp add: release_args_def owned_of_def)
qed

lemma release_input_ok:
  assumes inv: "heap_inv X st" and c: "c < length (fs_progs st)" and l: "is_llvmir (prog_at st c)"
  shows "\<exists>st'. release_input dst c st = Inr st' \<and> heap_inv X st' \<and> frame ({c} - {dst}) st st' \<and>
    is_llvmir (prog_at st' c) \<and> (c \<noteq> dst \<longrightarrow> owned_of (prog_at st' c) = [])"
proof (cases "c = dst")
  case True
  then show ?thesis using inv l by (simp add: release_input_def)
next
  case False
  obtain st1 where st1: "release_raw c st = Inr st1" "heap_inv X st1" "frame {c} st st1"
    "is_llvmir (prog_at st1 c)" "\<not> owns_raw (prog_at st1 c)" using release_raw_ok [OF assms] by blast
  have c1: "c < length (fs_progs st1)" using frameD(1) [OF st1(3)] c by simp
  obtain st2 where st2: "release_args c st1 = Inr st2" "heap_inv X st2" "frame {c} st1 st2"
    "is_llvmir (prog_at st2 c)" "owned_of (prog_at st2 c) = []" using release_args_ok [OF st1(2) c1 st1(4,5)] by blast
  have c2: "c < length (fs_progs st2)" using frameD(1) [OF st2(3)] c1 by simp
  have "heap_inv X (release_externs c st2)" "frame {c} st2 (release_externs c st2)"
    "is_llvmir (prog_at (release_externs c st2) c)" "owned_of (prog_at (release_externs c st2) c) = []"
    using st2(2,4,5) c2
    by (auto simp: release_externs_def Let_def is_llvmir_def owned_of_def owns_raw_def owns_args_def prog_at_upd
        intro!: heap_inv_same split: if_splits)
  then show ?thesis
    using False st1(1) st2(1) frame_trans [OF frame_trans [OF st1(3) st2(3)], of "release_externs c st2"]
    by (simp add: release_input_def)
qed

lemma release_inputs_ok:
  assumes inv: "heap_inv X st" and ps: "set ps \<subseteq> {..<length (fs_progs st)}" and l: "\<And>c. c \<in> set ps \<Longrightarrow> is_llvmir (prog_at st c)"
  shows "\<exists>st'. for_each (release_input dst) ps st = Inr st' \<and> heap_inv X st' \<and> frame (set ps - {dst}) st st' \<and>
    (\<forall>c\<in>set ps - {dst}. owned_of (prog_at st' c) = [])"
proof -
  let ?I = "\<lambda>k st'. heap_inv X st' \<and> frame (set ps - {dst}) st st' \<and> (\<forall>c\<in>set ps. is_llvmir (prog_at st' c)) \<and>
    (\<forall>c\<in>set (take k ps) - {dst}. owned_of (prog_at st' c) = [])"
  have "\<exists>st'. for_each (release_input dst) ps st = Inr st' \<and> ?I (length ps) st'"
  proof (rule for_each_invariant [where I = ?I])
    fix k st1 assume k: "k < length ps" and I: "?I k st1"
    let ?c = "ps ! k"
    have c: "?c \<in> set ps" using k by simp
    then have "?c < length (fs_progs st1)" using ps frameD(1) [of "set ps - {dst}" st st1] I by auto
    note c = c this
    obtain st2 where st2: "release_input dst ?c st1 = Inr st2" "heap_inv X st2" "frame ({?c} - {dst}) st1 st2"
      "is_llvmir (prog_at st2 ?c)" "?c \<noteq> dst \<longrightarrow> owned_of (prog_at st2 ?c) = []"
      using release_input_ok [OF _ c(2)] I c(1) by blast
    have other: "prog_at st2 c' = prog_at st1 c'" if "c' \<noteq> ?c" for c' using st2(3) that by (auto simp: frame_def)
    have "frame (set ps - {dst}) st st2" using I frame_trans frame_mono [OF st2(3), of "set ps - {dst}"] c(1) by blast
    moreover have "is_llvmir (prog_at st2 c')" if "c' \<in> set ps" for c' using that other st2(4) I by (cases "c' = ?c") auto
    moreover have "owned_of (prog_at st2 c') = []" if "c' \<in> set (take (Suc k) ps) - {dst}" for c'
      using that other st2(5) I k by (cases "c' = ?c") (auto simp: take_Suc_conv_app_nth)
    ultimately show "\<exists>st2. release_input dst (ps ! k) st1 = Inr st2 \<and> ?I (Suc k) st2" using st2(1,2) by blast
  qed (use inv l in simp)
  then show ?thesis by auto
qed

subsection \<open>Fusing a chain\<close>

definition externs_ok :: "prog \<Rightarrow> bool" where
  "externs_ok p \<longleftrightarrow> (case externs (llvmir (source p)) of
     None \<Rightarrow> externs_count (llvmir (source p)) = 0 | Some es \<Rightarrow> externs_count (llvmir (source p)) \<le> length es)"

text \<open>Every value fits at its offset.\<close>

definition buffer_fits :: "fused \<Rightarrow> bool" where
  "buffer_fits f \<longleftrightarrow> (fu_packed f \<longrightarrow>
     (\<forall>k<length (unique_slots (fu_dedup f)). unique_slots (fu_dedup f) ! k \<noteq> 0 \<longrightarrow>
        unat (fu_offsets f ! k) + fill_size (fu_packed_leaf f) (fu_layout f) (fu_dedup f) (fu_types f) k \<le> unat (fu_size f)))"

lemma args_bytes_ok:
  assumes "buffer_fits f"
  shows "\<exists>bs. args_bytes f mem = Inr bs"
proof (cases "fu_packed f")
  case True
  let ?d = "fu_dedup f" and ?sz = "fill_size (fu_packed_leaf f) (fu_layout f) (fu_dedup f) (fu_types f)"
  let ?I = "\<lambda>k buf. length buf = unat (fu_size f)"
  have "\<exists>buf. for_each (fill_slot mem ?sz (fu_offsets f) ?d) [0..<length (unique_slots ?d)] (replicate (unat (fu_size f)) 0) = Inr buf \<and>
      ?I (length [0..<length (unique_slots ?d)]) buf"
    by (rule for_each_invariant [where I = ?I])
      (use assms True in \<open>auto simp: fill_slot_def store_at_def buffer_fits_def\<close>)
  then show ?thesis using True by (auto simp: args_bytes_def fill_packed_def)
qed (simp add: args_bytes_def Let_def)

lemma merge_externs_ok:
  assumes "\<And>q. q \<in> set qs \<Longrightarrow> externs_ok q"
  shows "\<exists>ms. merge_externs qs = Inr ms"
proof -
  have "\<exists>ms. for_each merge_externs_of qs [] = Inr ms \<and> (\<lambda>_ _. True) (length qs) ms"
    by (rule for_each_invariant [where I = "\<lambda>_ _. True"])
      (use assms nth_mem in \<open>fastforce simp: merge_externs_of_def externs_ok_def split: option.splits\<close>)+
  then show ?thesis by (simp add: merge_externs_def)
qed

lemma build_fused_llvmir:
  assumes "build_fused E ps st = Inr f" "c \<in> set ps"
  shows "is_llvmir (prog_at st c)"
proof -
  obtain ms where ms: "collect (load_module E st ps) [0..<length ps] = Inr ms"
    using assms(1) by (auto simp: build_fused_def assert_that_eq_Inr bind_result_eq_Inr)
  obtain i where i: "i < length ps" "c = ps ! i" using assms(2) by (metis in_set_conv_nth)
  have "load_module E st ps i = Inr (ms ! i)" using collect_Inr [OF ms] i(1) by simp
  then show ?thesis using i(2) by (auto simp: load_module_def Let_def split: if_splits)
qed

lemma fused_source_externs [simp]:
  "externs (llvmir (fused_source f a s)) = externs (llvmir s)"
  "externs_count (llvmir (fused_source f a s)) = externs_count (llvmir s)"
  by (simp_all add: fused_source_def)

text \<open>The three installations on the destination.\<close>

lemma install_all_ok:
  assumes al: "allocator_ok (fe_alloc E)" and inv: "heap_inv X st" and dst: "dst < length (fs_progs st)"
    and l: "is_llvmir (prog_at st dst)" and ext: "\<And>c. c \<in> set ps \<Longrightarrow> externs_ok (prog_at st c)" and fits: "buffer_fits f"
  defines "run \<equiv> bind_result (install_source E f dst st) (\<lambda>st1. bind_result (install_externs ps dst st1) (install_args E f dst))"
  shows "run = Inl Aborted \<or> (\<exists>st'. run = Inr st' \<and> heap_inv X st' \<and> frame {dst} st st' \<and> is_llvmir (prog_at st' dst) \<and>
    owned_of (prog_at st' dst) = [raw (llvmir (source (prog_at st' dst))), pargs (prog_at st' dst)])"
  using install_source_ok [OF inv al dst l, of f]
proof (elim disjE exE conjE)
  fix a st1
  assume st1: "install_source E f dst st = Inr st1" "heap_inv X st1" "frame {dst} st st1" "a \<noteq> 0"
    "prog_at st1 dst = (prog_at st dst)\<lparr>source := fused_source f a (source (prog_at st dst))\<rparr>"
  have d1: "dst < length (fs_progs st1)" using frameD(1) [OF st1(3)] dst by simp
  have "externs_ok (prog_at st1 c)" if "c \<in> set ps" for c
    using ext [OF that] st1(5) frameD(2) [OF st1(3), of c] by (cases "c = dst") (simp_all add: externs_ok_def split: option.splits)
  then obtain ms where "merge_externs (map (prog_at st1) ps) = Inr ms"
    using merge_externs_ok [of "map (prog_at st1) ps"] by auto
  from install_externs_ok [OF st1(2) d1 this] obtain st2 where st2: "install_externs ps dst st1 = Inr st2"
    "heap_inv X st2" "frame {dst} st1 st2" "prog_at st2 dst = (prog_at st1 dst)\<lparr>source := (source (prog_at st1 dst))
      \<lparr>llvmir := (llvmir (source (prog_at st1 dst)))\<lparr>externs := (if ms = [] then None else Some ms),
        externs_count := length ms, externs_owned := (ms \<noteq> [])\<rparr>\<rparr>\<rparr>" by blast
  have d2: "dst < length (fs_progs st2)" using frameD(1) [OF st2(3)] d1 by simp
  obtain bs where "args_bytes f (fs_mem st2) = Inr bs" using args_bytes_ok [OF fits] by blast
  from install_args_ok [OF st2(2) al d2 this] have "install_args E f dst st2 = Inl Aborted \<or>
    (\<exists>st3. install_args E f dst st2 = Inr st3 \<and> heap_inv X st3 \<and> frame {dst} st st3 \<and> is_llvmir (prog_at st3 dst) \<and>
      owned_of (prog_at st3 dst) = [raw (llvmir (source (prog_at st3 dst))), pargs (prog_at st3 dst)])"
  proof (elim disjE exE conjE)
    fix b st3 assume st3: "install_args E f dst st2 = Inr st3" "heap_inv X st3" "frame {dst} st2 st3" "b \<noteq> 0"
      "prog_at st3 dst = fused_args f b (prog_at st2 dst)"
    have "frame {dst} st st3" using frame_trans [OF frame_trans [OF st1(3) st2(3)] st3(3)] .
    moreover have "owned_of (prog_at st3 dst) = [raw (llvmir (source (prog_at st3 dst))), pargs (prog_at st3 dst)]"
      "is_llvmir (prog_at st3 dst)"
      using st1(4) st3(4) unfolding st3(5) st2(4) st1(5)
      by (simp_all add: owned_of_def owns_raw_def owns_args_def fused_args_def fused_source_def is_llvmir_def)
    ultimately show ?thesis using st3(1,2) by blast
  qed simp
  then show ?thesis using st1(1) st2(1) by (simp add: run_def)
qed (simp add: run_def)


end
