(* ===== verification/Prog_Result.thy ===== *)
theory Prog_Result
  imports Prog_Heap Prog_Packed
begin

text \<open>
  What fusing and compiling leave in memory: the argument buffer of the fused program, the packed
  buffer of a body compiled on its own, and the symbols the fused code is bound to.
\<close>

subsection \<open>Words and blocks in memory\<close>

lemma bit_read_word:
  "n \<le> 8 \<Longrightarrow> bit (fold (\<lambda>i w. w OR push_bit (8 * i) (ucast (f i :: byte))) [0..<n] (0 :: 64 word)) k \<longleftrightarrow>
     k div 8 < n \<and> bit (f (k div 8)) (k mod 8)"
proof (induction n)
  case (Suc n)
  have "bit (push_bit (8 * n) (ucast (f n)) :: 64 word) k \<longleftrightarrow> k div 8 = n \<and> bit (f n) (k mod 8)"
  proof (cases "k div 8 = n")
    case True
    then have "8 * n \<le> k" "k - 8 * n = k mod 8" "k < 64" "k mod 8 < 8" using Suc.prems by (auto simp: minus_mult_div_eq_mod [symmetric])
    moreover have "k mod 8 < 64" using mod_less_divisor [of 8 k] by linarith
    ultimately show ?thesis using True by (simp add: bit_push_bit_iff bit_ucast_iff)
  next
    case False
    have "\<not> bit (f n) (k - 8 * n)" if "8 * n \<le> k"
    proof -
      have "8 \<le> k - 8 * n" using False that by linarith
      then show ?thesis using bit_imp_le_length [of "f n" "k - 8 * n"] by auto
    qed
    then show ?thesis using False by (auto simp: bit_push_bit_iff bit_ucast_iff)
  qed
  then show ?case using Suc by (cases "k div 8 = n") (auto simp: bit_or_iff less_Suc_eq)
qed simp

lemma read_word_le_bytes:
  assumes "read_bytes mem a 8 = le_bytes w"
  shows "read_word mem a = w"
proof (rule bit_word_eqI)
  fix k assume k: "k < LENGTH(64)"
  then have d: "k div 8 < 8" by simp
  have "mem (a + word_of_nat (k div 8)) = le_bytes w ! (k div 8)"
    using read_bytes_nth [OF d, of mem a] assms by simp
  also have "\<dots> = ucast (drop_bit (8 * (k div 8)) w)" using d by (simp add: le_bytes_def)
  finally have "bit (mem (a + word_of_nat (k div 8))) (k mod 8) \<longleftrightarrow> bit w k"
    using k by (simp add: bit_ucast_iff bit_drop_bit_eq)
  then show "bit (read_word mem a) k \<longleftrightarrow> bit w k" using d by (simp add: read_word_def bit_read_word)
qed

text \<open>A slice of a block that was just written.\<close>

lemma read_written:
  assumes "length bs \<le> 2 ^ 64" "off + n \<le> length bs"
  shows "read_bytes (write_bytes a bs mem) (a + word_of_nat off) n = take n (drop off bs)"
proof (rule nth_equalityI)
  show "length (read_bytes (write_bytes a bs mem) (a + word_of_nat off) n) = length (take n (drop off bs))"
    using assms(2) by simp
  fix i assume "i < length (read_bytes (write_bytes a bs mem) (a + word_of_nat off) n)"
  then have i: "i < n" by simp
  have "a + word_of_nat off + word_of_nat i - a = (word_of_nat (off + i) :: 64 word)" by simp
  moreover have "unat (word_of_nat (off + i) :: 64 word) = off + i"
    using i assms by (simp add: unsigned_of_nat take_bit_nat_eq_self_iff del: of_nat_add)
  ultimately show "read_bytes (write_bytes a bs mem) (a + word_of_nat off) n ! i = take n (drop off bs) ! i"
    using i assms by (simp add: read_bytes_nth write_bytes_get del: of_nat_add)
qed

lemma concat_le_bytes:
  "length (concat (map le_bytes ws)) = 8 * length ws"
  "k < length ws \<Longrightarrow> take 8 (drop (8 * k) (concat (map le_bytes ws))) = le_bytes (ws ! k)"
  by (induction ws arbitrary: k) (auto simp: less_Suc_eq_0_disj)

text \<open>An array of addresses is read back slot by slot.\<close>

lemma snapshot_written:
  assumes "ws \<noteq> []" "8 * length ws \<le> 2 ^ 64" "a \<noteq> 0"
  shows "snapshot_slots (write_bytes a (concat (map le_bytes ws)) mem) a (length ws) = ws"
proof (rule nth_equalityI)
  fix k assume "k < length (snapshot_slots (write_bytes a (concat (map le_bytes ws)) mem) a (length ws))"
  then have k: "k < length ws" by (simp add: snapshot_slots_def)
  have "read_bytes (write_bytes a (concat (map le_bytes ws)) mem) (a + word_of_nat (8 * k)) 8 = le_bytes (ws ! k)"
    using k assms(2) by (subst read_written) (simp_all add: concat_le_bytes)
  from read_word_le_bytes [OF this] show "snapshot_slots (write_bytes a (concat (map le_bytes ws)) mem) a (length ws) ! k = ws ! k"
    using k assms(3) by (simp add: snapshot_slots_def)
qed (simp add: snapshot_slots_def)

subsection \<open>The fused program\<close>

lemma release_keeps_memory:
  "release_input dst c st = Inr st' \<Longrightarrow> fs_mem st' = fs_mem st"
  by (auto simp: release_input_def release_raw_def release_args_def release_externs_def Let_def heap_free_def bind_result_eq_Inr
      split: if_splits)

lemma release_inputs_keep_memory:
  "for_each (release_input dst) ps st = Inr st' \<Longrightarrow> fs_mem st' = fs_mem st"
  by (induction ps arbitrary: st) (auto simp: bind_result_eq_Inr dest: release_keeps_memory)

lemma release_keeps_dst:
  assumes "release_input dst c st = Inr st'"
  shows "prog_at st' dst = prog_at st dst"
proof (cases "c = dst")
  case False
  have free: "prog_at st2 = prog_at st1" if "heap_free a st1 = Inr st2" for a st1 st2
    using that by (auto simp: heap_free_def prog_at_def split: if_splits)
  show ?thesis
    using assms False
    by (auto simp: release_input_def release_raw_def release_args_def release_externs_def Let_def bind_result_eq_Inr prog_at_upd free
        split: if_splits)
qed (use assms in \<open>simp add: release_input_def\<close>)

lemma releases_keep_dst:
  "for_each (release_input dst) ps st = Inr st' \<Longrightarrow> prog_at st' dst = prog_at st dst"
  by (induction ps arbitrary: st) (auto simp: bind_result_eq_Inr dest: release_keeps_dst)

lemma heap_free_same:
  assumes "heap_free a st = Inr st'"
  shows "fs_mem st' = fs_mem st" "fs_progs st' = fs_progs st"
  using assms by (auto simp: heap_free_def split: if_splits)

lemma install_source_result:
  assumes "install_source E f dst st = Inr st'" "dst < length (fs_progs st)"
  shows "\<exists>a. a \<noteq> 0 \<and> fs_mem st' = write_bytes a (fu_code f) (fs_mem st) \<and>
    length (fs_progs st') = length (fs_progs st) \<and>
    prog_at st' dst = (prog_at st dst)\<lparr>source := fused_source f a (source (prog_at st dst))\<rparr>"
proof -
  obtain a st1 st2 where r: "heap_alloc (fe_alloc E) (fu_code f) st = Inr (a, st1)"
    "(if is_llvmir (prog_at st1 dst) \<and> owns_raw (prog_at st1 dst)
        then heap_free (raw (llvmir (source (prog_at st1 dst)))) st1 else Inr st1) = Inr st2"
    "st' = upd_prog dst (\<lambda>p. p\<lparr>source := fused_source f a (source p)\<rparr>) st2"
    using assms(1) by (auto simp: install_source_def bind_result_eq_Inr)
  have st1: "a \<noteq> 0" "fs_mem st1 = write_bytes a (fu_code f) (fs_mem st)" "fs_progs st1 = fs_progs st"
    using r(1) by (auto simp: heap_alloc_def Let_def split: if_splits)
  have "fs_mem st2 = fs_mem st1 \<and> fs_progs st2 = fs_progs st1" using r(2) heap_free_same by (auto split: if_splits)
  then have "prog_at st' dst = (prog_at st dst)\<lparr>source := fused_source f a (source (prog_at st dst))\<rparr>"
    "length (fs_progs st') = length (fs_progs st)" "fs_mem st' = fs_mem st1"
    using st1(3) assms(2) by (simp_all add: r(3) prog_at_upd) (simp_all add: prog_at_def)
  then show ?thesis using st1(1,2) by auto
qed

lemma install_args_result:
  assumes "install_args E f dst st = Inr st'" "dst < length (fs_progs st)"
  shows "\<exists>a bs. a \<noteq> 0 \<and> args_bytes f (fs_mem st) = Inr bs \<and> fs_mem st' = write_bytes a bs (fs_mem st) \<and>
    length (fs_progs st') = length (fs_progs st) \<and> prog_at st' dst = fused_args f a (prog_at st dst)"
proof -
  obtain bs a st1 st2 where r: "args_bytes f (fs_mem st) = Inr bs" "heap_alloc (fe_alloc E) bs st = Inr (a, st1)"
    "(if owns_args (prog_at st1 dst) then heap_free (pargs (prog_at st1 dst)) st1 else Inr st1) = Inr st2"
    "st' = upd_prog dst (fused_args f a) st2"
    using assms(1) by (auto simp: install_args_def bind_result_eq_Inr)
  have st1: "a \<noteq> 0" "fs_mem st1 = write_bytes a bs (fs_mem st)" "fs_progs st1 = fs_progs st"
    using r(2) by (auto simp: heap_alloc_def Let_def split: if_splits)
  have "fs_mem st2 = fs_mem st1 \<and> fs_progs st2 = fs_progs st1" using r(3) heap_free_same by (auto split: if_splits)
  then have "prog_at st' dst = fused_args f a (prog_at st dst)"
    "length (fs_progs st') = length (fs_progs st)" "fs_mem st' = fs_mem st1"
    using st1(3) assms(2) by (simp_all add: r(4) prog_at_upd) (simp_all add: prog_at_def)
  then show ?thesis using st1(1,2) r(1) by auto
qed

lemma install_launch_result:
  assumes "dst < length (fs_progs st)"
  shows "\<exists>g b l. prog_at (install_launch ps dst st) dst = (prog_at st dst)\<lparr>grid := g, block := b, prog_launch_mode := l\<rparr>"
proof (cases "dst = ps ! 0")
  case True
  then have "install_launch ps dst st = st" by (simp add: install_launch_def)
  then show ?thesis
    by (intro exI [of _ "grid (prog_at st dst)"] exI [of _ "block (prog_at st dst)"] exI [of _ "prog_launch_mode (prog_at st dst)"])
      simp
next
  case False
  then show ?thesis using assms by (auto simp: install_launch_def Let_def prog_at_upd)
qed

lemma args_bytes_length:
  assumes "args_bytes f mem = Inr bs" "8 * length (unique_slots (fu_dedup f)) < 2 ^ 64"
  shows "length bs \<le> 2 ^ 64"
proof (cases "fu_packed f")
  case True
  have "length buf' = length buf" if "for_each (fill_slot mem sz offs d) ks buf = Inr buf'" for sz offs d ks buf buf'
    using that
    by (induction ks arbitrary: buf) (auto simp: bind_result_eq_Inr fill_slot_def store_at_def split: if_splits)
  then have "length bs = unat (fu_size f)" using assms(1) True by (fastforce simp: args_bytes_def Let_def fill_packed_def)
  moreover have "unat (fu_size f) < 2 ^ LENGTH(64)" by (rule unsigned_less)
  ultimately show ?thesis by simp
next
  case False
  then show ?thesis using assms by (auto simp: args_bytes_def Let_def concat_le_bytes(1) split: if_splits)
qed

text \<open>What a fusion that succeeds leaves in the destination program.\<close>

lemma fused_program_fields:
  assumes run: "command_graph_prog_fuse_llvmir E ps dst st = Inr st'" and f: "build_fused E ps st = Inr f"
    and dst: "dst < length (fs_progs st)" and slots: "8 * length (unique_slots (fu_dedup f)) < 2 ^ 64"
    and p: "p = prog_at st' dst"
  shows "n_args p = word_of_nat (length (unique_slots (fu_dedup f))) \<and> params (llvmir (source p)) = None \<and>
    launcher p = Launcher_variadic 0 \<and> pargs p \<noteq> 0 \<and>
    symbol (llvmir (source p)) = (if fu_device f then Some ''__fused_wrapper'' else None) \<and> owns_raw p \<and> owns_args p \<and>
    (if fu_packed f
     then prototype p = CGIR_COMMAND_PROG_FUNCTION_PROTOTYPE_PACKED \<and> args_size p = fu_size f \<and>
       (\<exists>bs. args_bytes f (write_bytes (raw (llvmir (source p))) (fu_code f) (fs_mem st)) = Inr bs \<and>
             read_bytes (fs_mem st') (pargs p) (length bs) = bs)
     else prototype p = CGIR_COMMAND_PROG_FUNCTION_PROTOTYPE_VARIADIC \<and> args_size p = 0 \<and>
       snapshot_slots (fs_mem st') (pargs p) (length (unique_slots (fu_dedup f))) = unique_slots (fu_dedup f))"
proof -
  obtain st1 st2 st3 where r: "install_source E f dst st = Inr st1" "install_externs ps dst st1 = Inr st2"
    "install_args E f dst st2 = Inr st3" "for_each (release_input dst) ps (install_launch ps dst st3) = Inr st'"
    using run by (auto simp: command_graph_prog_fuse_llvmir_def f bind_result_eq_Inr)
  obtain a where a: "a \<noteq> 0" "fs_mem st1 = write_bytes a (fu_code f) (fs_mem st)" "length (fs_progs st1) = length (fs_progs st)"
    "prog_at st1 dst = (prog_at st dst)\<lparr>source := fused_source f a (source (prog_at st dst))\<rparr>"
    using install_source_result [OF r(1) dst] by blast
  obtain ms where ms: "st2 = upd_prog dst (\<lambda>p. p\<lparr>source := (source p)\<lparr>llvmir := (llvmir (source p))
       \<lparr>externs := (if ms = [] then None else Some ms), externs_count := length ms, externs_owned := (ms \<noteq> [])\<rparr>\<rparr>\<rparr>) st1"
    using r(2) by (auto simp: install_externs_def bind_result_eq_Inr)
  have d2: "dst < length (fs_progs st2)" using a(3) dst by (simp add: ms)
  obtain b bs where b: "b \<noteq> 0" "args_bytes f (fs_mem st2) = Inr bs" "fs_mem st3 = write_bytes b bs (fs_mem st2)"
    "length (fs_progs st3) = length (fs_progs st2)" "prog_at st3 dst = fused_args f b (prog_at st2 dst)"
    using install_args_result [OF r(3) d2] by blast
  have mem: "fs_mem st' = write_bytes b bs (fs_mem st2)" "fs_mem st2 = write_bytes a (fu_code f) (fs_mem st)"
    using release_inputs_keep_memory [OF r(4)] b(3) a(2) by (simp_all add: install_launch_def Let_def ms)
  have "dst < length (fs_progs st3)" using b(4) d2 by simp
  then obtain g bl l where at: "p = (fused_args f b (prog_at st2 dst))\<lparr>grid := g, block := bl, prog_launch_mode := l\<rparr>"
    using install_launch_result [of dst st3 ps] releases_keep_dst [OF r(4)] p b(5) by metis
  have sym: "symbol (llvmir (source p)) = (if fu_device f then Some ''__fused_wrapper'' else None)"
    using a d2 by (simp add: at prog_at_upd ms fused_args_def fused_source_def)
  have fields: "n_args p = word_of_nat (length (unique_slots (fu_dedup f)))" "params (llvmir (source p)) = None"
    "launcher p = Launcher_variadic 0" "owns_raw p" "owns_args p" "pargs p = b" "raw (llvmir (source p)) = a"
    "prototype p = (if fu_packed f then CGIR_COMMAND_PROG_FUNCTION_PROTOTYPE_PACKED else CGIR_COMMAND_PROG_FUNCTION_PROTOTYPE_VARIADIC)"
    "args_size p = (if fu_packed f then fu_size f else 0)"
    using a b(1) d2
    by (simp_all add: at prog_at_upd ms fused_args_def fused_source_def owns_raw_def owns_args_def)
  have len: "length bs \<le> 2 ^ 64" by (rule args_bytes_length [OF b(2) slots])
  have "read_bytes (fs_mem st') b (length bs) = bs" using read_written [OF len, of 0 "length bs" b] mem by simp
  moreover have "snapshot_slots (fs_mem st') b (length (unique_slots (fu_dedup f))) = unique_slots (fu_dedup f)" if "\<not> fu_packed f"
  proof (cases "unique_slots (fu_dedup f) = []")
    case False
    then have "bs = concat (map le_bytes (unique_slots (fu_dedup f)))" using that b(2) by (simp add: args_bytes_def)
    then show ?thesis using snapshot_written [OF False _ b(1)] slots mem(1) by simp
  qed (simp add: snapshot_slots_def)
  ultimately show ?thesis using fields sym b(1,2) mem(2) by auto
qed

text \<open>
  C16. What a fusion that succeeds leaves in the destination program. It keeps the number of shared slots,
  has no parameter table, no function yet, and owns its code and argument buffers. Packed: a packed
  program whose buffer in memory holds exactly the filled bytes, of the recorded size. Otherwise a
  variadic program whose argument array reads back, slot by slot, as the shared slots, as a later fusion
  of the result reads them.
\<close>

theorem fused_program_arguments:
  assumes run: "command_graph_prog_fuse_llvmir E ps dst st = Inr st'" and f: "build_fused E ps st = Inr f"
    and dst: "dst < length (fs_progs st)" and slots: "8 * length (unique_slots (fu_dedup f)) < 2 ^ 64"
    and p: "p = prog_at st' dst"
  shows "n_args p = word_of_nat (length (unique_slots (fu_dedup f))) \<and> params (llvmir (source p)) = None \<and>
    launcher p = Launcher_variadic 0 \<and> owns_raw p \<and> owns_args p \<and>
    (if fu_packed f
     then prototype p = CGIR_COMMAND_PROG_FUNCTION_PROTOTYPE_PACKED \<and> args_size p = fu_size f \<and>
       (\<exists>bs. args_bytes f (write_bytes (raw (llvmir (source p))) (fu_code f) (fs_mem st)) = Inr bs \<and>
             read_bytes (fs_mem st') (pargs p) (length bs) = bs)
     else prototype p = CGIR_COMMAND_PROG_FUNCTION_PROTOTYPE_VARIADIC \<and> args_size p = 0 \<and>
       snapshot_slots (fs_mem st') (pargs p) (length (unique_slots (fu_dedup f))) = unique_slots (fu_dedup f))"
  using fused_program_fields [OF assms(1-4)] p by auto

end
