(* ===== verification/Prog_Jit_Props.thy ===== *)
theory Prog_Jit_Props
  imports Prog_Result
begin

text \<open>
  Compiling programs: the symbols a fused program is bound to, the packing of a body that is
  compiled on its own, what a later fusion makes of it, and the ownership of buffers.
\<close>

subsection \<open>Symbols\<close>

definition extern_table :: "prog \<Rightarrow> prog_extern list" where
  "extern_table p = (case externs (llvmir (source p)) of None \<Rightarrow> [] | Some es \<Rightarrow> take (externs_count (llvmir (source p))) es)"

definition named_externs :: "prog_extern list \<Rightarrow> (string \<times> uintptr) list" where
  "named_externs es = List.map_filter (\<lambda>e. map_option (\<lambda>nm. (nm, eaddr e)) (ename e)) es"

lemma named_externs_simps [simp]:
  "named_externs [] = []"
  "named_externs (xs @ ys) = named_externs xs @ named_externs ys"
  "named_externs [e] = (case ename e of None \<Rightarrow> [] | Some nm \<Rightarrow> [(nm, eaddr e)])"
  by (simp_all add: named_externs_def map_filter_def split: option.split)

lemma jit_symbols_snoc:
  "jit_symbols (ms @ [e]) = (case ename e of None \<Rightarrow> jit_symbols ms | Some nm \<Rightarrow> (jit_symbols ms)(nm \<mapsto> eaddr e))"
  unfolding jit_symbols_def by (simp split: option.split)

lemma dom_jit_symbols: "jit_symbols ms nm \<noteq> None \<longleftrightarrow> Some nm \<in> ename ` set ms"
proof (induction ms rule: rev_induct)
  case (snoc e ms)
  then show ?case by (cases "ename e") (auto simp: jit_symbols_snoc)
qed (simp add: jit_symbols_def)

lemma fold_merge_extern:
  "jit_symbols (fold merge_extern es []) = map_of (named_externs es) \<and> distinct (map ename (fold merge_extern es []))"
proof (induction es rule: rev_induct)
  case Nil
  then show ?case by (simp add: jit_symbols_def)
next
  case (snoc e es)
  let ?ms = "fold merge_extern es []"
  have IH: "jit_symbols ?ms = map_of (named_externs es)" "distinct (map ename ?ms)" using snoc by simp_all
  show ?case
  proof (cases "ename e")
    case None
    then have "merge_extern e ?ms = ?ms" by (simp add: merge_extern_def)
    then show ?thesis using IH None by simp
  next
    case (Some nm)
    have ex: "list_ex (\<lambda>x. ename x = Some nm) ?ms \<longleftrightarrow> map_of (named_externs es) nm \<noteq> None"
      unfolding IH(1) [symmetric] dom_jit_symbols by (force simp: list_ex_iff)
    show ?thesis
    proof (cases "map_of (named_externs es) nm")
      case None
      then have "merge_extern e ?ms = ?ms @ [e]" using Some ex by (simp add: merge_extern_def)
      moreover have "ename e \<notin> set (map ename ?ms)" using ex None Some by (auto simp: list_ex_iff)
      moreover have "map_of (named_externs es @ [(nm, eaddr e)]) = (map_of (named_externs es))(nm \<mapsto> eaddr e)"
        using None by (auto simp: map_add_def fun_eq_iff split: option.split)
      ultimately show ?thesis using IH Some by (simp add: jit_symbols_snoc)
    next
      case s: (Some a)
      then have "merge_extern e ?ms = ?ms" using Some ex by (simp add: merge_extern_def)
      moreover have "map_of (named_externs es @ [(nm, eaddr e)]) = map_of (named_externs es)"
        using s by (auto simp: map_add_def fun_eq_iff split: option.split)
      ultimately show ?thesis using IH Some by simp
    qed
  qed
qed

lemma merge_externs_fold:
  assumes "merge_externs qs = Inr ms" "list_all is_llvmir qs"
  shows "ms = fold merge_extern (concat (map extern_table qs)) []"
proof -
  have "ms = fold merge_extern (concat (map extern_table qs)) acc"
    if "for_each merge_externs_of qs acc = Inr ms" "list_all is_llvmir qs" for acc
    using that
  proof (induction qs arbitrary: acc)
    case (Cons q qs)
    obtain acc' where q: "merge_externs_of q acc = Inr acc'" "for_each merge_externs_of qs acc' = Inr ms"
      using Cons.prems(1) by (auto simp: bind_result_eq_Inr)
    have "acc' = fold merge_extern (extern_table q) acc"
      using q(1) Cons.prems(2) by (auto simp: merge_externs_of_def extern_table_def split: option.splits if_splits)
    then show ?case using Cons.IH [OF q(2)] Cons.prems(2) by simp
  qed simp
  then show ?thesis using assms unfolding merge_externs_def .
qed

text \<open>
  C19. The fused program is bound to the globals of its inputs. The merged table names every symbol
  once, and the symbols it installs at compile time are, for every name that occurs in the table of
  some input, the address the first such input recorded.
\<close>

theorem fused_symbols_first_wins:
  assumes "merge_externs qs = Inr ms" "list_all is_llvmir qs"
  shows "jit_symbols ms = map_of (named_externs (concat (map extern_table qs))) \<and> distinct (map ename ms)"
  unfolding merge_externs_fold [OF assms] by (rule fold_merge_extern)

subsection \<open>Packing a body on its own\<close>

lemma pack_slots_ok:
  assumes ps: "params_ok ps" "length ps = n" and av: "av \<noteq> 0"
  shows "\<exists>bs. pack_slots mem av ps n = Inr bs \<and> length bs = unat (packed_buf_size ps n) \<and>
    (\<forall>j<n. read_word mem (av + 8 * word_of_nat j) \<noteq> 0 \<longrightarrow>
       holds (unat (poffset (ps ! j))) (read_bytes mem (read_word mem (av + 8 * word_of_nat j)) (unat (psize (ps ! j)))) bs)"
proof -
  let ?s = "\<lambda>j. read_word mem (av + 8 * word_of_nat j)"
  let ?bs = "\<lambda>j. read_bytes mem (?s j) (unat (psize (ps ! j)))"
  let ?I = "\<lambda>m buf. length buf = unat (packed_buf_size ps n) \<and> (\<forall>j<m. ?s j \<noteq> 0 \<longrightarrow> holds (unat (poffset (ps ! j))) (?bs j) buf)"
  have "\<exists>buf. for_each (pack_slot mem av ps) [0..<n] (replicate (unat (packed_buf_size ps n)) 0) = Inr buf \<and> ?I (length [0..<n]) buf"
  proof (rule for_each_invariant [where I = ?I])
    fix m buf assume "m < length [0..<n]" and I: "?I m buf"
    then have m: "m < n" by simp
    show "\<exists>buf'. pack_slot mem av ps ([0..<n] ! m) buf = Inr buf' \<and> ?I (Suc m) buf'"
    proof (cases "?s m = 0")
      case True
      then show ?thesis using I m by (auto simp: pack_slot_def less_Suc_eq)
    next
      case False
      have "unat (poffset (ps ! m)) + unat (psize (ps ! m)) < 2 ^ 64" using ps m by (simp add: params_ok_def)
      then have "unat (poffset (ps ! m)) + length (?bs m) \<le> length buf"
        using I packed_buf_size_ge [OF m, of ps] by (simp add: word_le_nat_alt unat_word_ariths)
      then obtain buf' where b: "store_at (unat (poffset (ps ! m))) (?bs m) buf = Inr buf'" "length buf' = length buf"
        "holds (unat (poffset (ps ! m))) (?bs m) buf'"
        "\<And>o' cs. holds o' cs buf \<Longrightarrow> o' + length cs \<le> unat (poffset (ps ! m)) \<or>
           unat (poffset (ps ! m)) + length (?bs m) \<le> o' \<Longrightarrow> holds o' cs buf'"
        by (rule store_at_holds) blast
      have "unat (poffset (ps ! j)) + unat (psize (ps ! j)) \<le> unat (poffset (ps ! m)) \<or>
          unat (poffset (ps ! m)) + unat (psize (ps ! m)) \<le> unat (poffset (ps ! j))" if "j < m" for j
        using ps m that by (simp add: params_ok_def)
      then have "?I (Suc m) buf'" using I b(2-4) by (auto simp: less_Suc_eq)
      then show ?thesis using b(1) False m by (simp add: pack_slot_def Let_def)
    qed
  qed simp
  then show ?thesis using av by (simp add: pack_slots_def)
qed

text \<open>Packing as the compiler does it, with the new buffer in memory.\<close>

lemma install_packed_args_result:
  assumes "install_packed_args E c st = Inr st'" "c < length (fs_progs st)" "p = prog_at st c" "needs_packing p"
  shows "\<exists>a bs. a \<noteq> 0 \<and> pack_slots (fs_mem st) (pargs p) (the (params (llvmir (source p)))) (param_count (llvmir (source p))) = Inr bs \<and>
    fs_mem st' = write_bytes a bs (fs_mem st) \<and>
    prog_at st' c = p\<lparr>pargs := a, n_args := word_of_nat (param_count (llvmir (source p))),
      args_size := packed_buf_size (the (params (llvmir (source p)))) (param_count (llvmir (source p))), args_owned := True\<rparr>"
proof -
  let ?ps = "the (params (llvmir (source p)))" and ?n = "param_count (llvmir (source p))"
  obtain bs a st1 st2 where r: "pack_slots (fs_mem st) (pargs p) ?ps ?n = Inr bs" "heap_alloc (je_alloc E) bs st = Inr (a, st1)"
    "(if owns_args p then heap_free (pargs p) st1 else Inr st1) = Inr st2"
    "st' = upd_prog c (\<lambda>p. p\<lparr>pargs := a, n_args := word_of_nat ?n, args_size := packed_buf_size ?ps ?n, args_owned := True\<rparr>) st2"
    using assms(1,4) unfolding assms(3) by (auto simp: install_packed_args_def Let_def bind_result_eq_Inr)
  have st1: "a \<noteq> 0" "fs_mem st1 = write_bytes a bs (fs_mem st)" "fs_progs st1 = fs_progs st"
    using r(2) by (auto simp: heap_alloc_def Let_def split: if_splits)
  have st2: "fs_mem st2 = fs_mem st1" "fs_progs st2 = fs_progs st1" using r(3) heap_free_same by (auto split: if_splits)
  have "prog_at st' c = p\<lparr>pargs := a, n_args := word_of_nat ?n, args_size := packed_buf_size ?ps ?n, args_owned := True\<rparr>"
    using st1(3) st2(2) assms(2) by (simp add: r(4) prog_at_upd) (simp add: prog_at_def assms(3))
  moreover have "fs_mem st' = write_bytes a bs (fs_mem st)" using st1(2) st2(1) by (simp add: r(4))
  ultimately show ?thesis using st1(1) r(1) by blast
qed

lemma packed_buf_size_nonzero: "packed_buf_size ps n \<noteq> 0"
  by (simp add: packed_buf_size_def Let_def)

lemma packed_bytes:
  assumes run: "install_packed_args E c st = Inr st'" and c: "c < length (fs_progs st)"
    and p: "p = prog_at st c" "needs_packing p" "params (llvmir (source p)) = Some ps" "pargs p \<noteq> 0"
    and ps: "length ps = param_count (llvmir (source p))" "params_ok ps"
    and j: "j < length ps" "s = read_word (fs_mem st) (pargs p + 8 * word_of_nat j)" "s \<noteq> 0"
    and k: "off + n \<le> unat (psize (ps ! j))"
  shows "read_bytes (fs_mem st') (pargs (prog_at st' c) + word_of_nat (unat (poffset (ps ! j)) + off)) n =
    take n (drop off (read_bytes (fs_mem st) s (unat (psize (ps ! j)))))"
proof -
  obtain a bs where a: "pack_slots (fs_mem st) (pargs p) ps (length ps) = Inr bs" "fs_mem st' = write_bytes a bs (fs_mem st)"
    "pargs (prog_at st' c) = a"
    using install_packed_args_result [OF run c p(1,2)] p(3) ps(1) by auto
  obtain bs' where bs': "pack_slots (fs_mem st) (pargs p) ps (length ps) = Inr bs'" "length bs' = unat (packed_buf_size ps (length ps))"
    "\<forall>j<length ps. read_word (fs_mem st) (pargs p + 8 * word_of_nat j) \<noteq> 0 \<longrightarrow>
       holds (unat (poffset (ps ! j))) (read_bytes (fs_mem st) (read_word (fs_mem st) (pargs p + 8 * word_of_nat j)) (unat (psize (ps ! j)))) bs'"
    using pack_slots_ok [OF ps(2) refl p(4), of "fs_mem st"] by blast
  have eq: "bs' = bs" using a(1) bs'(1) by simp
  have "length bs' \<le> 2 ^ 64" unfolding bs'(2) using unsigned_less [of "packed_buf_size ps (length ps)"] by (intro less_imp_le) simp
  moreover have h: "holds (unat (poffset (ps ! j))) (read_bytes (fs_mem st) s (unat (psize (ps ! j)))) bs'" using bs'(3) j by blast
  moreover from h have "unat (poffset (ps ! j)) + off + n \<le> length bs'" using k by (simp add: holds_def)
  ultimately have r: "read_bytes (fs_mem st') (pargs (prog_at st' c) + word_of_nat (unat (poffset (ps ! j)) + off)) n =
      take n (drop (unat (poffset (ps ! j)) + off) bs')"
    unfolding a(2,3) eq [symmetric] by (intro read_written) simp_all
  have "take (unat (psize (ps ! j))) (drop (unat (poffset (ps ! j))) bs') = read_bytes (fs_mem st) s (unat (psize (ps ! j)))"
    using holds_load [OF h] by (simp add: load_at_def split: if_splits)
  from this [symmetric] show ?thesis unfolding r using k by (simp add: drop_take add.commute)
qed



subsection \<open>Ownership\<close>

text \<open>The order of the device path: the old block is freed before the new one is allocated.\<close>

lemma replace_block:
  fixes bs :: "byte list"
  assumes inv: "heap_inv X st" and al: "allocator_ok al" and c: "c < length (fs_progs st)"
    and old: "mset (owned_of (prog_at st c)) = (if B then {#b#} else {#}) + G"
    and new: "\<And>a. a \<noteq> 0 \<Longrightarrow> mset (owned_of (f a (prog_at st c))) = add_mset a G"
  defines "run \<equiv> bind_result (if B then heap_free b st else Inr st) (\<lambda>st1.
    bind_result (heap_alloc al bs st1) (\<lambda>(a, st2). Inr (upd_prog c (f a) st2)))"
  shows "run = Inl Aborted \<or> (\<exists>st'. run = Inr st' \<and> heap_inv X st' \<and> frame {c} st st')"
proof -
  have "\<exists>st1. (if B then heap_free b st else Inr st) = Inr st1 \<and> fs_progs st1 = fs_progs st \<and> distinct (fs_live st1) \<and>
      mset (fs_live st1) + (if B then {#b#} else {#}) = mset (fs_live st)"
  proof (cases B)
    case True
    have "b \<in># mset (owned_of (prog_at st c))" unfolding old using True by simp
    then have "b \<in> set (owned_of (prog_at st c))" by simp
    from heap_free_ok [OF inv c this] show ?thesis using True by auto
  qed (use inv in \<open>simp add: heap_inv_def\<close>)
  then obtain st1 where st1: "(if B then heap_free b st else Inr st) = Inr st1" "fs_progs st1 = fs_progs st"
    "distinct (fs_live st1)" "mset (fs_live st1) + (if B then {#b#} else {#}) = mset (fs_live st)" by blast
  let ?a = "al (fs_live st1) (length bs)"
  show ?thesis
  proof (cases "?a = 0")
    case True
    then show ?thesis by (simp add: run_def st1(1) heap_alloc_def)
  next
    case False
    let ?st2 = "st1\<lparr>fs_mem := write_bytes ?a bs (fs_mem st1), fs_live := ?a # fs_live st1\<rparr>"
    have "?a \<notin> set (fs_live st1)" using al False by (auto simp: allocator_ok_def)
    then have d: "distinct (fs_live ?st2)" using st1(3) by simp
    have "mset (fs_live ?st2) + ((if B then {#b#} else {#}) + G) = add_mset ?a (mset (fs_live st1) + (if B then {#b#} else {#}) + G)"
      by simp
    then have "mset (fs_live ?st2) + mset (owned_of (prog_at st c)) = mset (fs_live st) + mset (owned_of (f ?a (prog_at st c)))"
      unfolding old new [OF False] st1(4) by (simp only: union_mset_add_mset_right)
    then have "heap_inv X (upd_prog c (f ?a) ?st2)" using st1(2) c d by (intro heap_inv_progs [OF inv]) simp_all
    moreover have "frame {c} st (upd_prog c (f ?a) ?st2)"
      using st1(2) by (auto simp: frame_def prog_at_upd) (simp add: prog_at_def)
    moreover have "run = Inr (upd_prog c (f ?a) ?st2)" using False by (simp add: run_def st1(1) heap_alloc_def Let_def)
    ultimately show ?thesis by blast
  qed
qed

lemma jit_device_ok:
  assumes inv: "heap_inv X st" and al: "allocator_ok (je_alloc E)" and c: "c < length (fs_progs st)"
  shows "jit_device E m target c st = Inl Aborted \<or>
    (\<exists>st'. jit_device E m target c st = Inr st' \<and> heap_inv X st' \<and> frame {c} st st')"
proof -
  let ?p = "prog_at st c"
  let ?ptx = "je_ptx E m target (arch (llvmir (source ?p))) (device_rtl (je_rtl E) (runtime_bc (llvmir (source ?p))))"
  let ?G = "mset (if owns_args ?p then [pargs ?p] else [])"
  have "mset (owned_of ?p) = (if owns_raw ?p then {#raw (llvmir (source ?p))#} else {#}) + ?G" by (simp add: owned_of_def)
  from replace_block [OF inv al c this, of "\<lambda>a p. p
      \<lparr>source := (source p)
         \<lparr>source_type := CGIR_COMMAND_PROG_SOURCE_TYPE_PTX,
          llvmir := (llvmir (source p))\<lparr>raw := a, rawsize := word_of_nat (length ?ptx + 1), raw_owned := True\<rparr>\<rparr>,
       prototype := CGIR_COMMAND_PROG_FUNCTION_PROTOTYPE_VARIADIC, launcher := Launcher_variadic 0\<rparr>" "?ptx @ [0]"]
  show ?thesis by (simp add: jit_device_def Let_def owned_of_def owns_raw_def owns_args_def)
qed

lemma install_packed_args_ok:
  assumes inv: "heap_inv X st" and al: "allocator_ok (je_alloc E)" and c: "c < length (fs_progs st)"
    and ps: "\<And>ps. params (llvmir (source (prog_at st c))) = Some ps \<Longrightarrow>
      params_ok ps \<and> length ps = param_count (llvmir (source (prog_at st c)))"
  shows "install_packed_args E c st = Inl Aborted \<or>
    (\<exists>st'. install_packed_args E c st = Inr st' \<and> heap_inv X st' \<and> frame {c} st st')"
proof (cases "needs_packing (prog_at st c)")
  case True
  let ?p = "prog_at st c"
  obtain qs where qs: "params (llvmir (source ?p)) = Some qs" using True by (auto simp: needs_packing_def)
  let ?n = "param_count (llvmir (source ?p))"
  have "\<exists>bs. pack_slots (fs_mem st) (pargs ?p) qs ?n = Inr bs"
  proof (cases "pargs ?p = 0")
    case False
    from ps [OF qs] pack_slots_ok [OF _ refl this, of qs "fs_mem st"] show ?thesis by auto
  qed (simp add: pack_slots_def)
  then obtain bs where bs: "pack_slots (fs_mem st) (pargs ?p) qs ?n = Inr bs" by blast
  let ?f = "\<lambda>a p. p\<lparr>pargs := a, n_args := word_of_nat ?n, args_size := packed_buf_size qs ?n, args_owned := True\<rparr>"
  let ?k = "\<lambda>(a, st1). bind_result (if owns_args ?p then heap_free (pargs ?p) st1 else Inr st1) (\<lambda>st2. Inr (upd_prog c (?f a) st2))"
  let ?G = "mset (if owns_raw ?p then [raw (llvmir (source ?p))] else [])"
  have "install_packed_args E c st = bind_result (heap_alloc (je_alloc E) bs st) ?k"
    using True qs bs by (simp add: install_packed_args_def Let_def)
  moreover have "mset (owned_of ?p) = (if owns_args ?p then {#pargs ?p#} else {#}) + ?G" by (simp add: owned_of_def)
  from install_block [OF inv al c this, of ?f ?k bs]
  have "bind_result (heap_alloc (je_alloc E) bs st) ?k = Inl Aborted \<or>
      (\<exists>a st'. bind_result (heap_alloc (je_alloc E) bs st) ?k = Inr st' \<and> heap_inv X st' \<and> frame {c} st st' \<and> a \<noteq> 0 \<and> prog_at st' c = ?f a ?p)"
    by (simp add: owned_of_def owns_raw_def owns_args_def)
  ultimately show ?thesis by auto
qed (use inv in \<open>simp add: install_packed_args_def Let_def\<close>)

lemma jit_host_ok:
  assumes inv: "heap_inv X st" and al: "allocator_ok (je_alloc E)" and c: "c < length (fs_progs st)"
    and ps: "\<And>ps. params (llvmir (source (prog_at st c))) = Some ps \<Longrightarrow>
      params_ok ps \<and> length ps = param_count (llvmir (source (prog_at st c)))"
    and ext: "externs_ok (prog_at st c)"
  shows "jit_host E m f c st = Inl Aborted \<or> (\<exists>st'. jit_host E m f c st = Inr st' \<and> heap_inv X st' \<and> frame {c} st st')"
proof -
  obtain syms where syms: "jit_externs (prog_at st c) = Inr syms"
    using ext by (auto simp: jit_externs_def externs_ok_def split: option.splits)
  have upd: "heap_inv X (upd_prog c (\<lambda>p. p\<lparr>prototype := k, launcher := l\<rparr>) st1) \<and>
      frame {c} st (upd_prog c (\<lambda>p. p\<lparr>prototype := k, launcher := l\<rparr>) st1)"
    if "heap_inv X st1" "frame {c} st st1" for k l st1
    using that c heap_inv_same [OF that(1), of c "\<lambda>p. p\<lparr>prototype := k, launcher := l\<rparr>"] frame_trans [OF that(2) frame_upd]
    by (simp add: frame_def owned_of_def owns_raw_def owns_args_def)
  show ?thesis
  proof (cases "je_compile E m (jit_target_of f) syms")
    case (Some fn)
    show ?thesis
      using install_packed_args_ok [OF inv al c ps] upd inv
      by (cases "is_void_ptr_size (ftype f)") (auto simp: jit_host_def syms Some)
  qed (simp add: jit_host_def syms)
qed

text \<open>
  C18. Compiling a program keeps the ownership of heap buffers, on the host and for a device, packed or
  not: it fails by an assertion or by \<^verbatim>\<open>abort\<close>, or every block in use belongs to one program or to the
  caller as before, the replaced buffers are freed once, and the other programs are unchanged.
\<close>

theorem jit_keeps_ownership:
  assumes "heap_inv X st" "allocator_ok (je_alloc E)" "c < length (fs_progs st)" "externs_ok (prog_at st c)"
    and "case params (llvmir (source (prog_at st c))) of None \<Rightarrow> True
         | Some ps \<Rightarrow> params_ok ps \<and> length ps = param_count (llvmir (source (prog_at st c)))"
  shows "command_graph_jit_llvmir E c st \<in> {Inl Aborted, Inl Assertion_failed} \<or>
    (\<exists>st'. command_graph_jit_llvmir E c st = Inr st' \<and> heap_inv X st' \<and> frame {c} st st')"
proof -
  have ps: "params_ok ps \<and> length ps = param_count (llvmir (source (prog_at st c)))"
    if "params (llvmir (source (prog_at st c))) = Some ps" for ps using assms(5) that by simp
  have host: "jit_host E m f c st = Inl Aborted \<or> (\<exists>st'. jit_host E m f c st = Inr st' \<and> heap_inv X st' \<and> frame {c} st st')" for m f
    by (intro jit_host_ok assms ps)
  show ?thesis
    using host jit_device_ok [OF assms(1-3)] assms(1)
    by (auto simp: command_graph_jit_llvmir_def assert_that_def Let_def split: option.split)
qed

end
