(* ===== verification/Prog_Device.thy ===== *)
theory Prog_Device
  imports Llvm_Module
begin

text \<open>
  The parts of \<^verbatim>\<open>src/prog-fuse-llvmir.cc\<close> that read and edit the instructions of the fused
  wrapper: the run-time brackets of device kernels are collapsed into one, and the accesses through
  captured pointers are tagged as not aliasing each other. Instructions are known by what the code
  looks at.
\<close>

subsection \<open>Constants\<close>

text \<open>
  Constants are uniqued, so equality of pointers is equality: an aggregate carries the identity of
  its type, which differs between renamed copies of a struct. An all-zero aggregate is a
  \<open>Const_zero\<close> (as is a null pointer).
\<close>

datatype ir_constant =
    Const_int nat nat
  | Const_zero nat
  | Const_aggregate nat "ir_constant list"
  | Const_other nat

fun is_null_value :: "ir_constant \<Rightarrow> bool" where
  "is_null_value (Const_int w v) = (v = 0)"
| "is_null_value (Const_zero t) = True"
| "is_null_value _ = False"

function constant_value_equal :: "ir_constant \<Rightarrow> ir_constant \<Rightarrow> bool" where
  "constant_value_equal a b =
     (if a = b then True
      else if is_null_value a \<and> is_null_value b then True
      else case a of
             Const_int w v \<Rightarrow> (case b of Const_int w' v' \<Rightarrow> v = v' | _ \<Rightarrow> False)
           | Const_aggregate t xs \<Rightarrow>
               (case b of Const_aggregate u ys \<Rightarrow> list_all2 constant_value_equal xs ys | _ \<Rightarrow> False)
           | _ \<Rightarrow> False)"
  by pat_completeness auto
termination by (relation "measure (\<lambda>(a, b). size a)") (auto simp: less_Suc_eq_le intro: size_list_estimation')

declare constant_value_equal.simps [simp del]

text \<open>Null pointers are equal to themselves only.\<close>

definition config_equal :: "ir_constant option \<Rightarrow> ir_constant option \<Rightarrow> bool" where
  "config_equal a b =
     (case a of
        None \<Rightarrow> b = None
      | Some x \<Rightarrow> (case b of None \<Rightarrow> False | Some y \<Rightarrow> constant_value_equal x y))"

subsection \<open>Device brackets\<close>

text \<open>
  The calls of \<^verbatim>\<open>__kmpc_target_init\<close>, with the first field of its environment when there is one
  and whether the result is compared with -1, of \<^verbatim>\<open>__kmpc_target_deinit\<close>, and everything else.
  The number identifies the instruction.
\<close>

datatype device_instr =
    Target_init nat "ir_constant option" bool
  | Target_deinit nat
  | Other_instr nat

fun is_init :: "device_instr \<Rightarrow> bool" where
  "is_init (Target_init _ _ _) = True"
| "is_init _ = False"

fun is_deinit :: "device_instr \<Rightarrow> bool" where
  "is_deinit (Target_deinit _) = True"
| "is_deinit _ = False"

fun config_of :: "device_instr \<Rightarrow> ir_constant option" where
  "config_of (Target_init _ c _) = c"
| "config_of _ = None"

fun is_spmd_init :: "device_instr \<Rightarrow> bool" where
  "is_spmd_init (Target_init _ _ b) = b"
| "is_spmd_init _ = False"

text \<open>
  No value: the function answers \<^verbatim>\<open>false\<close> and leaves the wrapper as it is. Otherwise the remaining
  instructions and the erased initialisations, whose results are replaced by -1.
\<close>

definition collapse_device_kernel_brackets :: "device_instr list \<Rightarrow> (device_instr list \<times> device_instr list) option" where
  "collapse_device_kernel_brackets F =
     (let inits = filter is_init F; deinits = filter is_deinit F in
      if length inits < 2 \<or> length inits \<noteq> length deinits then None
      else if config_of (hd inits) = None then None
      else if list_ex (\<lambda>i. \<not> config_equal (config_of i) (config_of (hd inits))) (tl inits) then None
      else if list_ex (\<lambda>i. \<not> is_spmd_init i) inits then None
      else Some (filter (\<lambda>i. \<not> List.member (tl inits) i \<and> \<not> List.member (butlast deinits) i) F, tl inits))"

subsection \<open>Scoped noalias\<close>

text \<open>
  A load or store with the type of its value and the object its address is based on: a load, with
  the mark \<^verbatim>\<open>cgir.fuse.base\<close> or without, or something else.
\<close>

datatype base_object = Base_load nat bool | Base_other

datatype memory_instr =
    Memory_access ir_type base_object
  | No_access

fun data_base :: "memory_instr \<Rightarrow> nat option" where
  "data_base (Memory_access t (Base_load l marked)) = (if t = Pointer_type \<or> \<not> marked then None else Some l)"
| "data_base _ = None"

text \<open>The scopes in the order they are created: one per base.\<close>

definition add_scope :: "memory_instr \<Rightarrow> nat list \<Rightarrow> nat list" where
  "add_scope i scopes =
     (case data_base i of
        None \<Rightarrow> scopes
      | Some b \<Rightarrow> if List.member scopes b then scopes else scopes @ [b])"

definition all_scopes :: "memory_instr list \<Rightarrow> nat list" where
  "all_scopes F = fold add_scope F []"

text \<open>The metadata of every instruction: its scopes and the scopes it does not alias.\<close>

definition tag_noalias_domains :: "memory_instr list \<Rightarrow> (nat list \<times> nat list) option list" where
  "tag_noalias_domains F =
     (let scopes = all_scopes F in
      if length scopes < 2 then map (\<lambda>_. None) F
      else map (\<lambda>i. map_option (\<lambda>own. ([own], filter (\<lambda>s. s \<noteq> own) scopes)) (data_base i)) F)"

subsection \<open>Comparing launch configurations\<close>

lemma constant_value_equal_refl [simp]: "constant_value_equal a a"
  by (simp add: constant_value_equal.simps)

lemma constant_value_equal_iff:
  "constant_value_equal a b \<longleftrightarrow>
     a = b \<or> is_null_value a \<and> is_null_value b \<or> (\<exists>w w' v. a = Const_int w v \<and> b = Const_int w' v) \<or>
     (\<exists>t u xs ys. a = Const_aggregate t xs \<and> b = Const_aggregate u ys \<and> list_all2 constant_value_equal xs ys)"
  by (subst constant_value_equal.simps) (cases a; cases b; auto)

lemma constant_value_equal_null: "constant_value_equal a b \<Longrightarrow> is_null_value a \<longleftrightarrow> is_null_value b"
  by (auto simp: constant_value_equal_iff [of a b])

lemma constant_value_equal_aggregate:
  "constant_value_equal (Const_aggregate t xs) b \<longleftrightarrow>
     b = Const_aggregate t xs \<or> (\<exists>u ys. b = Const_aggregate u ys \<and> list_all2 constant_value_equal xs ys)"
  by (auto simp: constant_value_equal_iff [of "Const_aggregate t xs" b])

lemma constant_value_equal_sym: "constant_value_equal a b \<Longrightarrow> constant_value_equal b a"
proof (induction a arbitrary: b)
  case (Const_aggregate t xs)
  then show ?case
    by (auto simp: constant_value_equal_aggregate list_all2_conv_all_nth)
next
  case (Const_int w v)
  then show ?case by (auto simp: constant_value_equal_iff [of "Const_int w v"] constant_value_equal_iff [of b])
next
  case (Const_zero t)
  then show ?case by (auto simp: constant_value_equal_iff [of "Const_zero t"] constant_value_equal_iff [of b])
next
  case (Const_other n)
  then show ?case by (auto simp: constant_value_equal_iff [of "Const_other n"])
qed

lemma constant_value_equal_trans:
  "constant_value_equal a b \<Longrightarrow> constant_value_equal b c \<Longrightarrow> constant_value_equal a c"
proof (induction a arbitrary: b c)
  case (Const_aggregate t xs)
  show ?case
  proof (cases "b = Const_aggregate t xs \<or> c = b")
    case False
    then obtain u ys where b: "b = Const_aggregate u ys" "list_all2 constant_value_equal xs ys"
      using Const_aggregate.prems(1) by (auto simp: constant_value_equal_aggregate)
    then obtain w zs where c: "c = Const_aggregate w zs" "list_all2 constant_value_equal ys zs"
      using Const_aggregate.prems(2) False by (auto simp: constant_value_equal_aggregate)
    have "constant_value_equal (xs ! k) (zs ! k)" if "k < length xs" for k
      using Const_aggregate.IH [of "xs ! k" "ys ! k" "zs ! k"] that b(2) c(2) by (auto simp: list_all2_conv_all_nth)
    then have "list_all2 constant_value_equal xs zs" using b(2) c(2) by (simp add: list_all2_conv_all_nth)
    then show ?thesis using c(1) by (auto simp: constant_value_equal_aggregate)
  qed (use Const_aggregate.prems in auto)
next
  case (Const_int w v)
  then show ?case by (auto simp: constant_value_equal_iff [of "Const_int w v"] constant_value_equal_iff [of b c])
next
  case (Const_zero t)
  then show ?case by (auto simp: constant_value_equal_iff [of "Const_zero t"] constant_value_equal_iff [of b c])
next
  case (Const_other n)
  then show ?case by (simp add: constant_value_equal_iff [of "Const_other n"])
qed

subsection \<open>One bracket\<close>

lemma filter_not_member: "filter (\<lambda>i. \<not> List.member xs i) ys = filter (\<lambda>i. i \<notin> set xs) ys"
  by simp

text \<open>
  C22. A fused device kernel is launched once. When the brackets of the inlined kernels collapse, one
  initialisation is left, the first, and one finalisation, the last; every other instruction stays,
  in its order; all the kernels were SPMD kernels with value-equal configurations. The
  comparison of configurations is an equivalence, so each two of them agree.
\<close>

theorem collapse_leaves_one_bracket:
  assumes "collapse_device_kernel_brackets F = Some (F', erased)" "distinct F"
  shows "filter is_init F' = [hd (filter is_init F)] \<and> filter is_deinit F' = [last (filter is_deinit F)] \<and>
    filter (\<lambda>i. \<not> is_init i \<and> \<not> is_deinit i) F' = filter (\<lambda>i. \<not> is_init i \<and> \<not> is_deinit i) F \<and>
    set F = set F' \<union> set erased \<union> set (butlast (filter is_deinit F)) \<and>
    (\<forall>i\<in>set (filter is_init F). \<forall>j\<in>set (filter is_init F). is_spmd_init i \<and> config_equal (config_of i) (config_of j))"
proof -
  let ?is = "filter is_init F" and ?ds = "filter is_deinit F"
  let ?keep = "\<lambda>i. i \<notin> set (tl ?is) \<and> i \<notin> set (butlast ?ds)"
  have c: "2 \<le> length ?is" "length ?ds = length ?is" "config_of (hd ?is) \<noteq> None" "erased = tl ?is"
    "\<forall>i\<in>set (tl ?is). config_equal (config_of i) (config_of (hd ?is))" "\<forall>i\<in>set ?is. is_spmd_init i"
    "F' = filter ?keep F"
    using assms(1) by (auto simp: collapse_device_kernel_brackets_def Let_def list_ex_iff split: if_splits)
  obtain i is' where i: "?is = i # is'" using c(1) by (cases ?is) auto
  obtain ds' d where d: "?ds = ds' @ [d]" using c(1,2) by (cases ?ds rule: rev_cases) auto
  have disj: "\<not> (is_init x \<and> is_deinit x)" for x by (cases x) auto
  have di: "distinct (i # is')" "distinct (ds' @ [d])" using assms(2) i d by (metis distinct_filter)+
  have "set is' \<subseteq> set ?is" "set ds' \<subseteq> set ?ds" using i d by auto
  then have kind: "x \<in> set is' \<Longrightarrow> is_init x \<and> \<not> is_deinit x" "x \<in> set ds' \<Longrightarrow> is_deinit x \<and> \<not> is_init x" for x
    using disj by auto
  have inits: "filter is_init F' = filter (\<lambda>x. x \<notin> set is') ?is"
    unfolding c(7) filter_filter using kind by (intro filter_cong) (auto simp: i d)
  moreover have "filter (\<lambda>x. x \<notin> set is') (i # is') = [i]" using di(1) by (auto simp: filter_empty_conv)
  moreover have deinits: "filter is_deinit F' = filter (\<lambda>x. x \<notin> set ds') ?ds"
    unfolding c(7) filter_filter using kind by (intro filter_cong) (auto simp: i d)
  moreover have "filter (\<lambda>x. x \<notin> set ds') (ds' @ [d]) = [d]" using di(2) by (auto simp: filter_empty_conv)
  moreover have "filter (\<lambda>i. \<not> is_init i \<and> \<not> is_deinit i) F' = filter (\<lambda>i. \<not> is_init i \<and> \<not> is_deinit i) F"
  proof -
    have "?keep x" if "\<not> is_init x" "\<not> is_deinit x" for x
      using that kind by (auto simp: i d)
    then show ?thesis unfolding c(7) filter_filter by (intro filter_cong) auto
  qed
  moreover have "set F = set F' \<union> set erased \<union> set (butlast ?ds)"
  proof -
    have "set ?is \<subseteq> set F" "set ?ds \<subseteq> set F" by auto
    then have "set (tl ?is) \<subseteq> set F" "set (butlast ?ds) \<subseteq> set F" unfolding i d by auto
    then show ?thesis unfolding c(4,7) by auto
  qed
  moreover have "config_equal (config_of x) (config_of y)" if xy: "x \<in> set ?is" "y \<in> set ?is" for x y
  proof -
    obtain k where k: "config_of i = Some k" using c(3) i by auto
    have all: "\<exists>z. config_of x = Some z \<and> constant_value_equal z k" if "x \<in> set ?is" for x
      using c(5) that k by (auto simp: i config_equal_def split: option.splits)
    obtain z where z: "config_of x = Some z" "constant_value_equal z k" using all [OF xy(1)] by blast
    obtain z' where z': "config_of y = Some z'" "constant_value_equal z' k" using all [OF xy(2)] by blast
    have "constant_value_equal z z'"
      by (rule constant_value_equal_trans [OF z(2) constant_value_equal_sym [OF z'(2)]])
    then show ?thesis by (simp add: config_equal_def z(1) z'(1))
  qed
  ultimately show ?thesis using c(6) by (simp add: i d)
qed

subsection \<open>Scopes\<close>

lemma all_scopes_correct: "distinct (all_scopes F) \<and> set (all_scopes F) = {b. Some b \<in> data_base ` set F}"
proof (induction F rule: rev_induct)
  case (snoc i F)
  then show ?case by (cases "data_base i") (auto simp: all_scopes_def add_scope_def)
qed (simp add: all_scopes_def)

text \<open>
  C23. The alias metadata separates exactly the captured bases. When two captured bases are accessed,
  every access of captured data is in the scope of its own base and declared not to alias the scopes of
  all other bases: accesses \<open>i\<close> and \<open>j\<close> are declared disjoint exactly when their bases differ, and
  accesses through other pointers are not tagged.
\<close>

theorem noalias_separates_distinct_bases:
  assumes "i < length F" "j < length F" "2 \<le> length (all_scopes F)"
  shows "case tag_noalias_domains F ! i of
      None \<Rightarrow> data_base (F ! i) = None
    | Some (own, others) \<Rightarrow> data_base (F ! i) = Some (hd own) \<and> length own = 1 \<and>
        (case tag_noalias_domains F ! j of
           None \<Rightarrow> data_base (F ! j) = None
         | Some (own', _) \<Rightarrow> set own' \<subseteq> set others \<longleftrightarrow> data_base (F ! i) \<noteq> data_base (F ! j))"
proof -
  have tag: "tag_noalias_domains F ! k = map_option (\<lambda>own. ([own], filter (\<lambda>s. s \<noteq> own) (all_scopes F))) (data_base (F ! k))"
    if "k < length F" for k using that assms(3) by (simp add: tag_noalias_domains_def Let_def)
  have "b \<in> set (all_scopes F)" if "data_base (F ! j) = Some b" for b
    using all_scopes_correct [of F] that assms(2) by (metis image_eqI mem_Collect_eq nth_mem)
  then show ?thesis by (auto simp: tag [OF assms(1)] tag [OF assms(2)] split: option.split)
qed

end
