(* ===== verification/Fusion_Witnesses.thy ===== *)
theory Fusion_Witnesses
  imports Fuse_Witnesses Prog_Jit_Props Prog_Device
begin

text \<open>
  The properties of the fusion core and of the compiler applied to concrete programs: two
  programs with one kernel each, the second of which owns its code and its arguments, and a
  packed body with a pointer and an integer.
\<close>

subsection \<open>A chain of two programs\<close>

definition sample_alloc :: allocator where
  "sample_alloc l n = (let a = foldr max l 0 + 4096 in if List.member l a then 0 else a)"

lemma sample_alloc_ok: "allocator_ok sample_alloc"
  by (simp add: allocator_ok_def sample_alloc_def Let_def)

definition sample_kernel :: ir_function where
  "sample_kernel = \<lparr>fname = ''k'', is_declaration = False, flinkage = External_linkage,
     ftype = \<lparr>return_type = Void_type, param_types = [Pointer_type]\<rparr>, fbody = 0\<rparr>"

definition sample_fuse_env :: fuse_env where
  "sample_fuse_env =
     \<lparr>fe_parse = (\<lambda>_ _. Some [sample_kernel]), fe_layout = (\<lambda>_ _. sample_layout),
      fe_link = (\<lambda>ms. Some (concat ms, sample_layout)), fe_stamp = (\<lambda>dl. dl),
      fe_emit = (\<lambda>_ _. Some [0x42, 0x43]), fe_packed = False, fe_alloc = sample_alloc\<rparr>"

definition slots_memory :: memory where
  "slots_memory a = (if a = 256 then 16 else if a = 264 then 32 else if 256 \<le> a \<and> a < 272 then 0 else 7)"

definition first_prog :: prog where
  "first_prog = (new_prog 64 1 CGIR_COMMAND_PROG_SOURCE_TYPE_LLVMIR 256 1)
     \<lparr>source := \<lparr>source_type = CGIR_COMMAND_PROG_SOURCE_TYPE_LLVMIR,
       llvmir = (llvmir (source (new_prog 64 1 CGIR_COMMAND_PROG_SOURCE_TYPE_LLVMIR 256 1)))
         \<lparr>externs := Some [\<lparr>ename = Some ''y'', eaddr = 5\<rparr>], externs_count := 1\<rparr>\<rparr>\<rparr>"

definition second_prog :: prog where
  "second_prog = (new_prog 512 1 CGIR_COMMAND_PROG_SOURCE_TYPE_LLVMIR 1024 1)
     \<lparr>args_owned := True,
      source := \<lparr>source_type = CGIR_COMMAND_PROG_SOURCE_TYPE_LLVMIR,
       llvmir = (llvmir (source (new_prog 512 1 CGIR_COMMAND_PROG_SOURCE_TYPE_LLVMIR 1024 1)))
         \<lparr>raw_owned := True, externs := Some [\<lparr>ename = Some ''y'', eaddr = 6\<rparr>, \<lparr>ename = Some ''z'', eaddr = 7\<rparr>],
          externs_count := 2\<rparr>\<rparr>\<rparr>"

definition sample_fuse_state :: fuse_state where
  "sample_fuse_state = \<lparr>fs_mem = slots_memory, fs_live = [512, 1024, 9000], fs_progs = [first_prog, second_prog]\<rparr>"

lemma sample_build:
  "\<exists>f. build_fused sample_fuse_env [0, 1] sample_fuse_state = Inr f \<and> buffer_fits f \<and>
     length (unique_slots (fu_dedup f)) = 2 \<and> \<not> fu_packed f"
proof -
  have "case build_fused sample_fuse_env [0, 1] sample_fuse_state of
      Inl _ \<Rightarrow> False | Inr f \<Rightarrow> length (unique_slots (fu_dedup f)) = 2 \<and> \<not> fu_packed f" by code_simp
  then show ?thesis by (auto simp: buffer_fits_def split: sum.splits)
qed

lemma sample_run:
  "\<exists>st'. command_graph_prog_fuse_llvmir sample_fuse_env [0, 1] 0 sample_fuse_state = Inr st'"
proof -
  have "case command_graph_prog_fuse_llvmir sample_fuse_env [0, 1] 0 sample_fuse_state of Inl _ \<Rightarrow> False | Inr _ \<Rightarrow> True"
    by code_simp
  then show ?thesis by (auto split: sum.splits)
qed

lemma sample_heap: "heap_inv {#9000#} sample_fuse_state"
  by (simp add: heap_inv_def owned_def sample_fuse_state_def owned_of_def owns_raw_def owns_args_def
      first_prog_def second_prog_def new_prog_def)


theorem fused_program_arguments_witness:
  "\<exists>st' f. command_graph_prog_fuse_llvmir sample_fuse_env [0, 1] 0 sample_fuse_state = Inr st' \<and>
     prototype (prog_at st' 0) = CGIR_COMMAND_PROG_FUNCTION_PROTOTYPE_VARIADIC \<and>
     build_fused sample_fuse_env [0, 1] sample_fuse_state = Inr f \<and>
     snapshot_slots (fs_mem st') (pargs (prog_at st' 0)) 2 = unique_slots (fu_dedup f)"
proof -
  obtain f where f: "build_fused sample_fuse_env [0, 1] sample_fuse_state = Inr f"
    "length (unique_slots (fu_dedup f)) = 2" "\<not> fu_packed f" using sample_build by blast
  obtain st' where st': "command_graph_prog_fuse_llvmir sample_fuse_env [0, 1] 0 sample_fuse_state = Inr st'"
    using sample_run by blast
  have "0 < length (fs_progs sample_fuse_state)" "8 * length (unique_slots (fu_dedup f)) < 2 ^ 64"
    using f(2) by (simp_all add: sample_fuse_state_def)
  from fused_program_arguments [OF st' f(1) this refl] show ?thesis using st' f by auto
qed

theorem fused_symbols_first_wins_witness:
  "\<exists>ms. merge_externs [first_prog, second_prog] = Inr ms \<and> jit_symbols ms ''y'' = Some 5 \<and> jit_symbols ms ''z'' = Some 7"
proof -
  have q: "externs_ok first_prog" "externs_ok second_prog" "is_llvmir first_prog" "is_llvmir second_prog"
    by (simp_all add: externs_ok_def is_llvmir_def first_prog_def second_prog_def)
  then obtain ms where ms: "merge_externs [first_prog, second_prog] = Inr ms"
    using merge_externs_ok [of "[first_prog, second_prog]"] by auto
  have "jit_symbols ms = map_of (named_externs (concat (map extern_table [first_prog, second_prog])))"
    using fused_symbols_first_wins [OF ms] q by simp
  also have "\<dots> = map_of [(''y'', 5), (''y'', 6), (''z'', 7)]"
    by (simp add: extern_table_def first_prog_def second_prog_def named_externs_def map_filter_def)
  finally show ?thesis using ms by simp
qed

subsection \<open>A packed body on its own\<close>

definition sample_jit_env :: jit_env where
  "sample_jit_env =
     \<lparr>je_parse = (\<lambda>_. Some [sample_kernel\<lparr>ftype := \<lparr>return_type = Void_type, param_types = [Pointer_type, Integer_type 64]\<rparr>\<rparr>]),
      je_ptx = (\<lambda>_ _ _ _. []), je_compile = (\<lambda>_ _ _. Some 77), je_rtl = None, je_alloc = sample_alloc\<rparr>"

definition packed_prog :: prog where
  "packed_prog = (new_prog 64 1 CGIR_COMMAND_PROG_SOURCE_TYPE_LLVMIR 256 2)
     \<lparr>source := \<lparr>source_type = CGIR_COMMAND_PROG_SOURCE_TYPE_LLVMIR,
       llvmir = (llvmir (source (new_prog 64 1 CGIR_COMMAND_PROG_SOURCE_TYPE_LLVMIR 256 2)))
         \<lparr>params := Some sample_params, param_count := 2\<rparr>\<rparr>\<rparr>"

definition packed_state :: fuse_state where
  "packed_state = \<lparr>fs_mem = slots_memory, fs_live = [], fs_progs = [packed_prog]\<rparr>"

lemma packed_sample:
  "prog_at packed_state 0 = packed_prog" "0 < length (fs_progs packed_state)" "needs_packing packed_prog"
  "params (llvmir (source packed_prog)) = Some sample_params" "pargs packed_prog = 256"
  "length sample_params = param_count (llvmir (source packed_prog))" "length sample_params = 2"
  by (simp_all add: prog_at_def packed_state_def packed_prog_def needs_packing_def new_prog_def sample_params_def)

lemma sample_params_ok: "params_ok sample_params"
  by (simp add: params_ok_def sample_params_def numeral_2_eq_2 [symmetric] below_two below_one)

lemma packed_sample_slots:
  "read_word slots_memory 256 = 16" "read_word slots_memory 264 = 32" "read_word slots_memory 16 = 0x0707070707070707"
  by code_simp+

lemma packed_sample_run: "\<exists>st'. install_packed_args sample_jit_env 0 packed_state = Inr st'"
proof -
  have "case install_packed_args sample_jit_env 0 packed_state of Inl _ \<Rightarrow> False | Inr _ \<Rightarrow> True" by code_simp
  then show ?thesis by (auto split: sum.splits)
qed



theorem jit_keeps_ownership_witness:
  "\<exists>st'. command_graph_jit_llvmir sample_jit_env 0 packed_state = Inr st' \<and> heap_inv {#} st'"
proof -
  note p = packed_sample
  have "heap_inv {#} packed_state" "allocator_ok (je_alloc sample_jit_env)"
    by (simp_all add: heap_inv_def owned_def packed_state_def owned_of_def owns_raw_def owns_args_def packed_prog_def
        new_prog_def sample_jit_env_def sample_alloc_ok)
  moreover have "externs_ok (prog_at packed_state 0)"
    unfolding p(1) by (simp add: externs_ok_def packed_prog_def new_prog_def)
  moreover have "case params (llvmir (source (prog_at packed_state 0))) of None \<Rightarrow> True
      | Some ps \<Rightarrow> params_ok ps \<and> length ps = param_count (llvmir (source (prog_at packed_state 0)))"
    unfolding p(1,4) by (simp add: sample_params_ok p(6))
  ultimately have "command_graph_jit_llvmir sample_jit_env 0 packed_state \<in> {Inl Aborted, Inl Assertion_failed} \<or>
      (\<exists>st'. command_graph_jit_llvmir sample_jit_env 0 packed_state = Inr st' \<and> heap_inv {#} st')"
    using jit_keeps_ownership [OF _ _ p(2)] by blast
  moreover have "case command_graph_jit_llvmir sample_jit_env 0 packed_state of Inl _ \<Rightarrow> False | Inr _ \<Rightarrow> True" by code_simp
  ultimately show ?thesis by auto
qed

subsection \<open>A device wrapper\<close>

definition sample_brackets :: "device_instr list" where
  "sample_brackets =
     [Target_init 0 (Some (Const_aggregate 0 [Const_int 32 2, Const_int 8 0])) True, Other_instr 1, Target_deinit 2,
      Target_init 3 (Some (Const_aggregate 1 [Const_int 32 2, Const_zero 5])) True, Other_instr 4, Target_deinit 5]"

theorem collapse_leaves_one_bracket_witness:
  "\<exists>F' erased. collapse_device_kernel_brackets sample_brackets = Some (F', erased) \<and>
     filter is_init F' = [hd sample_brackets] \<and> filter is_deinit F' = [last sample_brackets]"
proof -
  have c: "collapse_device_kernel_brackets sample_brackets =
      Some ([hd sample_brackets, Other_instr 1, Other_instr 4, Target_deinit 5], [sample_brackets ! 3])" by code_simp
  have "distinct sample_brackets" "filter is_init sample_brackets = [hd sample_brackets, sample_brackets ! 3]"
    "filter is_deinit sample_brackets = [Target_deinit 2, last sample_brackets]" by (simp_all add: sample_brackets_def)
  with collapse_leaves_one_bracket [OF c] c show ?thesis by auto
qed

theorem noalias_separates_distinct_bases_witness:
  "case tag_noalias_domains [Memory_access (Integer_type 64) (Base_load 3 True), Memory_access (Integer_type 64) (Base_load 4 True)] ! 0 of
     None \<Rightarrow> False | Some (own, others) \<Rightarrow> own = [3] \<and> 4 \<in> set others"
proof -
  let ?F = "[Memory_access (Integer_type 64) (Base_load 3 True), Memory_access (Integer_type 64) (Base_load 4 True)]"
  have "0 < length ?F" "1 < length ?F" "2 \<le> length (all_scopes ?F)" "tag_noalias_domains ?F ! 1 = Some ([4], [3])"
    by (simp, simp, code_simp, code_simp)
  from noalias_separates_distinct_bases [OF this(1-3)] this(4) show ?thesis
    by (auto split: option.splits) (metis length_0_conv length_Suc_conv list.sel(1))
qed

end
