(* ===== verification/Prog_Wrapper.thy ===== *)
theory Prog_Wrapper
  imports Prog_Core
begin

text \<open>
  The body of the fused wrapper as \<^verbatim>\<open>command_graph_prog_fuse_llvmir\<close> emits it (step 6 of
  \<^verbatim>\<open>src/prog-fuse-llvmir.cc\<close>): one basic block, instruction by instruction. What the
  instructions mean, and that the block does what \<open>build_wrapper\<close> records, is in Wrapper\_Exec.
\<close>

subsection \<open>Instructions\<close>

text \<open>
  A value is a parameter of the wrapper, the result of an instruction of the block (by position) or
  a 64-bit constant. A load carries the mark \<^verbatim>\<open>cgir.fuse.base\<close>; an address computation its element
  type and constant index.
\<close>

datatype ir_value = V_param nat | V_instr nat | V_int size_t

datatype ir_instr =
    I_gep ir_type ir_value size_t
  | I_load ir_type ir_value bool
  | I_alloca size_t
  | I_store ir_value ir_value
  | I_memcpy ir_value ir_value size_t
  | I_call string "ir_value list"
  | I_ret

type_synonym ir_block = "ir_instr list"

text \<open>The builder appends to the block.\<close>

definition insert_instr :: "ir_instr \<Rightarrow> ir_block \<Rightarrow> ir_value \<times> ir_block" where
  "insert_instr i b = (V_instr (length b), b @ [i])"

subsection \<open>Reading the arguments\<close>

definition emit_load_arg :: "ir_value \<Rightarrow> nat \<Rightarrow> ir_type \<Rightarrow> ir_block \<Rightarrow> ir_value \<times> ir_block" where
  "emit_load_arg args idx T b =
     (let (slot, b1) = insert_instr (I_gep Pointer_type args (word_of_nat idx)) b;
          (voidp, b2) = insert_instr (I_load Pointer_type slot False) b1
      in insert_instr (I_load T voidp False) b2)"

definition mark_base :: "ir_value \<Rightarrow> ir_block \<Rightarrow> ir_block" where
  "mark_base v b =
     (case v of
        V_instr k \<Rightarrow> (case b ! k of I_load T p _ \<Rightarrow> b[k := I_load T p True] | _ \<Rightarrow> b)
      | _ \<Rightarrow> b)"

definition load_arg :: "bool \<Rightarrow> size_t list \<Rightarrow> nat \<Rightarrow> ir_type \<Rightarrow> ir_block \<Rightarrow> ir_value \<times> ir_block" where
  "load_arg packed offs idx T b =
     (if packed
      then let (p, b1) = insert_instr (I_gep (Integer_type 8) (V_param 0) (offs ! idx)) b
           in insert_instr (I_load T p False) b1
      else emit_load_arg (V_param 0) idx T b)"

definition slice_ptr :: "nat \<Rightarrow> ir_block \<Rightarrow> ir_value \<times> ir_block" where
  "slice_ptr off b = insert_instr (I_gep Pointer_type (V_param 0) (word_of_nat off)) b"

subsection \<open>The tables of hoisted values\<close>

text \<open>\<^verbatim>\<open>slot_value\<close>: the typed slots are loaded once; null pointers are \<open>None\<close>.\<close>

definition emit_slot_value ::
  "bool \<Rightarrow> size_t list \<Rightarrow> ir_type option list \<Rightarrow> nat \<Rightarrow> ir_value option list \<times> ir_block \<Rightarrow> ir_value option list \<times> ir_block" where
  "emit_slot_value packed offs ts k vb =
     (case ts ! k of
        None \<Rightarrow> (fst vb @ [None], snd vb)
      | Some T \<Rightarrow>
          (let (v, b) = load_arg packed offs k T (snd vb)
           in (fst vb @ [Some v], if T = Pointer_type then mark_base v b else b)))"

text \<open>\<^verbatim>\<open>recon_buf\<close>: every input gets a buffer on the stack as soon as one is packed.\<close>

definition emit_recon_buf ::
  "bool \<Rightarrow> fuse_input list \<Rightarrow> nat \<Rightarrow> ir_value option list \<times> ir_block \<Rightarrow> ir_value option list \<times> ir_block" where
  "emit_recon_buf leaf ins i vb =
     (if leaf
      then let (v, b) = insert_instr (I_alloca (buf_size (ins ! i))) (snd vb) in (fst vb @ [Some v], b)
      else (fst vb @ [None], snd vb))"

text \<open>\<^verbatim>\<open>slot_hoist\<close>: slots of the size of a register, as pointers or as integers.\<close>

definition hoist_type :: "dedup \<Rightarrow> nat \<Rightarrow> ir_type option" where
  "hoist_type d k =
     (if unique_slot_is_ref d ! k then Some Pointer_type
      else if unique_slot_size d ! k \<in> {1, 2, 4, 8} then Some (Integer_type (unat (unique_slot_size d ! k) * 8))
      else None)"

definition emit_slot_hoist ::
  "bool \<Rightarrow> size_t list \<Rightarrow> dedup \<Rightarrow> nat \<Rightarrow> ir_value option list \<times> ir_block \<Rightarrow> ir_value option list \<times> ir_block" where
  "emit_slot_hoist leaf offs d k vb =
     (case (if leaf then hoist_type d k else None) of
        None \<Rightarrow> (fst vb @ [None], snd vb)
      | Some T \<Rightarrow>
          (let (src, b1) = insert_instr (I_gep (Integer_type 8) (V_param 0) (offs ! k)) (snd vb);
               (v, b2) = insert_instr (I_load T src False) b1
           in (fst vb @ [Some v], if unique_slot_is_ref d ! k then mark_base v b2 else b2)))"

subsection \<open>The calls\<close>

definition emit_recon_copy ::
  "size_t list \<Rightarrow> ir_value option list \<Rightarrow> ir_value \<Rightarrow> prog_param \<Rightarrow> nat \<Rightarrow> ir_block \<Rightarrow> ir_block" where
  "emit_recon_copy offs hoist recon p uidx b =
     (let (dst, b1) = insert_instr (I_gep (Integer_type 8) recon (poffset p)) b in
      case hoist ! uidx of
        Some v \<Rightarrow> snd (insert_instr (I_store v dst) b1)
      | None \<Rightarrow>
          (let (src, b2) = insert_instr (I_gep (Integer_type 8) (V_param 0) (offs ! uidx)) b1
           in snd (insert_instr (I_memcpy dst src (psize p)) b2)))"

definition emit_kernel_call ::
  "size_t list \<Rightarrow> ir_value option list \<Rightarrow> ir_value option list \<Rightarrow> ir_value option list \<Rightarrow> dedup \<Rightarrow> fuse_input list \<Rightarrow>
   nat \<Rightarrow> ir_block \<Rightarrow> ir_block result" where
  "emit_kernel_call offs slot_value recon_buf slot_hoist d ins i b =
     (let inp = ins ! i; row = index_map d ! i in
      if is_wrapper inp
      then let (p, b1) = slice_ptr (wrapper_block_start d ! i) b
           in Inr (snd (insert_instr (I_call (fused_name inp) [p]) b1))
      else if is_packed_leaf inp
      then (case (in_params inp, recon_buf ! i) of
              (Some ps, Some recon) \<Rightarrow>
                (let b1 = fold (\<lambda>j. emit_recon_copy offs slot_hoist recon (ps ! j) (row ! j)) [0..<arity inp] b
                 in Inr (snd (insert_instr (I_call (fused_name inp) [recon, V_int (buf_size inp)]) b1)))
            | _ \<Rightarrow> Inl Undefined_behaviour)
      else bind_result
             (collect (\<lambda>j. case slot_value ! (row ! j) of None \<Rightarrow> Inl Undefined_behaviour | Some v \<Rightarrow> Inr v) [0..<arity inp])
             (\<lambda>vs. Inr (snd (insert_instr (I_call (fused_name inp) vs) b))))"

text \<open>\<open>ts\<close> and the tables of slots have \<^verbatim>\<open>total_args\<close> entries.\<close>

definition emit_host_wrapper ::
  "bool \<Rightarrow> size_t list \<Rightarrow> ir_type option list \<Rightarrow> fuse_input list \<Rightarrow> dedup \<Rightarrow> ir_block result" where
  "emit_host_wrapper packed offs ts ins d =
     (let N = length (unique_slots d); leaf = list_ex is_packed_leaf ins;
          (slot_value, b1) = fold (emit_slot_value packed offs ts) [0..<N] ([], []);
          (recon_buf, b2) = fold (emit_recon_buf leaf ins) [0..<length ins] ([], b1);
          (slot_hoist, b3) = fold (emit_slot_hoist leaf offs d) [0..<N] ([], b2)
      in bind_result (for_each (emit_kernel_call offs slot_value recon_buf slot_hoist d ins) [0..<length ins] b3) (\<lambda>b.
         Inr (snd (insert_instr I_ret b))))"

text \<open>A device wrapper has one parameter per slot, and passes to every kernel its own.\<close>

definition emit_device_call :: "dedup \<Rightarrow> fuse_input list \<Rightarrow> nat \<Rightarrow> ir_block \<Rightarrow> ir_block" where
  "emit_device_call d ins i b =
     snd (insert_instr (I_call (fused_name (ins ! i)) (map (\<lambda>j. V_param (index_map d ! i ! j)) [0..<arity (ins ! i)])) b)"

definition emit_device_wrapper :: "fuse_input list \<Rightarrow> dedup \<Rightarrow> ir_block" where
  "emit_device_wrapper ins d = snd (insert_instr I_ret (fold (emit_device_call d ins) [0..<length ins] []))"

subsection \<open>The wrapper of a compilation\<close>

text \<open>
  \<^verbatim>\<open>command_graph_jit_llvmir\<close>: an entry that is neither \<^verbatim>\<open>void(void**)\<close> nor packed gets a wrapper
  that unpacks one slot per parameter.
\<close>

definition emit_jit_arg :: "ir_type list \<Rightarrow> nat \<Rightarrow> ir_value list \<times> ir_block \<Rightarrow> ir_value list \<times> ir_block" where
  "emit_jit_arg Ts k vb = (let (v, b) = emit_load_arg (V_param 0) k (Ts ! k) (snd vb) in (fst vb @ [v], b))"

definition emit_jit_wrapper :: "ir_function \<Rightarrow> ir_block" where
  "emit_jit_wrapper f =
     (let Ts = param_types (ftype f);
          (vs, b) = fold (emit_jit_arg Ts) [0..<length Ts] ([], [])
      in snd (insert_instr I_ret (snd (insert_instr (I_call (fname f) vs) b))))"

end
