(* ===== verification/Wrapper_Exec.thy ===== *)
theory Wrapper_Exec
  imports Prog_Wrapper
begin

text \<open>
  What a block of the wrapper does when it runs, and that the block emitted for a fusion does what
  \<open>build_wrapper\<close> records of it: every kernel is called once, in the order of the chain, with the
  values of its slots.
\<close>

subsection \<open>Running a block\<close>

text \<open>
  Values are bytes (a scalar or a pointer into data memory), an address in the argument buffer or in
  a stack buffer, a constant. The kernels are a parameter: what they do to data memory, given their
  name and their arguments. The argument buffer and the stack buffers are not data memory, which the
  source relies on (it marks the parameter \<^verbatim>\<open>noalias\<close>). Stack buffers start with unspecified bytes.
\<close>

datatype ir_val = R_bytes "byte list" | R_args nat | R_frame nat nat | R_size size_t | R_none

datatype kernel_actual = Actual_values "byte list list" | Actual_slice "byte list" | Actual_packed "byte list"

record exec_env =
  ee_kernel :: "string \<Rightarrow> kernel_actual \<Rightarrow> memory \<Rightarrow> memory"
  ee_layout :: data_layout
  ee_fresh :: "nat \<Rightarrow> nat \<Rightarrow> byte"
  ee_params :: "ir_val list"

record machine =
  mc_vals :: "ir_val list"
  mc_mem :: memory
  mc_args :: "byte list"
  mc_frames :: "byte list list"

definition value_of :: "exec_env \<Rightarrow> machine \<Rightarrow> ir_value \<Rightarrow> ir_val result" where
  "value_of E m v =
     (case v of
        V_param k \<Rightarrow> if k < length (ee_params E) then Inr (ee_params E ! k) else Inl Undefined_behaviour
      | V_instr k \<Rightarrow> if k < length (mc_vals m) then Inr (mc_vals m ! k) else Inl Undefined_behaviour
      | V_int n \<Rightarrow> Inr (R_size n))"

definition word_of_bytes :: "byte list \<Rightarrow> 64 word" where
  "word_of_bytes bs = read_word (\<lambda>a. bs ! unat a) 0"

definition deref :: "memory \<Rightarrow> nat \<Rightarrow> byte list \<Rightarrow> byte list result" where
  "deref mem n bs =
     (if length bs = 8 \<and> word_of_bytes bs \<noteq> 0 then Inr (read_bytes mem (word_of_bytes bs) n) else Inl Undefined_behaviour)"

fun gep_of :: "nat \<Rightarrow> ir_val \<Rightarrow> ir_val result" where
  "gep_of n (R_args o') = Inr (R_args (o' + n))"
| "gep_of n (R_frame f o') = Inr (R_frame f (o' + n))"
| "gep_of n _ = Inl Undefined_behaviour"

fun load_of :: "machine \<Rightarrow> nat \<Rightarrow> ir_val \<Rightarrow> byte list result" where
  "load_of m n (R_args o') = load_at o' n (mc_args m)"
| "load_of m n (R_frame f o') = load_at o' n (mc_frames m ! f)"
| "load_of m n (R_bytes bs) = deref (mc_mem m) n bs"
| "load_of m n _ = Inl Undefined_behaviour"

fun store_of :: "byte list \<Rightarrow> ir_val \<Rightarrow> machine \<Rightarrow> machine result" where
  "store_of bs (R_frame f o') m =
     bind_result (store_at o' bs (mc_frames m ! f)) (\<lambda>r. Inr (m\<lparr>mc_frames := (mc_frames m)[f := r]\<rparr>))"
| "store_of bs _ m = Inl Undefined_behaviour"

fun bytes_of :: "ir_val \<Rightarrow> byte list result" where
  "bytes_of (R_bytes bs) = Inr bs"
| "bytes_of _ = Inl Undefined_behaviour"

fun actual_of :: "machine \<Rightarrow> ir_val list \<Rightarrow> kernel_actual result" where
  "actual_of m [R_args o'] = Inr (Actual_slice (drop o' (mc_args m)))"
| "actual_of m [R_frame f o', R_size n] = bind_result (load_at o' (unat n) (mc_frames m ! f)) (\<lambda>bs. Inr (Actual_packed bs))"
| "actual_of m vs = bind_result (collect bytes_of vs) (\<lambda>bss. Inr (Actual_values bss))"

definition push_val :: "ir_val \<Rightarrow> machine \<Rightarrow> machine" where
  "push_val x m = m\<lparr>mc_vals := mc_vals m @ [x]\<rparr>"

fun exec_instr :: "exec_env \<Rightarrow> ir_instr \<Rightarrow> machine \<Rightarrow> machine result" where
  "exec_instr E (I_gep T v n) m =
     bind_result (value_of E m v) (\<lambda>a. bind_result (gep_of (unat n * type_store_size (ee_layout E) T) a) (\<lambda>r.
     Inr (push_val r m)))"
| "exec_instr E (I_load T v marked) m =
     bind_result (value_of E m v) (\<lambda>a. bind_result (load_of m (type_store_size (ee_layout E) T) a) (\<lambda>bs.
     Inr (push_val (R_bytes bs) m)))"
| "exec_instr E (I_alloca n) m =
     Inr (push_val (R_frame (length (mc_frames m)) 0)
       (m\<lparr>mc_frames := mc_frames m @ [map (ee_fresh E (length (mc_frames m))) [0..<unat n]]\<rparr>))"
| "exec_instr E (I_store v p) m =
     bind_result (value_of E m v) (\<lambda>x. bind_result (bytes_of x) (\<lambda>bs. bind_result (value_of E m p) (\<lambda>a.
     bind_result (store_of bs a m) (\<lambda>m'. Inr (push_val R_none m')))))"
| "exec_instr E (I_memcpy d s n) m =
     bind_result (value_of E m s) (\<lambda>a. bind_result (load_of m (unat n) a) (\<lambda>bs. bind_result (value_of E m d) (\<lambda>a'.
     bind_result (store_of bs a' m) (\<lambda>m'. Inr (push_val R_none m')))))"
| "exec_instr E (I_call name vs) m =
     bind_result (collect (value_of E m) vs) (\<lambda>xs. bind_result (actual_of m xs) (\<lambda>a.
     Inr (push_val R_none (m\<lparr>mc_mem := ee_kernel E name a (mc_mem m)\<rparr>))))"
| "exec_instr E I_ret m = Inr (push_val R_none m)"

definition exec_block :: "exec_env \<Rightarrow> ir_block \<Rightarrow> machine \<Rightarrow> machine result" where
  "exec_block E b m = for_each (exec_instr E) b m"

definition entry_state :: "byte list \<Rightarrow> memory \<Rightarrow> machine" where
  "entry_state args mem = \<lparr>mc_vals = [], mc_mem = mem, mc_args = args, mc_frames = []\<rparr>"

subsection \<open>What the recorded calls mean\<close>

text \<open>The bytes of a typed slot on entry, and the arguments of a call. \<open>r\<close> is the fresh buffer of the input.\<close>

definition slot_bytes ::
  "data_layout \<Rightarrow> bool \<Rightarrow> size_t list \<Rightarrow> ir_type option list \<Rightarrow> byte list \<Rightarrow> memory \<Rightarrow> nat \<Rightarrow> byte list result" where
  "slot_bytes dl packed offs ts args mem k =
     (case ts ! k of
        None \<Rightarrow> Inl Undefined_behaviour
      | Some T \<Rightarrow>
          if packed then load_at (unat (offs ! k)) (type_store_size dl T) args
          else bind_result (load_at (8 * k) 8 args) (deref mem (type_store_size dl T)))"

definition call_actual ::
  "data_layout \<Rightarrow> bool \<Rightarrow> size_t list \<Rightarrow> ir_type option list \<Rightarrow> byte list \<Rightarrow> memory \<Rightarrow> byte list \<Rightarrow> kernel_call \<Rightarrow> kernel_actual result" where
  "call_actual dl packed offs ts args mem r c =
     (case c of
        Call_slice k \<Rightarrow> Inr (Actual_slice (drop (8 * k) args))
      | Call_values row \<Rightarrow> bind_result (collect (slot_bytes dl packed offs ts args mem) row) (\<lambda>bss. Inr (Actual_values bss))
      | Call_packed cs n \<Rightarrow> bind_result (run_recon args offs cs r) (\<lambda>r'. Inr (Actual_packed r')))"

definition fresh_frame :: "exec_env \<Rightarrow> fuse_input list \<Rightarrow> nat \<Rightarrow> byte list" where
  "fresh_frame E ins i = map (ee_fresh E i) [0..<unat (buf_size (ins ! i))]"

subsection \<open>Running what the builder emits\<close>

text \<open>\<open>reaches E b m0 m\<close>: running \<open>b\<close> ends in \<open>m\<close>, which holds the result of every instruction.\<close>

definition reaches :: "exec_env \<Rightarrow> ir_block \<Rightarrow> machine \<Rightarrow> machine \<Rightarrow> bool" where
  "reaches E b m0 m \<longleftrightarrow> exec_block E b m0 = Inr m \<and> length (mc_vals m) = length b"

definition grows :: "machine \<Rightarrow> machine \<Rightarrow> bool" where
  "grows m m' \<longleftrightarrow> (\<exists>vs. mc_vals m' = mc_vals m @ vs)"

definition core :: "machine \<Rightarrow> machine" where
  "core m = m\<lparr>mc_vals := []\<rparr>"

lemma push_val_simps [simp]:
  "mc_vals (push_val x m) = mc_vals m @ [x]" "mc_mem (push_val x m) = mc_mem m" "mc_args (push_val x m) = mc_args m"
  "mc_frames (push_val x m) = mc_frames m" "core (push_val x m) = core m"
  by (simp_all add: push_val_def core_def)

lemma grows_refl [simp]: "grows m m" and grows_push [simp]: "grows m (push_val x m)"
  by (simp_all add: grows_def)

lemma grows_trans: "grows m m' \<Longrightarrow> grows m' m'' \<Longrightarrow> grows m m''"
  by (auto simp: grows_def)

lemma grows_value: "grows m m' \<Longrightarrow> value_of E m v = Inr x \<Longrightarrow> value_of E m' v = Inr x"
  by (auto simp: grows_def value_of_def nth_append split: ir_value.splits if_splits)

lemma core_simps:
  "core m = core m' \<longleftrightarrow> mc_mem m = mc_mem m' \<and> mc_args m = mc_args m' \<and> mc_frames m = mc_frames m'"
  by (cases m; cases m') (auto simp: core_def)

lemma value_of_pushed: "length (mc_vals m) = n \<Longrightarrow> value_of E (push_val x m) (V_instr n) = Inr x"
  by (auto simp: value_of_def)

lemma reaches_entry: "reaches E [] (entry_state args mem) (entry_state args mem)"
  by (simp add: reaches_def exec_block_def entry_state_def)

lemma reaches_insert:
  assumes "reaches E b m0 m" "exec_instr E i m = Inr (push_val x m1)" "mc_vals m1 = mc_vals m"
  shows "reaches E (b @ [i]) m0 (push_val x m1)"
  using assms by (simp add: reaches_def exec_block_def for_each_append)

text \<open>Each instruction the builder inserts: its value in the new state.\<close>

lemma reaches_gep:
  assumes "reaches E b m0 m" "value_of E m v = Inr a" "gep_of (unat n * type_store_size (ee_layout E) T) a = Inr r"
  shows "reaches E (b @ [I_gep T v n]) m0 (push_val r m) \<and> value_of E (push_val r m) (V_instr (length b)) = Inr r"
  using reaches_insert [OF assms(1), of "I_gep T v n" r m] assms by (simp add: reaches_def value_of_pushed)

lemma reaches_load:
  assumes "reaches E b m0 m" "value_of E m v = Inr a" "load_of m (type_store_size (ee_layout E) T) a = Inr bs"
  shows "reaches E (b @ [I_load T v k]) m0 (push_val (R_bytes bs) m) \<and>
    value_of E (push_val (R_bytes bs) m) (V_instr (length b)) = Inr (R_bytes bs)"
  using reaches_insert [OF assms(1), of "I_load T v k" "R_bytes bs" m] assms by (simp add: reaches_def value_of_pushed)

text \<open>A mark on a load changes nothing.\<close>

lemma for_each_update:
  assumes "k < length xs \<Longrightarrow> f x = f (xs ! k)"
  shows "for_each f (xs[k := x]) s = for_each f xs s"
  using assms
proof (induction xs arbitrary: k s)
  case (Cons y ys)
  then show ?case by (cases k) simp_all
qed simp

lemma reaches_mark [simp]: "reaches E (mark_base v b) m0 m \<longleftrightarrow> reaches E b m0 m"
proof -
  have "exec_instr E (I_load T p True) = exec_instr E (I_load T p q)" for T p q by (rule ext) simp
  then show ?thesis
    by (auto simp: mark_base_def reaches_def exec_block_def for_each_update split: ir_value.split ir_instr.split)
qed

subsection \<open>The tables\<close>

text \<open>A table holds, for every index, the run-time value that \<open>spec\<close> gives, and nothing where it gives none.\<close>

definition table_ok :: "exec_env \<Rightarrow> machine \<Rightarrow> (nat \<Rightarrow> ir_val option) \<Rightarrow> ir_value option list \<Rightarrow> bool" where
  "table_ok E m spec vals \<longleftrightarrow>
     (\<forall>k<length vals. case vals ! k of
        None \<Rightarrow> spec k = None
      | Some v \<Rightarrow> \<exists>x. spec k = Some x \<and> value_of E m v = Inr x)"

lemma table_ok_grows: "table_ok E m spec vals \<Longrightarrow> grows m m' \<Longrightarrow> table_ok E m' spec vals"
  unfolding table_ok_def by (fastforce split: option.splits dest: grows_value)

lemma emit_table:
  assumes b: "reaches E b m0 m" "core m = c 0"
    and step: "\<And>k b m. k < n \<Longrightarrow> reaches E b m0 m \<Longrightarrow> core m = c k \<Longrightarrow>
      \<exists>o' b' m'. (\<forall>vals. f k (vals, b) = (vals @ [o'], b')) \<and> reaches E b' m0 m' \<and> grows m m' \<and> core m' = c (Suc k) \<and>
        (case o' of None \<Rightarrow> spec k = None | Some v \<Rightarrow> \<exists>x. spec k = Some x \<and> value_of E m' v = Inr x)"
  shows "\<exists>vals b' m'. fold f [0..<n] ([], b) = (vals, b') \<and> reaches E b' m0 m' \<and> grows m m' \<and> core m' = c n \<and>
    length vals = n \<and> table_ok E m' spec vals"
  using step
proof (induction n)
  case 0
  then show ?case using b by (auto simp: table_ok_def)
next
  case (Suc n)
  have "\<exists>vals b' m'. fold f [0..<n] ([], b) = (vals, b') \<and> reaches E b' m0 m' \<and> grows m m' \<and> core m' = c n \<and>
    length vals = n \<and> table_ok E m' spec vals" by (rule Suc.IH) (use Suc.prems less_SucI in blast)
  then obtain vals b1 m1 where r: "fold f [0..<n] ([], b) = (vals, b1)" "reaches E b1 m0 m1" "grows m m1" "core m1 = c n"
    "length vals = n" "table_ok E m1 spec vals" by blast
  obtain o' b' m' where s: "\<forall>vals. f n (vals, b1) = (vals @ [o'], b')" "reaches E b' m0 m'" "grows m1 m'" "core m' = c (Suc n)"
    "case o' of None \<Rightarrow> spec n = None | Some v \<Rightarrow> \<exists>x. spec n = Some x \<and> value_of E m' v = Inr x"
    using Suc.prems [OF lessI r(2,4)] by blast
  have "table_ok E m' spec (vals @ [o'])"
    using table_ok_grows [OF r(6) s(3)] s(5) r(5) by (auto simp: table_ok_def less_Suc_eq nth_append)
  then show ?case using r(1,5) s grows_trans [OF r(3) s(3)] by (auto intro!: exI [of _ m'])
qed

text \<open>The layout the code assumes: pointers of eight bytes and integers of whole bytes.\<close>

definition layout_64 :: "data_layout \<Rightarrow> bool" where
  "layout_64 dl \<longleftrightarrow> type_store_size dl Pointer_type = 8 \<and> (\<forall>n. type_store_size dl (Integer_type (n * 8)) = n)"

lemma layout_64D:
  assumes "layout_64 dl"
  shows "type_store_size dl Pointer_type = 8" "type_store_size dl (Integer_type (n * 8)) = n" "type_store_size dl (Integer_type 8) = 1"
  using assms spec [of "\<lambda>n. type_store_size dl (Integer_type (n * 8)) = n" 1] by (simp_all add: layout_64_def)

text \<open>\<open>ready\<close>: the state between two statements of the wrapper, with the argument buffer as first parameter.\<close>

definition host_env :: "exec_env \<Rightarrow> bool" where
  "host_env E \<longleftrightarrow> layout_64 (ee_layout E) \<and> ee_params E \<noteq> [] \<and> hd (ee_params E) = R_args 0"

lemma value_of_args: "host_env E \<Longrightarrow> value_of E m (V_param 0) = Inr (R_args 0)"
  by (cases "ee_params E") (simp_all add: host_env_def value_of_def)

lemma unat_index: "8 * k < 2 ^ 64 \<Longrightarrow> unat (word_of_nat k :: 64 word) = k"
  by (simp add: unsigned_of_nat take_bit_nat_eq_self_iff)

lemma load_arg_ok:
  assumes E: "host_env E" and b: "reaches E b m0 m" and T: "ts ! k = Some T" and k: "8 * k < 2 ^ 64"
    and s: "slot_bytes (ee_layout E) packed offs ts (mc_args m) (mc_mem m) k = Inr bs"
  shows "\<exists>v b' m'. load_arg packed offs k T b = (v, b') \<and> reaches E b' m0 m' \<and> grows m m' \<and> core m' = core m \<and>
    value_of E m' v = Inr (R_bytes bs)"
proof (cases packed)
  case True
  let ?m1 = "push_val (R_args (unat (offs ! k))) m"
  have g: "reaches E (b @ [I_gep (Integer_type 8) (V_param 0) (offs ! k)]) m0 ?m1 \<and> value_of E ?m1 (V_instr (length b)) = Inr (R_args (unat (offs ! k)))"
    using E by (intro reaches_gep [OF b value_of_args [OF E]]) (simp add: host_env_def layout_64D)
  have "load_of ?m1 (type_store_size (ee_layout E) T) (R_args (unat (offs ! k))) = Inr bs"
    using s T True by (simp add: slot_bytes_def)
  from reaches_load [OF conjunct1 [OF g] conjunct2 [OF g] this, of False] True
  show ?thesis
    by (auto simp: load_arg_def insert_instr_def grows_def intro!: exI [of _ "push_val (R_bytes bs) ?m1"])
next
  case False
  obtain p where p: "load_at (8 * k) 8 (mc_args m) = Inr p" "deref (mc_mem m) (type_store_size (ee_layout E) T) p = Inr bs"
    using s T False by (auto simp: slot_bytes_def bind_result_eq_Inr)
  let ?m1 = "push_val (R_args (8 * k)) m" let ?m2 = "push_val (R_bytes p) ?m1"
  have g: "reaches E (b @ [I_gep Pointer_type (V_param 0) (word_of_nat k)]) m0 ?m1 \<and> value_of E ?m1 (V_instr (length b)) = Inr (R_args (8 * k))"
    using E k by (intro reaches_gep [OF b value_of_args [OF E]]) (simp add: host_env_def layout_64D unat_index)
  have "load_of ?m1 (type_store_size (ee_layout E) Pointer_type) (R_args (8 * k)) = Inr p"
    using p E by (simp add: host_env_def layout_64D)
  note l = reaches_load [OF conjunct1 [OF g] conjunct2 [OF g] this, of False]
  have "load_of ?m2 (type_store_size (ee_layout E) T) (R_bytes p) = Inr bs" using p by simp
  from reaches_load [OF conjunct1 [OF l] conjunct2 [OF l] this, of False] False
  show ?thesis
    by (auto simp: load_arg_def emit_load_arg_def insert_instr_def grows_def intro!: exI [of _ "push_val (R_bytes bs) ?m2"])
qed

definition slot_spec ::
  "data_layout \<Rightarrow> bool \<Rightarrow> size_t list \<Rightarrow> ir_type option list \<Rightarrow> byte list \<Rightarrow> memory \<Rightarrow> nat \<Rightarrow> ir_val option" where
  "slot_spec dl packed offs ts args mem k =
     (case slot_bytes dl packed offs ts args mem k of Inl _ \<Rightarrow> None | Inr bs \<Rightarrow> Some (R_bytes bs))"

definition buf_spec :: "bool \<Rightarrow> nat \<Rightarrow> ir_val option" where
  "buf_spec leaf i = (if leaf then Some (R_frame i 0) else None)"

definition hoist_spec :: "data_layout \<Rightarrow> bool \<Rightarrow> size_t list \<Rightarrow> dedup \<Rightarrow> byte list \<Rightarrow> nat \<Rightarrow> ir_val option" where
  "hoist_spec dl leaf offs d args k =
     (case (if leaf then hoist_type d k else None) of
        None \<Rightarrow> None
      | Some T \<Rightarrow> (case load_at (unat (offs ! k)) (type_store_size dl T) args of Inl _ \<Rightarrow> None | Inr bs \<Rightarrow> Some (R_bytes bs)))"

lemma emit_slot_values_ok:
  assumes E: "host_env E" and b: "reaches E b m0 m" and N: "8 * N < 2 ^ 64"
    and s: "\<And>k. k < N \<Longrightarrow> ts ! k \<noteq> None \<Longrightarrow> \<exists>bs. slot_bytes (ee_layout E) packed offs ts (mc_args m) (mc_mem m) k = Inr bs"
  shows "\<exists>vals b' m'. fold (emit_slot_value packed offs ts) [0..<N] ([], b) = (vals, b') \<and> reaches E b' m0 m' \<and> grows m m' \<and>
    core m' = core m \<and> length vals = N \<and> table_ok E m' (slot_spec (ee_layout E) packed offs ts (mc_args m) (mc_mem m)) vals"
proof (rule emit_table [OF b, where c = "\<lambda>_. core m"])
  fix k b1 m1 assume k: "k < N" and r: "reaches E b1 m0 m1" and c: "core m1 = core m"
  show "\<exists>o' b' m'. (\<forall>vals. emit_slot_value packed offs ts k (vals, b1) = (vals @ [o'], b')) \<and> reaches E b' m0 m' \<and> grows m1 m' \<and>
    core m' = core m \<and>
    (case o' of None \<Rightarrow> slot_spec (ee_layout E) packed offs ts (mc_args m) (mc_mem m) k = None
     | Some v \<Rightarrow> \<exists>x. slot_spec (ee_layout E) packed offs ts (mc_args m) (mc_mem m) k = Some x \<and> value_of E m' v = Inr x)"
  proof (cases "ts ! k")
    case None
    then show ?thesis using r c by (auto simp: emit_slot_value_def slot_spec_def slot_bytes_def)
  next
    case (Some T)
    obtain bs where bs: "slot_bytes (ee_layout E) packed offs ts (mc_args m) (mc_mem m) k = Inr bs" using s [OF k] Some by auto
    have "mc_args m1 = mc_args m" "mc_mem m1 = mc_mem m" using c by (simp_all add: core_simps)
    then obtain v b' m' where l: "load_arg packed offs k T b1 = (v, b')" "reaches E b' m0 m'" "grows m1 m'" "core m' = core m1"
      "value_of E m' v = Inr (R_bytes bs)"
      using load_arg_ok [OF E r Some, of packed offs bs] bs k N by fastforce
    then show ?thesis
      using Some bs c
      by (intro exI [of _ "Some v"] exI [of _ "if T = Pointer_type then mark_base v b' else b'"] exI [of _ m'])
        (simp add: emit_slot_value_def slot_spec_def)
  qed
qed simp

lemma emit_recon_bufs_ok:
  assumes b: "reaches E b m0 m" and m: "mc_frames m = []"
  shows "\<exists>vals b' m'. fold (emit_recon_buf leaf ins) [0..<length ins] ([], b) = (vals, b') \<and> reaches E b' m0 m' \<and> grows m m' \<and>
    core m' = core (m\<lparr>mc_frames := if leaf then map (fresh_frame E ins) [0..<length ins] else []\<rparr>) \<and>
    length vals = length ins \<and> table_ok E m' (buf_spec leaf) vals"
proof (rule emit_table [OF b, where c = "\<lambda>i. core (m\<lparr>mc_frames := if leaf then map (fresh_frame E ins) [0..<i] else []\<rparr>)"])
  show "core m = core (m\<lparr>mc_frames := if leaf then map (fresh_frame E ins) [0..<0] else []\<rparr>)" using m by (simp add: core_def)
  fix i b1 m1 assume r: "reaches E b1 m0 m1" and c: "core m1 = core (m\<lparr>mc_frames := if leaf then map (fresh_frame E ins) [0..<i] else []\<rparr>)"
  show "\<exists>o' b' m'. (\<forall>vals. emit_recon_buf leaf ins i (vals, b1) = (vals @ [o'], b')) \<and> reaches E b' m0 m' \<and> grows m1 m' \<and>
    core m' = core (m\<lparr>mc_frames := if leaf then map (fresh_frame E ins) [0..<Suc i] else []\<rparr>) \<and>
    (case o' of None \<Rightarrow> buf_spec leaf i = None | Some v \<Rightarrow> \<exists>x. buf_spec leaf i = Some x \<and> value_of E m' v = Inr x)"
  proof (cases leaf)
    case False
    then show ?thesis using r c by (auto simp: emit_recon_buf_def buf_spec_def intro!: exI [of _ m1])
  next
    case True
    have f: "mc_frames m1 = map (fresh_frame E ins) [0..<i]" using c True by (simp add: core_simps)
    let ?m2 = "m1\<lparr>mc_frames := mc_frames m1 @ [fresh_frame E ins i]\<rparr>"
    have e: "exec_instr E (I_alloca (buf_size (ins ! i))) m1 = Inr (push_val (R_frame i 0) ?m2)"
      by (simp add: f fresh_frame_def)
    have "reaches E (b1 @ [I_alloca (buf_size (ins ! i))]) m0 (push_val (R_frame i 0) ?m2)"
      by (rule reaches_insert [OF r e]) simp
    moreover have "value_of E (push_val (R_frame i 0) ?m2) (V_instr (length b1)) = Inr (R_frame i 0)"
      using r by (simp add: value_of_pushed reaches_def)
    moreover have "core ?m2 = core (m\<lparr>mc_frames := map (fresh_frame E ins) [0..<Suc i]\<rparr>)" using c True by (simp add: core_simps f)
    ultimately show ?thesis using True
      by (intro exI [of _ "Some (V_instr (length b1))"] exI [of _ "b1 @ [I_alloca (buf_size (ins ! i))]"] exI [of _ "push_val (R_frame i 0) ?m2"])
        (simp add: emit_recon_buf_def insert_instr_def buf_spec_def grows_def)
  qed
qed

lemma emit_slot_hoists_ok:
  assumes E: "host_env E" and b: "reaches E b m0 m"
    and s: "\<And>k T. leaf \<Longrightarrow> k < N \<Longrightarrow> hoist_type d k = Some T \<Longrightarrow>
      \<exists>bs. load_at (unat (offs ! k)) (type_store_size (ee_layout E) T) (mc_args m) = Inr bs"
  shows "\<exists>vals b' m'. fold (emit_slot_hoist leaf offs d) [0..<N] ([], b) = (vals, b') \<and> reaches E b' m0 m' \<and> grows m m' \<and>
    core m' = core m \<and> length vals = N \<and> table_ok E m' (hoist_spec (ee_layout E) leaf offs d (mc_args m)) vals"
proof (rule emit_table [OF b, where c = "\<lambda>_. core m"])
  fix k b1 m1 assume k: "k < N" and r: "reaches E b1 m0 m1" and c: "core m1 = core m"
  show "\<exists>o' b' m'. (\<forall>vals. emit_slot_hoist leaf offs d k (vals, b1) = (vals @ [o'], b')) \<and> reaches E b' m0 m' \<and> grows m1 m' \<and>
    core m' = core m \<and>
    (case o' of None \<Rightarrow> hoist_spec (ee_layout E) leaf offs d (mc_args m) k = None
     | Some v \<Rightarrow> \<exists>x. hoist_spec (ee_layout E) leaf offs d (mc_args m) k = Some x \<and> value_of E m' v = Inr x)"
  proof (cases "if leaf then hoist_type d k else None")
    case None
    then show ?thesis using r c by (auto simp: emit_slot_hoist_def hoist_spec_def)
  next
    case (Some T)
    then have l: leaf and T: "hoist_type d k = Some T" by (simp_all split: if_splits)
    obtain bs where bs: "load_at (unat (offs ! k)) (type_store_size (ee_layout E) T) (mc_args m) = Inr bs" using s [OF l k T] by blast
    let ?m1 = "push_val (R_args (unat (offs ! k))) m1" let ?m2 = "push_val (R_bytes bs) ?m1"
    have args: "mc_args m1 = mc_args m" using c by (simp add: core_simps)
    have g: "reaches E (b1 @ [I_gep (Integer_type 8) (V_param 0) (offs ! k)]) m0 ?m1 \<and> value_of E ?m1 (V_instr (length b1)) = Inr (R_args (unat (offs ! k)))"
      using E by (intro reaches_gep [OF r value_of_args [OF E]]) (simp add: host_env_def layout_64D)
    have "load_of ?m1 (type_store_size (ee_layout E) T) (R_args (unat (offs ! k))) = Inr bs" using bs args by simp
    note ld = reaches_load [OF conjunct1 [OF g] conjunct2 [OF g] this, of False]
    let ?b2 = "b1 @ [I_gep (Integer_type 8) (V_param 0) (offs ! k)] @ [I_load T (V_instr (length b1)) False]"
    let ?v = "V_instr (Suc (length b1))"
    show ?thesis using ld l T bs c
      by (intro exI [of _ "Some ?v"] exI [of _ "if unique_slot_is_ref d ! k then mark_base ?v ?b2 else ?b2"] exI [of _ ?m2])
        (simp add: emit_slot_hoist_def insert_instr_def hoist_spec_def grows_def)
  qed
qed simp

subsection \<open>The calls\<close>

text \<open>A call pushes no value that is used, and changes data memory only.\<close>

lemma reaches_call:
  assumes b: "reaches E b m0 m" and v: "collect (value_of E m) vs = Inr xs" "actual_of m xs = Inr a"
  shows "reaches E (b @ [I_call name vs]) m0 (push_val R_none (m\<lparr>mc_mem := ee_kernel E name a (mc_mem m)\<rparr>))"
  by (rule reaches_insert [OF b]) (simp_all add: v)

lemma collect_map_Inr: "(\<And>x. x \<in> set xs \<Longrightarrow> f x = Inr (g x)) \<Longrightarrow> collect f xs = Inr (map g xs)"
  by (induction xs) simp_all

lemma actual_of_bytes: "actual_of m (map R_bytes bss) = Inr (Actual_values bss)"
proof -
  have "collect bytes_of (map R_bytes bss) = Inr bss" by (induction bss) simp_all
  then show ?thesis by (induction m "map R_bytes bss" rule: actual_of.induct) auto
qed

lemma hoist_type_iff: "hoist_type d k = None \<longleftrightarrow> \<not> slot_hoisted d k"
  by (simp add: hoist_type_def slot_hoisted_def)

text \<open>One copy of a rebuilt buffer does \<open>recon_step\<close> on the frame of the input.\<close>

lemma emit_recon_copy_ok:
  assumes E: "host_env E" and b: "reaches E b m0 m" and i: "i < length (mc_frames m)"
    and h: "table_ok E m (hoist_spec (ee_layout E) True offs d (mc_args m)) hoist" "k < length hoist"
    and v: "value_of E m recon = Inr (R_frame i 0)"
    and s: "recon_step (mc_args m) offs (recon_copy_of d p k) (mc_frames m ! i) = Inr r"
  shows "\<exists>m'. reaches E (emit_recon_copy offs hoist recon p k b) m0 m' \<and> grows m m' \<and>
    core m' = core (m\<lparr>mc_frames := (mc_frames m)[i := r]\<rparr>)"
proof -
  let ?rc = "recon_copy_of d p k" and ?m1 = "push_val (R_frame i (unat (poffset p))) m"
  obtain bs where bs: "load_at (unat (offs ! k)) (unat (rc_bytes ?rc)) (mc_args m) = Inr bs"
    "store_at (unat (poffset p)) bs (mc_frames m ! i) = Inr r"
    using s by (auto simp: recon_step_def bind_result_eq_Inr recon_copy_of_def)
  have g: "reaches E (b @ [I_gep (Integer_type 8) recon (poffset p)]) m0 ?m1 \<and>
      value_of E ?m1 (V_instr (length b)) = Inr (R_frame i (unat (poffset p)))"
    using E by (intro reaches_gep [OF b v]) (simp add: host_env_def layout_64D)
  let ?m3 = "\<lambda>m. m\<lparr>mc_frames := (mc_frames m)[i := r]\<rparr>"
  show ?thesis
  proof (cases "hoist ! k")
    case (Some w)
    then obtain x where x: "hoist_spec (ee_layout E) True offs d (mc_args m) k = Some x" "value_of E m w = Inr x"
      using h by (force simp: table_ok_def)
    have "x = R_bytes bs"
      using x(1) bs(1) E
      by (auto simp: hoist_spec_def hoist_type_def slot_hoisted_def recon_copy_of_def host_env_def layout_64D split: if_splits sum.splits)
    then have "value_of E ?m1 w = Inr (R_bytes bs)" using grows_value [OF grows_push x(2)] by blast
    then have "exec_instr E (I_store w (V_instr (length b))) ?m1 = Inr (push_val R_none (?m3 ?m1))"
      using g bs(2) by simp
    from reaches_insert [OF conjunct1 [OF g] this] Some show ?thesis
      by (intro exI [of _ "push_val R_none (?m3 ?m1)"]) (simp add: emit_recon_copy_def insert_instr_def grows_def core_simps)
  next
    case None
    then have "hoist_spec (ee_layout E) True offs d (mc_args m) k = None" using h by (force simp: table_ok_def)
    then have nh: "\<not> slot_hoisted d k"
      using bs(1) E
      by (auto simp: hoist_spec_def hoist_type_def slot_hoisted_def recon_copy_of_def host_env_def layout_64D split: if_splits sum.splits)
    let ?m2 = "push_val (R_args (unat (offs ! k))) ?m1"
    have g2: "reaches E (b @ [I_gep (Integer_type 8) recon (poffset p)] @ [I_gep (Integer_type 8) (V_param 0) (offs ! k)]) m0 ?m2 \<and>
        value_of E ?m2 (V_instr (Suc (length b))) = Inr (R_args (unat (offs ! k)))"
      using reaches_gep [OF conjunct1 [OF g] value_of_args [OF E], of "offs ! k" "Integer_type 8" "R_args (unat (offs ! k))"] E
      by (simp add: host_env_def layout_64D)
    have "value_of E ?m2 (V_instr (length b)) = Inr (R_frame i (unat (poffset p)))"
      using g grows_value [OF grows_push] by blast
    then have "exec_instr E (I_memcpy (V_instr (length b)) (V_instr (Suc (length b))) (psize p)) ?m2 = Inr (push_val R_none (?m3 ?m2))"
      using g2 bs nh by (simp add: recon_copy_of_def)
    from reaches_insert [OF conjunct1 [OF g2] this] None show ?thesis
      by (intro exI [of _ "push_val R_none (?m3 ?m2)"]) (simp add: emit_recon_copy_def insert_instr_def grows_def core_simps)
  qed
qed

lemma emit_recon_copies_ok:
  assumes E: "host_env E" and b: "reaches E b m0 m" and i: "i < length (mc_frames m)"
    and h: "table_ok E m (hoist_spec (ee_layout E) True offs d (mc_args m)) hoist" "\<forall>j\<in>set js. row ! j < length hoist"
    and v: "value_of E m recon = Inr (R_frame i 0)"
    and s: "run_recon (mc_args m) offs (map (\<lambda>j. recon_copy_of d (ps ! j) (row ! j)) js) (mc_frames m ! i) = Inr r"
  shows "\<exists>m'. reaches E (fold (\<lambda>j. emit_recon_copy offs hoist recon (ps ! j) (row ! j)) js b) m0 m' \<and> grows m m' \<and>
    core m' = core (m\<lparr>mc_frames := (mc_frames m)[i := r]\<rparr>)"
  using b i h v s
proof (induction js arbitrary: b m)
  case Nil
  then show ?case by (auto simp: run_recon_def intro!: exI [of _ m])
next
  case (Cons j js)
  obtain r1 where r1: "recon_step (mc_args m) offs (recon_copy_of d (ps ! j) (row ! j)) (mc_frames m ! i) = Inr r1"
    "run_recon (mc_args m) offs (map (\<lambda>j. recon_copy_of d (ps ! j) (row ! j)) js) r1 = Inr r"
    using Cons.prems(6) by (auto simp: run_recon_def bind_result_eq_Inr)
  have "row ! j < length hoist" using Cons.prems(4) by simp
  from emit_recon_copy_ok [OF E Cons.prems(1,2,3) this Cons.prems(5) r1(1)]
  obtain m1 where m1: "reaches E (emit_recon_copy offs hoist recon (ps ! j) (row ! j) b) m0 m1" "grows m m1"
    "core m1 = core (m\<lparr>mc_frames := (mc_frames m)[i := r1]\<rparr>)" by blast
  have c: "mc_args m1 = mc_args m" "mc_frames m1 = (mc_frames m)[i := r1]" "mc_mem m1 = mc_mem m" using m1(3) by (simp_all add: core_simps)
  have "\<exists>m'. reaches E (fold (\<lambda>j. emit_recon_copy offs hoist recon (ps ! j) (row ! j)) js (emit_recon_copy offs hoist recon (ps ! j) (row ! j) b)) m0 m' \<and>
      grows m1 m' \<and> core m' = core (m1\<lparr>mc_frames := (mc_frames m1)[i := r]\<rparr>)"
  proof (rule Cons.IH [OF m1(1)])
    show "i < length (mc_frames m1)" using Cons.prems(2) c by simp
    show "table_ok E m1 (hoist_spec (ee_layout E) True offs d (mc_args m1)) hoist"
      using table_ok_grows [OF Cons.prems(3) m1(2)] c by simp
    show "\<forall>j\<in>set js. row ! j < length hoist" using Cons.prems(4) by simp
    show "value_of E m1 recon = Inr (R_frame i 0)" by (rule grows_value [OF m1(2) Cons.prems(5)])
    show "run_recon (mc_args m1) offs (map (\<lambda>j. recon_copy_of d (ps ! j) (row ! j)) js) (mc_frames m1 ! i) = Inr r"
      using r1(2) c Cons.prems(2) by simp
  qed
  then show ?case using grows_trans [OF m1(2)] c by (auto simp: core_simps)
qed

lemma run_recon_length: "run_recon buf offs cs r = Inr r' \<Longrightarrow> length r' = length r"
proof (induction cs arbitrary: r)
  case (Cons c cs)
  then show ?case by (auto simp: run_recon_def recon_step_def bind_result_eq_Inr store_at_def min_def split: if_splits)
qed (simp add: run_recon_def)

lemma collect_Inr_nth: "length ys = length xs \<Longrightarrow> (\<And>j. j < length xs \<Longrightarrow> f (xs ! j) = Inr (ys ! j)) \<Longrightarrow> collect f xs = Inr ys"
proof (induction xs arbitrary: ys)
  case (Cons x xs)
  then obtain y zs where ys: "ys = y # zs" by (cases ys) auto
  have "collect f xs = Inr zs" using Cons.prems Cons.IH [of zs] by (force simp: ys)
  then show ?case using Cons.prems(2) [of 0] by (simp add: ys)
qed simp

text \<open>\<open>rows_fit\<close>: the index tables have the shape of the inputs.\<close>

definition rows_fit :: "fuse_input list \<Rightarrow> dedup \<Rightarrow> bool" where
  "rows_fit ins d \<longleftrightarrow> length (index_map d) = length ins \<and> length (wrapper_block_start d) = length ins \<and>
     (\<forall>i<length ins. if is_wrapper (ins ! i) then wrapper_block_start d ! i \<le> length (unique_slots d)
        else length (index_map d ! i) = arity (ins ! i) \<and> (\<forall>k\<in>set (index_map d ! i). k < length (unique_slots d)))"

text \<open>The state before the call of input \<open>i\<close>: the tables are filled, its frame is fresh.\<close>

definition before_call ::
  "exec_env \<Rightarrow> bool \<Rightarrow> bool \<Rightarrow> size_t list \<Rightarrow> ir_type option list \<Rightarrow> dedup \<Rightarrow> fuse_input list \<Rightarrow> byte list \<Rightarrow> memory \<Rightarrow>
   ir_value option list \<times> ir_value option list \<times> ir_value option list \<Rightarrow> nat \<Rightarrow> machine \<Rightarrow> bool" where
  "before_call E leaf packed offs ts d ins args mem0 tabs i m \<longleftrightarrow>
     (case tabs of (vals, bufs, hoist) \<Rightarrow>
        length vals = length (unique_slots d) \<and> length bufs = length ins \<and> length hoist = length (unique_slots d) \<and>
        mc_args m = args \<and> table_ok E m (slot_spec (ee_layout E) packed offs ts args mem0) vals \<and>
        table_ok E m (buf_spec leaf) bufs \<and> table_ok E m (hoist_spec (ee_layout E) leaf offs d args) hoist \<and>
        (leaf \<longrightarrow> length (mc_frames m) = length ins \<and> (\<forall>k<length ins. i \<le> k \<longrightarrow> mc_frames m ! k = fresh_frame E ins k)))"

lemma before_call_next:
  assumes "before_call E leaf packed offs ts d ins args mem0 tabs i m" "grows m m'" "mc_args m' = mc_args m"
    "length (mc_frames m') = length (mc_frames m)" "\<And>k. i < k \<Longrightarrow> mc_frames m' ! k = mc_frames m ! k"
  shows "before_call E leaf packed offs ts d ins args mem0 tabs (Suc i) m'"
  using assms table_ok_grows [OF _ assms(2)] by (auto simp: before_call_def)

text \<open>\<open>call_done\<close>: the kernel of input \<open>i\<close> ran with the arguments \<open>a\<close>, and no frame but its own changed.\<close>

definition call_done :: "exec_env \<Rightarrow> fuse_input list \<Rightarrow> nat \<Rightarrow> kernel_actual \<Rightarrow> machine \<Rightarrow> machine \<Rightarrow> bool" where
  "call_done E ins i a m m' \<longleftrightarrow> grows m m' \<and> mc_args m' = mc_args m \<and> mc_mem m' = ee_kernel E (fused_name (ins ! i)) a (mc_mem m) \<and>
     length (mc_frames m') = length (mc_frames m) \<and> (\<forall>k. k \<noteq> i \<longrightarrow> mc_frames m' ! k = mc_frames m ! k)"

text \<open>One kernel call of each shape.\<close>

lemma emit_values_call:
  assumes rf: "rows_fit ins d" and i: "i < length ins" and kind: "\<not> is_wrapper (ins ! i)" "\<not> is_packed_leaf (ins ! i)"
    and b: "reaches E b m0 m" and inv: "before_call E leaf packed offs ts d ins args mem0 (vals, bufs, hoist) i m"
    and a: "call_actual (ee_layout E) packed offs ts args mem0 r (Call_values (index_map d ! i)) = Inr a"
  shows "\<exists>b' m'. emit_kernel_call offs vals bufs hoist d ins i b = Inr b' \<and> reaches E b' m0 m' \<and> call_done E ins i a m m'"
proof -
  let ?row = "index_map d ! i"
  obtain bss where bss: "collect (slot_bytes (ee_layout E) packed offs ts args mem0) ?row = Inr bss" "a = Actual_values bss"
    using a by (auto simp: call_actual_def bind_result_eq_Inr)
  note n = collect_Inr [OF bss(1)]
  have row: "length ?row = arity (ins ! i)" "\<And>j. j < length ?row \<Longrightarrow> ?row ! j < length (unique_slots d)"
    using rf i kind(1) by (auto simp: rows_fit_def)
  have vals: "length vals = length (unique_slots d)" "table_ok E m (slot_spec (ee_layout E) packed offs ts args mem0) vals"
    using inv by (simp_all add: before_call_def)
  have "\<exists>v. vals ! (?row ! j) = Some v \<and> value_of E m v = Inr (R_bytes (bss ! j))" if j: "j < length ?row" for j
  proof -
    have "slot_spec (ee_layout E) packed offs ts args mem0 (?row ! j) = Some (R_bytes (bss ! j))"
      using n j by (simp add: slot_spec_def)
    moreover have "?row ! j < length vals" using row(2) [OF j] vals(1) by simp
    ultimately show ?thesis using vals(2) by (fastforce simp: table_ok_def split: option.splits)
  qed
  then obtain g where g: "\<And>j. j < length ?row \<Longrightarrow> vals ! (?row ! j) = Some (g j) \<and> value_of E m (g j) = Inr (R_bytes (bss ! j))"
    by metis
  have vs: "collect (\<lambda>j. case vals ! (?row ! j) of None \<Rightarrow> Inl Undefined_behaviour | Some v \<Rightarrow> Inr v) [0..<arity (ins ! i)] =
      Inr (map g [0..<arity (ins ! i)])" using g row(1) by (intro collect_map_Inr) simp
  have "collect (value_of E m) (map g [0..<arity (ins ! i)]) = Inr (map R_bytes bss)"
    using g n row(1) by (intro collect_Inr_nth) simp_all
  from reaches_call [OF b this actual_of_bytes, of "fused_name (ins ! i)"] vs kind bss(2) show ?thesis
    by (intro exI [of _ "b @ [I_call (fused_name (ins ! i)) (map g [0..<arity (ins ! i)])]"]
        exI [of _ "push_val R_none (m\<lparr>mc_mem := ee_kernel E (fused_name (ins ! i)) a (mc_mem m)\<rparr>)"])
      (simp add: emit_kernel_call_def insert_instr_def call_done_def grows_def Let_def)
qed

lemma emit_slice_call:
  assumes E: "host_env E" and rf: "rows_fit ins d" and i: "i < length ins" and kind: "is_wrapper (ins ! i)"
    and N: "8 * length (unique_slots d) < 2 ^ 64" and b: "reaches E b m0 m"
    and inv: "before_call E leaf packed offs ts d ins args mem0 (vals, bufs, hoist) i m"
    and a: "call_actual (ee_layout E) packed offs ts args mem0 r (Call_slice (wrapper_block_start d ! i)) = Inr a"
  shows "\<exists>b' m'. emit_kernel_call offs vals bufs hoist d ins i b = Inr b' \<and> reaches E b' m0 m' \<and> call_done E ins i a m m'"
proof -
  let ?k = "wrapper_block_start d ! i" and ?m1 = "push_val (R_args (8 * (wrapper_block_start d ! i))) m"
  have "?k \<le> length (unique_slots d)" using rf i kind by (simp add: rows_fit_def)
  then have k: "8 * ?k < 2 ^ 64" using N by linarith
  have g: "reaches E (b @ [I_gep Pointer_type (V_param 0) (word_of_nat ?k)]) m0 ?m1 \<and> value_of E ?m1 (V_instr (length b)) = Inr (R_args (8 * ?k))"
    using E k by (intro reaches_gep [OF b value_of_args [OF E]]) (simp add: host_env_def layout_64D unat_index)
  have "mc_args m = args" using inv by (simp add: before_call_def)
  then have "actual_of ?m1 [R_args (8 * ?k)] = Inr a" using a by (simp add: call_actual_def)
  from reaches_call [OF conjunct1 [OF g] _ this, of "[V_instr (length b)]" "fused_name (ins ! i)"] g kind show ?thesis
    by (intro exI [of _ "b @ [I_gep Pointer_type (V_param 0) (word_of_nat ?k)] @ [I_call (fused_name (ins ! i)) [V_instr (length b)]]"]
        exI [of _ "push_val R_none (?m1\<lparr>mc_mem := ee_kernel E (fused_name (ins ! i)) a (mc_mem ?m1)\<rparr>)"])
      (simp add: emit_kernel_call_def slice_ptr_def insert_instr_def call_done_def grows_def Let_def)
qed

lemma emit_packed_call:
  assumes E: "host_env E" and rf: "rows_fit ins d" and i: "i < length ins" and kind: "\<not> is_wrapper (ins ! i)" "is_packed_leaf (ins ! i)"
    and b: "reaches E b m0 m" and inv: "before_call E True packed offs ts d ins args mem0 (vals, bufs, hoist) i m"
    and c: "kernel_call_of d (ins ! i, index_map d ! i, s) = Inr c"
    and a: "call_actual (ee_layout E) packed offs ts args mem0 (fresh_frame E ins i) c = Inr a"
  shows "\<exists>b' m'. emit_kernel_call offs vals bufs hoist d ins i b = Inr b' \<and> reaches E b' m0 m' \<and> call_done E ins i a m m'"
proof -
  let ?row = "index_map d ! i"
  obtain ps where ps: "in_params (ins ! i) = Some ps"
    "c = Call_packed (map (\<lambda>j. recon_copy_of d (ps ! j) (?row ! j)) [0..<arity (ins ! i)]) (buf_size (ins ! i))"
    using c kind by (auto simp: kernel_call_of_def split: option.splits)
  obtain r where r: "run_recon args offs (map (\<lambda>j. recon_copy_of d (ps ! j) (?row ! j)) [0..<arity (ins ! i)]) (fresh_frame E ins i) = Inr r"
    "a = Actual_packed r" using a by (auto simp: ps(2) call_actual_def bind_result_eq_Inr)
  have t: "length bufs = length ins" "length hoist = length (unique_slots d)" "mc_args m = args" "table_ok E m (buf_spec True) bufs"
    "table_ok E m (hoist_spec (ee_layout E) True offs d args) hoist" "length (mc_frames m) = length ins" "mc_frames m ! i = fresh_frame E ins i"
    using inv i by (simp_all add: before_call_def)
  obtain recon where recon: "bufs ! i = Some recon" "value_of E m recon = Inr (R_frame i 0)"
    using t(1,4) i by (auto simp: table_ok_def buf_spec_def split: option.splits)
  have "\<forall>j\<in>set [0..<arity (ins ! i)]. ?row ! j < length hoist" using rf i kind(1) t(2) by (simp add: rows_fit_def)
  then obtain m1 where m1: "reaches E (fold (\<lambda>j. emit_recon_copy offs hoist recon (ps ! j) (?row ! j)) [0..<arity (ins ! i)] b) m0 m1"
    "grows m m1" "core m1 = core (m\<lparr>mc_frames := (mc_frames m)[i := r]\<rparr>)"
    using emit_recon_copies_ok [OF E b, of i offs d hoist "[0..<arity (ins ! i)]" ?row recon ps r] t r(1) i recon(2) by auto
  have "length r = unat (buf_size (ins ! i))" using run_recon_length [OF r(1)] by (simp add: fresh_frame_def)
  moreover have f: "mc_frames m1 = (mc_frames m)[i := r]" "mc_mem m1 = mc_mem m" "mc_args m1 = mc_args m" using m1(3) by (simp_all add: core_simps)
  ultimately have act: "actual_of m1 [R_frame i 0, R_size (buf_size (ins ! i))] = Inr a"
    using i t(6) by (simp add: load_at_def r(2))
  have vs: "collect (value_of E m1) [recon, V_int (buf_size (ins ! i))] = Inr [R_frame i 0, R_size (buf_size (ins ! i))]"
    using grows_value [OF m1(2) recon(2)] by (simp add: value_of_def [of _ _ "V_int _"])
  let ?m2 = "push_val R_none (m1\<lparr>mc_mem := ee_kernel E (fused_name (ins ! i)) a (mc_mem m1)\<rparr>)"
  have "call_done E ins i a m ?m2" using m1(2) f by (auto simp: call_done_def grows_def)
  then show ?thesis using reaches_call [OF m1(1) vs act, of "fused_name (ins ! i)"] kind ps(1) recon(1)
    by (intro exI [of _ "fold (\<lambda>j. emit_recon_copy offs hoist recon (ps ! j) (?row ! j)) [0..<arity (ins ! i)] b @
          [I_call (fused_name (ins ! i)) [recon, V_int (buf_size (ins ! i))]]"] exI [of _ ?m2])
      (simp add: emit_kernel_call_def insert_instr_def Let_def)
qed

lemma emit_call_ok:
  assumes E: "host_env E" and rf: "rows_fit ins d" and i: "i < length ins" and N: "8 * length (unique_slots d) < 2 ^ 64"
    and b: "reaches E b m0 m" and leaf: "leaf = list_ex is_packed_leaf ins"
    and inv: "before_call E leaf packed offs ts d ins args mem0 (vals, bufs, hoist) i m"
    and c: "kernel_call_of d (ins ! i, index_map d ! i, wrapper_block_start d ! i) = Inr c"
    and a: "call_actual (ee_layout E) packed offs ts args mem0 (fresh_frame E ins i) c = Inr a"
  shows "\<exists>b' m'. emit_kernel_call offs vals bufs hoist d ins i b = Inr b' \<and> reaches E b' m0 m' \<and> call_done E ins i a m m'"
proof (cases "is_wrapper (ins ! i)")
  case True
  then have "c = Call_slice (wrapper_block_start d ! i)" using c by (simp add: kernel_call_of_def)
  then show ?thesis using emit_slice_call [OF E rf i True N b inv] a by blast
next
  case False
  show ?thesis
  proof (cases "is_packed_leaf (ins ! i)")
    case packed: True
    then have "leaf" using i leaf by (auto simp: list_ex_length)
    then show ?thesis using emit_packed_call [OF E rf i False packed b _ c a] inv by simp
  next
    case plain: False
    then have "c = Call_values (index_map d ! i)" using c False by (simp add: kernel_call_of_def)
    then show ?thesis using emit_values_call [OF rf i False plain b inv] a by blast
  qed
qed

text \<open>All calls, in the order of the inputs.\<close>

definition run_calls :: "exec_env \<Rightarrow> fuse_input list \<Rightarrow> kernel_actual list \<Rightarrow> nat list \<Rightarrow> memory \<Rightarrow> memory" where
  "run_calls E ins as is mem = fold (\<lambda>i. ee_kernel E (fused_name (ins ! i)) (as ! i)) is mem"

lemma emit_calls_ok:
  assumes E: "host_env E" and rf: "rows_fit ins d" and N: "8 * length (unique_slots d) < 2 ^ 64"
    and b: "reaches E b m0 m" and leaf: "leaf = list_ex is_packed_leaf ins"
    and inv: "before_call E leaf packed offs ts d ins args mem0 (vals, bufs, hoist) 0 m"
    and c: "\<And>i. i < length ins \<Longrightarrow> \<exists>c. kernel_call_of d (ins ! i, index_map d ! i, wrapper_block_start d ! i) = Inr c \<and>
      call_actual (ee_layout E) packed offs ts args mem0 (fresh_frame E ins i) c = Inr (as ! i)"
  shows "\<exists>b' m'. for_each (emit_kernel_call offs vals bufs hoist d ins) [0..<length ins] b = Inr b' \<and> reaches E b' m0 m' \<and>
    mc_args m' = args \<and> mc_mem m' = run_calls E ins as [0..<length ins] (mc_mem m)"
proof -
  let ?I = "\<lambda>n b. \<exists>m'. reaches E b m0 m' \<and> before_call E leaf packed offs ts d ins args mem0 (vals, bufs, hoist) n m' \<and>
    mc_mem m' = run_calls E ins as [0..<n] (mc_mem m)"
  have "\<exists>b'. for_each (emit_kernel_call offs vals bufs hoist d ins) [0..<length ins] b = Inr b' \<and> ?I (length [0..<length ins]) b'"
  proof (rule for_each_invariant [where I = ?I])
    show "?I 0 b" using b inv by (auto simp: run_calls_def)
    fix i b1 assume "i < length [0..<length ins]" and "?I i b1"
    then obtain m1 where i: "i < length ins" and m1: "reaches E b1 m0 m1"
      "before_call E leaf packed offs ts d ins args mem0 (vals, bufs, hoist) i m1" "mc_mem m1 = run_calls E ins as [0..<i] (mc_mem m)"
      by auto
    obtain b2 m2 where m2: "emit_kernel_call offs vals bufs hoist d ins i b1 = Inr b2" "reaches E b2 m0 m2" "call_done E ins i (as ! i) m1 m2"
      using emit_call_ok [OF E rf i N m1(1) leaf m1(2)] c [OF i] by blast
    have "before_call E leaf packed offs ts d ins args mem0 (vals, bufs, hoist) (Suc i) m2"
      using m2(3) by (intro before_call_next [OF m1(2)]) (auto simp: call_done_def)
    moreover have "mc_mem m2 = run_calls E ins as [0..<Suc i] (mc_mem m)" using m2(3) m1(3) by (simp add: call_done_def run_calls_def)
    ultimately show "\<exists>b'. emit_kernel_call offs vals bufs hoist d ins ([0..<length ins] ! i) b1 = Inr b' \<and> ?I (Suc i) b'"
      using m2(1,2) i by auto
  qed
  then show ?thesis by (auto simp: before_call_def)
qed

subsection \<open>The emitted wrapper\<close>

text \<open>
  The loads at the entry of the wrapper are in bounds: of every typed slot, and of every slot of the
  size of a register when the inputs are packed.
\<close>

definition entry_loads_ok ::
  "data_layout \<Rightarrow> bool \<Rightarrow> bool \<Rightarrow> size_t list \<Rightarrow> ir_type option list \<Rightarrow> dedup \<Rightarrow> byte list \<Rightarrow> memory \<Rightarrow> bool" where
  "entry_loads_ok dl leaf packed offs ts d args mem \<longleftrightarrow>
     (\<forall>k<length (unique_slots d).
        (ts ! k \<noteq> None \<longrightarrow> (\<exists>bs. slot_bytes dl packed offs ts args mem k = Inr bs)) \<and>
        (\<forall>T. leaf \<longrightarrow> hoist_type d k = Some T \<longrightarrow> (\<exists>bs. load_at (unat (offs ! k)) (type_store_size dl T) args = Inr bs)))"

lemma emit_host_wrapper_ok:
  assumes E: "host_env E" and rf: "rows_fit ins d" and N: "8 * length (unique_slots d) < 2 ^ 64"
    and loads: "entry_loads_ok (ee_layout E) (list_ex is_packed_leaf ins) packed offs ts d args mem"
    and c: "\<And>i. i < length ins \<Longrightarrow> \<exists>c. kernel_call_of d (ins ! i, index_map d ! i, wrapper_block_start d ! i) = Inr c \<and>
      call_actual (ee_layout E) packed offs ts args mem (fresh_frame E ins i) c = Inr (as ! i)"
  shows "\<exists>code m. emit_host_wrapper packed offs ts ins d = Inr code \<and> exec_block E code (entry_state args mem) = Inr m \<and>
    mc_args m = args \<and> mc_mem m = run_calls E ins as [0..<length ins] mem"
proof -
  let ?m0 = "entry_state args mem" and ?N = "length (unique_slots d)" and ?leaf = "list_ex is_packed_leaf ins"
  have e: "mc_args ?m0 = args" "mc_mem ?m0 = mem" "mc_frames ?m0 = []" by (simp_all add: entry_state_def)
  have typed: "\<exists>bs. slot_bytes (ee_layout E) packed offs ts (mc_args ?m0) (mc_mem ?m0) k = Inr bs" if "k < ?N" "ts ! k \<noteq> None" for k
    using loads that unfolding entry_loads_ok_def e by blast
  obtain vals b1 m1 where v: "fold (emit_slot_value packed offs ts) [0..<?N] ([], []) = (vals, b1)" "reaches E b1 ?m0 m1" "core m1 = core ?m0"
    "length vals = ?N" "table_ok E m1 (slot_spec (ee_layout E) packed offs ts args mem) vals"
    using emit_slot_values_ok [OF E reaches_entry [of E args mem] N typed] unfolding e by blast
  have m1: "mc_args m1 = args" "mc_mem m1 = mem" "mc_frames m1 = []" using v(3) e by (simp_all add: core_simps)
  obtain bufs b2 m2 where b: "fold (emit_recon_buf ?leaf ins) [0..<length ins] ([], b1) = (bufs, b2)" "reaches E b2 ?m0 m2" "grows m1 m2"
    "core m2 = core (m1\<lparr>mc_frames := if ?leaf then map (fresh_frame E ins) [0..<length ins] else []\<rparr>)"
    "length bufs = length ins" "table_ok E m2 (buf_spec ?leaf) bufs"
    using emit_recon_bufs_ok [OF v(2) m1(3)] by blast
  have m2: "mc_args m2 = args" "mc_mem m2 = mem" "?leaf \<Longrightarrow> mc_frames m2 = map (fresh_frame E ins) [0..<length ins]"
    using b(4) m1 by (simp_all add: core_simps)
  have hoisted: "\<exists>bs. load_at (unat (offs ! k)) (type_store_size (ee_layout E) T) (mc_args m2) = Inr bs"
    if "?leaf" "k < ?N" "hoist_type d k = Some T" for k T
    using loads that unfolding entry_loads_ok_def m2 by blast
  obtain hoist b3 m3 where h: "fold (emit_slot_hoist ?leaf offs d) [0..<?N] ([], b2) = (hoist, b3)" "reaches E b3 ?m0 m3" "grows m2 m3"
    "core m3 = core m2" "length hoist = ?N" "table_ok E m3 (hoist_spec (ee_layout E) ?leaf offs d args) hoist"
    using emit_slot_hoists_ok [OF E b(2) hoisted] unfolding m2 by blast
  have m3: "mc_args m3 = args" "mc_mem m3 = mem" "mc_frames m3 = mc_frames m2" using h(4) m2 by (simp_all add: core_simps)
  have "before_call E ?leaf packed offs ts d ins args mem (vals, bufs, hoist) 0 m3"
    using v(4,5) b(5,6) h(5,6) m3 m2(3) table_ok_grows [OF _ h(3)] table_ok_grows [OF _ grows_trans [OF b(3) h(3)]]
    by (simp add: before_call_def)
  from emit_calls_ok [OF E rf N h(2) refl this c] obtain b4 m4 where m4:
    "for_each (emit_kernel_call offs vals bufs hoist d ins) [0..<length ins] b3 = Inr b4" "reaches E b4 ?m0 m4" "mc_args m4 = args"
    "mc_mem m4 = run_calls E ins as [0..<length ins] mem" using m3(2) by auto
  have "reaches E (b4 @ [I_ret]) ?m0 (push_val R_none m4)" by (rule reaches_insert [OF m4(2)]) simp_all
  then show ?thesis using v(1) b(1) h(1) m4
    by (simp add: emit_host_wrapper_def insert_instr_def Let_def reaches_def)
qed

end
