(* ===== verification/Wrapper_Props.thy ===== *)
theory Wrapper_Props
  imports Wrapper_Exec Prog_Result
begin

text \<open>
  Running the fused wrapper is running the chain: the emitted block, on the argument buffer the
  fusion fills, calls every kernel of the chain once, in order, with the arguments the input had.
\<close>

subsection \<open>The tables of the compaction\<close>

lemma rows_fit_dedup: "rows_fit ins (dedup_all mem ins)"
  using dedup_all_inv [of mem ins] dedup_leaf(1) [of _ ins _ mem]
  by (auto simp: rows_fit_def dedup_inv_def row_ok_def in_set_conv_nth)

text \<open>Without sub-wrappers every shared slot has a key.\<close>

definition keyed :: "dedup \<Rightarrow> bool" where
  "keyed d \<longleftrightarrow> (\<forall>k<length (unique_slots d). \<exists>key. slot_to_index d key = Some k)"

definition keyed_inv :: "dedup \<Rightarrow> bool" where
  "keyed_inv d \<longleftrightarrow> keyed d \<and> (\<forall>key k. slot_to_index d key = Some k \<longrightarrow> k < length (unique_slots d))"

lemma keyed_slot:
  assumes "keyed_inv (fst dr)"
  shows "keyed_inv (fst (dedup_slot mem inp j dr))"
proof (cases "slot_to_index (fst dr) (slot_key mem inp j)")
  case None
  let ?d' = "fst (dedup_slot mem inp j dr)" and ?key = "slot_key mem inp j" and ?n = "length (unique_slots (fst dr))"
  have d': "slot_to_index ?d' = (slot_to_index (fst dr))(?key \<mapsto> ?n)" "length (unique_slots ?d') = Suc ?n"
    using None by (simp_all add: dedup_slot_def push_slot_def Let_def)
  have "\<exists>key. slot_to_index ?d' key = Some k" if "k < Suc ?n" for k
  proof (cases "k = ?n")
    case False
    then have "k < ?n" using that by simp
    then obtain key where "slot_to_index (fst dr) key = Some k" using assms unfolding keyed_inv_def keyed_def by blast
    then show ?thesis using None by (intro exI [of _ key]) (auto simp: d')
  qed (auto simp: d' intro!: exI [of _ ?key])
  moreover have "k < Suc ?n" if "slot_to_index ?d' key = Some k" for key k
    using that assms by (auto simp: d' keyed_inv_def less_SucI split: if_splits)
  ultimately show ?thesis by (simp add: keyed_inv_def keyed_def d'(2))
qed (use assms in \<open>simp add: dedup_slot_def\<close>)

lemma keyed_dedup:
  assumes "\<forall>inp\<in>set ins. \<not> is_wrapper inp"
  shows "keyed (dedup_all mem ins)"
proof -
  have row: "keyed_inv (fst (fold (dedup_slot mem inp) js dr))" if "keyed_inv (fst dr)" for inp js dr
    using that by (induction js arbitrary: dr) (simp_all add: keyed_slot)
  have "keyed_inv (dedup_all mem ins)"
    using assms
  proof (induction ins rule: rev_induct)
    case Nil
    show ?case by (simp add: dedup_all_def empty_dedup_def keyed_inv_def keyed_def)
  next
    case (snoc inp ins)
    then have "keyed_inv (fst (fold (dedup_slot mem inp) [0..<arity inp] (dedup_all mem ins, [])))"
      using row [of "(dedup_all mem ins, [])"] by simp
    then show ?case using snoc.prems by (simp add: dedup_all_def dedup_input_def split_beta keyed_inv_def keyed_def)
  qed
  then show ?thesis by (simp add: keyed_inv_def)
qed

text \<open>The slots of packed inputs have a size, and a reference has eight bytes.\<close>

lemma packed_slot_size:
  assumes ins: "list_all packed_input ins" and k: "k < length (unique_slots (dedup_all mem ins))"
  shows "unique_slot_size (dedup_all mem ins) ! k \<noteq> 0"
    "unique_slot_is_ref (dedup_all mem ins) ! k \<Longrightarrow> unique_slot_size (dedup_all mem ins) ! k = 8"
proof -
  have pk: "packed_input inp" if "inp \<in> set ins" for inp using ins that by (simp add: list_all_iff)
  obtain key where key: "slot_to_index (dedup_all mem ins) key = Some k"
    using keyed_dedup [of ins mem] pk k by (auto simp: keyed_def packed_input_def)
  have "slots_inv mem {inp \<in> set ins. \<not> is_wrapper inp} (dedup_all mem ins)"
    using dedup_all_inv [of mem ins] by (simp add: dedup_inv_def)
  then obtain inp l where r: "inp \<in> set ins" "l < arity inp" "unique_slot_size (dedup_all mem ins) ! k = slot_size inp l"
    "unique_slot_is_ref (dedup_all mem ins) ! k = slot_is_ref inp l"
    using key unfolding slots_inv_def by blast
  obtain ps where ps: "in_params inp = Some ps" using pk [OF r(1)] by (auto simp: packed_input_def split: option.splits)
  note p = packed_param [OF pk [OF r(1)] r(2) ps]
  show "unique_slot_size (dedup_all mem ins) ! k \<noteq> 0" using p(1-3) r(3) by (simp add: slot_size_def word_gt_0)
  show "unique_slot_size (dedup_all mem ins) ! k = 8" if "unique_slot_is_ref (dedup_all mem ins) ! k"
    using that p r(3,4) by (simp add: slot_size_def slot_is_ref_def)
qed

lemma packed_slot_types:
  assumes "list_all packed_input ins"
  shows "slot_types fty ins d = Inr (replicate (length (unique_slots d)) None)"
proof -
  have "slot_types_input fty ir s = Inr s" if "ir \<in> set (zip ins (index_map d))" for ir s
    using assms that by (cases ir) (auto simp: slot_types_input_def list_all_iff packed_input_def dest!: set_zip_leftD)
  then have "for_each (slot_types_input fty) (zip ins (index_map d)) s = for_each (\<lambda>_. Inr) (zip ins (index_map d)) s" for s
    by (rule for_each_cong)
  moreover have "for_each (\<lambda>_. Inr) xs s = Inr s" for xs :: "(fuse_input \<times> nat list) list" and s :: "ir_type option list"
    by (induction xs) simp_all
  ultimately show ?thesis by (simp add: slot_types_def)
qed

subsection \<open>Packed bodies\<close>

lemma packed_entry_loads:
  assumes ins: "list_all packed_input ins" and d: "d = dedup_all mem ins" and dl: "layout_64 dl"
    and es: "es = map (slot_extent True dl' d ts) [0..<length (unique_slots d)]"
    and lay: "layout_ok es offs n" and buf: "length buf = unat n" and ts: "ts = replicate (length (unique_slots d)) None"
  shows "entry_loads_ok dl leaf packed offs ts d buf rt"
  unfolding entry_loads_ok_def
proof (intro allI impI conjI)
  fix k assume k: "k < length (unique_slots d)"
  show "\<exists>bs. slot_bytes dl packed offs ts buf rt k = Inr bs" if "ts ! k \<noteq> None" using that k by (simp add: ts)
  fix T assume T: "hoist_type d k = Some T"
  note sz = packed_slot_size [OF ins k [unfolded d], folded d]
  have "type_store_size dl T = unat (unique_slot_size d ! k)"
    using T sz(2) layout_64D(1) [OF dl] layout_64D(2) [OF dl, of 1] layout_64D(2) [OF dl, of 2] layout_64D(2) [OF dl, of 4]
      layout_64D(2) [OF dl, of 8]
    by (auto simp: hoist_type_def split: if_splits)
  moreover have "unat (offs ! k) + unat (fst (es ! k)) \<le> unat n" using lay k es by (simp add: layout_ok_def)
  then have "unat (offs ! k) + unat (unique_slot_size d ! k) \<le> length buf"
    using k es buf sz(1) by (simp add: slot_extent_def)
  ultimately show "\<exists>bs. load_at (unat (offs ! k)) (type_store_size dl T) buf = Inr bs" by (simp add: load_at_def)
qed

text \<open>
  C9. The fused program of packed task bodies does what the chain did. The block emitted for the
  wrapper, run on the buffer the fusion filled, in any data memory and whatever the stack buffers
  hold, runs to its end without an access out of bounds, and its effect is the effect of the
  bodies, each called once, in the order of the chain, on a buffer in which every parameter has
  exactly the bytes of the argument recorded for it.
\<close>

theorem packed_wrapper_runs_chain:
  assumes ins: "list_all packed_input ins" and d: "d = dedup_all mem ins" and ts: "slot_types fty ins d = Inr ts"
    and es: "es = map (slot_extent True dl d ts) [0..<length (unique_slots d)]"
    and fits: "(\<Sum>e\<leftarrow>es. unat (fst e) + unat (snd e)) < 2 ^ 64" "8 * length (unique_slots d) < 2 ^ 64"
    and lay: "packed_layout es = (offs, n)" and E: "host_env E"
  shows "\<exists>code buf bs m. emit_host_wrapper True offs ts ins d = Inr code \<and>
    fill_packed mem (fill_size True dl d ts) offs n d = Inr buf \<and>
    exec_block E code (entry_state buf rt) = Inr m \<and> length bs = length ins \<and>
    mc_mem m = run_calls E ins (map Actual_packed bs) [0..<length ins] rt \<and>
    (\<forall>i<length ins. \<forall>j<arity (ins ! i). \<forall>p. param_of (ins ! i) j = Some p \<longrightarrow>
       take (unat (psize p)) (drop (unat (poffset p)) (bs ! i)) = read_bytes mem (slots (ins ! i) ! j) (unat (psize p)))"
proof -
  obtain buf where l: "layout_ok es offs n" "length buf = unat n" and buf: "fill_packed mem (fill_size True dl d ts) offs n d = Inr buf"
    and h: "\<And>k. k < length (unique_slots d) \<Longrightarrow> unique_slots d ! k \<noteq> 0 \<Longrightarrow> fill_size True dl d ts k \<noteq> 0 \<Longrightarrow>
       holds (unat (offs ! k)) (read_bytes mem (unique_slots d ! k) (fill_size True dl d ts k)) buf"
    using packed_fill [OF ins es [unfolded d] fits(1) lay] unfolding d by blast
  have "\<exists>r'. \<exists>cs. kernel_call_of d (ins ! i, index_map d ! i, wrapper_block_start d ! i) = Inr (Call_packed cs (buf_size (ins ! i))) \<and>
      run_recon buf offs cs (fresh_frame E ins i) = Inr r' \<and>
      (\<forall>j<arity (ins ! i). \<forall>p. param_of (ins ! i) j = Some p \<longrightarrow>
         take (unat (psize p)) (drop (unat (poffset p)) r') = read_bytes mem (slots (ins ! i) ! j) (unat (psize p)))" if "i < length ins" for i
    using packed_rebuild [OF ins that _ h [unfolded d], of "fresh_frame E ins i"] unfolding d by (auto simp: fresh_frame_def)
  then obtain g where g: "\<And>i. i < length ins \<Longrightarrow> \<exists>cs. kernel_call_of d (ins ! i, index_map d ! i, wrapper_block_start d ! i) =
        Inr (Call_packed cs (buf_size (ins ! i))) \<and> run_recon buf offs cs (fresh_frame E ins i) = Inr (g i) \<and>
      (\<forall>j<arity (ins ! i). \<forall>p. param_of (ins ! i) j = Some p \<longrightarrow>
         take (unat (psize p)) (drop (unat (poffset p)) (g i)) = read_bytes mem (slots (ins ! i) ! j) (unat (psize p)))" by metis
  let ?bs = "map g [0..<length ins]"
  have dl64: "layout_64 (ee_layout E)" using E by (simp add: host_env_def)
  have "ts = replicate (length (unique_slots d)) None" using ts packed_slot_types [OF ins] by simp
  note loads = packed_entry_loads [OF ins d dl64 es l this]
  have calls: "\<exists>c. kernel_call_of d (ins ! i, index_map d ! i, wrapper_block_start d ! i) = Inr c \<and>
      call_actual (ee_layout E) True offs ts buf rt (fresh_frame E ins i) c = Inr (map Actual_packed ?bs ! i)" if "i < length ins" for i
    using g [OF that] that by (auto simp: call_actual_def)
  obtain code m where cm: "emit_host_wrapper True offs ts ins d = Inr code" "exec_block E code (entry_state buf rt) = Inr m"
    "mc_mem m = run_calls E ins (map Actual_packed ?bs) [0..<length ins] rt"
    using emit_host_wrapper_ok [OF E rows_fit_dedup [of ins mem, folded d] fits(2) loads calls] by blast
  have "\<forall>i<length ins. \<forall>j<arity (ins ! i). \<forall>p. param_of (ins ! i) j = Some p \<longrightarrow>
       take (unat (psize p)) (drop (unat (poffset p)) (?bs ! i)) = read_bytes mem (slots (ins ! i) ! j) (unat (psize p))"
  proof (intro allI impI)
    fix i j p assume i: "i < length ins" and j: "j < arity (ins ! i)" "param_of (ins ! i) j = Some p"
    then show "take (unat (psize p)) (drop (unat (poffset p)) (?bs ! i)) = read_bytes mem (slots (ins ! i) ! j) (unat (psize p))"
      using g [OF i] by auto
  qed
  then show ?thesis using cm buf by (intro exI [of _ code] exI [of _ buf] exI [of _ ?bs] exI [of _ m]) simp
qed

subsection \<open>Variadic kernels and sub-wrappers\<close>

text \<open>The uses of typed slots, as pairs of a type and a slot: all uses of a slot have its type.\<close>

definition typed_uses :: "(string \<Rightarrow> fun_type) \<Rightarrow> fuse_input \<times> nat list \<Rightarrow> (ir_type \<times> nat) list" where
  "typed_uses fty ir =
     (if is_wrapper (fst ir) \<or> is_packed_leaf (fst ir) then []
      else map (\<lambda>j. (param_types (fty (fused_name (fst ir))) ! j, snd ir ! j)) [0..<arity (fst ir)])"

lemma slot_types_uses:
  "slot_types fty ins d =
     for_each (\<lambda>u. slot_type_step (fst u) (snd u)) (concat (map (typed_uses fty) (zip ins (index_map d)))) (replicate (length (unique_slots d)) None)"
proof -
  have "slot_types_input fty = (\<lambda>ir. for_each (\<lambda>u. slot_type_step (fst u) (snd u)) (typed_uses fty ir))"
    by (intro ext) (simp add: slot_types_input_def typed_uses_def for_each_map Let_def)
  then show ?thesis by (simp add: slot_types_def for_each_concat for_each_map)
qed

lemma typed_steps:
  assumes "for_each (\<lambda>u. slot_type_step (fst u) (snd u)) us ts0 = Inr ts" "\<forall>u\<in>set us. snd u < length ts0"
  shows "length ts = length ts0 \<and> (\<forall>u\<in>set us. ts ! snd u = Some (fst u)) \<and> (\<forall>k T. ts0 ! k = Some T \<longrightarrow> ts ! k = Some T) \<and>
    (\<forall>k<length ts0. \<forall>T. ts ! k = Some T \<longrightarrow> ts0 ! k = Some T \<or> (T, k) \<in> set us)"
  using assms
proof (induction us arbitrary: ts0)
  case (Cons u us)
  obtain T k where u: "u = (T, k)" by (cases u)
  obtain ts1 where ts1: "slot_type_step T k ts0 = Inr ts1" "for_each (\<lambda>u. slot_type_step (fst u) (snd u)) us ts1 = Inr ts"
    using Cons.prems(1) by (auto simp: u bind_result_eq_Inr)
  have k: "k < length ts0" using Cons.prems(2) by (simp add: u)
  have s: "length ts1 = length ts0" "ts1 ! k = Some T" "\<And>l U. ts0 ! l = Some U \<Longrightarrow> ts1 ! l = Some U"
    "\<And>l U. ts1 ! l = Some U \<Longrightarrow> ts0 ! l = Some U \<or> (l = k \<and> U = T)"
    using ts1(1) k by (auto simp: slot_type_step_def assert_that_def nth_list_update split: option.splits if_splits)
  show ?case using Cons.IH [OF ts1(2)] Cons.prems(2) s by (fastforce simp: u)
qed simp

lemma slot_types_ok:
  assumes rf: "rows_fit ins d" and ts: "slot_types fty ins d = Inr ts"
  shows "\<And>i j. i < length ins \<Longrightarrow> \<not> is_wrapper (ins ! i) \<Longrightarrow> \<not> is_packed_leaf (ins ! i) \<Longrightarrow> j < arity (ins ! i) \<Longrightarrow>
      ts ! (index_map d ! i ! j) = Some (param_types (fty (fused_name (ins ! i))) ! j)"
    "\<And>k T. k < length (unique_slots d) \<Longrightarrow> ts ! k = Some T \<Longrightarrow> \<exists>i<length ins. \<exists>j<arity (ins ! i). \<not> is_wrapper (ins ! i) \<and>
      \<not> is_packed_leaf (ins ! i) \<and> index_map d ! i ! j = k \<and> T = param_types (fty (fused_name (ins ! i))) ! j"
proof -
  let ?us = "concat (map (typed_uses fty) (zip ins (index_map d)))"
  have len: "length (index_map d) = length ins" using rf by (simp add: rows_fit_def)
  have use: "u \<in> set ?us \<longleftrightarrow> (\<exists>i<length ins. \<exists>j<arity (ins ! i). \<not> is_wrapper (ins ! i) \<and> \<not> is_packed_leaf (ins ! i) \<and>
      u = (param_types (fty (fused_name (ins ! i))) ! j, index_map d ! i ! j))" for u
  proof -
    have "u \<in> set ?us \<longleftrightarrow> (\<exists>i<length ins. u \<in> set (typed_uses fty (ins ! i, index_map d ! i)))"
      using len by (auto simp: set_zip)
    moreover have "u \<in> set (typed_uses fty (ins ! i, index_map d ! i)) \<longleftrightarrow> \<not> is_wrapper (ins ! i) \<and> \<not> is_packed_leaf (ins ! i) \<and>
        (\<exists>j<arity (ins ! i). u = (param_types (fty (fused_name (ins ! i))) ! j, index_map d ! i ! j))" for i
      by (auto simp: typed_uses_def)
    ultimately show ?thesis by blast
  qed
  have "\<forall>u\<in>set ?us. snd u < length (replicate (length (unique_slots d)) (None :: ir_type option))"
    using rf by (auto simp: use rows_fit_def simp del: set_concat)
  note t = typed_steps [OF ts [unfolded slot_types_uses] this]
  show "ts ! (index_map d ! i ! j) = Some (param_types (fty (fused_name (ins ! i))) ! j)"
    if "i < length ins" "\<not> is_wrapper (ins ! i)" "\<not> is_packed_leaf (ins ! i)" "j < arity (ins ! i)" for i j
    using t use [of "(param_types (fty (fused_name (ins ! i))) ! j, index_map d ! i ! j)"] that by fastforce
  show "\<exists>i<length ins. \<exists>j<arity (ins ! i). \<not> is_wrapper (ins ! i) \<and>
      \<not> is_packed_leaf (ins ! i) \<and> index_map d ! i ! j = k \<and> T = param_types (fty (fused_name (ins ! i))) ! j"
    if "k < length (unique_slots d)" "ts ! k = Some T" for k T
    using t use [of "(T, k)"] that by fastforce
qed

lemma word_of_le_bytes [simp]: "word_of_bytes (le_bytes w) = w"
  unfolding word_of_bytes_def
proof (rule read_word_le_bytes)
  show "read_bytes (\<lambda>a. le_bytes w ! unat a) 0 8 = le_bytes w"
  proof (rule nth_equalityI)
    fix i assume "i < length (read_bytes (\<lambda>a. le_bytes w ! unat a) 0 8)"
    then have "i < 8" by simp
    moreover from this have "unat (word_of_nat i :: 64 word) = i" by (intro unat_index) simp
    ultimately show "read_bytes (\<lambda>a. le_bytes w ! unat a) 0 8 ! i = le_bytes w ! i" by (simp add: read_bytes_nth)
  qed simp
qed

text \<open>The slot of an argument in the array of addresses.\<close>

lemma variadic_slot_bytes:
  assumes "k < length us" "us ! k \<noteq> 0" "ts ! k = Some T"
  shows "slot_bytes dl False offs ts (concat (map le_bytes us)) mem k = Inr (read_bytes mem (us ! k) (type_store_size dl T))"
proof -
  have "load_at (8 * k) 8 (concat (map le_bytes us)) = Inr (le_bytes (us ! k))"
    using assms(1) concat_le_bytes(1) [of us] concat_le_bytes(2) [of k us] by (simp add: load_at_def)
  then show ?thesis using assms(2,3) by (simp add: slot_bytes_def deref_def)
qed

text \<open>Inputs of the pointer form: leaf kernels with non-null slots, identified over the size of their type, and sub-wrappers.\<close>

definition variadic_input :: "data_layout \<Rightarrow> (string \<Rightarrow> fun_type) \<Rightarrow> fuse_input \<Rightarrow> bool" where
  "variadic_input dl fty inp \<longleftrightarrow> \<not> is_packed_leaf inp \<and> length (slots inp) = arity inp \<and>
     (is_wrapper inp \<or> 0 \<notin> set (slots inp) \<and>
        (\<forall>j<arity inp. case identity_width inp j of
           None \<Rightarrow> True | Some w \<Rightarrow> w = type_store_size dl (param_types (fty (fused_name inp)) ! j)))"

lemma variadic_leaf:
  assumes ins: "list_all (variadic_input dl fty) ins" and la: "layouts_agree ins" and d: "d = dedup_all mem ins"
    and i: "i < length ins" "\<not> is_wrapper (ins ! i)" "j < arity (ins ! i)"
  shows "index_map d ! i ! j < length (unique_slots d)" "unique_slots d ! (index_map d ! i ! j) \<noteq> 0"
    "read_bytes mem (unique_slots d ! (index_map d ! i ! j)) (type_store_size dl (param_types (fty (fused_name (ins ! i))) ! j)) =
     read_bytes mem (slots (ins ! i) ! j) (type_store_size dl (param_types (fty (fused_name (ins ! i))) ! j))"
proof -
  show "index_map d ! i ! j < length (unique_slots d)" unfolding d by (rule dedup_leaf(1) [OF i])
  obtain inp l where r: "inp \<in> set ins" "l < arity inp" "\<not> is_wrapper inp" "slot_key mem inp l = slot_key mem (ins ! i) j"
    "unique_slots d ! (index_map d ! i ! j) = slots inp ! l"
    using dedup_leaf(2) [OF i, of mem] unfolding d by blast
  have v: "variadic_input dl fty inp" "variadic_input dl fty (ins ! i)" using ins r(1) i(1) by (simp_all add: list_all_iff)
  then show "unique_slots d ! (index_map d ! i ! j) \<noteq> 0" using r(2,3,5) by (metis variadic_input_def nth_mem)
  have "ins ! i \<in> set ins" using i(1) by simp
  from same_key_same_value [OF la r(1) this r(4)]
  show "read_bytes mem (unique_slots d ! (index_map d ! i ! j)) (type_store_size dl (param_types (fty (fused_name (ins ! i))) ! j)) =
     read_bytes mem (slots (ins ! i) ! j) (type_store_size dl (param_types (fty (fused_name (ins ! i))) ! j))"
    using v(2) i(2,3) r(5) by (auto simp: variadic_input_def split: option.splits)
qed

text \<open>What an input is called with.\<close>

definition own_arguments :: "data_layout \<Rightarrow> (string \<Rightarrow> fun_type) \<Rightarrow> memory \<Rightarrow> fuse_input \<Rightarrow> kernel_actual \<Rightarrow> bool" where
  "own_arguments dl fty mem inp a \<longleftrightarrow>
     (if is_wrapper inp
      then \<exists>bs. a = Actual_slice bs \<and> take (8 * arity inp) bs = concat (map le_bytes (slots inp))
      else a = Actual_values (map (\<lambda>j. read_bytes mem (slots inp ! j) (type_store_size dl (param_types (fty (fused_name inp)) ! j)))
                 [0..<arity inp]))"

lemma take_drop_map_nth:
  "s + n \<le> length xs \<Longrightarrow> take n (drop s xs) = map (\<lambda>k. xs ! (s + k)) [0..<n]"
  by (rule nth_equalityI) auto

lemma le_bytes_slice:
  "take (8 * n) (drop (8 * s) (concat (map le_bytes ws))) = concat (map le_bytes (take n (drop s ws)))"
proof (induction ws arbitrary: s n)
  case (Cons w ws)
  show ?case
  proof (cases s)
    case 0
    then show ?thesis using Cons.IH [of _ 0] by (cases n) simp_all
  qed (use Cons.IH in simp)
qed simp

lemma variadic_call:
  assumes ins: "list_all (variadic_input dl fty) ins" and la: "layouts_agree ins" and d: "d = dedup_all mem ins"
    and ts: "slot_types fty ins d = Inr ts" and i: "i < length ins"
  shows "\<exists>a c. kernel_call_of d (ins ! i, index_map d ! i, wrapper_block_start d ! i) = Inr c \<and>
    call_actual dl False offs ts (concat (map le_bytes (unique_slots d))) mem r c = Inr a \<and> own_arguments dl fty mem (ins ! i) a"
proof -
  have v: "variadic_input dl fty (ins ! i)" using ins i by (simp add: list_all_length)
  have np: "\<not> is_packed_leaf (ins ! i)" and ls: "length (slots (ins ! i)) = arity (ins ! i)" using v by (simp_all add: variadic_input_def)
  have row: "row_ok mem d (ins ! i) (index_map d ! i) (wrapper_block_start d ! i)"
    using dedup_all_inv [of mem ins] i by (simp add: d dedup_inv_def)
  show ?thesis
  proof (cases "is_wrapper (ins ! i)")
    case True
    let ?s = "wrapper_block_start d ! i"
    have "?s + arity (ins ! i) \<le> length (unique_slots d)" "\<And>k. k < arity (ins ! i) \<Longrightarrow> unique_slots d ! (?s + k) = slots (ins ! i) ! k"
      using row True by (simp_all add: row_ok_def)
    then have "take (arity (ins ! i)) (drop ?s (unique_slots d)) = slots (ins ! i)"
      using ls by (simp add: take_drop_map_nth) (auto intro: nth_equalityI)
    then show ?thesis using True le_bytes_slice [of "arity (ins ! i)" ?s "unique_slots d"]
      by (intro exI [of _ "Actual_slice (drop (8 * ?s) (concat (map le_bytes (unique_slots d))))"] exI [of _ "Call_slice ?s"])
        (simp add: kernel_call_of_def call_actual_def own_arguments_def)
  next
    case False
    let ?row = "index_map d ! i" and ?T = "\<lambda>j. param_types (fty (fused_name (ins ! i))) ! j"
    let ?bs = "\<lambda>j. read_bytes mem (slots (ins ! i) ! j) (type_store_size dl (?T j))"
    have len: "length ?row = arity (ins ! i)" using row False by (simp add: row_ok_def)
    note leaf = variadic_leaf [OF ins la d i False]
    have "slot_bytes dl False offs ts (concat (map le_bytes (unique_slots d))) mem (?row ! j) = Inr (?bs j)" if "j < arity (ins ! i)" for j
      using variadic_slot_bytes [OF leaf(1) [OF that] leaf(2) [OF that] slot_types_ok(1) [OF rows_fit_dedup [of ins mem, folded d] ts i False np that]]
        leaf(3) [OF that] by simp
    then have "collect (slot_bytes dl False offs ts (concat (map le_bytes (unique_slots d))) mem) ?row = Inr (map ?bs [0..<arity (ins ! i)])"
      by (intro collect_Inr_nth) (simp_all add: len)
    then show ?thesis using False np
      by (intro exI [of _ "Actual_values (map ?bs [0..<arity (ins ! i)])"] exI [of _ "Call_values ?row"])
        (simp add: kernel_call_of_def call_actual_def own_arguments_def)
  qed
qed

text \<open>
  C10. The fused program of kernels that take their arguments one by one, and of programs fused before,
  does what the chain did. The block emitted for the wrapper, run on the array of the shared slots,
  runs to its end, and its effect is the effect of the inputs, each called once, in the order of the
  chain: a kernel with the values of its own parameters, a sub-wrapper with an array that starts with
  its own slots.
\<close>

theorem variadic_wrapper_runs_chain:
  assumes ins: "list_all (variadic_input (ee_layout E) fty) ins" and la: "layouts_agree ins" and d: "d = dedup_all mem ins"
    and ts: "slot_types fty ins d = Inr ts" and N: "8 * length (unique_slots d) < 2 ^ 64" and E: "host_env E"
  shows "\<exists>code as m. emit_host_wrapper False offs ts ins d = Inr code \<and>
    exec_block E code (entry_state (concat (map le_bytes (unique_slots d))) mem) = Inr m \<and> length as = length ins \<and>
    mc_mem m = run_calls E ins as [0..<length ins] mem \<and>
    (\<forall>i<length ins. own_arguments (ee_layout E) fty mem (ins ! i) (as ! i))"
proof -
  let ?args = "concat (map le_bytes (unique_slots d))"
  note rf = rows_fit_dedup [of ins mem, folded d]
  have choice: "\<exists>a c. kernel_call_of d (ins ! i, index_map d ! i, wrapper_block_start d ! i) = Inr c \<and>
      call_actual (ee_layout E) False offs ts ?args mem (fresh_frame E ins i) c = Inr a \<and> own_arguments (ee_layout E) fty mem (ins ! i) a"
    if "i < length ins" for i by (rule variadic_call [OF ins la d ts that])
  obtain g where g: "\<And>i. i < length ins \<Longrightarrow> \<exists>c. kernel_call_of d (ins ! i, index_map d ! i, wrapper_block_start d ! i) = Inr c \<and>
      call_actual (ee_layout E) False offs ts ?args mem (fresh_frame E ins i) c = Inr (g i) \<and> own_arguments (ee_layout E) fty mem (ins ! i) (g i)"
    using choice by metis
  let ?as = "map g [0..<length ins]"
  have calls: "\<exists>c. kernel_call_of d (ins ! i, index_map d ! i, wrapper_block_start d ! i) = Inr c \<and>
      call_actual (ee_layout E) False offs ts ?args mem (fresh_frame E ins i) c = Inr (?as ! i)" if "i < length ins" for i
    using g [OF that] that by auto
  have np: "\<not> list_ex is_packed_leaf ins" using ins by (auto simp: list_all_iff list_ex_iff variadic_input_def)
  have "entry_loads_ok (ee_layout E) (list_ex is_packed_leaf ins) False offs ts d ?args mem"
    unfolding entry_loads_ok_def
  proof (intro allI impI conjI)
    fix k assume k: "k < length (unique_slots d)"
    show "\<exists>bs. slot_bytes (ee_layout E) False offs ts ?args mem k = Inr bs" if typed: "ts ! k \<noteq> None"
    proof -
      obtain T where T: "ts ! k = Some T" using typed by blast
      obtain i j where ij: "i < length ins" "j < arity (ins ! i)" "\<not> is_wrapper (ins ! i)" "index_map d ! i ! j = k"
        using slot_types_ok(2) [OF rf ts k T] by blast
      show ?thesis using variadic_slot_bytes [OF k _ T] variadic_leaf(2) [OF ins la d ij(1,3,2)] ij(4) by blast
    qed
  qed (use np in blast)
  from emit_host_wrapper_ok [OF E rf N this calls] obtain code m where
    cm: "emit_host_wrapper False offs ts ins d = Inr code" "exec_block E code (entry_state ?args mem) = Inr m"
    "mc_mem m = run_calls E ins ?as [0..<length ins] mem" by blast
  have "\<forall>i<length ins. own_arguments (ee_layout E) fty mem (ins ! i) (?as ! i)"
  proof (intro allI impI)
    fix i assume i: "i < length ins"
    then show "own_arguments (ee_layout E) fty mem (ins ! i) (?as ! i)" using g [OF i] by auto
  qed
  then show ?thesis using cm by (intro exI [of _ code] exI [of _ ?as] exI [of _ m]) simp
qed

subsection \<open>Device kernels\<close>

text \<open>
  C20. The fused device kernel does what the kernels of the chain did: launched with one parameter per
  shared slot, it calls every kernel once, in the order of the chain, with the parameters its
  arguments are routed to.
\<close>

theorem device_wrapper_runs_chain:
  assumes d: "d = dedup_all mem ins" and leaf: "\<forall>inp\<in>set ins. \<not> is_wrapper inp"
    and E: "ee_params E = map R_bytes vals" "length vals = length (unique_slots d)"
  shows "\<exists>m. exec_block E (emit_device_wrapper ins d) (entry_state [] rt) = Inr m \<and>
    mc_mem m = run_calls E ins (map (\<lambda>i. Actual_values (map (\<lambda>j. vals ! (index_map d ! i ! j)) [0..<arity (ins ! i)])) [0..<length ins])
      [0..<length ins] rt"
proof -
  let ?act = "\<lambda>i. Actual_values (map (\<lambda>j. vals ! (index_map d ! i ! j)) [0..<arity (ins ! i)])"
  have "\<exists>m. reaches E (fold (emit_device_call d ins) [0..<n] []) (entry_state [] rt) m \<and>
      mc_mem m = run_calls E ins (map ?act [0..<length ins]) [0..<n] rt" if "n \<le> length ins" for n
    using that
  proof (induction n)
    case 0
    show ?case using reaches_entry by (intro exI [of _ "entry_state [] rt"]) (simp add: run_calls_def entry_state_def)
  next
    case (Suc n)
    then obtain m where m: "reaches E (fold (emit_device_call d ins) [0..<n] []) (entry_state [] rt) m"
      "mc_mem m = run_calls E ins (map ?act [0..<length ins]) [0..<n] rt" by auto
    have row: "index_map d ! n ! j < length vals" if "j < arity (ins ! n)" for j
      using dedup_leaf(1) [of n ins j mem] leaf Suc.prems that E(2) by (simp add: d)
    have "collect (value_of E m) (map (\<lambda>j. V_param (index_map d ! n ! j)) [0..<arity (ins ! n)]) =
        Inr (map R_bytes (map (\<lambda>j. vals ! (index_map d ! n ! j)) [0..<arity (ins ! n)]))"
      by (rule collect_Inr_nth) (simp_all add: value_of_def E(1) row)
    note reaches_call [OF m(1) this actual_of_bytes, of "fused_name (ins ! n)"]
    moreover have "run_calls E ins (map ?act [0..<length ins]) [0..<Suc n] rt =
        ee_kernel E (fused_name (ins ! n)) (?act n) (run_calls E ins (map ?act [0..<length ins]) [0..<n] rt)"
      using Suc.prems by (simp add: run_calls_def)
    ultimately show ?case using m(2)
      by (intro exI [of _ "push_val R_none (m\<lparr>mc_mem := ee_kernel E (fused_name (ins ! n)) (?act n) (mc_mem m)\<rparr>)"])
        (simp add: emit_device_call_def [of d ins n] insert_instr_def)
  qed
  from this [OF order.refl] obtain m where m: "reaches E (fold (emit_device_call d ins) [0..<length ins] []) (entry_state [] rt) m"
    "mc_mem m = run_calls E ins (map ?act [0..<length ins]) [0..<length ins] rt" by blast
  have "reaches E (emit_device_wrapper ins d) (entry_state [] rt) (push_val R_none m)"
    unfolding emit_device_wrapper_def insert_instr_def snd_conv by (rule reaches_insert [OF m(1)]) simp_all
  then show ?thesis using m(2) by (auto simp: reaches_def)
qed

subsection \<open>Programs compiled on their own\<close>

lemma emit_load_arg_ok:
  assumes E: "host_env E" and b: "reaches E b m0 m" and k: "8 * k < 2 ^ 64"
    and p: "load_at (8 * k) 8 (mc_args m) = Inr p" "deref (mc_mem m) (type_store_size (ee_layout E) T) p = Inr bs"
  shows "\<exists>v b' m'. emit_load_arg (V_param 0) k T b = (v, b') \<and> reaches E b' m0 m' \<and> grows m m' \<and> core m' = core m \<and>
    value_of E m' v = Inr (R_bytes bs)"
  using load_arg_ok [OF E b _ k, of "(replicate k None) @ [Some T]" T False "[]" bs] p
  by (simp add: load_arg_def slot_bytes_def nth_append)

text \<open>
  C21. Compiling a kernel on its own keeps its calling convention: the wrapper synthesised for an entry
  that takes its arguments one by one, run on an array of argument slots, calls the entry once, with
  the value in every slot, and touches nothing else.
\<close>

theorem jit_wrapper_calls_entry:
  assumes E: "host_env E" and ws: "length ws = length (param_types (ftype f))" "0 \<notin> set ws" "8 * length ws < 2 ^ 64"
  shows "\<exists>m. exec_block E (emit_jit_wrapper f) (entry_state (concat (map le_bytes ws)) mem) = Inr m \<and>
    mc_mem m = ee_kernel E (fname f)
      (Actual_values (map (\<lambda>k. read_bytes mem (ws ! k) (type_store_size (ee_layout E) (param_types (ftype f) ! k))) [0..<length ws])) mem"
proof -
  let ?Ts = "param_types (ftype f)" and ?m0 = "entry_state (concat (map le_bytes ws)) mem"
  let ?v = "\<lambda>k. read_bytes mem (ws ! k) (type_store_size (ee_layout E) (?Ts ! k))"
  have "\<exists>vs b m. fold (emit_jit_arg ?Ts) [0..<n] ([], []) = (vs, b) \<and> reaches E b ?m0 m \<and> core m = core ?m0 \<and> length vs = n \<and>
      (\<forall>k<n. value_of E m (vs ! k) = Inr (R_bytes (?v k)))" if "n \<le> length ws" for n
    using that
  proof (induction n)
    case 0
    then show ?case using reaches_entry by auto
  next
    case (Suc n)
    then obtain vs b m where IH: "fold (emit_jit_arg ?Ts) [0..<n] ([], []) = (vs, b)" "reaches E b ?m0 m" "core m = core ?m0"
      "length vs = n" "\<forall>k<n. value_of E m (vs ! k) = Inr (R_bytes (?v k))" by auto
    have n: "n < length ws" using Suc.prems by simp
    have m: "mc_args m = concat (map le_bytes ws)" "mc_mem m = mem" using IH(3) by (simp_all add: core_simps entry_state_def)
    have "load_at (8 * n) 8 (mc_args m) = Inr (le_bytes (ws ! n))"
      using n concat_le_bytes(1) [of ws] concat_le_bytes(2) [OF n] by (simp add: m load_at_def)
    moreover have "deref (mc_mem m) (type_store_size (ee_layout E) (?Ts ! n)) (le_bytes (ws ! n)) = Inr (?v n)"
      using ws(2) n by (auto simp: m deref_def in_set_conv_nth)
    moreover have "8 * n < 2 ^ 64" using n ws(3) by linarith
    ultimately obtain v b' m' where e: "emit_load_arg (V_param 0) n (?Ts ! n) b = (v, b')" "reaches E b' ?m0 m'" "grows m m'"
      "core m' = core m" "value_of E m' v = Inr (R_bytes (?v n))" using emit_load_arg_ok [OF E IH(2)] by blast
    have "value_of E m' ((vs @ [v]) ! k) = Inr (R_bytes (?v k))" if "k < Suc n" for k
      using that IH(4,5) e(5) grows_value [OF e(3)] by (cases "k = n") (auto simp: nth_append)
    moreover have "emit_jit_arg ?Ts n (vs, b) = (vs @ [v], b')" by (simp add: emit_jit_arg_def e(1))
    ultimately show ?case using IH(1,3,4) e(2,4) by (intro exI [of _ "vs @ [v]"] exI [of _ b'] exI [of _ m']) simp
  qed
  from this [OF order.refl] obtain vs b m where r: "fold (emit_jit_arg ?Ts) [0..<length ws] ([], []) = (vs, b)" "reaches E b ?m0 m"
    "core m = core ?m0" "length vs = length ws" "\<forall>k<length ws. value_of E m (vs ! k) = Inr (R_bytes (?v k))" by blast
  have "collect (value_of E m) vs = Inr (map R_bytes (map ?v [0..<length ws]))"
    using r(4,5) by (intro collect_Inr_nth) simp_all
  note c = reaches_call [OF r(2) this actual_of_bytes, of "fname f"]
  have "mc_mem m = mem" using r(3) by (simp add: core_simps entry_state_def)
  moreover have "reaches E (b @ [I_call (fname f) vs] @ [I_ret]) ?m0
      (push_val R_none (push_val R_none (m\<lparr>mc_mem := ee_kernel E (fname f) (Actual_values (map ?v [0..<length ws])) (mc_mem m)\<rparr>)))"
    using reaches_insert [OF c, of I_ret] by simp
  ultimately show ?thesis using r(1) ws(1) by (simp add: emit_jit_wrapper_def insert_instr_def reaches_def)
qed

end
