(* ===== verification/Wrapper_Witnesses.thy ===== *)
theory Wrapper_Witnesses
  imports Wrapper_Props Fuse_Witnesses
begin

text \<open>
  The properties of the emitted wrappers on concrete chains: the two packed bodies of Fuse\_Witnesses,
  and two kernels followed by a program that was fused before.
\<close>

text \<open>A kernel stores the first bytes it is given at a place of its own.\<close>

definition sample_effect :: "string \<Rightarrow> kernel_actual \<Rightarrow> memory \<Rightarrow> memory" where
  "sample_effect name a mem =
     (case a of
        Actual_packed bs \<Rightarrow> write_bytes 4096 (take 12 bs) mem
      | Actual_slice bs \<Rightarrow> write_bytes 8192 (take 8 bs) mem
      | Actual_values vs \<Rightarrow> (case vs of [] \<Rightarrow> mem | v # _ \<Rightarrow> write_bytes 12288 v mem))"

definition sample_env :: exec_env where
  "sample_env = \<lparr>ee_kernel = sample_effect, ee_layout = sample_layout, ee_fresh = (\<lambda>_ _. 0xAA), ee_params = [R_args 0]\<rparr>"

lemma sample_env_host: "host_env sample_env"
  by (simp add: host_env_def sample_env_def layout_64_def sample_layout_def)

theorem packed_wrapper_runs_chain_witness:
  "\<exists>code buf m. emit_host_wrapper True [0, 8] [None, None] sample_inputs (dedup_all sample_memory sample_inputs) = Inr code \<and>
     exec_block sample_env code (entry_state buf sample_memory) = Inr m"
proof -
  let ?d = "dedup_all sample_memory sample_inputs"
  have two: "length (unique_slots ?d) = 2" by code_simp
  then have ts: "slot_types fty sample_inputs ?d = Inr [None, None]" for fty
    using packed_slot_types [OF sample_inputs_packed] by (simp add: numeral_2_eq_2)
  have es: "[(8, 8), (4, 1)] = map (slot_extent True sample_layout ?d [None, None]) [0..<length (unique_slots ?d)]" by code_simp
  have lay: "packed_layout [(8, 8), (4, 1)] = ([0, 8], 12)" by code_simp
  have N: "8 * length (unique_slots ?d) < 2 ^ 64" unfolding two by simp
  from packed_wrapper_runs_chain [OF sample_inputs_packed refl ts es _ N lay sample_env_host, of sample_memory]
  show ?thesis by auto
qed

definition sample_leaf :: "string \<Rightarrow> uintptr \<Rightarrow> fuse_input" where
  "sample_leaf name a =
     \<lparr>fused_name = name, is_wrapper = False, is_packed_leaf = False, buf_size = 0, arity = 1, slots = [a], value_dedup = False,
      ptypes = [], in_params = None, in_param_count = 0, in_layout = sample_layout\<rparr>"

definition sample_chain :: "fuse_input list" where
  "sample_chain = [sample_leaf ''a'' 16, sample_leaf ''b'' 32,
     (sample_leaf ''w'' 48)\<lparr>is_wrapper := True, arity := 2, slots := [48, 64]\<rparr>]"

definition sample_types :: "string \<Rightarrow> fun_type" where
  "sample_types _ = \<lparr>return_type = Void_type, param_types = [Pointer_type]\<rparr>"

theorem variadic_wrapper_runs_chain_witness:
  "\<exists>code as m. emit_host_wrapper False [] [Some Pointer_type, Some Pointer_type, None, None] sample_chain
       (dedup_all sample_memory sample_chain) = Inr code \<and>
     exec_block sample_env code (entry_state (concat (map le_bytes [16, 32, 48, 64])) sample_memory) = Inr m \<and>
     mc_mem m = run_calls sample_env sample_chain as [0, 1, 2] sample_memory \<and> as ! 1 = Actual_values [read_bytes sample_memory 32 8]"
proof -
  let ?d = "dedup_all sample_memory sample_chain"
  have us: "unique_slots ?d = [16, 32, 48, 64]" by code_simp
  have ts: "slot_types sample_types sample_chain ?d = Inr [Some Pointer_type, Some Pointer_type, None, None]" by code_simp
  have ins: "list_all (variadic_input (ee_layout sample_env) sample_types) sample_chain"
    by (simp add: sample_chain_def sample_leaf_def variadic_input_def identity_width_def param_of_def)
  have la: "layouts_agree sample_chain" by (simp add: layouts_agree_def sample_chain_def sample_leaf_def)
  have N: "8 * length (unique_slots ?d) < 2 ^ 64" unfolding us by simp
  obtain code as m where r: "emit_host_wrapper False [] [Some Pointer_type, Some Pointer_type, None, None] sample_chain ?d = Inr code"
    "exec_block sample_env code (entry_state (concat (map le_bytes (unique_slots ?d))) sample_memory) = Inr m"
    "mc_mem m = run_calls sample_env sample_chain as [0..<length sample_chain] sample_memory"
    "\<forall>i<length sample_chain. own_arguments (ee_layout sample_env) sample_types sample_memory (sample_chain ! i) (as ! i)"
    using variadic_wrapper_runs_chain [OF ins la refl ts N sample_env_host] by blast
  have l: "[0..<length sample_chain] = [0, 1, 2]" by (simp add: sample_chain_def upt_rec)
  have "1 < length sample_chain" by (simp add: sample_chain_def)
  then have "own_arguments (ee_layout sample_env) sample_types sample_memory (sample_chain ! 1) (as ! 1)" using r(4) by blast
  then have "as ! 1 = Actual_values [read_bytes sample_memory 32 8]"
    by (simp add: own_arguments_def sample_chain_def sample_leaf_def sample_types_def sample_env_def sample_layout_def)
  then show ?thesis using r(1-3) unfolding us l by blast
qed

theorem device_wrapper_runs_chain_witness:
  "\<exists>m. exec_block (sample_env\<lparr>ee_params := [R_bytes [1], R_bytes [2]]\<rparr>)
       (emit_device_wrapper (take 2 sample_chain) (dedup_all sample_memory (take 2 sample_chain))) (entry_state [] sample_memory) = Inr m"
proof -
  have "length (unique_slots (dedup_all sample_memory (take 2 sample_chain))) = 2" by code_simp
  moreover have "\<forall>inp\<in>set (take 2 sample_chain). \<not> is_wrapper inp" by (simp add: sample_chain_def sample_leaf_def)
  ultimately show ?thesis
    using device_wrapper_runs_chain [OF refl, of "take 2 sample_chain" "sample_env\<lparr>ee_params := [R_bytes [1], R_bytes [2]]\<rparr>" "[[1], [2]]"
        sample_memory sample_memory]
    by (auto simp: numeral_2_eq_2)
qed

theorem jit_wrapper_calls_entry_witness:
  "\<exists>m. exec_block sample_env
       (emit_jit_wrapper \<lparr>fname = ''k'', is_declaration = False, flinkage = External_linkage, ftype = sample_types ''k'', fbody = 0\<rparr>)
       (entry_state (concat (map le_bytes [16])) sample_memory) = Inr m \<and>
     mc_mem m = sample_effect ''k'' (Actual_values [read_bytes sample_memory 16 8]) sample_memory"
  using jit_wrapper_calls_entry [OF sample_env_host, of "[16]"
      "\<lparr>fname = ''k'', is_declaration = False, flinkage = External_linkage, ftype = sample_types ''k'', fbody = 0\<rparr>" sample_memory]
  by (simp add: sample_types_def sample_env_def sample_layout_def)

end
