(* ===== verification/Prog_Inline.thy ===== *)
theory Prog_Inline
  imports Llvm_Module "HOL-Library.Multiset"
begin

text \<open>
  Steps 5 and 6b of \<^verbatim>\<open>command_graph_prog_fuse_llvmir\<close> (\<^verbatim>\<open>src/prog-fuse-llvmir.cc\<close>): the constituent
  functions are made inlinable and inlined into the wrapper; for a device the whole chain of
  helpers is inlined, until nothing changes. \<^verbatim>\<open>llvm::InlineFunction\<close> is a parameter: given the
  blocks of the caller and the identity of a call it gives the new blocks, or fails and leaves the
  caller as it is.
\<close>

subsection \<open>Functions as far as inlining sees them\<close>

text \<open>
  A call has an identity and the function it calls directly, if it does; other instructions may
  mention functions, too.
\<close>

datatype body_instr =
    Body_call nat "string option"
  | Body_scope_decl
  | Body_other "string list"

type_synonym ir_blocks = "body_instr list list"

record ir_definition =
  df_name :: string
  df_declaration :: bool
  df_intrinsic :: bool
  df_linkage :: linkage
  df_always_inline :: bool
  df_ptx_kernel :: bool
  df_blocks :: ir_blocks

type_synonym inliner = "ir_blocks \<Rightarrow> nat \<Rightarrow> ir_blocks option"

definition find_definition :: "ir_definition list \<Rightarrow> string \<Rightarrow> ir_definition option" where
  "find_definition m name = find (\<lambda>f. df_name f = name) m"

subsection \<open>Making the constituents inlinable\<close>

definition make_inlinable :: "bool \<Rightarrow> string \<Rightarrow> ir_definition list \<Rightarrow> ir_definition list result" where
  "make_inlinable device name m =
     (if find_definition m name = None then Inl Aborted
      else Inr (map (\<lambda>f. if df_name f = name
                         then f\<lparr>df_linkage := Local_linkage, df_always_inline := True,
                                df_ptx_kernel := (if device then False else df_ptx_kernel f)\<rparr>
                         else f) m))"

subsection \<open>Inlining the kernels\<close>

definition inline_call :: "inliner \<Rightarrow> nat \<Rightarrow> ir_blocks \<Rightarrow> ir_blocks result" where
  "inline_call inl c bs = (case inl bs c of None \<Rightarrow> Inl Aborted | Some bs' \<Rightarrow> Inr bs')"

definition inline_kernels :: "inliner \<Rightarrow> nat list \<Rightarrow> ir_blocks \<Rightarrow> ir_blocks result" where
  "inline_kernels inl calls bs = for_each (inline_call inl) calls bs"

definition drop_scope_decls :: "ir_blocks \<Rightarrow> ir_blocks" where
  "drop_scope_decls bs = map (filter (\<lambda>i. i \<noteq> Body_scope_decl)) bs"

text \<open>A function without uses, neither in the wrapper nor in another function, is erased.\<close>

fun mentions :: "string \<Rightarrow> body_instr \<Rightarrow> bool" where
  "mentions name (Body_call c callee) = (callee = Some name)"
| "mentions name (Body_other fs) = (name \<in> set fs)"
| "mentions name Body_scope_decl = False"

definition use_empty :: "ir_blocks \<Rightarrow> ir_definition list \<Rightarrow> string \<Rightarrow> bool" where
  "use_empty w m name \<longleftrightarrow> \<not> list_ex (mentions name) (concat w) \<and> \<not> list_ex (\<lambda>f. list_ex (mentions name) (concat (df_blocks f))) m"

definition drop_unused :: "ir_blocks \<Rightarrow> string \<Rightarrow> ir_definition list \<Rightarrow> ir_definition list" where
  "drop_unused w name m = (if use_empty w m name then filter (\<lambda>f. df_name f \<noteq> name) m else m)"

definition inline_host_wrapper ::
  "inliner \<Rightarrow> nat list \<Rightarrow> string list \<Rightarrow> ir_blocks \<Rightarrow> ir_definition list \<Rightarrow> (ir_blocks \<times> ir_definition list) result" where
  "inline_host_wrapper inl calls names w m =
     bind_result (inline_kernels inl calls w) (\<lambda>w1.
       let w2 = drop_scope_decls w1 in Inr (w2, fold (drop_unused w2) names m))"

subsection \<open>Inlining the helpers of a device kernel\<close>

definition inline_candidate :: "ir_definition list \<Rightarrow> string \<Rightarrow> body_instr \<Rightarrow> bool" where
  "inline_candidate m wrapper i =
     (case i of
        Body_call c (Some name) \<Rightarrow>
          (case find_definition m name of
             None \<Rightarrow> False
           | Some f \<Rightarrow> name \<noteq> wrapper \<and> \<not> df_declaration f \<and> \<not> df_intrinsic f)
      | _ \<Rightarrow> False)"

text \<open>One scan of the wrapper: the first candidate whose inlining succeeds.\<close>

fun try_inline :: "(body_instr \<Rightarrow> bool) \<Rightarrow> (nat \<Rightarrow> ir_blocks option) \<Rightarrow> body_instr list \<Rightarrow> ir_blocks option" where
  "try_inline cand inl [] = None"
| "try_inline cand inl (Body_call c callee # is) =
     (if cand (Body_call c callee)
      then case inl c of Some bs \<Rightarrow> Some bs | None \<Rightarrow> try_inline cand inl is
      else try_inline cand inl is)"
| "try_inline cand inl (_ # is) = try_inline cand inl is"

text \<open>The scan starts again after every success. The value is \<open>None\<close> when this never ends.\<close>

partial_function (option) inline_helpers :: "(body_instr \<Rightarrow> bool) \<Rightarrow> inliner \<Rightarrow> ir_blocks \<Rightarrow> ir_blocks option" where
  "inline_helpers cand inl bs =
     (case try_inline cand (inl bs) (concat bs) of
        None \<Rightarrow> Some bs
      | Some bs' \<Rightarrow> inline_helpers cand inl bs')"

definition inline_device_wrapper ::
  "inliner \<Rightarrow> nat list \<Rightarrow> string list \<Rightarrow> ir_blocks \<Rightarrow> ir_definition list \<Rightarrow> (ir_blocks \<times> ir_definition list) result" where
  "inline_device_wrapper inl calls names w m =
     bind_result (inline_kernels inl calls w) (\<lambda>w1.
     case inline_helpers (inline_candidate m ''__fused_wrapper'') inl w1 of
       None \<Rightarrow> Inl Diverges
     | Some w2 \<Rightarrow> Inr (w2, fold (drop_unused w2) names m))"

subsection \<open>What inlining does\<close>

text \<open>The functions called directly, with their multiplicity.\<close>

fun callees :: "body_instr list \<Rightarrow> string multiset" where
  "callees [] = {#}"
| "callees (Body_call c (Some name) # is) = add_mset name (callees is)"
| "callees (_ # is) = callees is"

text \<open>
  What LLVM documents of \<^verbatim>\<open>InlineFunction\<close>: on success a call of a defined function is replaced by
  the body of the function.
\<close>

definition inlines_bodies :: "ir_definition list \<Rightarrow> inliner \<Rightarrow> bool" where
  "inlines_bodies m inl \<longleftrightarrow>
     (\<forall>bs c bs'. inl bs c = Some bs' \<longrightarrow>
        (\<exists>name f. Body_call c (Some name) \<in> set (concat bs) \<and> find_definition m name = Some f \<and>
           callees (concat bs') + {#name#} = callees (concat bs) + callees (concat (df_blocks f))))"

text \<open>No recursion among the functions of the module: a rank decreases along direct calls.\<close>

definition no_recursion :: "ir_definition list \<Rightarrow> (string \<Rightarrow> nat) \<Rightarrow> bool" where
  "no_recursion m rank \<longleftrightarrow> (\<forall>f\<in>set m. \<forall>name\<in>#callees (concat (df_blocks f)). rank name < rank (df_name f))"

lemma callees_append [simp]: "callees (xs @ ys) = callees xs + callees ys"
  by (induction xs rule: callees.induct) simp_all

lemma in_callees: "name \<in># callees is \<longleftrightarrow> (\<exists>c. Body_call c (Some name) \<in> set is)"
  by (induction "is" rule: callees.induct) auto

lemma try_inline_Some:
  "try_inline cand inl is = Some bs \<Longrightarrow> \<exists>c callee. Body_call c callee \<in> set is \<and> cand (Body_call c callee) \<and> inl c = Some bs"
  by (induction cand inl "is" rule: try_inline.induct) (auto split: if_splits option.splits)

lemma try_inline_None:
  "try_inline cand inl is = None \<longleftrightarrow> (\<forall>c callee. Body_call c callee \<in> set is \<longrightarrow> cand (Body_call c callee) \<longrightarrow> inl c = None)"
  by (induction cand inl "is" rule: try_inline.induct) (auto split: option.splits)

lemma find_definition_name: "find_definition m name = Some f \<Longrightarrow> f \<in> set m \<and> df_name f = name"
  by (auto simp: find_definition_def find_Some_iff)

text \<open>Each success moves the multiset of ranks down.\<close>

definition call_ranks :: "(string \<Rightarrow> nat) \<Rightarrow> ir_blocks \<Rightarrow> nat multiset" where
  "call_ranks rank bs = image_mset rank (callees (concat bs))"

lemma inlining_decreases:
  assumes inl: "inlines_bodies m inl" and rank: "no_recursion m rank" and s: "inl bs c = Some bs'"
  shows "(call_ranks rank bs', call_ranks rank bs) \<in> mult less_than"
proof -
  obtain name f where f: "Body_call c (Some name) \<in> set (concat bs)" "find_definition m name = Some f"
    "callees (concat bs') + {#name#} = callees (concat bs) + callees (concat (df_blocks f))"
    using inl s unfolding inlines_bodies_def by blast
  have "name \<in># callees (concat bs)" using f(1) in_callees by blast
  then obtain R where R: "callees (concat bs) = R + {#name#}" by (metis insert_DiffM2)
  then have b': "callees (concat bs') = R + callees (concat (df_blocks f))" using f(3) by simp
  have "\<forall>k\<in>#image_mset rank (callees (concat (df_blocks f))). \<exists>j\<in>#{#rank name#}. (k, j) \<in> less_than"
    using rank find_definition_name [OF f(2)] by (auto simp: no_recursion_def)
  then have "(image_mset rank R + image_mset rank (callees (concat (df_blocks f))), image_mset rank R + {#rank name#}) \<in> mult less_than"
    by (intro one_step_implies_mult) simp_all
  then show ?thesis by (simp add: call_ranks_def R b')
qed

text \<open>
  C24. Inlining the helpers of a fused device kernel ends, and ends complete. When no function of the
  module is recursive, the scan that starts again after every inlined call returns, and in the result
  no direct call of a definition is left that could still be inlined.
\<close>

theorem inline_helpers_returns:
  assumes inl: "inlines_bodies m inl" and rank: "no_recursion m rank"
  shows "\<exists>bs'. inline_helpers (inline_candidate m wrapper) inl bs = Some bs' \<and>
    (\<forall>c callee. Body_call c callee \<in> set (concat bs') \<longrightarrow> inline_candidate m wrapper (Body_call c callee) \<longrightarrow> inl bs' c = None)"
proof (induction "call_ranks rank bs" arbitrary: bs rule: wf_induct_rule [OF wf_mult [OF wf_less_than]])
  case 1
  let ?cand = "inline_candidate m wrapper"
  show ?case
  proof (cases "try_inline ?cand (inl bs) (concat bs)")
    case None
    then have "inline_helpers ?cand inl bs = Some bs" by (subst inline_helpers.simps) simp
    moreover have "\<forall>c callee. Body_call c callee \<in> set (concat bs) \<longrightarrow> ?cand (Body_call c callee) \<longrightarrow> inl bs c = None"
      using None unfolding try_inline_None .
    ultimately show ?thesis by blast
  next
    case (Some bs1)
    then obtain c where "inl bs c = Some bs1" using try_inline_Some by blast
    from 1 [OF inlining_decreases [OF inl rank this]] Some show ?thesis by (subst inline_helpers.simps) simp
  qed
qed

text \<open>What the loop returns, if it returns.\<close>

lemma inline_helpers_result:
  assumes "inline_helpers cand inl bs = Some bs'" "I bs"
    and "\<And>bs c callee bs1. I bs \<Longrightarrow> Body_call c callee \<in> set (concat bs) \<Longrightarrow> cand (Body_call c callee) \<Longrightarrow> inl bs c = Some bs1 \<Longrightarrow> I bs1"
  shows "I bs' \<and> try_inline cand (inl bs') (concat bs') = None"
  using assms
proof (induction cand inl bs bs' rule: inline_helpers.raw_induct)
  case (1 loop cand inl bs y)
  show ?case
  proof (cases "try_inline cand (inl bs) (concat bs)")
    case None
    then have "y = bs" using 1(2) by simp
    then show ?thesis using None "1.prems"(2) by simp
  next
    case (Some bs1)
    obtain c callee where s: "Body_call c callee \<in> set (concat bs)" "cand (Body_call c callee)" "inl bs c = Some bs1"
      using try_inline_Some [OF Some] by blast
    have "I bs1" by (rule "1.prems"(3) [OF "1.prems"(2) s])
    moreover have "loop cand inl bs1 = Some y" using 1(2) Some by simp
    moreover have "inline_helpers cand inl bs1 = Some y"
      using "1.prems"(1) Some by (subst (asm) inline_helpers.simps) simp
    ultimately show ?thesis using 1(1) "1.prems"(3) by blast
  qed
qed (fact assms(1))

text \<open>
  C40. A recursive helper keeps a fusion of device kernels from ever ending. When a function of the
  module calls itself, the wrapper calls it and LLVM inlines what it is asked to, every round of the
  loop leaves such a call: the loop has no result.
\<close>

theorem recursive_helper_diverges:
  assumes inl: "inlines_bodies m inl" and h: "find_definition m h = Some f" "h \<in># callees (concat (df_blocks f))"
    "h \<noteq> wrapper" "\<not> df_declaration f" "\<not> df_intrinsic f"
    and succeeds: "\<And>bs c name. Body_call c (Some name) \<in> set (concat bs) \<Longrightarrow> inline_candidate m wrapper (Body_call c (Some name)) \<Longrightarrow>
      inl bs c \<noteq> None"
    and w: "h \<in># callees (concat bs)"
  shows "inline_helpers (inline_candidate m wrapper) inl bs = None"
proof (rule ccontr)
  assume "inline_helpers (inline_candidate m wrapper) inl bs \<noteq> None"
  then obtain bs' where r: "inline_helpers (inline_candidate m wrapper) inl bs = Some bs'" by blast
  have step: "h \<in># callees (concat bs1)" if old: "h \<in># callees (concat bs)" "inl bs c = Some bs1" for bs c bs1
  proof -
    obtain name g where g: "find_definition m name = Some g"
      "callees (concat bs1) + {#name#} = callees (concat bs) + callees (concat (df_blocks g))"
      using inl old(2) unfolding inlines_bodies_def by blast
    show ?thesis
    proof (cases "name = h")
      case True
      then have "g = f" using g(1) h(1) by simp
      moreover obtain R where "callees (concat bs) = R + {#h#}" using old(1) by (metis insert_DiffM2)
      ultimately have "callees (concat bs1) = R + callees (concat (df_blocks f))" using g(2) True by simp
      then show ?thesis using h(2) by simp
    next
      case False
      have "h \<in># callees (concat bs1) + {#name#}" unfolding g(2) using old(1) by simp
      then show ?thesis using False by simp
    qed
  qed
  have "h \<in># callees (concat bs') \<and> try_inline (inline_candidate m wrapper) (inl bs') (concat bs') = None"
    by (rule inline_helpers_result [OF r, where I = "\<lambda>bs. h \<in># callees (concat bs)"]) (use w step in blast)+
  then obtain c where c: "Body_call c (Some h) \<in> set (concat bs')" "try_inline (inline_candidate m wrapper) (inl bs') (concat bs') = None"
    using in_callees by blast
  have cand: "inline_candidate m wrapper (Body_call c (Some h))" using h by (simp add: inline_candidate_def)
  have "inl bs' c = None" using c(2) c(1) cand unfolding try_inline_None by blast
  then show False using succeeds [OF c(1) cand] by simp
qed

end
