(* ===== verification/Prog_Refuse.thy ===== *)
theory Prog_Refuse
  imports Prog_Result
begin

text \<open>
  The function the fused wrapper is (\<^verbatim>\<open>command_graph_prog_fuse_llvmir\<close>, step 6), and what a later
  fusion makes of a program that was fused: a chain that grows by one program at a time is fused by
  fusing its fused prefix again.
\<close>

subsection \<open>The function of the wrapper\<close>

text \<open>A slot without a type has the type of a pointer.\<close>

definition slot_param_types :: "ir_type option list \<Rightarrow> ir_type list" where
  "slot_param_types ts = map (\<lambda>t. case t of None \<Rightarrow> Pointer_type | Some T \<Rightarrow> T) ts"

definition host_wrapper_type :: "bool \<Rightarrow> fun_type" where
  "host_wrapper_type packed =
     \<lparr>return_type = Void_type,
      param_types = (if packed then [Pointer_type, Integer_type 64] else [Pointer_type])\<rparr>"

definition device_wrapper_type :: "ir_type option list \<Rightarrow> fun_type" where
  "device_wrapper_type ts = \<lparr>return_type = Void_type, param_types = slot_param_types ts\<rparr>"

definition wrapper_function :: "fun_type \<Rightarrow> ir_function" where
  "wrapper_function t =
     \<lparr>fname = ''__fused_wrapper'', is_declaration = False, flinkage = External_linkage, ftype = t, fbody = 0\<rparr>"

text \<open>The parameters marked \<^verbatim>\<open>noalias\<close>: the argument buffer, or every pointer of a device kernel.\<close>

definition noalias_params :: "bool \<Rightarrow> ir_type option list \<Rightarrow> nat list" where
  "noalias_params device ts =
     (if device then filter (\<lambda>k. slot_param_types ts ! k = Pointer_type) [0..<length ts] else [0])"

lemma host_wrapper_shape:
  "is_void_voidptr (host_wrapper_type packed) \<longleftrightarrow> \<not> packed"
  "is_void_ptr_size (host_wrapper_type packed) \<longleftrightarrow> packed"
  by (simp_all add: host_wrapper_type_def is_void_voidptr_def is_void_ptr_size_def)

lemma wrapper_function_simps [simp]:
  "fname (wrapper_function t) = ''__fused_wrapper''" "ftype (wrapper_function t) = t" "\<not> is_declaration (wrapper_function t)"
  by (simp_all add: wrapper_function_def)

subsection \<open>Fusing again\<close>

lemma to_unsigned_small: "n < 2 ^ 32 \<Longrightarrow> to_unsigned (word_of_nat n) = n"
  by (simp add: to_unsigned_def unsigned_ucast_eq unsigned_of_nat take_bit_nat_eq_self_iff)

lemma fuse_entry_of_variadic:
  assumes "symbol (llvmir (source p)) = None" "getFunction m ''__fused_wrapper'' = Some (wrapper_function (host_wrapper_type False))"
  shows "fuse_entry p m = Inr (wrapper_entry (wrapper_function (host_wrapper_type False)) p)"
  using assms by (simp add: fuse_entry_def task_spawn_entry_def task_spawn_function_def direct_entry_def host_wrapper_shape)

text \<open>
  C25. A fused program can be fused again. When a chain of host programs was fused to one that takes an
  array of argument slots, a later fusion recognises the result by its module, whatever its launch
  mode: as one sub-wrapper, whose slots are exactly the shared slots of the first fusion, in their
  order.
\<close>

theorem refusion_of_variadic:
  assumes run: "command_graph_prog_fuse_llvmir E ps dst st = Inr st'" and f: "build_fused E ps st = Inr f"
    and dst: "dst < length (fs_progs st)" and slots: "length (unique_slots (fu_dedup f)) < 2 ^ 32"
    and host: "\<not> fu_device f" "\<not> fu_packed f"
    and m: "getFunction m ''__fused_wrapper'' = Some (wrapper_function (host_wrapper_type False))"
  shows "\<exists>inp m'. fuse_input_of (fs_mem st') prefix dl (prog_at st' dst) m = Inr (inp, m') \<and> is_wrapper inp \<and>
    fused_name inp = prefix @ ''__fused_wrapper'' \<and> arity inp = length (unique_slots (fu_dedup f)) \<and>
    slots inp = unique_slots (fu_dedup f)"
proof -
  let ?p = "prog_at st' dst" and ?n = "length (unique_slots (fu_dedup f))"
  have n: "8 * ?n < 2 ^ 64" using slots by simp
  note fields = fused_program_fields [OF run f dst n refl]
  have args: "pargs ?p \<noteq> 0" "symbol (llvmir (source ?p)) = None" "n_args ?p = word_of_nat ?n"
    "snapshot_slots (fs_mem st') (pargs ?p) ?n = unique_slots (fu_dedup f)"
    using fields host by simp_all
  have "fuse_entry ?p m = Inr (wrapper_entry (wrapper_function (host_wrapper_type False)) ?p)"
    by (rule fuse_entry_of_variadic [OF args(2) m])
  then show ?thesis using args to_unsigned_small [OF slots] by (simp add: fuse_input_of_def wrapper_entry_def)
qed

lemma le_bytes_read_word: "le_bytes (read_word mem a) = read_bytes mem a 8"
proof (rule nth_equalityI)
  fix i assume "i < length (le_bytes (read_word mem a))"
  then have i: "i < 8" by simp
  have "bit (ucast (drop_bit (8 * i) (read_word mem a)) :: byte) j \<longleftrightarrow> bit (mem (a + word_of_nat i)) j" if j: "j < 8" for j
  proof -
    have "(8 * i + j) div 8 = i" "(8 * i + j) mod 8 = j" "8 * i + j < 64" using i j by simp_all
    then show ?thesis using i j by (simp add: bit_ucast_iff bit_drop_bit_eq read_word_def bit_read_word)
  qed
  then have "(ucast (drop_bit (8 * i) (read_word mem a)) :: byte) = mem (a + word_of_nat i)" by (intro bit_word_eqI) simp
  then show "le_bytes (read_word mem a) ! i = read_bytes mem a 8 ! i" using i by (simp add: le_bytes_def read_bytes_nth)
qed simp

text \<open>
  C39. A packed fused program cannot be fused again, and only one of the two launch modes says so. A
  program that spawns tasks is refused. One that is launched directly is taken for a kernel with two
  arguments in slots: the slots recorded for it are the first sixteen bytes of the packed values, read
  as two addresses.
\<close>

theorem refusion_of_packed:
  assumes run: "command_graph_prog_fuse_llvmir E ps dst st = Inr st'" and f: "build_fused E ps st = Inr f"
    and dst: "dst < length (fs_progs st)" and slots: "8 * length (unique_slots (fu_dedup f)) < 2 ^ 64"
    and host: "\<not> fu_device f" "fu_packed f" and p: "p = prog_at st' dst"
    and m: "getFunction m ''__fused_wrapper'' = Some (wrapper_function (host_wrapper_type True))"
      "find_kernel m = Some (wrapper_function (host_wrapper_type True))"
  shows "if prog_launch_mode p = CGIR_COMMAND_PROG_LAUNCH_MODE_TASK_SPAWN
    then fuse_input_of (fs_mem st') prefix dl p m = Inl Aborted
    else \<exists>inp m' bs. fuse_input_of (fs_mem st') prefix dl p m = Inr (inp, m') \<and> \<not> is_wrapper inp \<and> \<not> is_packed_leaf inp \<and>
      arity inp = 2 \<and> read_bytes (fs_mem st') (pargs p) (length bs) = bs \<and>
      args_bytes f (write_bytes (raw (llvmir (source p))) (fu_code f) (fs_mem st)) = Inr bs \<and>
      (16 \<le> length bs \<longrightarrow> le_bytes (slots inp ! 0) = take 8 bs \<and> le_bytes (slots inp ! 1) = take 8 (drop 8 bs))"
proof -
  note fields = fused_program_fields [OF run f dst slots p]
  have s: "symbol (llvmir (source p)) = None" "params (llvmir (source p)) = None" "pargs p \<noteq> 0" using fields host by simp_all
  obtain bs where bs: "args_bytes f (write_bytes (raw (llvmir (source p))) (fu_code f) (fs_mem st)) = Inr bs"
    "read_bytes (fs_mem st') (pargs p) (length bs) = bs" using fields host by auto
  show ?thesis
  proof (cases "prog_launch_mode p = CGIR_COMMAND_PROG_LAUNCH_MODE_TASK_SPAWN")
    case True
    then have "fuse_entry p m = Inl Aborted"
      using s m by (simp add: fuse_entry_def task_spawn_entry_def task_spawn_function_def host_wrapper_shape)
    then show ?thesis using True by (simp add: fuse_input_of_def)
  next
    case False
    then have e: "fuse_entry p m = Inr (leaf_entry (wrapper_function (host_wrapper_type True)) False)"
      using s m by (simp add: fuse_entry_def direct_entry_def host_wrapper_shape)
    have sl: "snapshot_slots (fs_mem st') (pargs p) 2 ! k = read_word (fs_mem st') (pargs p + 8 * word_of_nat k)" if "k < 2" for k
      using s(3) that by (simp add: snapshot_slots_def)
    have slice: "le_bytes (snapshot_slots (fs_mem st') (pargs p) 2 ! k) = take 8 (drop (8 * k) bs)" if "16 \<le> length bs" "k < 2" for k
      unfolding sl [OF that(2)] le_bytes_read_word
    proof (rule nth_equalityI)
      show "length (read_bytes (fs_mem st') (pargs p + 8 * word_of_nat k) 8) = length (take 8 (drop (8 * k) bs))" using that by auto
      fix i assume "i < length (read_bytes (fs_mem st') (pargs p + 8 * word_of_nat k) 8)"
      then have i: "i < 8" by simp
      have "8 * k + i < length bs" using i that by linarith
      then have "read_bytes (fs_mem st') (pargs p) (length bs) ! (8 * k + i) = fs_mem st' (pargs p + word_of_nat (8 * k + i))"
        by (rule read_bytes_nth)
      then have "bs ! (8 * k + i) = fs_mem st' (pargs p + word_of_nat (8 * k + i))" unfolding bs(2) .
      then show "read_bytes (fs_mem st') (pargs p + 8 * word_of_nat k) 8 ! i = take 8 (drop (8 * k) bs) ! i"
        using i that by (simp add: read_bytes_nth add.assoc)
    qed
    have "fuse_input_of (fs_mem st') prefix dl p m =
        Inr (\<lparr>fused_name = prefix @ ''__fused_wrapper'', is_wrapper = False, is_packed_leaf = False, buf_size = 0, arity = 2,
          slots = snapshot_slots (fs_mem st') (pargs p) 2, value_dedup = False, ptypes = [],
          in_params = None, in_param_count = param_count (llvmir (source p)), in_layout = dl\<rparr>, prefix_functions prefix m)"
      using e s by (simp add: fuse_input_of_def leaf_entry_def host_wrapper_type_def numeral_2_eq_2)
    then show ?thesis using False bs slice [of 0] slice [of 1] by auto
  qed
qed

end
