(* ===== verification/Prog_Debug.thy ===== *)
theory Prog_Debug
  imports Dispatch_Props Prog_Jit
begin

text \<open>
  What \<^verbatim>\<open>src/prog-fuse-llvmir.cc\<close> does around LLVM: the dump directories and files of a fusion and
  of a compilation, the target a fused module is stamped with, the order of the optimisation, and the
  emission of PTX with the device run-time library linked in.
\<close>

subsection \<open>Dump directories\<close>

definition dump_enabled :: "environment \<Rightarrow> string \<Rightarrow> bool" where
  "dump_enabled env var = (case getenv env var of None \<Rightarrow> False | Some s \<Rightarrow> s \<noteq> [] \<and> s \<noteq> ''0'')"

definition dump_base :: "environment \<Rightarrow> string \<Rightarrow> string" where
  "dump_base env var =
     (case getenv env var of
        Some (CHR ''/'' # cs) \<Rightarrow> CHR ''/'' # cs
      | _ \<Rightarrow> (case getenv env ''HOME'' of Some h \<Rightarrow> h | None \<Rightarrow> ''.'') @ ''/.cgir/tmp'')"

text \<open>
  \<^verbatim>\<open>sub\<close> is a buffer of 48 characters that \<^verbatim>\<open>snprintf\<close> truncates into. \<open>mk\<close> is
  \<^verbatim>\<open>create_directories\<close>; the counter is shared by all dumps of the process.
\<close>

definition dump_sub :: "string \<Rightarrow> 32 word \<Rightarrow> string" where
  "dump_sub prefix seq = take 47 (''/'' @ prefix @ ''-'' @ decimal (unat seq))"

definition dump_make_dir ::
  "environment \<Rightarrow> (string \<Rightarrow> bool) \<Rightarrow> string \<Rightarrow> string \<Rightarrow> 32 word \<Rightarrow> string \<times> 32 word" where
  "dump_make_dir env mk var prefix seq =
     (let dir = dump_base env var @ dump_sub prefix seq in (if mk dir then dir else [], seq + 1))"

text \<open>The files written.\<close>

definition dump_module :: "environment \<Rightarrow> string \<Rightarrow> string \<Rightarrow> string list" where
  "dump_module env dir name =
     (if dir = [] then [] else let path = dir @ ''/'' @ name in if fopen_ok env path then [path] else [])"

text \<open>The dumps of a fusion of \<open>n\<close> programs; \<open>tm\<close>: there is a target machine.\<close>

definition input_dump_name :: "nat \<Rightarrow> string" where
  "input_dump_name i = take 31 (''input-'' @ decimal i @ ''.ll'')"

definition input_dumps :: "environment \<Rightarrow> string \<Rightarrow> nat \<Rightarrow> string list" where
  "input_dumps env dir n = concat (map (\<lambda>i. dump_module env dir (input_dump_name i)) [0..<n])"

definition fuse_dumps :: "environment \<Rightarrow> (string \<Rightarrow> bool) \<Rightarrow> nat \<Rightarrow> 32 word \<Rightarrow> string list \<times> string \<times> 32 word" where
  "fuse_dumps env mk n seq =
     (let dump = dump_enabled env ''CGIR_PROG_FUSE_DUMP'';
          (dir, seq1) = (if dump then dump_make_dir env mk ''CGIR_PROG_FUSE_DUMP'' ''prog-fuse'' seq else ([], seq));
          inputs = (if dump then input_dumps env dir n else [])
      in (inputs, dir, seq1))"

text \<open>The file \<^verbatim>\<open>prefuse.ll\<close> is written inside \<open>optimize_module\<close>.\<close>

definition fused_dumps :: "environment \<Rightarrow> string \<Rightarrow> bool \<Rightarrow> string list" where
  "fused_dumps env dir tm =
     (let dump = dump_enabled env ''CGIR_PROG_FUSE_DUMP'';
          merged = (if dump then dump_module env dir ''merged.ll'' else []);
          prefuse = (if tm then dump_module env dir ''prefuse.ll'' else []);
          final = (if dump then dump_module env dir ''fused.ll'' else [])
      in merged @ prefuse @ final)"

text \<open>
  The dumps of a compilation: the input, and for the host the module handed to the compiler, for a
  device the PTX, written without a look at the directory.
\<close>

definition jit_dumps :: "environment \<Rightarrow> (string \<Rightarrow> bool) \<Rightarrow> 32 word \<Rightarrow> string list \<times> string \<times> 32 word" where
  "jit_dumps env mk seq =
     (let dump = dump_enabled env ''CGIR_JIT_DUMP'';
          (dir, seq1) = (if dump then dump_make_dir env mk ''CGIR_JIT_DUMP'' ''jit'' seq else ([], seq));
          input = (if dump then dump_module env dir ''input.ll'' else [])
      in (input, dir, seq1))"

definition jit_host_dump :: "environment \<Rightarrow> string \<Rightarrow> string list" where
  "jit_host_dump env dir = (if dump_enabled env ''CGIR_JIT_DUMP'' then dump_module env dir ''final.ll'' else [])"

definition jit_ptx_dump :: "environment \<Rightarrow> string \<Rightarrow> string list" where
  "jit_ptx_dump env dir =
     (if dump_enabled env ''CGIR_JIT_DUMP''
      then (let path = dir @ ''/final.ptx'' in if fopen_ok env path then [path] else [])
      else [])"

subsection \<open>The target and the optimisation of a fused module\<close>

definition stamp_triple :: "bool \<Rightarrow> string \<Rightarrow> string \<Rightarrow> string \<Rightarrow> string" where
  "stamp_triple device dev_triple current process =
     (if device then dev_triple else if current = [] then process else current)"

definition stamp_cpu :: "bool \<Rightarrow> string option \<Rightarrow> string \<Rightarrow> string" where
  "stamp_cpu device dev_arch host_cpu = (if device then (case dev_arch of Some a \<Rightarrow> a | None \<Rightarrow> []) else host_cpu)"

datatype llvm_pass = SROA | InstCombine | SimplifyCFG | LoopSimplify | LoopRotate | LoopFuse | Default_O3

text \<open>
  \<open>run\<close> runs function passes over a module, \<open>tag\<close> is \<^verbatim>\<open>tag_noalias_domains\<close> on the wrapper of the
  module, if there is one.
\<close>

definition optimize_module :: "(llvm_pass list \<Rightarrow> 'm \<Rightarrow> 'm) \<Rightarrow> ('m \<Rightarrow> bool) \<Rightarrow> ('m \<Rightarrow> 'm) \<Rightarrow> 'm \<Rightarrow> 'm" where
  "optimize_module run has_wrapper tag m =
     (let m1 = run [SROA, InstCombine, SimplifyCFG] m;
          m2 = (if has_wrapper m1 then tag m1 else m1);
          m3 = run [LoopSimplify, LoopRotate, LoopFuse] m2
      in run [Default_O3] m3)"

text \<open>
  The steps between the wrapper and the serialisation of the module: stamp, verify, optimise. A
  module without a target machine is neither given a layout nor optimised.
\<close>

record 'm backend =
  be_triple :: "'m \<Rightarrow> string"
  be_set_triple :: "string \<Rightarrow> 'm \<Rightarrow> 'm"
  be_process_triple :: string
  be_host_cpu :: string
  be_target :: "string \<Rightarrow> bool"
  be_machine :: "string \<Rightarrow> string \<Rightarrow> bool"
  be_default_layout :: "'m \<Rightarrow> bool"
  be_set_layout :: "string \<Rightarrow> string \<Rightarrow> 'm \<Rightarrow> 'm"
  be_verify :: "'m \<Rightarrow> bool"
  be_run :: "llvm_pass list \<Rightarrow> 'm \<Rightarrow> 'm"
  be_has_wrapper :: "'m \<Rightarrow> bool"
  be_tag :: "'m \<Rightarrow> 'm"

definition finish_module :: "'m backend \<Rightarrow> bool \<Rightarrow> string \<Rightarrow> string option \<Rightarrow> 'm \<Rightarrow> 'm result" where
  "finish_module B device dev_triple dev_arch m =
     (let m1 = be_set_triple B (stamp_triple device dev_triple (be_triple B m) (be_process_triple B)) m;
          triple = be_triple B m1;
          cpu = stamp_cpu device dev_arch (be_host_cpu B) in
      if \<not> be_target B triple then Inl Aborted
      else
        let tm = be_machine B triple cpu;
            m2 = (if tm \<and> (device \<or> be_default_layout B m1) then be_set_layout B triple cpu m1 else m1) in
        if \<not> be_verify B m2 then Inl Aborted
        else Inr (if tm then optimize_module (be_run B) (be_has_wrapper B) (be_tag B) m2 else m2))"

subsection \<open>PTX\<close>

text \<open>
  LLVM and the file system, as the emission of PTX uses them. The modules here carry no triple and no
  layout: stamping them before the link and before the code generation is part of \<open>pt_link\<close>
  and \<open>pt_codegen\<close>.
\<close>

record ptx_env =
  pt_target :: "string \<Rightarrow> bool"
  pt_machine :: "string \<Rightarrow> string \<Rightarrow> bool"
  pt_read :: "string \<Rightarrow> byte list option"
  pt_parse :: "byte list \<Rightarrow> ir_module option"
  pt_link :: "ir_module \<Rightarrow> ir_module \<Rightarrow> ir_module option"
  pt_codegen :: "string \<Rightarrow> string \<Rightarrow> ir_module \<Rightarrow> byte list option"

datatype ptx_error =
    Unknown_target string
  | No_target_machine
  | Unreadable_runtime string
  | Unparsable_runtime string
  | Unlinkable_runtime string
  | No_assembly

definition link_device_runtime :: "ptx_env \<Rightarrow> ir_module \<Rightarrow> string \<Rightarrow> ptx_error + ir_module" where
  "link_device_runtime P m bc_path =
     (case pt_read P bc_path of
        None \<Rightarrow> Inl (Unreadable_runtime bc_path)
      | Some buf \<Rightarrow>
          (case pt_parse P buf of
             None \<Rightarrow> Inl (Unparsable_runtime bc_path)
           | Some rtl \<Rightarrow>
               (case pt_link P m rtl of
                  None \<Rightarrow> Inl (Unlinkable_runtime bc_path)
                | Some m' \<Rightarrow> Inr m')))"

definition emit_device_ptx ::
  "ptx_env \<Rightarrow> environment \<Rightarrow> ir_module \<Rightarrow> string \<Rightarrow> string option \<Rightarrow> string option \<Rightarrow> ptx_error + byte list" where
  "emit_device_ptx P env m target march rtl =
     (let cpu = (case march of Some a \<Rightarrow> a | None \<Rightarrow> []) in
      if \<not> pt_target P target then Inl (Unknown_target target)
      else if \<not> pt_machine P target cpu then Inl No_target_machine
      else (case (case device_rtl (getenv env ''CGIR_DEVICE_RTL_BC'') rtl of
                    None \<Rightarrow> Inr m
                  | Some bc \<Rightarrow> link_device_runtime P m bc) of
              Inl e \<Rightarrow> Inl e
            | Inr m' \<Rightarrow> (case pt_codegen P target cpu m' of None \<Rightarrow> Inl No_assembly | Some ptx \<Rightarrow> Inr ptx)))"

subsection \<open>No two dumps in one directory\<close>

lemma split_at_last:
  assumes "xs @ c # as = ys @ c # bs" "c \<notin> set as" "c \<notin> set bs"
  shows "xs = ys \<and> as = bs"
proof -
  have "takeWhile (\<lambda>d. d \<noteq> c) (rev (zs @ c # cs)) = rev cs \<and> dropWhile (\<lambda>d. d \<noteq> c) (rev (zs @ c # cs)) = c # rev zs"
    if "c \<notin> set cs" for zs cs
    using that by (auto simp: takeWhile_append dropWhile_append)
  from this [OF assms(2), of xs] this [OF assms(3), of ys] show ?thesis using assms(1) by simp
qed

lemma decimal_length: "n < 10 ^ k \<Longrightarrow> 0 < k \<Longrightarrow> length (decimal n) \<le> k"
proof (induction n arbitrary: k rule: decimal.induct)
  case (1 n)
  show ?case
  proof (cases "n < 10")
    case True
    then show ?thesis using 1 by (subst decimal.simps) simp
  next
    case False
    obtain j where k: "k = Suc j" using 1(3) by (cases k) auto
    then have "0 < j" using 1(2) False by (cases j) auto
    moreover have "n div 10 < 10 ^ j" using 1(2) k by (simp add: less_mult_imp_div_less)
    ultimately have "length (decimal (n div 10)) \<le> j" by (rule 1(1) [OF False, rotated])
    then show ?thesis using False k by (subst decimal.simps) simp
  qed
qed

lemma decimal_chars: "c \<in> set (decimal n) \<Longrightarrow> (48 :: nat) \<le> of_char c"
proof (induction n rule: decimal.induct)
  case (1 n)
  then show ?case by (subst (asm) decimal.simps) (auto simp: digit_value split: if_splits)
qed

lemma decimal_no_slash: "CHR ''/'' \<notin> set (decimal n)"
  using decimal_chars [of "CHR ''/''" n] by auto

text \<open>The directory name is not truncated, and it is the last component of the path.\<close>

lemma dump_sub_name:
  assumes "prefix \<in> {''prog-fuse'', ''jit''}"
  shows "dump_sub prefix seq = ''/'' @ prefix @ ''-'' @ decimal (unat seq)"
proof -
  have "unat seq < 2 ^ LENGTH(32)" by (rule unsigned_less)
  then have "unat seq < 10 ^ 10" by simp
  then have "length (decimal (unat seq)) \<le> 10" using decimal_length by simp
  moreover have "length prefix \<le> 9" using assms by auto
  ultimately show ?thesis by (simp add: dump_sub_def)
qed

lemma dump_sub_inj:
  assumes "base @ dump_sub p s = base' @ dump_sub q t" "p \<in> {''prog-fuse'', ''jit''}" "q \<in> {''prog-fuse'', ''jit''}"
  shows "p = q \<and> s = t \<and> base = base'"
proof -
  have eq: "base @ CHR ''/'' # (p @ ''-'' @ decimal (unat s)) = base' @ CHR ''/'' # (q @ ''-'' @ decimal (unat t))"
    using assms by (simp add: dump_sub_name)
  have "CHR ''/'' \<notin> set (p @ ''-'' @ decimal (unat s))" "CHR ''/'' \<notin> set (q @ ''-'' @ decimal (unat t))"
    using assms(2,3) decimal_no_slash by auto
  from split_at_last [OF eq this] have "base = base'" "p @ CHR ''-'' # decimal (unat s) = q @ CHR ''-'' # decimal (unat t)"
    by simp_all
  moreover from split_at_last [OF this(2) decimal_no_dash decimal_no_dash] have "p = q" "decimal (unat s) = decimal (unat t)" by simp_all
  ultimately show ?thesis using decimal_inj [of "unat s" "unat t"] by (simp add: word_unat_eq_iff)
qed

text \<open>
  Dumps do not overwrite each other. Two fusions or compilations of a process get the same dump
  directory only when they are of the same kind and the shared counter has the same value, wherever
  the environment puts the dumps: no two as long as the 32-bit counter has not wrapped. Each call
  takes the next value.
\<close>

theorem dump_directories_distinct:
  assumes "dump_make_dir env mk var p s = (dir, s')" "dump_make_dir env' mk' var' q t = (dir, t')" "dir \<noteq> []"
    and "p \<in> {''prog-fuse'', ''jit''}" "q \<in> {''prog-fuse'', ''jit''}"
  shows "p = q \<and> s = t \<and> s' = s + 1"
proof -
  have "dump_base env var @ dump_sub p s = dump_base env' var' @ dump_sub q t" "s' = s + 1"
    using assms(1-3) by (auto simp: dump_make_dir_def Let_def split: if_splits)
  then show ?thesis using dump_sub_inj [OF _ assms(4,5)] by blast
qed

text \<open>
  A directory that cannot be created stops the dumps of a fusion and of a host compilation, as the
  comment says, but not the dump of a device compilation: it writes its PTX to the root directory.
\<close>

theorem failed_dump_directory:
  "(case fuse_dumps env (\<lambda>_. False) n s of (files, dir, s') \<Rightarrow> files = [] \<and> fused_dumps env dir tm = []) \<and>
   (case jit_dumps env (\<lambda>_. False) s of (files, dir, s') \<Rightarrow>
      files = [] \<and> jit_host_dump env dir = [] \<and>
      jit_ptx_dump env dir = (if dump_enabled env ''CGIR_JIT_DUMP'' \<and> fopen_ok env ''/final.ptx'' then [''/final.ptx''] else []))"
  by (simp add: fuse_dumps_def fused_dumps_def input_dumps_def jit_dumps_def jit_host_dump_def jit_ptx_dump_def dump_make_dir_def
      dump_module_def Let_def)

end
