(* ===== verification/Core_Witnesses.thy ===== *)
theory Core_Witnesses
  imports Fusion_Witnesses Prog_Inline Prog_Refuse Prog_Debug Batch_Props Batch_Example
begin

text \<open>
  The properties of the batch pass, of inlining, of fusing again and of the dump directories on
  concrete graphs, modules, programs and environments.
\<close>

subsection \<open>Batching\<close>

text \<open>The diamond of Batch\_Example.\<close>

theorem batch_pass_sound_witness:
  "\<exists>t lab rho. pass_batch id id 0 diamond_store = Inr t \<and> island_labelling 0 diamond_store {0, 1, 2, 3, 4, 5} lab \<and>
    batched diamond_store 0 {0, 1, 2, 3, 4, 5} lab t rho"
proof -
  have "graph_ok diamond_store 0 {0, 1, 2, 3, 4, 5} (2 + 198)" using diamond_ok by simp
  moreover have "reordering (id :: nat list \<Rightarrow> nat list)" "reordering (id :: island_mat list \<Rightarrow> island_mat list)"
    by (simp_all add: reordering_def)
  ultimately show ?thesis using batch_pass_sound [of diamond_store 0 "{0, 1, 2, 3, 4, 5}" 198 id id] by blast
qed

subsection \<open>Inlining\<close>

text \<open>An inliner: the first call with the given identity of a defined function becomes its body.\<close>

fun splice :: "ir_definition list \<Rightarrow> nat \<Rightarrow> body_instr list \<Rightarrow> body_instr list option" where
  "splice m c [] = None"
| "splice m c (Body_call d (Some name) # is) =
     (if d = c
      then (case find_definition m name of
              Some f \<Rightarrow> Some (concat (df_blocks f) @ is)
            | None \<Rightarrow> map_option ((#) (Body_call d (Some name))) (splice m c is))
      else map_option ((#) (Body_call d (Some name))) (splice m c is))"
| "splice m c (i # is) = map_option ((#) i) (splice m c is)"

definition sample_inliner :: "ir_definition list \<Rightarrow> inliner" where
  "sample_inliner m bs c = map_option (\<lambda>is. [is]) (splice m c (concat bs))"

lemma splice_body:
  "splice m c is = Some is' \<Longrightarrow> \<exists>name f. Body_call c (Some name) \<in> set is \<and> find_definition m name = Some f \<and>
     callees is' + {#name#} = callees is + callees (concat (df_blocks f))"
proof (induction m c "is" arbitrary: is' rule: splice.induct)
  case (2 m c d name "is")
  show ?case
  proof (cases "d = c \<and> find_definition m name \<noteq> None")
    case True
    then obtain f where f: "d = c" "find_definition m name = Some f" by auto
    then have "is' = concat (df_blocks f) @ is" using "2.prems" by simp
    then show ?thesis using f by (intro exI [of _ name] exI [of _ f]) simp
  next
    case False
    then obtain js where js: "splice m c is = Some js" "is' = Body_call d (Some name) # js"
      using "2.prems" by (auto split: if_splits option.splits)
    then have "\<exists>name f. Body_call c (Some name) \<in> set is \<and> find_definition m name = Some f \<and>
        callees js + {#name#} = callees is + callees (concat (df_blocks f))"
      using 2 False by (cases "d = c") auto
    then show ?thesis using js(2) by auto
  qed
qed auto

lemma sample_inliner_inlines: "inlines_bodies m (sample_inliner m)"
  by (auto simp: inlines_bodies_def sample_inliner_def dest!: splice_body)

lemma splice_succeeds: "Body_call c (Some name) \<in> set is \<Longrightarrow> find_definition m name = Some f \<Longrightarrow> splice m c is \<noteq> None"
  by (induction m c "is" rule: splice.induct) (auto split: option.splits)

definition device_definition :: "string \<Rightarrow> body_instr list \<Rightarrow> ir_definition" where
  "device_definition name is =
     \<lparr>df_name = name, df_declaration = False, df_intrinsic = False, df_linkage = Local_linkage, df_always_inline = False,
      df_ptx_kernel = False, df_blocks = [is]\<rparr>"

definition helper_chain :: "ir_definition list" where
  "helper_chain = [device_definition ''outlined'' [Body_call 1 (Some ''body'')], device_definition ''body'' [Body_other []]]"

theorem inline_helpers_returns_witness:
  "\<exists>bs. inline_helpers (inline_candidate helper_chain ''__fused_wrapper'') (sample_inliner helper_chain)
     [[Body_call 0 (Some ''outlined'')]] = Some bs"
proof -
  have "no_recursion helper_chain (\<lambda>name. if name = ''outlined'' then 1 else 0)"
    by (simp add: no_recursion_def helper_chain_def device_definition_def)
  from inline_helpers_returns [OF sample_inliner_inlines this] show ?thesis by blast
qed

definition recursive_helper :: "ir_definition list" where
  "recursive_helper = [device_definition ''h'' [Body_call 0 (Some ''h'')]]"

theorem recursive_helper_diverges_witness:
  "inline_helpers (inline_candidate recursive_helper ''__fused_wrapper'') (sample_inliner recursive_helper)
     [[Body_call 0 (Some ''h'')]] = None"
proof (rule recursive_helper_diverges [OF sample_inliner_inlines])
  show "find_definition recursive_helper ''h'' = Some (device_definition ''h'' [Body_call 0 (Some ''h'')])"
    by (simp add: find_definition_def recursive_helper_def device_definition_def)
  fix bs c name assume "Body_call c (Some name) \<in> set (concat bs)" "inline_candidate recursive_helper ''__fused_wrapper'' (Body_call c (Some name))"
  then show "sample_inliner recursive_helper bs c \<noteq> None"
    using splice_succeeds [of c name "concat bs" recursive_helper]
    by (auto simp: sample_inliner_def inline_candidate_def split: option.splits)
qed (simp_all add: device_definition_def)

subsection \<open>Fusing again\<close>

theorem refusion_of_variadic_witness:
  "\<exists>st' inp m'. command_graph_prog_fuse_llvmir sample_fuse_env [0, 1] 0 sample_fuse_state = Inr st' \<and>
     fuse_input_of (fs_mem st') ''__fz0_'' sample_layout (prog_at st' 0) [wrapper_function (host_wrapper_type False)] = Inr (inp, m') \<and>
     is_wrapper inp \<and> arity inp = 2"
proof -
  have dev: "case build_fused sample_fuse_env [0, 1] sample_fuse_state of Inl _ \<Rightarrow> True | Inr f \<Rightarrow> \<not> fu_device f" by code_simp
  obtain f where f: "build_fused sample_fuse_env [0, 1] sample_fuse_state = Inr f"
    "length (unique_slots (fu_dedup f)) = 2" "\<not> fu_packed f" using sample_build by blast
  obtain st' where st': "command_graph_prog_fuse_llvmir sample_fuse_env [0, 1] 0 sample_fuse_state = Inr st'"
    using sample_run by blast
  have "0 < length (fs_progs sample_fuse_state)" "length (unique_slots (fu_dedup f)) < 2 ^ 32" "\<not> fu_device f"
    "getFunction [wrapper_function (host_wrapper_type False)] ''__fused_wrapper'' = Some (wrapper_function (host_wrapper_type False))"
    using f(1,2) dev by (simp_all add: sample_fuse_state_def getFunction_def)
  from refusion_of_variadic [OF st' f(1) this(1,2,3) f(3) this(4)] show ?thesis using st' f(2) by fastforce
qed

text \<open>The same chain with \<^verbatim>\<open>CGIR_PROG_FUSE_PACKED\<close> set: two packed pointers of eight bytes.\<close>

theorem refusion_of_packed_witness:
  "\<exists>st' inp m'. command_graph_prog_fuse_llvmir (sample_fuse_env\<lparr>fe_packed := True\<rparr>) [0, 1] 0 sample_fuse_state = Inr st' \<and>
     fuse_input_of (fs_mem st') ''__fz0_'' sample_layout (prog_at st' 0) [wrapper_function (host_wrapper_type True)] = Inr (inp, m') \<and>
     \<not> is_wrapper inp \<and> arity inp = 2"
proof -
  let ?E = "sample_fuse_env\<lparr>fe_packed := True\<rparr>"
  have b: "case build_fused ?E [0, 1] sample_fuse_state of Inl _ \<Rightarrow> False
     | Inr f \<Rightarrow> \<not> fu_device f \<and> fu_packed f \<and> length (unique_slots (fu_dedup f)) = 2" by code_simp
  obtain f where f: "build_fused ?E [0, 1] sample_fuse_state = Inr f" "\<not> fu_device f" "fu_packed f" "length (unique_slots (fu_dedup f)) = 2"
    using b by (auto split: sum.splits)
  have r: "case command_graph_prog_fuse_llvmir ?E [0, 1] 0 sample_fuse_state of Inl _ \<Rightarrow> False
     | Inr st' \<Rightarrow> prog_launch_mode (prog_at st' 0) \<noteq> CGIR_COMMAND_PROG_LAUNCH_MODE_TASK_SPAWN" by code_simp
  obtain st' where st': "command_graph_prog_fuse_llvmir ?E [0, 1] 0 sample_fuse_state = Inr st'"
    "prog_launch_mode (prog_at st' 0) \<noteq> CGIR_COMMAND_PROG_LAUNCH_MODE_TASK_SPAWN" using r by (auto split: sum.splits)
  have m: "getFunction [wrapper_function (host_wrapper_type True)] ''__fused_wrapper'' = Some (wrapper_function (host_wrapper_type True))"
    "find_kernel [wrapper_function (host_wrapper_type True)] = Some (wrapper_function (host_wrapper_type True))"
    by (simp_all add: getFunction_def find_kernel_def host_wrapper_type_def)
  have "0 < length (fs_progs sample_fuse_state)" "8 * length (unique_slots (fu_dedup f)) < 2 ^ 64"
    using f(4) by (simp_all add: sample_fuse_state_def)
  from refusion_of_packed [OF st'(1) f(1) this f(2,3) refl m] st' show ?thesis by fastforce
qed

subsection \<open>Dumps\<close>

definition dump_environment :: environment where
  "dump_environment = \<lparr>getenv = (\<lambda>_. Some ''/d''), mkdir_ok = (\<lambda>_. True), fopen_ok = (\<lambda>_. True)\<rparr>"

theorem dump_directories_distinct_witness:
  "fst (dump_make_dir dump_environment (\<lambda>_. True) ''CGIR_JIT_DUMP'' ''jit'' 4) \<noteq>
   fst (dump_make_dir dump_environment (\<lambda>_. True) ''CGIR_PROG_FUSE_DUMP'' ''prog-fuse'' 5)" (is "fst ?a \<noteq> fst ?b")
proof
  assume same: "fst ?a = fst ?b"
  have "?a = (fst ?a, snd ?a)" by simp
  moreover have "?b = (fst ?a, snd ?b)" by (simp add: prod_eq_iff same)
  moreover have "fst ?a \<noteq> []" by (simp add: dump_make_dir_def dump_base_def dump_environment_def Let_def)
  ultimately have "''jit'' = ''prog-fuse'' \<and> (4 :: 32 word) = 5 \<and> snd ?a = 4 + 1"
    by (rule dump_directories_distinct) simp_all
  then show False by simp
qed

end
