(* ===== verification/Fuse_Example.thy ===== *)
theory Fuse_Example
  imports Prog_Packed
begin

text \<open>
  Two chains on which the compaction of arguments goes wrong: captured values of different types
  with the same bytes, and parameters of different sizes without a value.
\<close>

definition plain_layout :: data_layout where
  "plain_layout =
     \<lparr>type_store_size = (\<lambda>t. case t of Integer_type n \<Rightarrow> n div 8 | _ \<Rightarrow> 8),
      abi_type_align = (\<lambda>_. 8),
      type_address = (\<lambda>t. case t of Void_type \<Rightarrow> 1 | Pointer_type \<Rightarrow> 2 | Integer_type n \<Rightarrow> 256 + word_of_nat n
        | Other_type n \<Rightarrow> 4096 + word_of_nat n)\<rparr>"

text \<open>An unpacked task body with one captured value of eight bytes.\<close>

definition one_value :: "string \<Rightarrow> ir_type \<Rightarrow> uintptr \<Rightarrow> fuse_input" where
  "one_value name t a =
     \<lparr>fused_name = name, is_wrapper = False, is_packed_leaf = False, buf_size = 0, arity = 1,
      slots = [a], value_dedup = True, ptypes = [t],
      in_params = Some [\<lparr>pkind = CGIR_COMMAND_PROG_PARAM_COPY, psize = 8, poffset = 0\<rparr>],
      in_param_count = 1, in_layout = plain_layout\<rparr>"


text \<open>A packed body with one captured aggregate that has no value slot.\<close>

definition no_value :: "string \<Rightarrow> size_t \<Rightarrow> fuse_input" where
  "no_value name n =
     \<lparr>fused_name = name, is_wrapper = False, is_packed_leaf = True, buf_size = n, arity = 1,
      slots = [0], value_dedup = False, ptypes = [],
      in_params = Some [\<lparr>pkind = CGIR_COMMAND_PROG_PARAM_COPY, psize = n, poffset = 0\<rparr>],
      in_param_count = 1, in_layout = plain_layout\<rparr>"

definition no_value_chain :: "fuse_input list" where
  "no_value_chain = [no_value ''a'' 3, no_value ''b'' 24]"

text \<open>
  Slots without a value share one entry of the buffer, whatever the sizes of their parameters. In a
  chain of a 3-byte and a 24-byte aggregate the buffer has 3 bytes, and the code that rebuilds the
  arguments of the second body reads 24 from it.
\<close>

theorem null_slots_read_out_of_bounds:
  "packed_layout (map (slot_extent True plain_layout (dedup_all (\<lambda>_. 0) no_value_chain) [])
     [0..<length (unique_slots (dedup_all (\<lambda>_. 0) no_value_chain))]) = ([0], 3) \<and>
   kernel_call_of (dedup_all (\<lambda>_. 0) no_value_chain) (no_value_chain ! 1, index_map (dedup_all (\<lambda>_. 0) no_value_chain) ! 1, 0) =
     Inr (Call_packed [\<lparr>rc_dst = 0, rc_slot = 0, rc_bytes = 24\<rparr>] 24) \<and>
   run_recon (replicate 3 0) [0] [\<lparr>rc_dst = 0, rc_slot = 0, rc_bytes = 24\<rparr>] (replicate 24 0) = Inl Undefined_behaviour"
proof (intro conjI)
  show "packed_layout (map (slot_extent True plain_layout (dedup_all (\<lambda>_. 0) no_value_chain) [])
     [0..<length (unique_slots (dedup_all (\<lambda>_. 0) no_value_chain))]) = ([0], 3)" by code_simp
  show "kernel_call_of (dedup_all (\<lambda>_. 0) no_value_chain) (no_value_chain ! 1, index_map (dedup_all (\<lambda>_. 0) no_value_chain) ! 1, 0) =
     Inr (Call_packed [\<lparr>rc_dst = 0, rc_slot = 0, rc_bytes = 24\<rparr>] 24)" by code_simp
  show "run_recon (replicate 3 0) [0] [\<lparr>rc_dst = 0, rc_slot = 0, rc_bytes = 24\<rparr>] (replicate 24 0) = Inl Undefined_behaviour"
    by (simp add: run_recon_def recon_step_def load_at_def)
qed

end
