(* ===== verification/Spec2Isabelle.thy ===== *)
theory Spec2Isabelle
  imports Witnesses Fusion_Witnesses Wrapper_Witnesses Core_Witnesses Fuse_Example
begin

text \<open>
  \<^bold>\<open>The command-graph intermediate representation (CGIR) and its passes.\<close>

  The library represents an asynchronous program as a graph of nodes that carry commands (copies,
  programs, file transfers, batches) between one entry and one exit, and rewrites that graph with
  passes: \<^verbatim>\<open>command_graph_t::optimize\<close> runs them on the graph itself
  (\<^verbatim>\<open>src/src/pod/\<close>) or, when the environment asks for it, on an MLIR copy of the graph
  (\<^verbatim>\<open>src/src/mlir/\<close>) that is imported, rewritten and exported back. Fusing and compiling
  programs goes through one LLVM-IR core (\<^verbatim>\<open>src/src/prog-fuse-llvmir.cc\<close>).

  \<^bold>\<open>State.\<close> The C++ objects live in a \<open>store\<close> (theory Graph\_Store): lists of nodes, commands and
  graphs, with positions for pointers, so that several nodes may share a command and a batch may own
  a sub-graph whose nodes still carry the marks of the parent. Operations take and return the store;
  \<^verbatim>\<open>assert\<close>, \<^verbatim>\<open>abort\<close>, undefined accesses and exhausted fuel are the values of
  \<open>cg_error\<close> (theory Prelude). Machine integers are words: \<^verbatim>\<open>size_t\<close> and addresses of 64
  bits, device identifiers of 8, the walk mark of 8 (it wraps).

  \<^bold>\<open>Theories.\<close>
  \<^item> Prelude, Command\_Types, Commands: errors, list operations of \<^verbatim>\<open>std::list\<close>, the enumerations
    and string tables of \<^verbatim>\<open>command-type.hpp\<close> and \<^verbatim>\<open>command-graph-pass.hpp\<close>, the structs and the tagged
    union of \<^verbatim>\<open>command.hpp\<close> and \<^verbatim>\<open>prog-source.h\<close>.
  \<^item> Graph\_Store, Walk, Walk\_Core, Walk\_Facts, Walk\_Props: \<^verbatim>\<open>command-graph.hpp\<close>, nodes and edges, the
    well-formedness \<open>wf_graph\<close>, the recursive DFS and the queue of BFS with the mark of every node,
    \<^verbatim>\<open>create_node_iterators\<close>, \<^verbatim>\<open>coherence_checks\<close>.
  \<^item> Graph\_Ops, Graph\_Ops\_Props, Contract\_Props: \<^verbatim>\<open>remove\<close>, \<^verbatim>\<open>contract\<close> and their hints.
  \<^item> Pass\_Contract: the interface of a pass (a locale), which every structural pass interprets.
  \<^item> Reduce\_Node, Bitset2d, Reduce\_Edge, Copy\_Normalize, Copy\_Fuse, Sequence, Prog\_Fuse, Union\_Find,
    Batch, Batch\_Islands, Batch\_Example: one pass of \<^verbatim>\<open>src/src/pod/\<close> each.
    Batch\_Rewire, Batch\_Moves, Batch\_Props: what the batch pass does to the store, to the edges, and
    what it promises on every well-formed graph.
  \<^item> Mlir\_Graph, Mlir\_Passes, Mlir\_Batch, Mlir\_Optimize: the operations of the dialect, import and
    export, the passes over operations, the driver. Mlir\_Roundtrip, Mlir\_Reduce\_Edge and
    Mlir\_Equivalence relate them to the passes on the graph.
  \<^item> Chain, Prog\_Fuse\_Props: chains of nodes; prog-fuse and jit meet the contract of a pass.
    Segment, Sequence\_Props: a chain becomes a sub-graph, and what \<^verbatim>\<open>pass_sequence\<close> promises.
  \<^item> Dump, Dispatch, Dispatch\_Props, Pipeline\_Props: the Graphviz output, \<^verbatim>\<open>command_graph_optimize\<close> with its
    environment switches, dumps and statistics (\<^verbatim>\<open>cgir.cc\<close>), and sets of passes run through it,
    with sequence and batch last.
  \<^item> Llvm\_Module, Prog\_Args, Prog\_Core, Prog\_Packed: the data of \<^verbatim>\<open>prog-fuse-llvmir.cc\<close> and its
    core up to the wrapper: the entry of every input, the compaction of the argument slots, the
    layout, the filling and the rebuilding of packed buffers.
  \<^item> Prog\_Fusion, Prog\_Heap, Prog\_Result: the whole of \<^verbatim>\<open>command_graph_prog_fuse_llvmir\<close>, with
    a heap that says which block is live and which program owns it, and the values the fused program
    passes to each of its kernels.
  \<^item> Prog\_Jit, Prog\_Jit\_Props: \<^verbatim>\<open>command_graph_jit_llvmir\<close>, on the host and on a device.
  \<^item> Prog\_Wrapper, Wrapper\_Exec, Wrapper\_Props: the blocks \<^verbatim>\<open>prog-fuse-llvmir.cc\<close> emits for
    the host wrapper, the device wrapper and the wrapper of a compilation, instruction by instruction;
    what the instructions do; running the emitted block is running the chain.
  \<^item> Prog\_Inline: the constituents made inlinable, their calls inlined, dead functions erased, and the
    loop that inlines the helpers of a device kernel. Prog\_Device: the edits of the wrapper after it
    (kernel brackets, alias scopes).
  \<^item> Prog\_Refuse: the function type of the wrapper, and the fusion of a program that was fused.
  \<^item> Prog\_Debug: dump directories and files, target, verification and optimisation order of a fused
    module, PTX with the device run-time linked in.
  \<^item> Witnesses, Fuse\_Witnesses, Fusion\_Witnesses, Wrapper\_Witnesses, Core\_Witnesses, Fuse\_Example:
    concrete graphs, programs and memories to which the properties apply.

  \<^bold>\<open>What the lemmas show.\<close> Walks reach exactly the reachable nodes and post-order is topological;
  \<open>remove\<close> and \<open>contract\<close> keep well-formedness and the reachability of the remaining nodes;
  reduce-node and reduce-edge are total on well-formed graphs and compute what their names say (the
  latter the transitive reduction); prog-fuse absorbs chains into their heads, jit compiles each
  program once, and sequence moves exactly the nodes of its chains into well-formed sub-graphs; any set of these passes, run through the dispatcher, keeps a graph well formed and
  which of its nodes reaches which; the copy passes keep the bytes every command moves; the islands of
  the batch pass are a partition, and the pass contracts exactly the islands with two commands or more,
  into a well-formed graph if and only if that closes no cycle. The MLIR route is a round trip when it rewrites nothing, and equal to
  the direct route for reduce-edge and for the normalisation of a copy. The compaction of
  arguments gives every kernel its own values, and packing and rebuilding a buffer is a round trip.
  A fusion and a compilation keep the ownership of the heap: every buffer a live program points to is
  allocated once, belongs to one program and is released once; the fused program calls each kernel
  with the values it had before, and the block emitted for it, run on the buffer the fusion fills,
  calls every body once, in order, with its own arguments, in bounds. Of the edits of the wrapper, the brackets that remain are the first
  prologue and the last epilogue, and two accesses are told apart only when their bases differ.
  Inlining helpers ends when no function is recursive. A fused program that takes an array of slots
  can be fused again.
  Batch\_Example, Mlir\_Equivalence, Fuse\_Example, Prog\_Jit\_Props, Prog\_Inline, Prog\_Refuse and
  Prog\_Debug also hold the inputs on which the
  code does something else than its comments say: a batch that closes a cycle, equal bytes of
  two types, null slots, a fusion of programs already compiled, a recursive helper that is inlined for
  ever, a packed fused program taken for a kernel with two arguments, a dump written to the root
  directory.

  \<^bold>\<open>Bounds and fuel.\<close> Loops of the source that do not end on every input carry fuel and answer
  \<open>Diverges\<close> when it runs out: \<open>uf_find\<close> one more than the number of nodes (enough, by
  batch\_islands\_partition), the folding of twins one more than the number of islands (each round
  removes one), the chains of sequence and prog-fuse one more than the number of nodes of the store
  (enough, by prog\_fuse\_sound and sequence\_pass\_sound), Kahn's algorithm one more than the number of operations, the greedy grouping of the MLIR batch twice
  the number of operations, the work-list of the MLIR copy-fuse one more than the operations. The inlining of helpers is a partial
  function without fuel: \<open>None\<close> is a loop without end, and inline\_helpers\_returns says when it is not.

  \<^bold>\<open>Not modelled.\<close> LLVM and MLIR themselves (parsing, linking, the inlining of one call,
  optimising, code generation, the verifier and the pass manager): parameters of the definitions that
  call them. The emitted wrapper and the module it is put in are separate models: the function that
  \<^verbatim>\<open>command_graph_prog_fuse_llvmir\<close> returns has the serialised module as a parameter, and the
  wrapper's body is related to it by the slots, the layout and the buffer they share. The tables of external symbols and of parameters
  are values of the program, not blocks of its heap. The registration
  of the dialect, the clock, the version banner (\<^verbatim>\<open>cgir_info.cc\<close>), the C interface, tests and build
  files.
\<close>

end
